(* ===== verification/Prelude.thy ===== *)
theory Prelude
  imports Main "HOL-Library.Word"
begin

text \<open>
  The prelude of the development: names for the C integer types, the error numbers the code
  returns, the faults that C leaves undefined, little-endian reads of byte sequences, and the
  word lemmas that the component theories share.

  Machine integers are words of the C width (\<open>__u8\<close>, \<open>__u16\<close>, \<open>__u32\<close>, \<open>__u64\<close>). The target of
  all the modelled code (BPF, and x86-64 for the user-space half) is little-endian, so
  a load of a \<open>__u32\<close> from bytes takes the first byte as the least significant one.
\<close>

unbundle bit_operations_syntax

named_theorems c_defs \<open>definitions that unfold one C operation\<close>

type_synonym u8 = "8 word"
type_synonym u16 = "16 word"
type_synonym u32 = "32 word"
type_synonym u64 = "64 word"

text \<open>
  What C leaves undefined or what stops the program: reading an uninitialised variable, an
  access outside of an array, a null dereference, a signed overflow, a shift by too many bits, a failed assertion
  and a division by zero. Operations that can
  meet one return a sum with the fault on the left.
\<close>

datatype fault = Uninitialised | Out_of_bounds | Assertion_failed | Division_by_zero | Null_pointer
  | Signed_overflow | Bad_shift

type_synonym 'a checked = "fault + 'a"

text \<open>Error numbers of \<open>errno.h\<close>, returned negated by the code.\<close>

definition ENOMEM :: int where "ENOMEM = 12"
definition EINVAL :: int where "EINVAL = 22"
definition ENOSPC :: int where "ENOSPC = 28"

lemmas errno_defs = ENOMEM_def EINVAL_def ENOSPC_def

subsection \<open>Checked results\<close>

text \<open>Sequencing of operations that may fault, and a checked array read.\<close>

fun checked_bind :: "'a checked \<Rightarrow> ('a \<Rightarrow> 'b checked) \<Rightarrow> 'b checked" where
  "checked_bind (Inl e) f = Inl e"
| "checked_bind (Inr a) f = f a"

lemma checked_bind_Inr:
  "checked_bind m f = Inr b \<longleftrightarrow> (\<exists>a. m = Inr a \<and> f a = Inr b)"
  by (cases m) auto

lemma checked_bind_Inl:
  "checked_bind m f = Inl e \<longleftrightarrow> m = Inl e \<or> (\<exists>a. m = Inr a \<and> f a = Inl e)"
  by (cases m) auto

definition read_at :: "'a list \<Rightarrow> nat \<Rightarrow> 'a checked" where
  "read_at xs i = (if i < length xs then Inr (xs ! i) else Inl Out_of_bounds)"

definition write_at :: "'a list \<Rightarrow> nat \<Rightarrow> 'a \<Rightarrow> 'a list checked" where
  "write_at xs i x = (if i < length xs then Inr (xs[i := x]) else Inl Out_of_bounds)"

lemma read_at_in [simp]: "i < length xs \<Longrightarrow> read_at xs i = Inr (xs ! i)"
  by (simp add: read_at_def)

lemma write_at_in [simp]: "i < length xs \<Longrightarrow> write_at xs i x = Inr (xs[i := x])"
  by (simp add: write_at_def)

subsection \<open>Bounded loops of the kernel\<close>

text \<open>
  \<open>bpf_loop\<close> calls a callback at most \<open>n\<close> times; a callback that returns nonzero (here \<open>True\<close>) ends
  the loop. The second version is for callbacks that may fault.
\<close>

fun bpf_loop :: "nat \<Rightarrow> ('s \<Rightarrow> bool \<times> 's) \<Rightarrow> 's \<Rightarrow> 's" where
  "bpf_loop 0 f s = s"
| "bpf_loop (Suc n) f s = (case f s of (stop, s) \<Rightarrow> if stop then s else bpf_loop n f s)"

fun bpf_loop_checked :: "nat \<Rightarrow> ('s \<Rightarrow> (bool \<times> 's) checked) \<Rightarrow> 's \<Rightarrow> 's checked" where
  "bpf_loop_checked 0 f s = Inr s"
| "bpf_loop_checked (Suc n) f s =
     (case f s of
        Inl e \<Rightarrow> Inl e
      | Inr (stop, s) \<Rightarrow> if stop then Inr s else bpf_loop_checked n f s)"

subsection \<open>Little-endian loads and byte order\<close>

definition le16 :: "u8 \<Rightarrow> u8 \<Rightarrow> u16" where
  "le16 b0 b1 = ucast b0 OR push_bit 8 (ucast b1)"

definition le32 :: "u8 \<Rightarrow> u8 \<Rightarrow> u8 \<Rightarrow> u8 \<Rightarrow> u32" where
  "le32 b0 b1 b2 b3 =
     ucast b0 OR push_bit 8 (ucast b1) OR push_bit 16 (ucast b2) OR push_bit 24 (ucast b3)"

definition bswap16 :: "u16 \<Rightarrow> u16" where
  "bswap16 x = push_bit 8 x OR drop_bit 8 x"

definition bswap32 :: "u32 \<Rightarrow> u32" where
  "bswap32 x =
     le32 (ucast (drop_bit 24 x)) (ucast (drop_bit 16 x)) (ucast (drop_bit 8 x)) (ucast x)"

text \<open>On a little-endian machine the network-order conversions are byte swaps.\<close>

abbreviation ntohs :: "u16 \<Rightarrow> u16" where "ntohs \<equiv> bswap16"
abbreviation htons :: "u16 \<Rightarrow> u16" where "htons \<equiv> bswap16"
abbreviation ntohl :: "u32 \<Rightarrow> u32" where "ntohl \<equiv> bswap32"
abbreviation htonl :: "u32 \<Rightarrow> u32" where "htonl \<equiv> bswap32"

lemma word_eq_bitsI:
  fixes x y :: "'a::len word"
  assumes "\<And>n. n < LENGTH('a) \<Longrightarrow> bit x n = bit y n"
  shows "x = y"
  using assms by (rule bit_word_eqI)

lemmas bit_word_simps =
  bit_or_iff bit_and_iff bit_xor_iff bit_not_iff bit_push_bit_iff bit_drop_bit_eq bit_ucast_iff

lemma bswap16_bswap16 [simp]: "bswap16 (bswap16 x) = x"
  by (rule word_eq_bitsI) (auto simp: bswap16_def bit_simps)

lemma bit_le32:
  "bit (le32 b0 b1 b2 b3) n \<longleftrightarrow> n < 32 \<and>
     (if n < 8 then bit b0 n else if n < 16 then bit b1 (n - 8)
      else if n < 24 then bit b2 (n - 16) else bit b3 (n - 24))"
  by (auto simp: le32_def bit_simps dest: bit_imp_possible_bit)

lemma bit_le16:
  "bit (le16 b0 b1) n \<longleftrightarrow> n < 16 \<and> (if n < 8 then bit b0 n else bit b1 (n - 8))"
  by (auto simp: le16_def bit_simps dest: bit_imp_possible_bit)

lemma bswap32_bswap32 [simp]: "bswap32 (bswap32 x) = x"
  by (rule word_eq_bitsI) (auto simp: bswap32_def bit_le32 bit_simps)

text \<open>A load from bytes determines the bytes.\<close>

lemma le32_inj:
  "le32 a0 a1 a2 a3 = le32 b0 b1 b2 b3 \<longleftrightarrow> a0 = b0 \<and> a1 = b1 \<and> a2 = b2 \<and> a3 = b3"
proof
  assume eq: "le32 a0 a1 a2 a3 = le32 b0 b1 b2 b3"
  have bits: "bit (le32 a0 a1 a2 a3) n = bit (le32 b0 b1 b2 b3) n" for n
    by (simp only: eq)
  have "a0 = b0"
  proof (rule word_eq_bitsI)
    fix n :: nat assume "n < LENGTH(8)"
    with bits [of n] show "bit a0 n = bit b0 n" by (simp add: bit_le32)
  qed
  moreover have "a1 = b1"
  proof (rule word_eq_bitsI)
    fix n :: nat assume "n < LENGTH(8)"
    with bits [of "n + 8"] show "bit a1 n = bit b1 n" by (simp add: bit_le32)
  qed
  moreover have "a2 = b2"
  proof (rule word_eq_bitsI)
    fix n :: nat assume "n < LENGTH(8)"
    with bits [of "n + 16"] show "bit a2 n = bit b2 n" by (simp add: bit_le32)
  qed
  moreover have "a3 = b3"
  proof (rule word_eq_bitsI)
    fix n :: nat assume "n < LENGTH(8)"
    with bits [of "n + 24"] show "bit a3 n = bit b3 n" by (simp add: bit_le32)
  qed
  ultimately show "a0 = b0 \<and> a1 = b1 \<and> a2 = b2 \<and> a3 = b3" by simp
qed simp

subsection \<open>Widening and narrowing\<close>

lemma unat_bound: "unat (x :: 'a::len word) < 2 ^ LENGTH('a)"
  by (rule unsigned_less)

lemma unat_add_no_wrap:
  fixes x y :: "'a::len word"
  assumes "unat x + unat y < 2 ^ LENGTH('a)"
  shows "unat (x + y) = unat x + unat y"
  using assms by (simp add: unat_add_lem)

lemma unat_ucast_widen:
  fixes x :: "'a::len word"
  assumes "LENGTH('a) \<le> LENGTH('b::len)"
  shows "unat (ucast x :: 'b word) = unat x"
proof -
  have "unat x < 2 ^ LENGTH('a)" by (rule unsigned_less)
  also have "\<dots> \<le> 2 ^ LENGTH('b)" using assms by (rule power_increasing) simp
  finally show ?thesis by (simp only: unsigned_ucast_eq) (rule take_bit_nat_eq_self)
qed

lemma unat_ucast_narrow:
  fixes x :: "'a::len word"
  assumes "unat x < 2 ^ LENGTH('b::len)"
  shows "unat (ucast x :: 'b word) = unat x"
  using assms by (simp only: unsigned_ucast_eq) (rule take_bit_nat_eq_self)

lemma unat_of_nat_small:
  assumes "n < 2 ^ LENGTH('a::len)"
  shows "unat (of_nat n :: 'a word) = n"
  using assms by (simp add: unsigned_of_nat take_bit_nat_eq_self)

lemma two_power_less: "(2::nat) ^ k < 2 ^ n \<Longrightarrow> k < n"
  by simp

lemma unat_drop_bit: "unat (drop_bit n x) = unat x div 2 ^ n"
  by (simp only: unat_drop_bit_eq drop_bit_eq_div [of n "unat x"])

lemma unat_eqI: "unat x = unat y \<Longrightarrow> x = y"
  by (simp only: word_unat_eq_iff)

end
