(* ===== verification/Bytes.thy ===== *)
theory Bytes
  imports Prelude
begin

text \<open>
  Byte buffers: loads through a pointer and the copy and compare routines of
  \<open>libs/arena-ds/common/my_junk.h\<close>. A pointer to bytes is a function from the offset to the
  byte at that offset.
\<close>

type_synonym bytes = "nat \<Rightarrow> u8"

text \<open>Loads \<open>*(u32* )(k + i)\<close> and \<open>*(u64* )(k + i)\<close>.\<close>

definition load32 :: "bytes \<Rightarrow> nat \<Rightarrow> u32" where
  "load32 k i = le32 (k i) (k (i + 1)) (k (i + 2)) (k (i + 3))"

definition load64 :: "bytes \<Rightarrow> nat \<Rightarrow> u64" where
  "load64 k i = ucast (load32 k i) OR push_bit 32 (ucast (load32 k (i + 4)))"

text \<open>The bound that both loops of the file have, next to the size.\<close>

definition MEM_LIMIT :: nat where "MEM_LIMIT = 128"

function memcmp_loop :: "bytes \<Rightarrow> bytes \<Rightarrow> nat \<Rightarrow> nat \<Rightarrow> int" where
  "memcmp_loop a b sz i =
     (if i < sz \<and> i < MEM_LIMIT then (if a i \<noteq> b i then 1 else memcmp_loop a b sz (i + 1)) else 0)"
  by pat_completeness auto
termination by (relation "measure (\<lambda>(a, b, sz, i). sz - i)") auto

declare memcmp_loop.simps [simp del]

definition my_memcmp :: "bytes \<Rightarrow> bytes \<Rightarrow> u16 \<Rightarrow> int" where
  "my_memcmp a b sz =
     (if sz = 4 then (if load32 a 0 = load32 b 0 then 0 else 1)
      else if sz = 8 then (if load64 a 0 = load64 b 0 then 0 else 1)
      else memcmp_loop a b (unat sz) 0)"

function memcpy_loop :: "bytes \<Rightarrow> bytes \<Rightarrow> nat \<Rightarrow> nat \<Rightarrow> bytes" where
  "memcpy_loop dst src sz i =
     (if i < sz \<and> i < MEM_LIMIT then memcpy_loop (dst(i := src i)) src sz (i + 1) else dst)"
  by pat_completeness auto
termination by (relation "measure (\<lambda>(dst, src, sz, i). sz - i)") auto

declare memcpy_loop.simps [simp del]

definition my_memcpy :: "bytes \<Rightarrow> bytes \<Rightarrow> u16 \<Rightarrow> bytes" where
  "my_memcpy dst src sz = memcpy_loop dst src (unat sz) 0"

subsection \<open>What the routines compute\<close>

lemma load32_eq_iff: "load32 a i = load32 b i \<longleftrightarrow> (\<forall>j < 4. a (i + j) = b (i + j))"
  by (auto simp: load32_def le32_inj numeral_eq_Suc less_Suc_eq)

lemma load64_eq_iff: "load64 a i = load64 b i \<longleftrightarrow> (\<forall>j < 8. a (i + j) = b (i + j))"
proof -
  have inj: "load64 a i = load64 b i \<longleftrightarrow>
      load32 a i = load32 b i \<and> load32 a (i + 4) = load32 b (i + 4)"
  proof
    assume eq: "load64 a i = load64 b i"
    have bits: "bit (load64 a i) n = bit (load64 b i) n" for n by (simp only: eq)
    have "load32 a i = load32 b i"
    proof (rule word_eq_bitsI)
      fix n :: nat assume "n < LENGTH(32)"
      with bits [of n] show "bit (load32 a i) n = bit (load32 b i) n"
        by (simp add: load64_def bit_simps)
    qed
    moreover have "load32 a (i + 4) = load32 b (i + 4)"
    proof (rule word_eq_bitsI)
      fix n :: nat assume n: "n < LENGTH(32)"
      have "\<not> bit (w :: u32) (n + 32)" for w by (auto dest: bit_imp_le_length)
      with n bits [of "n + 32"] show "bit (load32 a (i + 4)) n = bit (load32 b (i + 4)) n"
        by (simp add: load64_def bit_simps)
    qed
    ultimately show "load32 a i = load32 b i \<and> load32 a (i + 4) = load32 b (i + 4)" by simp
  qed (simp add: load64_def)
  have "(\<forall>j < 8. a (i + j) = b (i + j)) \<longleftrightarrow>
      (\<forall>j < 4. a (i + j) = b (i + j)) \<and> (\<forall>j < 4. a (i + 4 + j) = b (i + 4 + j))"
  proof (intro iffI conjI allI impI)
    fix j :: nat assume *: "(\<forall>j < 4. a (i + j) = b (i + j)) \<and> (\<forall>j < 4. a (i + 4 + j) = b (i + 4 + j))"
      and j: "j < 8"
    show "a (i + j) = b (i + j)"
    proof (cases "j < 4")
      case False
      with * j have "a (i + 4 + (j - 4)) = b (i + 4 + (j - 4))" by (metis less_diff_conv2 not_less
        numeral_Bit0 )
      with False show ?thesis by simp
    qed (use * in simp)
  qed (auto simp: add.assoc)
  with inj show ?thesis by (simp add: load32_eq_iff)
qed

lemma memcmp_loop_zero:
  "memcmp_loop a b sz i = 0 \<longleftrightarrow> (\<forall>j. i \<le> j \<and> j < min sz MEM_LIMIT \<longrightarrow> a j = b j)"
proof (induction a b sz i rule: memcmp_loop.induct)
  case (1 a b sz i)
  show ?case
  proof (cases "i < sz \<and> i < MEM_LIMIT \<and> a i = b i")
    case True
    with 1 have "memcmp_loop a b sz i = 0 \<longleftrightarrow> (\<forall>j. Suc i \<le> j \<and> j < min sz MEM_LIMIT \<longrightarrow> a j = b j)"
      by (simp add: memcmp_loop.simps [of a b sz i])
    moreover have "(\<forall>j. i \<le> j \<and> j < min sz MEM_LIMIT \<longrightarrow> a j = b j) \<longleftrightarrow>
        a i = b i \<and> (\<forall>j. Suc i \<le> j \<and> j < min sz MEM_LIMIT \<longrightarrow> a j = b j)"
      using True by (metis Suc_le_eq le_eq_less_or_eq min_less_iff_conj)
    ultimately show ?thesis using True by simp
  next
    case False
    then show ?thesis by (subst memcmp_loop.simps) auto
  qed
qed

lemma my_memcmp_zero:
  "my_memcmp a b sz = 0 \<longleftrightarrow> (\<forall>j < min (unat sz) MEM_LIMIT. a j = b j)"
  by (auto simp: my_memcmp_def load32_eq_iff load64_eq_iff memcmp_loop_zero MEM_LIMIT_def)

lemma memcpy_loop_at:
  "memcpy_loop dst src sz i j = (if i \<le> j \<and> j < min sz MEM_LIMIT then src j else dst j)"
proof (induction dst src sz i rule: memcpy_loop.induct)
  case (1 dst src sz i)
  show ?case
  proof (cases "i < sz \<and> i < MEM_LIMIT")
    case True
    then have "memcpy_loop dst src sz i j = memcpy_loop (dst(i := src i)) src sz (i + 1) j"
      by (subst memcpy_loop.simps) simp
    also have "\<dots> = (if i + 1 \<le> j \<and> j < min sz MEM_LIMIT then src j else (dst(i := src i)) j)"
      by (rule 1 [OF True])
    finally show ?thesis using True by auto
  next
    case False
    then show ?thesis by (subst memcpy_loop.simps) auto
  qed
qed

lemma my_memcpy_at [simp]:
  "my_memcpy dst src sz j = (if j < min (unat sz) MEM_LIMIT then src j else dst j)"
  by (simp add: my_memcpy_def memcpy_loop_at)

text \<open>A copied object compares equal to its source.\<close>

lemma my_memcmp_my_memcpy: "my_memcmp (my_memcpy dst src sz) src sz = 0"
  by (simp add: my_memcmp_zero)

end
