(* ===== verification/Jhash.thy ===== *)
theory Jhash
  imports Bytes
begin

text \<open>
  The hash of the arena hash table: \<open>libs/arena-ds/hash/jhash.h\<close>, Bob Jenkins' lookup3 as the
  Linux kernel has it. All arithmetic is on \<open>u32\<close> and wraps. The key is a pointer to bytes:
  a function from the offset to the byte, so that \<open>k += 12\<close> is a shift of that function.
\<close>

definition rol32 :: "u32 \<Rightarrow> u32 \<Rightarrow> u32" where
  "rol32 w shift = push_bit (unat shift) w OR drop_bit (unat ((- shift) AND 31)) w"

definition jhash_mix :: "u32 \<times> u32 \<times> u32 \<Rightarrow> u32 \<times> u32 \<times> u32" where
  "jhash_mix = (\<lambda>(a, b, c).
     let a = a - c; a = a XOR rol32 c 4;  c = c + b;
         b = b - a; b = b XOR rol32 a 6;  a = a + c;
         c = c - b; c = c XOR rol32 b 8;  b = b + a;
         a = a - c; a = a XOR rol32 c 16; c = c + b;
         b = b - a; b = b XOR rol32 a 19; a = a + c;
         c = c - b; c = c XOR rol32 b 4;  b = b + a
     in (a, b, c))"

definition jhash_final :: "u32 \<times> u32 \<times> u32 \<Rightarrow> u32 \<times> u32 \<times> u32" where
  "jhash_final = (\<lambda>(a, b, c).
     let c = c XOR b; c = c - rol32 b 14;
         a = a XOR c; a = a - rol32 c 11;
         b = b XOR a; b = b - rol32 a 25;
         c = c XOR b; c = c - rol32 b 16;
         a = a XOR c; a = a - rol32 c 4;
         b = b XOR a; b = b - rol32 a 14;
         c = c XOR b; c = c - rol32 b 24
     in (a, b, c))"

definition JHASH_INITVAL :: u32 where "JHASH_INITVAL = 0xdeadbeef"

text \<open>The \<open>while (length > 12)\<close> loop: twelve bytes per turn.\<close>

function jhash_loop ::
  "(nat \<Rightarrow> u8) \<Rightarrow> u32 \<Rightarrow> u32 \<times> u32 \<times> u32 \<Rightarrow> (nat \<Rightarrow> u8) \<times> u32 \<times> (u32 \<times> u32 \<times> u32)" where
  "jhash_loop k len (a, b, c) =
     (if 12 < len
      then jhash_loop (\<lambda>i. k (i + 12)) (len - 12)
             (jhash_mix (a + load32 k 0, b + load32 k 4, c + load32 k 8))
      else (k, len, (a, b, c)))"
  by pat_completeness auto
termination
proof (relation "measure (\<lambda>(k, len, abc). unat len)")
  fix k :: "nat \<Rightarrow> u8" and len a b c :: u32
  assume "12 < len"
  then have "unat (len - 12) = unat len - unat (12 :: u32)" and "unat (12 :: u32) < unat len"
    by (simp_all add: unat_sub order_less_imp_le word_less_nat_alt)
  then have "unat (len - 12) < unat len" by simp
  then show "((\<lambda>i. k (i + 12), len - 12,
      jhash_mix (a + load32 k 0, b + load32 k 4, c + load32 k 8)), (k, len, (a, b, c)))
      \<in> measure (\<lambda>(k, len, abc). unat len)" by simp
qed simp

declare jhash_loop.simps [simp del]

text \<open>
  The \<open>switch (length)\<close> with its fall-through: entering at case \<open>n\<close> runs the additions of
  every case from \<open>n\<close> down to 1, then the final mix; case 0 does nothing.
\<close>

definition jhash_tail :: "(nat \<Rightarrow> u8) \<Rightarrow> u32 \<Rightarrow> u32 \<times> u32 \<times> u32 \<Rightarrow> u32" where
  "jhash_tail k len = (\<lambda>(a, b, c).
     if len = 0 then c
     else
       let byte = (\<lambda>i s. if of_nat i < len then push_bit s (ucast (k i)) else (0 :: u32));
           c = c + byte 11 24 + byte 10 16 + byte 9 8 + byte 8 0;
           b = b + byte 7 24 + byte 6 16 + byte 5 8 + byte 4 0;
           a = a + byte 3 24 + byte 2 16 + byte 1 8 + byte 0 0
       in snd (snd (jhash_final (a, b, c))))"

definition jhash :: "(nat \<Rightarrow> u8) \<Rightarrow> u32 \<Rightarrow> u32 \<Rightarrow> u32" where
  "jhash key len initval =
     (let s = JHASH_INITVAL + len + initval;
          (k, len', abc) = jhash_loop key len (s, s, s)
      in jhash_tail k len' abc)"

definition jhash_nwords :: "u32 \<Rightarrow> u32 \<Rightarrow> u32 \<Rightarrow> u32 \<Rightarrow> u32" where
  "jhash_nwords a b c initval =
     snd (snd (jhash_final (a + initval, b + initval, c + initval)))"

definition jhash_2words :: "u32 \<Rightarrow> u32 \<Rightarrow> u32 \<Rightarrow> u32" where
  "jhash_2words a b initval = jhash_nwords a b 0 (initval + JHASH_INITVAL + push_bit 2 2)"

definition jhash_1word :: "u32 \<Rightarrow> u32 \<Rightarrow> u32" where
  "jhash_1word a initval = jhash_nwords a 0 0 (initval + JHASH_INITVAL + push_bit 2 1)"

subsection \<open>The rotation\<close>

lemma rol32_rotl:
  assumes "unat s < 32"
  shows "rol32 w s = word_rotl (unat s) w"
proof (rule word_eq_bitsI)
  fix n :: nat assume n: "n < LENGTH(32)"
  have m: "unat ((- s) AND 31) = (32 - unat s) mod 32"
  proof -
    have "(- s) AND 31 = take_bit 5 (- s)"
      by (simp add: take_bit_eq_mask mask_eq_exp_minus_1)
    also have "unat (take_bit 5 (- s)) = unat (- s) mod 32"
      by (simp only: unsigned_take_bit_eq) (simp add: take_bit_eq_mod)
    also have "unat (- s) = (2 ^ 32 - unat s) mod 2 ^ 32"
    proof -
      have "unat s \<le> 2 ^ 32" using assms by simp
      then have "- s = of_nat (2 ^ 32 - unat s)" by (simp add: of_nat_diff)
      then show ?thesis by (simp only: unsigned_of_nat) (simp add: take_bit_eq_mod)
    qed
    also have "(2 ^ 32 - unat s) mod 2 ^ 32 mod 32 = (2 ^ 32 - unat s) mod 32"
      by (simp add: mod_mod_cancel)
    also have "\<dots> = (32 - unat s) mod 32"
    proof -
      have "2 ^ 32 - unat s = (32 - unat s) + 32 * (2 ^ 27 - 1)" using assms by simp
      then show ?thesis by (metis mod_mult_self2)
    qed
    finally show ?thesis .
  qed
  have n32: "n < 32" using n by simp
  have r: "(n + (32 - unat s)) mod 32 = (if unat s \<le> n then n - unat s else n + (32 - unat s))"
    using n32 assms by (simp add: mod_if)
  have l: "bit (rol32 w s) n \<longleftrightarrow> (if unat s \<le> n then bit w (n - unat s) else bit w (n + (32 - unat s)))"
    if "unat s \<noteq> 0"
    using n32 assms that
    by (auto simp: rol32_def m bit_push_bit_iff bit_drop_bit_eq bit_or_iff add.commute
        dest: bit_imp_possible_bit)
  show "bit (rol32 w s) n = bit (word_rotl (unat s) w) n"
  proof (cases "unat s = 0")
    case True
    then show ?thesis using n32 by (simp add: rol32_def m bit_word_rotl_iff)
  next
    case False
    have "bit (word_rotl (unat s) w) n \<longleftrightarrow> n < 32 \<and> bit w ((n + (32 - unat s)) mod 32)"
      using assms by (simp only: bit_word_rotl_iff) simp
    with l [OF False] n32 r show ?thesis by simp
  qed
qed

subsection \<open>Bytes and words\<close>

lemma load32_plus:
  "load32 k i = push_bit 24 (ucast (k (i + 3))) + push_bit 16 (ucast (k (i + 2)))
     + push_bit 8 (ucast (k (i + 1))) + ucast (k i)"
proof -
  let ?b0 = "ucast (k i) :: u32" and ?b1 = "push_bit 8 (ucast (k (i + 1))) :: u32"
    and ?b2 = "push_bit 16 (ucast (k (i + 2))) :: u32"
    and ?b3 = "push_bit 24 (ucast (k (i + 3))) :: u32"
  have "?b3 + ?b2 = ?b3 OR ?b2" and "(?b3 OR ?b2) + ?b1 = (?b3 OR ?b2) OR ?b1"
    and "((?b3 OR ?b2) OR ?b1) + ?b0 = ((?b3 OR ?b2) OR ?b1) OR ?b0"
    by (rule disjunctive_add_eq_or, rule word_eq_bitsI,
        auto simp: bit_simps dest: bit_imp_possible_bit)+
  then show ?thesis by (simp add: load32_def le32_def or.commute or.left_commute or.assoc)
qed

lemma jhash_loop_done: "len \<le> 12 \<Longrightarrow> jhash_loop k len abc = (k, len, abc)"
  by (cases abc) (simp add: jhash_loop.simps [of k len] leD)

text \<open>
  The two special cases that \<open>htab_hash\<close> switches to for keys of 4 and 8 bytes give the
  hash that the general routine would give.
\<close>

lemma jhash_4_eq_1word: "jhash k 4 initval = jhash_1word (load32 k 0) initval"
proof -
  have "jhash_loop k 4 abc = (k, 4, abc)" for abc by (rule jhash_loop_done) simp
  then show ?thesis
    by (simp add: jhash_def jhash_tail_def jhash_1word_def jhash_nwords_def load32_plus
        push_bit_eq_mult algebra_simps Let_def del: add_2_eq_Suc add_2_eq_Suc')
qed

lemma jhash_8_eq_2words: "jhash k 8 initval = jhash_2words (load32 k 0) (load32 k 4) initval"
proof -
  have "jhash_loop k 8 abc = (k, 8, abc)" for abc by (rule jhash_loop_done) simp
  then show ?thesis
    by (simp add: jhash_def jhash_tail_def jhash_2words_def jhash_nwords_def load32_plus
        push_bit_eq_mult algebra_simps Let_def del: add_2_eq_Suc add_2_eq_Suc')
qed

subsection \<open>The mixing steps lose nothing\<close>

text \<open>
  Both rounds are compositions of steps that change one or two of the three words and can be
  undone, so they are bijections of the 96-bit state.
\<close>

definition mix_a :: "u32 \<Rightarrow> u32 \<times> u32 \<times> u32 \<Rightarrow> u32 \<times> u32 \<times> u32" where
  "mix_a s = (\<lambda>(a, b, c). let a = a - c; a = a XOR rol32 c s; c = c + b in (a, b, c))"
definition mix_b :: "u32 \<Rightarrow> u32 \<times> u32 \<times> u32 \<Rightarrow> u32 \<times> u32 \<times> u32" where
  "mix_b s = (\<lambda>(a, b, c). let b = b - a; b = b XOR rol32 a s; a = a + c in (a, b, c))"
definition mix_c :: "u32 \<Rightarrow> u32 \<times> u32 \<times> u32 \<Rightarrow> u32 \<times> u32 \<times> u32" where
  "mix_c s = (\<lambda>(a, b, c). let c = c - b; c = c XOR rol32 b s; b = b + a in (a, b, c))"
definition fin_a :: "u32 \<Rightarrow> u32 \<times> u32 \<times> u32 \<Rightarrow> u32 \<times> u32 \<times> u32" where
  "fin_a s = (\<lambda>(a, b, c). let a = a XOR c; a = a - rol32 c s in (a, b, c))"
definition fin_b :: "u32 \<Rightarrow> u32 \<times> u32 \<times> u32 \<Rightarrow> u32 \<times> u32 \<times> u32" where
  "fin_b s = (\<lambda>(a, b, c). let b = b XOR a; b = b - rol32 a s in (a, b, c))"
definition fin_c :: "u32 \<Rightarrow> u32 \<times> u32 \<times> u32 \<Rightarrow> u32 \<times> u32 \<times> u32" where
  "fin_c s = (\<lambda>(a, b, c). let c = c XOR b; c = c - rol32 b s in (a, b, c))"

lemma case_prod_Let: "case_prod f (Let x g) = Let x (\<lambda>y. case_prod f (g y))"
  by (simp add: Let_def)

lemma jhash_mix_steps:
  "jhash_mix = mix_c 4 \<circ> mix_b 19 \<circ> mix_a 16 \<circ> mix_c 8 \<circ> mix_b 6 \<circ> mix_a 4"
  by (rule ext)
    (simp only: jhash_mix_def mix_a_def mix_b_def mix_c_def o_apply split_paired_all prod.case
      case_prod_Let)

lemma jhash_final_steps:
  "jhash_final = fin_c 24 \<circ> fin_b 14 \<circ> fin_a 4 \<circ> fin_c 16 \<circ> fin_b 25 \<circ> fin_a 11 \<circ> fin_c 14"
  by (rule ext)
    (simp only: jhash_final_def fin_a_def fin_b_def fin_c_def o_apply split_paired_all prod.case
      case_prod_Let)

lemma xor_cancel [simp]: "(x XOR y) XOR y = (x :: 'a::len word)"
  by (simp add: xor.assoc)

lemma bij_by_inverse: "(\<And>x. g (f x) = x) \<Longrightarrow> (\<And>x. f (g x) = x) \<Longrightarrow> bij f"
  by (rule o_bij [of g]) (auto simp: fun_eq_iff)

lemma bij_mix_steps: "bij (mix_a s)" "bij (mix_b s)" "bij (mix_c s)"
proof -
  show "bij (mix_a s)"
    by (rule bij_by_inverse [of "\<lambda>(a, b, c). let c = c - b; a = a XOR rol32 c s; a = a + c
      in (a, b, c)"]) (auto simp: mix_a_def Let_def)
  show "bij (mix_b s)"
    by (rule bij_by_inverse [of "\<lambda>(a, b, c). let a = a - c; b = b XOR rol32 a s; b = b + a
      in (a, b, c)"]) (auto simp: mix_b_def Let_def)
  show "bij (mix_c s)"
    by (rule bij_by_inverse [of "\<lambda>(a, b, c). let b = b - a; c = c XOR rol32 b s; c = c + b
      in (a, b, c)"]) (auto simp: mix_c_def Let_def)
qed

lemma bij_fin_steps: "bij (fin_a s)" "bij (fin_b s)" "bij (fin_c s)"
proof -
  show "bij (fin_a s)"
    by (rule bij_by_inverse [of "\<lambda>(a, b, c). ((a + rol32 c s) XOR c, b, c)"])
      (auto simp: fin_a_def Let_def)
  show "bij (fin_b s)"
    by (rule bij_by_inverse [of "\<lambda>(a, b, c). (a, (b + rol32 a s) XOR a, c)"])
      (auto simp: fin_b_def Let_def)
  show "bij (fin_c s)"
    by (rule bij_by_inverse [of "\<lambda>(a, b, c). (a, b, (c + rol32 b s) XOR b)"])
      (auto simp: fin_c_def Let_def)
qed

text \<open>Both mixing rounds are permutations of their three words: no state is lost.\<close>

theorem jhash_rounds_bij: "bij jhash_mix \<and> bij jhash_final"
  by (simp add: jhash_mix_steps jhash_final_steps bij_comp bij_mix_steps bij_fin_steps)

subsection \<open>Only the first \<open>length\<close> bytes count\<close>

lemma jhash_loop_cong:
  assumes "\<And>i. i < unat len \<Longrightarrow> k i = k' i"
  shows "snd (jhash_loop k len abc) = snd (jhash_loop k' len abc)
    \<and> (\<forall>i < unat (fst (snd (jhash_loop k len abc))).
         fst (jhash_loop k len abc) i = fst (jhash_loop k' len abc) i)"
  using assms
proof (induction k len abc arbitrary: k' rule: jhash_loop.induct)
  case (1 k len a b c)
  show ?case
  proof (cases "12 < len")
    case False
    with "1.prems" show ?thesis by (simp add: jhash_loop.simps [of _ len])
  next
    case True
    then have u: "unat (len - 12) = unat len - 12" and l: "12 < unat len"
      by (simp_all add: unat_sub word_less_nat_alt order_less_imp_le)
    have w: "load32 k 0 = load32 k' 0" "load32 k 4 = load32 k' 4" "load32 k 8 = load32 k' 8"
      using "1.prems" l by (simp_all add: load32_eq_iff)
    have "k (i + 12) = k' (i + 12)" if "i < unat (len - 12)" for i
      using "1.prems" [of "i + 12"] that u by simp
    from "1.IH" [OF True this]
    show ?thesis using True w by (simp add: jhash_loop.simps [of k len] jhash_loop.simps [of k' len])
  qed
qed

lemma jhash_tail_cong:
  assumes "\<And>i. i < unat len \<Longrightarrow> k i = k' i"
  shows "jhash_tail k len abc = jhash_tail k' len abc"
proof -
  have E: "(if of_nat i < len then push_bit s (ucast (k i)) else (0 :: u32))
      = (if of_nat i < len then push_bit s (ucast (k' i)) else 0)" if "i < 12" for i s
  proof (cases "of_nat i < len")
    case True
    have "i < 2 ^ LENGTH(32)" using that by simp
    then have "unat (of_nat i :: u32) = i" by (rule unat_of_nat_small)
    with True have "i < unat len" by (simp only: word_less_nat_alt)
    with assms show ?thesis by simp
  qed simp
  show ?thesis
    by (simp only: jhash_tail_def Let_def E [of 0, simplified] E [of 1, simplified]
      E [of 0] E [of 1] E [of 2] E [of 3] E [of 4] E [of 5] E [of 6] E [of 7] E [of 8] E [of 9]
      E [of 10] E [of 11] less_numeral_simps zero_less_numeral one_less_numeral_iff
      numeral_eq_iff TrueI rel_simps)
qed

lemma jhash_cong:
  assumes "\<And>i. i < unat len \<Longrightarrow> k i = k' i"
  shows "jhash k len v = jhash k' len v"
proof -
  let ?s = "JHASH_INITVAL + len + v"
  let ?r = "jhash_loop k len (?s, ?s, ?s)" and ?r' = "jhash_loop k' len (?s, ?s, ?s)"
  have l: "snd ?r = snd ?r'" and b: "\<forall>i < unat (fst (snd ?r)). fst ?r i = fst ?r' i"
    using jhash_loop_cong [of len k k'] assms by blast+
  have "jhash_tail (fst ?r) (fst (snd ?r)) (snd (snd ?r))
      = jhash_tail (fst ?r') (fst (snd ?r')) (snd (snd ?r'))"
    unfolding l [symmetric] using b by (intro jhash_tail_cong) simp
  then show ?thesis by (simp add: jhash_def Let_def split_beta)
qed

end
