(* ===== verification/Fixed_Point.thy ===== *)
theory Fixed_Point
  imports Prelude
begin

text \<open>
  Unsigned fixed-point numbers and random numbers: \<open>libs/arena-ds/fixed-point/fp.h\<close> and
  \<open>libs/honey/rand.h\<close>. A \<open>fp_t\<close> is a \<open>uint32_t\<close> with 31 fraction bits. The random source
  (\<open>rand()\<close> in user space, \<open>bpf_get_prandom_u32()\<close> in BPF) is outside of the repository, so its
  value is an argument.
\<close>

type_synonym fp_t = u32

definition FIX_FRACTION_BITS :: nat where "FIX_FRACTION_BITS = 31"
definition FP_SCALE :: u64 where "FP_SCALE = push_bit FIX_FRACTION_BITS 1"
definition FP_FRACTION_MASK :: u64 where "FP_FRACTION_MASK = FP_SCALE - 1"

lemmas fp_const_defs = FIX_FRACTION_BITS_def FP_SCALE_def FP_FRACTION_MASK_def

definition fp_add :: "fp_t \<Rightarrow> fp_t \<Rightarrow> fp_t" where "fp_add a b = a + b"
definition fp_sub :: "fp_t \<Rightarrow> fp_t \<Rightarrow> fp_t" where "fp_sub a b = a - b"

text \<open>
  \<open>fp_t product = (__fp_d_t)a * (__fp_d_t)b\<close>: the 64-bit product is stored in a 32-bit
  variable before the shift.
\<close>

definition fp_mul :: "fp_t \<Rightarrow> fp_t \<Rightarrow> fp_t" where
  "fp_mul a b = (let product = ucast ((ucast a :: u64) * ucast b) :: fp_t
                 in drop_bit FIX_FRACTION_BITS product)"

definition fp_div :: "fp_t \<Rightarrow> fp_t \<Rightarrow> fp_t checked" where
  "fp_div a b = (let numerator = push_bit FIX_FRACTION_BITS (ucast a :: u64)
                 in if b = 0 then Inl Division_by_zero else Inr (ucast (numerator div ucast b)))"

text \<open>\<open>int32_t x = rand(); x &= FP_FRACTION_MASK;\<close>: the mask is a 64-bit constant.\<close>

definition fp_random :: "u32 \<Rightarrow> fp_t" where
  "fp_random rnd = ucast ((scast rnd :: u64) AND FP_FRACTION_MASK)"

text \<open>The value a fixed-point number stands for, scaled by \<open>2 ^ 31\<close>.\<close>

definition fp_val :: "fp_t \<Rightarrow> nat" where "fp_val x = unat x"

definition rand_m :: u32 where "rand_m = 1664525"
definition rand_c :: u32 where "rand_c = 1013904223"

text \<open>\<open>__rand\<close> updates the global seed and returns it; \<open>__rand_seeded\<close> is the pure step.\<close>

definition rand_seeded :: "u32 \<Rightarrow> u32" where "rand_seeded s = s * rand_m + rand_c"
definition rand_step :: "u32 \<Rightarrow> u32 \<times> u32" where
  "rand_step seed = (let seed = seed * rand_m + rand_c in (seed, seed))"

subsection \<open>Random numbers are fractions below one\<close>

lemma FP_FRACTION_MASK_mask: "FP_FRACTION_MASK = mask 31"
  by (simp add: fp_const_defs mask_eq_exp_minus_1)

lemma fp_random_mask: "fp_random r = take_bit 31 r"
  by (rule word_eq_bitsI) (auto simp: fp_random_def FP_FRACTION_MASK_mask bit_simps)

lemma fp_random_below_one: "unat (fp_random r) < 2 ^ 31"
proof -
  have "unat (take_bit 31 r) = take_bit 31 (unat r)" by (rule unsigned_take_bit_eq)
  also have "\<dots> < 2 ^ 31" by (rule take_bit_nat_less_exp)
  finally show ?thesis by (simp add: fp_random_mask)
qed

subsection \<open>The fixed-point product loses its integer part\<close>

lemma fp_mul_top_bit: "fp_mul a b \<le> 1"
proof -
  have "drop_bit 31 x \<le> 1" for x :: u32
  proof -
    have "unat x < 2 ^ 32" using unsigned_less [of x] by simp
    then have "unat x div 2 ^ 31 \<le> 1" by simp
    moreover have "unat (drop_bit 31 x) = unat x div 2 ^ 31"
      by (subst unat_drop_bit_eq) (rule drop_bit_eq_div)
    ultimately show ?thesis by (simp only: word_le_nat_alt unsigned_1)
  qed
  then show ?thesis by (simp add: fp_mul_def FIX_FRACTION_BITS_def Let_def)
qed

text \<open>A product is never more than the smallest positive fixed-point number, since the 64-bit
  product is cut to 32 bits before it is scaled back; one half times one half is zero.\<close>

theorem fp_mul_le_one:
  "fp_mul a b \<le> 1 \<and> fp_mul 0x40000000 0x40000000 = 0"
  by (simp add: fp_mul_top_bit) (simp add: fp_mul_def FIX_FRACTION_BITS_def)

subsection \<open>The quotient is exact while it fits\<close>

lemma fp_div_exact:
  assumes "b \<noteq> 0" and "unat a < 2 * unat b"
  shows "\<exists>q. fp_div a b = Inr q \<and> unat q = unat a * 2 ^ 31 div unat b"
proof -
  have a32: "unat a < 2 ^ 32" and b32: "unat b < 2 ^ 32"
    using unsigned_less [of a] unsigned_less [of b] by simp_all
  let ?n = "push_bit 31 (ucast a :: u64)"
  have ua: "unat (ucast a :: u64) = unat a" and ub: "unat (ucast b :: u64) = unat b"
    by (rule unat_ucast_widen; simp)+
  have "unat ?n = take_bit 64 (unat a * 2 ^ 31)"
    by (subst unsigned_push_bit_eq) (simp add: ua push_bit_eq_mult)
  also have "\<dots> = unat a * 2 ^ 31"
    using a32 by (intro take_bit_nat_eq_self) simp
  finally have n: "unat ?n = unat a * 2 ^ 31" .
  have "unat a * 2 ^ 31 div unat b < 2 ^ 32"
  proof (rule less_mult_imp_div_less)
    have "unat a * 2 ^ 31 < 2 * unat b * 2 ^ 31"
      using assms(2) by simp
    then show "unat a * 2 ^ 31 < 2 ^ 32 * unat b" by simp
  qed
  moreover have "unat (?n div ucast b) = unat a * 2 ^ 31 div unat b"
    by (simp only: unat_div_distrib n ub)
  ultimately have "unat (ucast (?n div ucast b) :: fp_t) = unat a * 2 ^ 31 div unat b"
    by (subst unat_ucast_narrow) simp_all
  then show ?thesis
    using assms(1) by (simp add: fp_div_def FIX_FRACTION_BITS_def Let_def)
qed

subsection \<open>The generator is a permutation of its seeds\<close>

lemma rand_m_inverse: "rand_m * 4276115653 = 1"
  by (simp add: rand_m_def)

text \<open>The generator's step is a permutation of its seeds, so that no two seeds ever meet.\<close>

theorem rand_seeded_bij: "bij rand_seeded"
proof (rule o_bij [of "\<lambda>y. (y - rand_c) * 4276115653"])
  have 1: "x * rand_m * 4276115653 = x" for x
    by (simp add: mult.assoc rand_m_inverse)
  have 2: "x * 4276115653 * rand_m = x" for x
  proof -
    have "x * 4276115653 * rand_m = x * (rand_m * 4276115653)" by (simp only: mult_ac)
    then show ?thesis by (simp only: rand_m_inverse mult_1_right)
  qed
  show "(\<lambda>y. (y - rand_c) * 4276115653) \<circ> rand_seeded = id"
    by (rule ext) (simp add: rand_seeded_def 1)
  show "rand_seeded \<circ> (\<lambda>y. (y - rand_c) * 4276115653) = id"
    by (rule ext) (simp only: o_apply rand_seeded_def 2 diff_add_cancel id_apply)
qed

end
