(* ===== verification/Heap_Path.thy ===== *)
theory Heap_Path
  imports Prelude
begin

text \<open>
  Singly linked structures in a heap, shared by the free list of the allocator and the bucket
  chains of the hash table. An address is a \<open>nat\<close>, 0 is the C null pointer, and a link field is
  a function from the address of the node to the address it points to. \<open>seg f p xs q\<close> says that
  following \<open>f\<close> from \<open>p\<close> visits exactly the nodes \<open>xs\<close> and arrives at \<open>q\<close>.
\<close>

type_synonym addr = nat

fun seg :: "(addr \<Rightarrow> addr) \<Rightarrow> addr \<Rightarrow> addr list \<Rightarrow> addr \<Rightarrow> bool" where
  "seg f p [] q \<longleftrightarrow> p = q"
| "seg f p (x # xs) q \<longleftrightarrow> p = x \<and> x \<noteq> 0 \<and> seg f (f x) xs q"

abbreviation chain :: "(addr \<Rightarrow> addr) \<Rightarrow> addr \<Rightarrow> addr list \<Rightarrow> bool" where
  "chain f p xs \<equiv> seg f p xs 0"

lemma seg_append [simp]: "seg f p (xs @ ys) q \<longleftrightarrow> (\<exists>r. seg f p xs r \<and> seg f r ys q)"
  by (induction xs arbitrary: p) auto

lemma seg_cong: "(\<And>x. x \<in> set xs \<Longrightarrow> f x = g x) \<Longrightarrow> seg f p xs q = seg g p xs q"
  by (induction xs arbitrary: p) auto

lemma seg_upd [simp]: "u \<notin> set xs \<Longrightarrow> seg (f(u := v)) p xs q = seg f p xs q"
  by (rule seg_cong) auto

lemma chain_null [simp]: "chain f 0 xs \<longleftrightarrow> xs = []"
  by (cases xs) auto

lemma chain_nonnull: "chain f p xs \<Longrightarrow> p \<noteq> 0 \<Longrightarrow> \<exists>ys. xs = p # ys \<and> chain f (f p) ys"
  by (cases xs) auto

lemma chain_nonzero: "seg f p xs q \<Longrightarrow> 0 \<notin> set xs"
  by (induction xs arbitrary: p) auto

lemma chain_unique: "chain f p xs \<Longrightarrow> chain f p ys \<Longrightarrow> xs = ys"
proof (induction xs arbitrary: p ys)
  case Nil
  then show ?case by simp
next
  case (Cons x xs)
  then show ?case by (cases ys) auto
qed

text \<open>Redirecting the link of the last node of a segment.\<close>

lemma seg_redirect:
  assumes "seg f p (ys @ [a]) q" and "a \<notin> set ys"
  shows "seg (f(a := v)) p (ys @ [a]) v"
  using assms by auto

end
