(* ===== verification/Arena_Mm.thy ===== *)
theory Arena_Mm
  imports Heap_Path
begin

text \<open>
  The memory allocator of the arena data structures: \<open>libs/arena-ds/common/arena_mm.h\<close>.

  The state is what the code keeps in the arena: a \<open>mem_region\<close> header in front of every block
  and a \<open>mem_handle_t\<close> with the head of the free list. Headers are read and written at the
  address of the block; a block at \<open>a\<close> has its payload at \<open>a + 32\<close> (the header is 32 bytes).
  Addresses and sizes are natural numbers: the area lies inside of the address space, so no
  sum of an address and a size that the code computes wraps.
\<close>

record mem_region =
  magic :: u32
  size_of :: nat
  next_of :: addr
  handle_of :: addr

record arena_mem =
  regions :: "addr \<Rightarrow> mem_region"
  first_of :: "addr \<Rightarrow> addr"

definition MAGIC_WORD :: u32 where "MAGIC_WORD = 0x7480d321"
definition HDR_SZ :: nat where "HDR_SZ = 32"
definition MIN_SIZE :: nat where "MIN_SIZE = HDR_SZ + 64"
definition MAX_SIZE :: nat where "MAX_SIZE = 2 ^ 30"

abbreviation rsize :: "arena_mem \<Rightarrow> addr \<Rightarrow> nat" where
  "rsize m x \<equiv> size_of (regions m x)"
abbreviation rnext :: "arena_mem \<Rightarrow> addr \<Rightarrow> addr" where
  "rnext m \<equiv> \<lambda>x. next_of (regions m x)"

definition set_region :: "arena_mem \<Rightarrow> addr \<Rightarrow> mem_region \<Rightarrow> arena_mem" where
  "set_region m x r = m\<lparr>regions := (regions m)(x := r)\<rparr>"

definition set_first :: "arena_mem \<Rightarrow> addr \<Rightarrow> addr \<Rightarrow> arena_mem" where
  "set_first m h x = m\<lparr>first_of := (first_of m)(h := x)\<rparr>"

definition create_mem_region_obj :: "arena_mem \<Rightarrow> addr \<Rightarrow> nat \<Rightarrow> addr \<Rightarrow> int \<times> arena_mem" where
  "create_mem_region_obj m area sz h =
     (let m = set_first m h 0 in
      if sz < MIN_SIZE then (-1, m)
      else
        let m = set_region m area
                  \<lparr>magic = MAGIC_WORD, size_of = sz - HDR_SZ, next_of = 0, handle_of = h\<rparr>
        in (0, set_first m h area))"

text \<open>
  \<open>prev_ptr\<close> points to a pointer: the \<open>first\<close> field of the handle or the \<open>next\<close> field of
  a region.
\<close>

datatype cell = First addr | Next addr

fun write_cell :: "arena_mem \<Rightarrow> cell \<Rightarrow> addr \<Rightarrow> arena_mem" where
  "write_cell m (First h) v = set_first m h v"
| "write_cell m (Next x) v = set_region m x ((regions m x)\<lparr>next_of := v\<rparr>)"

text \<open>
  The \<open>do ... while (ptr != NULL)\<close> search. It has no bound of its own: \<open>None\<close> is the run
  that never ends, on a cyclic list.
\<close>

partial_function (option) find_fit ::
  "arena_mem \<Rightarrow> nat \<Rightarrow> cell \<Rightarrow> addr \<Rightarrow> (cell \<times> addr) option" where
  "find_fit m required prev ptr =
     (if required \<le> rsize m ptr then Some (prev, ptr)
      else if rnext m ptr = 0 then Some (Next ptr, 0)
      else find_fit m required (Next ptr) (rnext m ptr))"

declare find_fit.simps [code]

definition just_alloc :: "arena_mem \<Rightarrow> addr \<Rightarrow> nat \<Rightarrow> (addr \<times> arena_mem) option" where
  "just_alloc m r sz =
     (if r = 0 \<or> first_of m r = 0 \<or> sz = 0 \<or> MAX_SIZE < sz then Some (0, m)
      else
        case find_fit m sz (First r) (first_of m r) of
          None \<Rightarrow> None
        | Some (prev, ptr) \<Rightarrow>
            if ptr = 0 then Some (0, m)
            else
              let to_be_used = ptr + HDR_SZ;
                  remaining_sz = rsize m ptr - sz;
                  (new_next, m) =
                    (if MIN_SIZE < remaining_sz
                     then let new_next = to_be_used + sz;
                              m = set_region m new_next
                                    \<lparr>magic = MAGIC_WORD, size_of = rsize m ptr - sz - HDR_SZ,
                                     next_of = rnext m ptr, handle_of = r\<rparr>;
                              m = set_region m ptr ((regions m ptr)\<lparr>size_of := sz\<rparr>)
                          in (new_next, m)
                     else (rnext m ptr, m));
                  m = write_cell m prev new_next;
                  m = set_region m ptr ((regions m ptr)\<lparr>next_of := 0\<rparr>)
              in Some (to_be_used, m))"

text \<open>The search for the last free region below the freed one.\<close>

partial_function (option) find_before ::
  "arena_mem \<Rightarrow> addr \<Rightarrow> addr \<Rightarrow> addr \<Rightarrow> addr option" where
  "find_before m x before ptr =
     (if ptr \<noteq> 0 \<and> ptr < x then find_before m x ptr (rnext m ptr) else Some before)"

declare find_before.simps [code]

definition just_free :: "arena_mem \<Rightarrow> addr \<Rightarrow> (int \<times> arena_mem) option" where
  "just_free m p =
     (if p = 0 then Some (0, m)
      else
        let x = p - HDR_SZ in
        if magic (regions m x) \<noteq> MAGIC_WORD then Some (-1, m)
        else
          let h = handle_of (regions m x) in
          case find_before m x 0 (first_of m h) of
            None \<Rightarrow> None
          | Some before \<Rightarrow>
              let m = (if before = 0
                       then set_first (set_region m x ((regions m x)\<lparr>next_of := first_of m h\<rparr>)) h x
                       else let m = set_region m x ((regions m x)\<lparr>next_of := rnext m before\<rparr>)
                            in set_region m before ((regions m before)\<lparr>next_of := x\<rparr>));
                  tmp = x + HDR_SZ + rsize m x;
                  nx = rnext m x
              in if tmp = nx
                 then let m = set_region m nx ((regions m nx)\<lparr>magic := 0\<rparr>)
                      in Some (0, set_region m x
                                ((regions m x)\<lparr>size_of := rsize m x + (rsize m nx + HDR_SZ)\<rparr>))
                 else Some (0, m))"

definition PAGE_SIZE :: nat where "PAGE_SIZE = 4096"

text \<open>\<open>COUNT_OBJ\<close> and \<open>ROUND_UP\<close>: how many objects of size \<open>b\<close> cover \<open>a\<close> bytes.\<close>

definition COUNT_OBJ :: "nat \<Rightarrow> nat \<Rightarrow> nat" where "COUNT_OBJ a b = ((a + b) - 1) div b"
definition ROUND_UP :: "nat \<Rightarrow> nat \<Rightarrow> nat" where "ROUND_UP n s = COUNT_OBJ n s * s"

lemma COUNT_OBJ_bounds:
  assumes "0 < b"
  shows "a \<le> COUNT_OBJ a b * b" and "COUNT_OBJ a b * b < a + b"
proof -
  have e: "a + b - 1 = COUNT_OBJ a b * b + (a + b - 1) mod b"
    by (simp add: COUNT_OBJ_def)
  have "(a + b - 1) mod b < b" using assms by simp
  with e assms show "a \<le> COUNT_OBJ a b * b" and "COUNT_OBJ a b * b < a + b" by linarith+
qed

subsection \<open>The invariant of the allocator\<close>

text \<open>
  A block is the header and the payload. \<open>heap_inv m h lo hi free used\<close>: the free list of the
  handle is \<open>free\<close>, the live allocations are the blocks \<open>used\<close>, all blocks lie in
  \<open>[lo, hi)\<close>, carry the magic word and the handle, and no two of them overlap.
\<close>

definition blk_end :: "arena_mem \<Rightarrow> addr \<Rightarrow> addr" where
  "blk_end m x = x + HDR_SZ + rsize m x"

definition blk_apart :: "arena_mem \<Rightarrow> addr \<Rightarrow> addr \<Rightarrow> bool" where
  "blk_apart m x y \<longleftrightarrow> blk_end m x \<le> y \<or> blk_end m y \<le> x"

definition blk_ok :: "arena_mem \<Rightarrow> addr \<Rightarrow> addr \<Rightarrow> addr \<Rightarrow> addr \<Rightarrow> bool" where
  "blk_ok m h lo hi x \<longleftrightarrow> 0 < x \<and> lo \<le> x \<and> blk_end m x \<le> hi
     \<and> magic (regions m x) = MAGIC_WORD \<and> handle_of (regions m x) = h"

definition blocks_ok :: "arena_mem \<Rightarrow> addr \<Rightarrow> addr \<Rightarrow> addr \<Rightarrow> addr set \<Rightarrow> bool" where
  "blocks_ok m h lo hi B \<longleftrightarrow> (\<forall>x \<in> B. blk_ok m h lo hi x)
     \<and> (\<forall>x \<in> B. \<forall>y \<in> B. x \<noteq> y \<longrightarrow> blk_apart m x y)"

definition heap_inv ::
  "arena_mem \<Rightarrow> addr \<Rightarrow> addr \<Rightarrow> addr \<Rightarrow> addr list \<Rightarrow> addr list \<Rightarrow> bool" where
  "heap_inv m h lo hi free used \<longleftrightarrow>
     h \<noteq> 0 \<and> chain (rnext m) (first_of m h) free \<and> distinct (free @ used)
     \<and> blocks_ok m h lo hi (set (free @ used))"

lemmas region_defs = set_region_def set_first_def
lemmas blk_defs = blk_end_def blk_apart_def blk_ok_def

lemma HDR_SZ_pos [simp]: "0 < HDR_SZ" by (simp add: HDR_SZ_def)

lemma create_mem_region_obj_inv:
  assumes "create_mem_region_obj m area sz h = (0, m')" and "h \<noteq> 0" and "0 < area"
  shows "heap_inv m' h area (area + sz) [area] []"
  using assms
  by (auto simp: create_mem_region_obj_def heap_inv_def blocks_ok_def blk_defs region_defs Let_def MIN_SIZE_def
      split: if_splits)

subsection \<open>The search terminates on a proper list and finds the first fit\<close>

lemma find_fit_none:
  assumes "chain (rnext m) p xs" and "p \<noteq> 0" and "\<forall>x \<in> set xs. rsize m x < sz"
  shows "\<exists>c. find_fit m sz prev p = Some (c, 0)"
  using assms
proof (induction xs arbitrary: p prev)
  case Nil
  then show ?case by simp
next
  case (Cons x xs)
  then show ?case by (cases "rnext m x = 0") (auto simp: find_fit.simps [of m sz prev x])
qed

lemma find_fit_some:
  assumes "chain (rnext m) p (ys @ x # zs)" and "\<forall>y \<in> set ys. rsize m y < sz" and "sz \<le> rsize m x"
  shows "find_fit m sz prev p = Some (if ys = [] then prev else Next (last ys), x)"
  using assms
proof (induction ys arbitrary: p prev)
  case Nil
  then have "p = x" by simp
  with Nil.prems(3) show ?case by (subst find_fit.simps) simp
next
  case (Cons y ys)
  have y: "p = y" "rsize m y < sz" and tl: "chain (rnext m) (rnext m y) (ys @ x # zs)"
    using Cons.prems(1,2) by simp_all
  have nz: "rnext m y \<noteq> 0"
    using tl by (cases ys) auto
  have "find_fit m sz prev y = find_fit m sz (Next y) (rnext m y)"
    using y(2) nz by (subst find_fit.simps) simp
  also have "\<dots> = Some (if ys = [] then Next y else Next (last ys), x)"
    using tl Cons.prems(2,3) by (intro Cons.IH) auto
  finally show ?case using y(1) by simp
qed

lemma first_fit_cases:
  obtains (none) "\<forall>x \<in> set xs. rsize m x < sz"
  | (fit) ys x zs where "xs = ys @ x # zs" "\<forall>y \<in> set ys. rsize m y < sz" "sz \<le> rsize m x"
proof (cases "\<exists>x \<in> set xs. sz \<le> rsize m x")
  case True
  from split_list_first_prop [OF this] obtain ys x zs
    where "xs = ys @ x # zs" "sz \<le> rsize m x" "\<forall>y \<in> set ys. \<not> sz \<le> rsize m y" by blast
  then show ?thesis by (intro fit) (auto simp: not_le)
next
  case False
  then show ?thesis using none by (auto simp: not_le)
qed

lemma find_before_some:
  assumes "chain (rnext m) p xs"
  shows "find_before m x b p = Some (last (b # takeWhile (\<lambda>y. y < x) xs))"
  using assms
proof (induction xs arbitrary: p b)
  case Nil
  then show ?case by (simp add: find_before.simps [of m x b 0])
next
  case (Cons y ys)
  then show ?case by (auto simp: find_before.simps [of m x b y])
qed

subsection \<open>Writing a link\<close>

lemma write_cell_frame [simp]:
  "rsize (write_cell m c v) y = rsize m y"
  "magic (regions (write_cell m c v) y) = magic (regions m y)"
  "handle_of (regions (write_cell m c v) y) = handle_of (regions m y)"
  by (cases c; simp add: region_defs)+

lemma set_next_frame [simp]:
  "rsize (set_region m x ((regions m x)\<lparr>next_of := v\<rparr>)) y = rsize m y"
  "magic (regions (set_region m x ((regions m x)\<lparr>next_of := v\<rparr>)) y) = magic (regions m y)"
  "handle_of (regions (set_region m x ((regions m x)\<lparr>next_of := v\<rparr>)) y) = handle_of (regions m y)"
  "first_of (set_region m x r) = first_of m"
  by (simp_all add: region_defs)

lemma rnext_set_region [simp]:
  "rnext (set_region m x r) = (rnext m)(x := next_of r)"
  by (auto simp: region_defs)

lemma rnext_set_region_at:
  "next_of (regions (set_region m x r) y) = (if y = x then next_of r else rnext m y)"
  by (simp add: region_defs)

lemma rnext_set_first [simp]: "rnext (set_first m h v) = rnext m"
  by (simp add: region_defs)

lemma first_of_set_first [simp]: "first_of (set_first m h v) h = v"
  by (simp add: region_defs)

definition cell_after :: "addr \<Rightarrow> addr list \<Rightarrow> cell" where
  "cell_after h ys = (if ys = [] then First h else Next (last ys))"

lemma write_cell_chain:
  assumes "seg (rnext m) (first_of m h) ys x" and "chain (rnext m) v ws"
    and "distinct ys" and "set ys \<inter> set ws = {}"
  shows "chain (rnext (write_cell m (cell_after h ys) v))
           (first_of (write_cell m (cell_after h ys) v) h) (ys @ ws)"
proof (cases ys rule: rev_cases)
  case Nil
  with assms show ?thesis by (simp add: cell_after_def)
next
  case (snoc us a)
  have "seg ((rnext m)(a := v)) (first_of m h) (us @ [a]) v"
    using assms(1,3) snoc by (intro seg_redirect [of _ _ us a x]) auto
  moreover have "chain ((rnext m)(a := v)) v ws"
    using assms(2,4) snoc by auto
  ultimately have "chain ((rnext m)(a := v)) (first_of m h) ((us @ [a]) @ ws)"
    by (simp only: seg_append) blast
  with snoc show ?thesis by (simp add: cell_after_def)
qed

lemma blocks_ok_cong:
  assumes "\<And>x. x \<in> B \<Longrightarrow> rsize m' x = rsize m x"
    and "\<And>x. x \<in> B \<Longrightarrow> magic (regions m' x) = magic (regions m x)"
    and "\<And>x. x \<in> B \<Longrightarrow> handle_of (regions m' x) = handle_of (regions m x)"
  shows "blocks_ok m' h lo hi B = blocks_ok m h lo hi B"
  using assms by (simp add: blocks_ok_def blk_defs)

lemma blocks_ok_no_inner:
  assumes "blocks_ok m h lo hi B" and "x \<in> B" and "y \<in> B" and "x < y"
  shows "blk_end m x \<le> y"
  using assms by (fastforce simp: blocks_ok_def blk_defs)

text \<open>Carving the tail of a block off as a block of its own.\<close>

lemma blocks_ok_split:
  assumes B: "blocks_ok m h lo hi B" and x: "x \<in> B" and n: "n = x + HDR_SZ + sz"
    and fit: "sz + HDR_SZ \<le> rsize m x"
    and r: "\<And>y. y \<noteq> n \<Longrightarrow> y \<noteq> x \<Longrightarrow> regions m' y = regions m y"
    and rx: "rsize m' x = sz" "magic (regions m' x) = magic (regions m x)"
            "handle_of (regions m' x) = handle_of (regions m x)"
    and rn: "rsize m' n = rsize m x - sz - HDR_SZ" "magic (regions m' n) = MAGIC_WORD"
            "handle_of (regions m' n) = h"
  shows "blocks_ok m' h lo hi (insert n B) \<and> n \<notin> B"
proof -
  have xn: "x < n" using n by simp
  have nend: "blk_end m' n = blk_end m x" using n fit rn(1) by (simp add: blk_end_def)
  have inside: "n < blk_end m x" using n fit by (simp add: blk_end_def HDR_SZ_def)
  have nB: "n \<notin> B"
    using blocks_ok_no_inner [OF B x _ xn] inside by auto
  have same: "blk_end m' y = blk_end m y" if "y \<in> B" "y \<noteq> x" for y
    using that nB r [of y] by (metis blk_end_def)
  have xend: "blk_end m' x = n" using rx(1) n by (simp add: blk_end_def)
  have sep: "blk_end m x \<le> y \<or> blk_end m y \<le> x" if "y \<in> B" "y \<noteq> x" for y
    using B x that by (auto simp: blocks_ok_def blk_apart_def)
  have ok: "blk_ok m' h lo hi y" if yB: "y \<in> insert n B" for y
  proof -
    consider "y = n" | "y = x" | "y \<in> B" "y \<noteq> x" "y \<noteq> n" using yB by blast
    then show ?thesis
    proof cases
      case 1
      have "blk_ok m h lo hi x" using B x by (simp add: blocks_ok_def)
      with 1 xn nend rn show ?thesis by (simp add: blk_ok_def)
    next
      case 2
      have "blk_ok m h lo hi x" using B x by (simp add: blocks_ok_def)
      with 2 xend inside rx show ?thesis by (simp add: blk_ok_def)
    next
      case 3
      have "blk_ok m h lo hi y" using B 3 by (simp add: blocks_ok_def)
      with 3 same [of y] r [of y] show ?thesis by (simp add: blk_ok_def)
    qed
  qed
  have apart: "blk_apart m' y z" if "y \<in> insert n B" "z \<in> insert n B" "y \<noteq> z" for y z
  proof -
    have *: "blk_apart m' n z" if "z \<in> B" for z
    proof (cases "z = x")
      case True
      with xend show ?thesis by (simp add: blk_apart_def)
    next
      case False
      with sep [OF that False] same [OF that False] nend xn show ?thesis
        by (auto simp: blk_apart_def)
    qed
    have **: "blk_apart m' y z" if "y \<in> B" "z \<in> B" "y \<noteq> z" for y z
    proof -
      have e: "blk_end m' w \<le> blk_end m w" if "w \<in> B" for w
        using that same [of w] xend inside by (cases "w = x") auto
      have "blk_apart m y z" using B that by (auto simp: blocks_ok_def)
      with e [OF that(1)] e [OF that(2)] show ?thesis by (auto simp: blk_apart_def)
    qed
    have sym: "blk_apart m' a b \<longleftrightarrow> blk_apart m' b a" for a b by (auto simp: blk_apart_def)
    from that * ** sym show ?thesis by (metis insert_iff)
  qed
  show ?thesis using ok apart nB by (simp add: blocks_ok_def)
qed

subsection \<open>Allocation\<close>

lemma heap_inv_fit:
  assumes inv: "heap_inv m h lo hi (ys @ x # zs) used"
    and small: "\<forall>y \<in> set ys. rsize m y < sz" and fit: "sz \<le> rsize m x"
    and sz: "0 < sz" "sz \<le> MAX_SIZE"
  shows "\<exists>m' free'. just_alloc m h sz = Some (x + HDR_SZ, m')
     \<and> heap_inv m' h lo hi free' (x # used) \<and> sz \<le> rsize m' x
     \<and> (\<forall>y \<in> set used. rsize m' y = rsize m y)"
proof -
  let ?c = "cell_after h ys"
  have h: "h \<noteq> 0" and dist: "distinct (ys @ x # zs @ used)"
    and ch: "seg (rnext m) (first_of m h) ys x" "x \<noteq> 0" "chain (rnext m) (rnext m x) zs"
    and B: "blocks_ok m h lo hi (set (ys @ x # zs @ used))"
    using inv by (auto simp: heap_inv_def)
  have nz: "first_of m h \<noteq> 0" using ch by (cases ys) auto
  have find: "find_fit m sz (First h) (first_of m h) = Some (?c, x)"
    using find_fit_some [of m "first_of m h" ys x zs sz "First h"] ch small fit
    by (simp add: cell_after_def)
  show ?thesis
  proof (cases "MIN_SIZE < rsize m x - sz")
    case True
    define n where "n = x + HDR_SZ + sz"
    define m1 where "m1 = set_region m n
      \<lparr>magic = MAGIC_WORD, size_of = rsize m x - sz - HDR_SZ, next_of = rnext m x, handle_of = h\<rparr>"
    define m2 where "m2 = set_region m1 x ((regions m1 x)\<lparr>size_of := sz\<rparr>)"
    define m3 where "m3 = write_cell m2 ?c n"
    define m4 where "m4 = set_region m3 x ((regions m3 x)\<lparr>next_of := 0\<rparr>)"
    have xn: "x < n" by (simp add: n_def)
    have m2r: "regions m2 y = regions m y" if "y \<noteq> n" "y \<noteq> x" for y
      using that by (simp add: m2_def m1_def region_defs)
    have m2x: "rsize m2 x = sz" "magic (regions m2 x) = magic (regions m x)"
        "handle_of (regions m2 x) = handle_of (regions m x)"
      using xn by (simp_all add: m2_def m1_def region_defs)
    have m2n: "rsize m2 n = rsize m x - sz - HDR_SZ" "magic (regions m2 n) = MAGIC_WORD"
        "handle_of (regions m2 n) = h" "rnext m2 n = rnext m x"
      using xn by (simp_all add: m2_def m1_def region_defs)
    have "sz + HDR_SZ \<le> rsize m x" using True by (simp add: MIN_SIZE_def)
    from blocks_ok_split [OF B _ n_def this, of m2] m2r m2x m2n
    have B2: "blocks_ok m2 h lo hi (insert n (set (ys @ x # zs @ used)))"
      and nB: "n \<notin> set (ys @ x # zs @ used)" by auto
    have first2: "first_of m2 = first_of m" by (simp add: m2_def m1_def region_defs)
    have same: "rnext m2 y = rnext m y" if "y \<in> set ys \<union> set zs" for y
    proof -
      have "y \<noteq> n" "y \<noteq> x" using that nB dist by auto
      then show ?thesis by (simp add: m2r)
    qed
    have "seg (rnext m2) (first_of m2 h) ys x"
      using ch(1) seg_cong [of ys "rnext m2" "rnext m"] same unfolding first2 by blast
    moreover have "chain (rnext m2) n (n # zs)"
      using ch(3) seg_cong [of zs "rnext m2" "rnext m"] same m2n xn by auto
    ultimately have ch3: "chain (rnext m3) (first_of m3 h) (ys @ n # zs)"
      unfolding m3_def using dist nB by (intro write_cell_chain) auto
    have "chain (rnext m4) (first_of m4 h) (ys @ n # zs)"
      using ch3 dist xn unfolding m4_def by (simp del: seg_append)
    moreover have "blocks_ok m4 h lo hi (set ((ys @ n # zs) @ x # used))"
    proof -
      have "set ((ys @ n # zs) @ x # used) = insert n (set (ys @ x # zs @ used))" by auto
      moreover have "blocks_ok m4 h lo hi S = blocks_ok m2 h lo hi S" for S
        by (rule blocks_ok_cong) (simp_all add: m4_def m3_def)
      ultimately show ?thesis using B2 by simp
    qed
    moreover have "distinct ((ys @ n # zs) @ x # used)" using dist nB by auto
    ultimately have "heap_inv m4 h lo hi (ys @ n # zs) (x # used)"
      using h by (simp only: heap_inv_def) blast
    moreover have "just_alloc m h sz = Some (x + HDR_SZ, m4)"
      using True h nz sz ch(2) find
      by (simp add: just_alloc_def m4_def m3_def m2_def m1_def n_def Let_def region_defs)
    moreover have "sz \<le> rsize m4 x" by (simp add: m4_def m3_def m2x)
    moreover have "\<forall>y \<in> set used. rsize m4 y = rsize m y"
    proof
      fix y assume "y \<in> set used"
      with nB dist have "y \<noteq> n" "y \<noteq> x" by auto
      then show "rsize m4 y = rsize m y" by (simp add: m4_def m3_def m2r)
    qed
    ultimately show ?thesis by blast
  next
    case False
    define m3 where "m3 = write_cell m ?c (rnext m x)"
    define m4 where "m4 = set_region m3 x ((regions m3 x)\<lparr>next_of := 0\<rparr>)"
    have "chain (rnext m3) (first_of m3 h) (ys @ zs)"
      unfolding m3_def using dist ch by (intro write_cell_chain [of m h ys x]) auto
    then have "chain (rnext m4) (first_of m4 h) (ys @ zs)"
      using dist unfolding m4_def by (simp del: seg_append)
    moreover have "blocks_ok m4 h lo hi (set ((ys @ zs) @ x # used))"
    proof -
      have "set ((ys @ zs) @ x # used) = set (ys @ x # zs @ used)" by auto
      moreover have "blocks_ok m4 h lo hi S = blocks_ok m h lo hi S" for S
        by (rule blocks_ok_cong) (simp_all add: m4_def m3_def)
      ultimately show ?thesis using B by simp
    qed
    moreover have "distinct ((ys @ zs) @ x # used)" using dist by auto
    ultimately have "heap_inv m4 h lo hi (ys @ zs) (x # used)"
      using h by (simp only: heap_inv_def) blast
    moreover have "just_alloc m h sz = Some (x + HDR_SZ, m4)"
      using False h nz sz ch(2) find
      by (simp add: just_alloc_def m4_def m3_def Let_def)
    moreover have "sz \<le> rsize m4 x" using fit by (simp add: m4_def m3_def)
    moreover have "\<forall>y \<in> set used. rsize m4 y = rsize m y" by (simp add: m4_def m3_def)
    ultimately show ?thesis by blast
  qed
qed

lemma heap_inv_no_fit:
  assumes "heap_inv m h lo hi free used" and "\<forall>y \<in> set free. rsize m y < sz"
  shows "just_alloc m h sz = Some (0, m)"
proof (cases "first_of m h = 0")
  case True
  then show ?thesis by (simp add: just_alloc_def)
next
  case False
  with assms find_fit_none [of m "first_of m h" free sz "First h"]
  show ?thesis by (auto simp: heap_inv_def just_alloc_def)
qed

subsection \<open>Release\<close>

lemma just_free_null: "just_free m 0 = Some (0, m)"
  by (simp add: just_free_def)

lemma just_free_bad_magic:
  "p \<noteq> 0 \<Longrightarrow> magic (regions m (p - HDR_SZ)) \<noteq> MAGIC_WORD \<Longrightarrow> just_free m p = Some (-1, m)"
  by (simp add: just_free_def Let_def)

text \<open>
  Linking the freed block in: the regions below it stay in front, the rest of the list follows.
\<close>

definition free_link :: "arena_mem \<Rightarrow> addr \<Rightarrow> addr \<Rightarrow> addr list \<Rightarrow> arena_mem" where
  "free_link m h x ys =
     (if ys = [] then set_first (set_region m x ((regions m x)\<lparr>next_of := first_of m h\<rparr>)) h x
      else let m = set_region m x ((regions m x)\<lparr>next_of := rnext m (last ys)\<rparr>)
           in set_region m (last ys) ((regions m (last ys))\<lparr>next_of := x\<rparr>))"

lemma set_first_regions [simp]: "regions (set_first m h v) = regions m"
  by (simp add: region_defs)

lemma free_link_frame [simp]:
  "rsize (free_link m h x ys) y = rsize m y"
  "magic (regions (free_link m h x ys) y) = magic (regions m y)"
  "handle_of (regions (free_link m h x ys) y) = handle_of (regions m y)"
  by (simp_all add: free_link_def Let_def region_defs)

lemma free_link_chain:
  assumes ch: "chain (rnext m) (first_of m h) (ys @ zs)" and d: "distinct (ys @ x # zs)"
    and x: "x \<noteq> 0"
  shows "chain (rnext (free_link m h x ys)) (first_of (free_link m h x ys) h) (ys @ x # zs)
    \<and> rnext (free_link m h x ys) x = (if zs = [] then 0 else hd zs)"
proof (cases ys rule: rev_cases)
  case Nil
  have "rnext (free_link m h x ys) x = first_of m h"
    using Nil by (simp add: free_link_def rnext_set_region_at)
  moreover have "chain (rnext (free_link m h x ys)) (first_of (free_link m h x ys) h) (ys @ x # zs)"
    using Nil assms by (simp add: free_link_def)
  ultimately show ?thesis using ch Nil by (cases zs) auto
next
  case (snoc us a)
  from ch snoc have u: "seg (rnext m) (first_of m h) us a" "a \<noteq> 0" and z: "chain (rnext m) (rnext m a) zs"
    by auto
  let ?f = "(rnext m)(x := rnext m a, a := x)"
  have nx: "rnext (free_link m h x ys) = ?f" and fi: "first_of (free_link m h x ys) = first_of m"
    using snoc by (auto simp: free_link_def Let_def)
  have "seg ?f (first_of m h) us a" using u d snoc by auto
  moreover have "chain ?f (rnext m a) zs" using z d snoc by auto
  ultimately have "chain ?f (first_of m h) ((us @ [a]) @ x # zs)"
    using u x d snoc by auto
  moreover have "?f x = (if zs = [] then 0 else hd zs)"
    using z d snoc by (cases zs) auto
  moreover have "rnext (free_link m h x ys) x = ?f x" using fun_cong [OF nx, of x] by simp
  ultimately show ?thesis unfolding nx fi using snoc by simp
qed

text \<open>
  What \<open>just_free\<close> does to a live block: \<open>ys\<close> are the free regions in front of the place
  where it is linked in, \<open>zs\<close> those behind.
\<close>

lemma just_free_split:
  assumes inv: "heap_inv m h lo hi free (us @ x # vs)"
    and ys: "ys = takeWhile (\<lambda>y. y < x) free" and zs: "zs = dropWhile (\<lambda>y. y < x) free"
  shows "just_free m (x + HDR_SZ) =
    (let m' = free_link m h x ys in
     if zs \<noteq> [] \<and> blk_end m x = hd zs
     then let y = hd zs; m'' = set_region m' y ((regions m' y)\<lparr>magic := 0\<rparr>)
          in Some (0, set_region m'' x
               ((regions m'' x)\<lparr>size_of := rsize m'' x + (rsize m'' y + HDR_SZ)\<rparr>))
     else Some (0, m'))"
proof -
  have free: "free = ys @ zs" by (simp add: ys zs)
  have ch: "chain (rnext m) (first_of m h) (ys @ zs)" and d: "distinct (ys @ x # zs)"
    and ok: "blk_ok m h lo hi x" and nz: "0 \<notin> set ys"
    using inv chain_nonzero unfolding free
    by (auto simp: heap_inv_def blocks_ok_def dest: chain_nonzero)
  have x: "x \<noteq> 0" and mg: "magic (regions m x) = MAGIC_WORD" and ha: "handle_of (regions m x) = h"
    using ok by (auto simp: blk_ok_def)
  have "chain (rnext m) (first_of m h) free" using inv by (simp add: heap_inv_def)
  from find_before_some [OF this, of x 0]
  have find: "find_before m x 0 (first_of m h) = Some (if ys = [] then 0 else last ys)"
    by (simp add: ys)
  have lnz: "ys \<noteq> [] \<Longrightarrow> last ys \<noteq> 0" using nz last_in_set [of ys] by metis
  from free_link_chain [OF ch d x]
  have nx: "rnext (free_link m h x ys) x = (if zs = [] then 0 else hd zs)" by simp
  have "just_free m (x + HDR_SZ) =
    (let m' = free_link m h x ys in
     if blk_end m x = rnext m' x
     then let y = rnext m' x; m'' = set_region m' y ((regions m' y)\<lparr>magic := 0\<rparr>)
          in Some (0, set_region m'' x
               ((regions m'' x)\<lparr>size_of := rsize m'' x + (rsize m'' y + HDR_SZ)\<rparr>))
     else Some (0, m'))"
    using lnz x
    by (cases "ys = []")
      (simp_all add: just_free_def mg ha find Let_def free_link_def blk_end_def)
  moreover have "blk_end m x \<noteq> 0" using x by (simp add: blk_end_def)
  ultimately show ?thesis using nx by (cases zs) (simp_all add: Let_def)
qed

lemma just_free_no_merge:
  assumes inv: "heap_inv m h lo hi free (us @ x # vs)"
    and apart: "\<forall>y \<in> set free. blk_end m x \<noteq> y"
  shows "\<exists>m' ys zs. just_free m (x + HDR_SZ) = Some (0, m') \<and> free = ys @ zs
     \<and> heap_inv m' h lo hi (ys @ x # zs) (us @ vs)"
proof -
  define ys where "ys = takeWhile (\<lambda>y. y < x) free"
  define zs where "zs = dropWhile (\<lambda>y. y < x) free"
  have free: "free = ys @ zs" by (simp add: ys_def zs_def)
  have "just_free m (x + HDR_SZ) = Some (0, free_link m h x ys)"
  proof -
    have "\<not> (zs \<noteq> [] \<and> blk_end m x = hd zs)" using apart free by auto
    then show ?thesis
      using just_free_split [OF inv ys_def zs_def] by (simp only: Let_def if_False)
  qed
  moreover have "heap_inv (free_link m h x ys) h lo hi (ys @ x # zs) (us @ vs)"
  proof -
    have h: "h \<noteq> 0" and ch: "chain (rnext m) (first_of m h) (ys @ zs)"
      and d: "distinct (free @ us @ x # vs)"
      and B: "blocks_ok m h lo hi (set (free @ us @ x # vs))"
      using inv free by (simp_all add: heap_inv_def)
    have x: "x \<noteq> 0" using B by (auto simp: blocks_ok_def blk_ok_def)
    have "chain (rnext (free_link m h x ys)) (first_of (free_link m h x ys) h) (ys @ x # zs)"
      using free_link_chain [OF ch _ x] d free by auto
    moreover have "blocks_ok (free_link m h x ys) h lo hi (set ((ys @ x # zs) @ us @ vs))"
    proof -
      have "set ((ys @ x # zs) @ us @ vs) = set (free @ us @ x # vs)" using free by auto
      then show ?thesis using B by (simp add: blocks_ok_cong [of _ "free_link m h x ys" m])
    qed
    moreover have "distinct ((ys @ x # zs) @ us @ vs)" using d free by auto
    ultimately show ?thesis using h by (simp only: heap_inv_def) blast
  qed
  ultimately show ?thesis using free by blast
qed

text \<open>
  When the block ends where the next free region begins the two are merged, but the absorbed
  region is never taken off the list: the list then holds two regions that overlap.
\<close>

lemma just_free_merge_overlap:
  assumes inv: "heap_inv m h lo hi free (us @ x # vs)"
    and adj: "dropWhile (\<lambda>y. y < x) free = y # zs" "blk_end m x = y"
  shows "\<exists>m' ys. just_free m (x + HDR_SZ) = Some (0, m')
     \<and> chain (rnext m') (first_of m' h) (ys @ x # y # zs)
     \<and> x < y \<and> blk_end m' x = blk_end m y \<and> blk_end m' y = blk_end m y"
proof -
  define ys where "ys = takeWhile (\<lambda>y. y < x) free"
  have free: "free = ys @ y # zs"
    using takeWhile_dropWhile_id [of "\<lambda>y. y < x" free] adj(1) by (simp add: ys_def)
  define m1 where "m1 = free_link m h x ys"
  define m2 where "m2 = set_region m1 y ((regions m1 y)\<lparr>magic := 0\<rparr>)"
  define m3 where "m3 = set_region m2 x ((regions m2 x)\<lparr>size_of := rsize m2 x + (rsize m2 y + HDR_SZ)\<rparr>)"
  have xy: "x < y" using adj(2) by (auto simp: blk_end_def)
  have ok: "just_free m (x + HDR_SZ) = Some (0, m3)"
    using just_free_split [OF inv ys_def refl] adj
    by (simp add: m3_def m2_def m1_def Let_def)
  have ch: "chain (rnext m) (first_of m h) (ys @ y # zs)" and d: "distinct (ys @ x # y # zs)"
    and x: "x \<noteq> 0"
    using inv unfolding free by (auto simp: heap_inv_def blocks_ok_def blk_ok_def)
  from free_link_chain [OF ch d x]
  have "chain (rnext m1) (first_of m1 h) (ys @ x # y # zs)" by (simp only: m1_def)
  moreover have "rnext m3 = rnext m1" by (auto simp: m3_def m2_def region_defs)
  moreover have "first_of m3 = first_of m1" by (simp add: m3_def m2_def region_defs)
  moreover have "rsize m3 x = rsize m x + (rsize m y + HDR_SZ)" "rsize m3 y = rsize m y"
    using xy by (simp_all add: m3_def m2_def m1_def region_defs)
  ultimately have "chain (rnext m3) (first_of m3 h) (ys @ x # y # zs)"
    and "blk_end m3 x = blk_end m y" and "blk_end m3 y = blk_end m y"
    using adj(2) by (simp_all add: blk_end_def del: seg_append)
  with ok xy show ?thesis by blast
qed

subsection \<open>The interface the data structures use\<close>

text \<open>
  The arena structures only ask for blocks. What they rely on: a request returns, a non-null
  result is a block of the requested size that is apart from every block handed out before
  and inside of the area, and a null result changes nothing. \<open>live s bs\<close> says that \<open>bs\<close> are
  the payloads handed out so far, with the requested sizes, latest first.
\<close>

definition payload_apart :: "addr \<times> nat \<Rightarrow> addr \<times> nat \<Rightarrow> bool" where
  "payload_apart a b \<longleftrightarrow> fst a + snd a \<le> fst b \<or> fst b + snd b \<le> fst a"

fun alloc_all ::
  "('s \<Rightarrow> nat \<Rightarrow> (addr \<times> 's) option) \<Rightarrow> 's \<Rightarrow> nat list \<Rightarrow> (addr list \<times> 's) option" where
  "alloc_all alloc s [] = Some ([], s)"
| "alloc_all alloc s (sz # szs) =
     (case alloc s sz of None \<Rightarrow> None
      | Some (p, s) \<Rightarrow> map_option (\<lambda>(ps, s). (p # ps, s)) (alloc_all alloc s szs))"

definition granted :: "addr list \<Rightarrow> nat list \<Rightarrow> (addr \<times> nat) list" where
  "granted ps szs = filter (\<lambda>(p, sz). p \<noteq> 0) (zip ps szs)"

locale block_allocator =
  fixes alloc :: "'s \<Rightarrow> nat \<Rightarrow> (addr \<times> 's) option"
    and live :: "'s \<Rightarrow> (addr \<times> nat) list \<Rightarrow> bool"
    and lo :: addr
    and hi :: addr
  assumes alloc_returns: "live s bs \<Longrightarrow> \<exists>p s'. alloc s sz = Some (p, s')"
    and alloc_block: "live s bs \<Longrightarrow> alloc s sz = Some (p, s') \<Longrightarrow> p \<noteq> 0 \<Longrightarrow> live s' ((p, sz) # bs)"
    and alloc_fail: "live s bs \<Longrightarrow> alloc s sz = Some (0, s') \<Longrightarrow> s' = s"
    and live_apart: "live s bs \<Longrightarrow> sorted_wrt payload_apart bs"
    and live_within: "live s bs \<Longrightarrow> (p, sz) \<in> set bs \<Longrightarrow> lo \<le> p \<and> p + sz \<le> hi"
begin

lemma alloc_all_live:
  assumes "live s bs"
  shows "\<exists>ps s'. alloc_all alloc s szs = Some (ps, s') \<and> length ps = length szs
    \<and> live s' (rev (granted ps szs) @ bs)"
  using assms
proof (induction szs arbitrary: s bs)
  case Nil
  then show ?case by (simp add: granted_def)
next
  case (Cons sz szs)
  from alloc_returns [OF Cons.prems] obtain p s1 where a: "alloc s sz = Some (p, s1)" by blast
  have "live s1 ((if p = 0 then [] else [(p, sz)]) @ bs)"
    using alloc_block [OF Cons.prems a] alloc_fail [OF Cons.prems] a Cons.prems by auto
  from Cons.IH [OF this] obtain ps s' where
    "alloc_all alloc s1 szs = Some (ps, s')" "length ps = length szs"
    "live s' (rev (granted ps szs) @ (if p = 0 then [] else [(p, sz)]) @ bs)" by blast
  with a show ?case by (auto simp: granted_def split: if_splits)
qed

lemma alloc_all_apart:
  assumes "live s []"
  shows "\<exists>ps s'. alloc_all alloc s szs = Some (ps, s') \<and> length ps = length szs
    \<and> sorted_wrt payload_apart (rev (granted ps szs))
    \<and> (\<forall>(p, sz) \<in> set (granted ps szs). lo \<le> p \<and> p + sz \<le> hi)"
proof -
  from alloc_all_live [OF assms, of szs] obtain ps s' where
    *: "alloc_all alloc s szs = Some (ps, s')" "length ps = length szs"
    "live s' (rev (granted ps szs))" by auto
  from live_apart [OF *(3)] live_within [OF *(3)] * show ?thesis by fastforce
qed

end

definition covers :: "arena_mem \<Rightarrow> addr \<times> nat \<Rightarrow> addr \<Rightarrow> bool" where
  "covers m b x \<longleftrightarrow> fst b = x + HDR_SZ \<and> snd b \<le> rsize m x"

definition mm_live :: "addr \<Rightarrow> addr \<Rightarrow> addr \<Rightarrow> arena_mem \<Rightarrow> (addr \<times> nat) list \<Rightarrow> bool" where
  "mm_live h lo hi m bs \<longleftrightarrow> (\<exists>free used. heap_inv m h lo hi free used
     \<and> list_all2 (covers m) bs used)"

lemma mm_live_alloc:
  assumes "mm_live h lo hi m bs"
  shows "(\<exists>p m'. just_alloc m h sz = Some (p, m') \<and> p \<noteq> 0 \<and> mm_live h lo hi m' ((p, sz) # bs))
    \<or> just_alloc m h sz = Some (0, m)"
proof -
  from assms obtain free used where inv: "heap_inv m h lo hi free used"
    and bs: "list_all2 (covers m) bs used"
    by (auto simp: mm_live_def)
  show ?thesis
  proof (cases "sz = 0 \<or> MAX_SIZE < sz")
    case True
    then show ?thesis by (auto simp: just_alloc_def)
  next
    case sz: False
    show ?thesis
    proof (cases rule: first_fit_cases [of free m sz])
      case none
      with heap_inv_no_fit [OF inv] show ?thesis by blast
    next
      case (fit ys x zs)
      with heap_inv_fit [of m h lo hi ys x zs used sz] inv sz obtain m' free' where
        "just_alloc m h sz = Some (x + HDR_SZ, m')" "heap_inv m' h lo hi free' (x # used)"
        "sz \<le> rsize m' x" "\<forall>y \<in> set used. rsize m' y = rsize m y" by auto
      moreover from this have "list_all2 (covers m') ((x + HDR_SZ, sz) # bs) (x # used)"
        using list.rel_mono_strong [OF bs, of "covers m'"] by (simp add: covers_def)
      ultimately show ?thesis unfolding mm_live_def by (metis HDR_SZ_pos add_is_0 less_irrefl)
    qed
  qed
qed

lemma heap_inv_used_apart:
  assumes "heap_inv m h lo hi free used"
  shows "sorted_wrt (blk_apart m) used"
  using assms
  by (auto simp: heap_inv_def blocks_ok_def sorted_wrt_iff_nth_less distinct_append
      nth_eq_iff_index_eq)

interpretation mm: block_allocator "\<lambda>m sz. just_alloc m h sz" "mm_live h lo hi" lo hi
  for h lo hi
proof (unfold_locales, goal_cases)
  case (1 m bs sz)
  then show ?case using mm_live_alloc by blast
next
  case (2 m bs sz p m')
  then show ?case using mm_live_alloc [OF 2(1), of sz] by auto
next
  case (3 m bs sz m')
  then show ?case using mm_live_alloc [OF 3(1), of sz] by auto
next
  case (4 m bs)
  then obtain free used where inv: "heap_inv m h lo hi free used"
    and bs: "list_all2 (covers m) bs used"
    by (auto simp: mm_live_def)
  show ?case
  proof (unfold sorted_wrt_iff_nth_less, intro allI impI)
    fix i j assume ij: "i < j" "j < length bs"
    then have "blk_apart m (used ! i) (used ! j)"
      using heap_inv_used_apart [OF inv] bs
      by (auto simp: sorted_wrt_iff_nth_less list_all2_conv_all_nth)
    moreover have "covers m (bs ! i) (used ! i)" "covers m (bs ! j) (used ! j)"
      using bs ij by (auto simp: list_all2_conv_all_nth)
    ultimately show "payload_apart (bs ! i) (bs ! j)"
      by (auto simp: payload_apart_def blk_apart_def blk_end_def covers_def)
  qed
next
  case (5 m bs p sz)
  then obtain free used where inv: "heap_inv m h lo hi free used"
    and bs: "list_all2 (covers m) bs used"
    by (auto simp: mm_live_def)
  from bs 5(2) obtain x where "x \<in> set used" "p = x + HDR_SZ" "sz \<le> rsize m x"
    unfolding list_all2_conv_all_nth in_set_conv_nth covers_def by force
  moreover from inv this(1) have "blk_ok m h lo hi x" by (simp add: heap_inv_def blocks_ok_def)
  ultimately show ?case by (simp add: blk_defs)
qed

subsection \<open>Properties\<close>

text \<open>
  C34. Whatever sequence of block sizes is requested from a fresh region of at least
  \<open>MIN_SIZE\<close> bytes, every request returns (the free-list search ends), and the blocks that
  were granted lie inside of the region and do not overlap.
\<close>

theorem mm_alloc_sequence_apart:
  assumes "create_mem_region_obj m0 area sz h = (0, m)" and "h \<noteq> 0" and "0 < area"
  shows "\<exists>ps m'. alloc_all (\<lambda>m. just_alloc m h) m szs = Some (ps, m') \<and> length ps = length szs
    \<and> sorted_wrt payload_apart (rev (granted ps szs))
    \<and> (\<forall>(p, n) \<in> set (granted ps szs). area \<le> p \<and> p + n \<le> area + sz)"
proof -
  have "mm_live h area (area + sz) m []"
    using create_mem_region_obj_inv [OF assms] by (auto simp: mm_live_def)
  then show ?thesis by (rule mm.alloc_all_apart)
qed

definition mm_blank :: arena_mem where
  "mm_blank = \<lparr>regions = (\<lambda>_. \<lparr>magic = 0, size_of = 0, next_of = 0, handle_of = 0\<rparr>),
     first_of = (\<lambda>_. 0)\<rparr>"

definition mm_ex :: arena_mem where
  "mm_ex = snd (create_mem_region_obj mm_blank 4096 1000 8)"

theorem mm_alloc_sequence_apart_witness:
  "create_mem_region_obj mm_blank 4096 1000 8 = (0, mm_ex) \<and>
   (\<exists>ps m'. alloc_all (\<lambda>m. just_alloc m 8) mm_ex [100, 200, 5000] = Some (ps, m')
     \<and> length ps = 3)"
proof -
  have e: "create_mem_region_obj mm_blank 4096 1000 8 = (0, mm_ex)"
    by (simp add: mm_ex_def create_mem_region_obj_def MIN_SIZE_def HDR_SZ_def Let_def)
  from mm_alloc_sequence_apart [OF e, of "[100, 200, 5000]"] e show ?thesis by auto
qed

text \<open>
  A null result means that the request was empty or too large or that no region of the
  free list holds it; otherwise a request is granted and the allocator's invariant is kept.
\<close>

theorem just_alloc_complete:
  assumes inv: "heap_inv m h lo hi free used" and sz: "0 < sz" "sz \<le> MAX_SIZE"
  shows "if \<exists>x \<in> set free. sz \<le> rsize m x
         then \<exists>x m' free'. just_alloc m h sz = Some (x + HDR_SZ, m') \<and> x \<in> set free
                \<and> heap_inv m' h lo hi free' (x # used)
         else just_alloc m h sz = Some (0, m)"
proof (cases rule: first_fit_cases [of free m sz])
  case none
  with heap_inv_no_fit [OF inv] show ?thesis by (auto simp: not_le)
next
  case (fit ys x zs)
  with heap_inv_fit [of m h lo hi ys x zs used sz] inv sz show ?thesis by auto
qed

theorem just_alloc_complete_witness:
  "\<exists>x m' free'. just_alloc mm_ex 8 100 = Some (x + HDR_SZ, m')
     \<and> heap_inv m' 8 4096 5096 free' [x]"
proof -
  have "create_mem_region_obj mm_blank 4096 1000 8 = (0, mm_ex)"
    by (simp add: mm_ex_def create_mem_region_obj_def MIN_SIZE_def HDR_SZ_def Let_def)
  then have inv: "heap_inv mm_ex 8 4096 (4096 + 1000) [4096] []"
    by (rule create_mem_region_obj_inv) simp_all
  have "rsize mm_ex 4096 = 968"
    by (simp add: mm_ex_def create_mem_region_obj_def MIN_SIZE_def HDR_SZ_def Let_def region_defs)
  with just_alloc_complete [OF inv, of 100] show ?thesis by (auto simp: MAX_SIZE_def)
qed

definition mm_ex1 :: arena_mem where
  "mm_ex1 = snd (the (just_alloc mm_ex 8 100))"

definition mm_ex2 :: arena_mem where
  "mm_ex2 = snd (the (just_alloc mm_ex1 8 100))"

lemmas mm_eval =
  create_mem_region_obj_def MIN_SIZE_def MAX_SIZE_def HDR_SZ_def Let_def region_defs
  just_alloc_def just_free_def MAGIC_WORD_def

lemma mm_ex_cells:
  "first_of mm_ex 8 = 4096"
  "regions mm_ex 4096 = \<lparr>magic = MAGIC_WORD, size_of = 968, next_of = 0, handle_of = 8\<rparr>"
  by (simp_all add: mm_ex_def mm_eval)

lemma mm_ex1_alloc:
  "just_alloc mm_ex 8 100 = Some (4128, mm_ex1)"
  "first_of mm_ex1 8 = 4228"
  "regions mm_ex1 4096 = \<lparr>magic = MAGIC_WORD, size_of = 100, next_of = 0, handle_of = 8\<rparr>"
  "regions mm_ex1 4228 = \<lparr>magic = MAGIC_WORD, size_of = 836, next_of = 0, handle_of = 8\<rparr>"
  by (simp_all add: mm_ex1_def mm_eval find_fit.simps [of mm_ex 100 "First 8" 4096] mm_ex_cells)

lemma mm_ex2_alloc:
  "just_alloc mm_ex1 8 100 = Some (4260, mm_ex2)"
  "first_of mm_ex2 8 = 4360"
  "regions mm_ex2 4096 = \<lparr>magic = MAGIC_WORD, size_of = 100, next_of = 0, handle_of = 8\<rparr>"
  "regions mm_ex2 4228 = \<lparr>magic = MAGIC_WORD, size_of = 100, next_of = 0, handle_of = 8\<rparr>"
  "regions mm_ex2 4360 = \<lparr>magic = MAGIC_WORD, size_of = 704, next_of = 0, handle_of = 8\<rparr>"
  by (simp_all add: mm_ex2_def mm_eval find_fit.simps [of mm_ex1 100 "First 8" 4228] mm_ex1_alloc)

lemma mm_ex_inv:
  "heap_inv mm_ex1 8 4096 5096 [4228] [4096]"
  "heap_inv mm_ex2 8 4096 5096 [4360] [4096, 4228]"
  by (simp_all add: heap_inv_def blocks_ok_def blk_defs mm_ex1_alloc mm_ex2_alloc HDR_SZ_def)

text \<open>
  C37. Releasing a live block that no free region touches from above succeeds, puts the block
  back on the free list and keeps the invariant.
\<close>

theorem just_free_keeps_inv:
  assumes "heap_inv m h lo hi free (us @ x # vs)" and "\<forall>y \<in> set free. blk_end m x \<noteq> y"
  shows "\<exists>m' ys zs. just_free m (x + HDR_SZ) = Some (0, m') \<and> free = ys @ zs
     \<and> heap_inv m' h lo hi (ys @ x # zs) (us @ vs)"
  by (rule just_free_no_merge [OF assms])

theorem just_free_keeps_inv_witness:
  "\<exists>m' ys zs. just_free mm_ex2 (4096 + HDR_SZ) = Some (0, m') \<and> [4360] = ys @ zs
     \<and> heap_inv m' 8 4096 5096 (ys @ 4096 # zs) ([] @ [4228])"
  by (rule just_free_keeps_inv)
    (use mm_ex_inv(2) in \<open>simp_all add: blk_end_def mm_ex2_alloc HDR_SZ_def\<close>)

text \<open>
  C38. Releasing a live block that ends where the next free region begins merges the two but
  leaves the absorbed region on the free list: the two regions overlap, so that two later
  requests can be granted overlapping blocks.
\<close>

theorem just_free_merge_aliases:
  assumes "heap_inv m h lo hi free (us @ x # vs)"
    and "dropWhile (\<lambda>y. y < x) free = y # zs" and "blk_end m x = y"
  shows "\<exists>m' ys. just_free m (x + HDR_SZ) = Some (0, m')
     \<and> chain (rnext m') (first_of m' h) (ys @ x # y # zs) \<and> \<not> blk_apart m' x y"
proof -
  from just_free_merge_overlap [OF assms] obtain m' ys where
    "just_free m (x + HDR_SZ) = Some (0, m')"
    "chain (rnext m') (first_of m' h) (ys @ x # y # zs)"
    "x < y" "blk_end m' x = blk_end m y" "blk_end m' y = blk_end m y" by blast
  moreover have "y < blk_end m y" by (simp add: blk_end_def)
  ultimately have "\<not> blk_apart m' x y" by (simp add: blk_apart_def)
  with \<open>just_free m (x + HDR_SZ) = _\<close> \<open>chain _ _ _\<close> show ?thesis by blast
qed

definition mm_ex3 :: arena_mem where
  "mm_ex3 = snd (the (just_free mm_ex1 4128))"

definition mm_ex4 :: arena_mem where
  "mm_ex4 = snd (the (just_alloc mm_ex3 8 968))"

lemma mm_ex3_cells:
  "first_of mm_ex3 8 = 4096"
  "regions mm_ex3 4096 = \<lparr>magic = MAGIC_WORD, size_of = 968, next_of = 4228, handle_of = 8\<rparr>"
  "regions mm_ex3 4228 = \<lparr>magic = 0, size_of = 836, next_of = 0, handle_of = 8\<rparr>"
  by (simp_all add: mm_ex3_def mm_eval find_before.simps [of mm_ex1 4096 0 4228] mm_ex1_alloc)

lemma mm_ex4_alloc:
  "just_alloc mm_ex3 8 968 = Some (4128, mm_ex4)"
  "first_of mm_ex4 8 = 4228"
  "regions mm_ex4 4228 = \<lparr>magic = 0, size_of = 836, next_of = 0, handle_of = 8\<rparr>"
  by (simp_all add: mm_ex4_def mm_eval find_fit.simps [of mm_ex3 968 "First 8" 4096] mm_ex3_cells)

text \<open>Payloads \<open>[4128, 5096)\<close> and \<open>[4260, 5096)\<close> are both granted, and neither was released.\<close>

theorem just_free_merge_aliases_witness:
  "(\<exists>m' ys. just_free mm_ex1 (4096 + HDR_SZ) = Some (0, m')
     \<and> chain (rnext m') (first_of m' 8) (ys @ 4096 # 4228 # []) \<and> \<not> blk_apart m' 4096 4228)
   \<and> map_option fst (just_alloc mm_ex3 8 968) = Some 4128
   \<and> map_option fst (just_alloc mm_ex4 8 836) = Some 4260"
proof (intro conjI)
  show "\<exists>m' ys. just_free mm_ex1 (4096 + HDR_SZ) = Some (0, m')
     \<and> chain (rnext m') (first_of m' 8) (ys @ 4096 # 4228 # []) \<and> \<not> blk_apart m' 4096 4228"
    by (rule just_free_merge_aliases [where us = "[]" and vs = "[]" and free = "[4228]"])
      (use mm_ex_inv(1) in \<open>simp_all add: blk_end_def mm_ex1_alloc HDR_SZ_def\<close>)
  show "map_option fst (just_alloc mm_ex3 8 968) = Some 4128" by (simp add: mm_ex4_alloc)
  show "map_option fst (just_alloc mm_ex4 8 836) = Some 4260"
    by (simp add: mm_eval find_fit.simps [of mm_ex4 836 "First 8" 4228] mm_ex4_alloc)
qed

end
