(* ===== verification/Arena_List.thy ===== *)
theory Arena_List
  imports Heap_Path
begin

text \<open>
  The intrusive list of the hash buckets: \<open>libs/arena-ds/list.h\<close>. The state is the memory of
  pointer words. A node at \<open>n\<close> has its \<open>next\<close> at \<open>n\<close> and its \<open>pprev\<close> at \<open>n + 8\<close>; a list head
  at \<open>h\<close> has its \<open>first\<close> at \<open>h\<close>. \<open>pprev\<close> holds the address of the word that points to the
  node: the head's \<open>first\<close> or the previous node's \<open>next\<close>. The address-space casts do not
  change which object a pointer names and are the identity here.
\<close>

type_synonym words = "addr \<Rightarrow> addr"

definition list_add_head :: "words \<Rightarrow> addr \<Rightarrow> addr \<Rightarrow> words" where
  "list_add_head m n h =
     (let first = m h;
          m = m(n := first);
          m = (if first \<noteq> 0 then m(first + 8 := n) else m);
          m = m(h := n)
      in m(n + 8 := h))"

definition list_add_head_userspace :: "words \<Rightarrow> addr \<Rightarrow> addr \<Rightarrow> words" where
  "list_add_head_userspace m n h =
     (let first = m h;
          m = m(n := first);
          m = (if first \<noteq> 0 then m(first + 8 := n) else m);
          m = m(h := n)
      in m(n + 8 := h))"

text \<open>
  \<open>__list_del\<close> reads \<open>*pprev\<close> into a local variable, overwrites that variable, and writes only
  the back link of the next node.
\<close>

definition list_del_raw :: "words \<Rightarrow> addr \<Rightarrow> words" where
  "list_del_raw m n =
     (let next = m n; pprev = m (n + 8); tmp = m pprev; tmp = next
      in if next \<noteq> 0 then m(next + 8 := pprev) else m)"

definition LIST_POISON1 :: addr where "LIST_POISON1 = 0x100"
definition LIST_POISON2 :: addr where "LIST_POISON2 = 0x122"

definition list_del :: "words \<Rightarrow> addr \<Rightarrow> words" where
  "list_del m n =
     (let m = list_del_raw m n; m = m(n := LIST_POISON1) in m(n + 8 := LIST_POISON2))"

subsection \<open>The doubly linked list\<close>

text \<open>
  \<open>dlist m c xs\<close>: the word at \<open>c\<close> starts the list \<open>xs\<close>, and every node's back link is the
  address of the word that points to it.
\<close>

fun dlist :: "words \<Rightarrow> addr \<Rightarrow> addr list \<Rightarrow> bool" where
  "dlist m c [] \<longleftrightarrow> m c = 0"
| "dlist m c (x # xs) \<longleftrightarrow> m c = x \<and> x \<noteq> 0 \<and> m (x + 8) = c \<and> dlist m x xs"

text \<open>The words a list occupies, apart from its head word.\<close>

definition node_words :: "addr list \<Rightarrow> addr set" where
  "node_words xs = (\<Union>x \<in> set xs. {x, x + 8})"

lemma node_words_simps [simp]:
  "node_words [] = {}" "node_words (x # xs) = {x, x + 8} \<union> node_words xs"
  by (auto simp: node_words_def)

lemma dlist_chain: "dlist m c xs \<Longrightarrow> chain m (m c) xs"
  by (induction xs arbitrary: c) auto

lemma dlist_cong:
  assumes "\<And>a. a \<in> insert c (node_words xs) \<Longrightarrow> m a = m' a"
  shows "dlist m c xs = dlist m' c xs"
  using assms by (induction xs arbitrary: c) auto

text \<open>
  The words of the new node, of the head and of the list must be different words, the first
  node's back link apart from its link.
\<close>

definition fresh_node :: "addr \<Rightarrow> addr \<Rightarrow> addr list \<Rightarrow> bool" where
  "fresh_node n h xs \<longleftrightarrow> n \<noteq> 0 \<and> {n, n + 8} \<inter> insert h (node_words xs) = {}
     \<and> h \<notin> node_words xs"

lemma dlist_shift_head:
  assumes "dlist m h (x # xs)" and "x + 8 \<notin> insert x (node_words xs)"
  shows "dlist m x xs"
  using assms by simp

lemma list_add_head_dlist:
  assumes d: "dlist m h xs" and f: "fresh_node n h xs"
    and w: "\<And>x ys. xs = x # ys \<Longrightarrow> x + 8 \<notin> insert x (node_words ys)"
  shows "dlist (list_add_head m n h) h (n # xs)"
proof (cases xs)
  case Nil
  with d f show ?thesis by (auto simp: list_add_head_def fresh_node_def Let_def)
next
  case (Cons x ys)
  let ?m = "list_add_head m n h"
  have mh: "m h = x" "x \<noteq> 0" and dx: "dlist m x ys" using d Cons by auto
  have eq: "?m = m(n := x, x + 8 := n, h := n, n + 8 := h)"
    using mh by (simp add: list_add_head_def Let_def)
  have "dlist ?m x ys = dlist m x ys"
    using f w [OF Cons] Cons by (intro dlist_cong) (auto simp: eq fresh_node_def)
  moreover have "?m h = n" "?m (n + 8) = h" "?m n = x" "?m (x + 8) = n"
    using f Cons by (auto simp: eq fresh_node_def)
  ultimately show ?thesis using dx mh Cons f by (simp add: fresh_node_def)
qed

lemma list_add_head_frame:
  assumes "a \<notin> {n, n + 8, h}" and "m h \<noteq> 0 \<Longrightarrow> a \<noteq> m h + 8"
  shows "list_add_head m n h a = m a"
  using assms by (auto simp: list_add_head_def Let_def)

text \<open>Deleting a node does not take it out of the list: the word that pointed to the node still does,
  so a walk from the head reaches the deleted node and goes on at the poison address.\<close>

theorem list_del_stays_linked:
  assumes "dlist m h (xs @ x # ys)" and "c = (if xs = [] then h else last xs)"
    and "c \<notin> {x, x + 8}" and "m x \<noteq> 0 \<Longrightarrow> m x + 8 \<notin> {c, x}"
  shows "list_del m x c = x \<and> list_del m x x = LIST_POISON1"
proof -
  have "m c = x"
    using assms(1,2) by (induction xs arbitrary: h) (auto split: if_splits)
  with assms(3,4) show ?thesis by (auto simp: list_del_def list_del_raw_def Let_def)
qed

theorem list_del_stays_linked_witness:
  "let m = list_add_head (list_add_head (\<lambda>_. 0) 1000 8) 2000 8
   in dlist m 8 [2000, 1000] \<and> list_del m 1000 2000 = 1000"
proof -
  let ?m = "list_add_head (list_add_head (\<lambda>_. 0) 1000 8) 2000 8"
  have d: "dlist ?m 8 [2000, 1000]" and "?m 1000 = 0"
    by (simp_all add: list_add_head_def Let_def)
  with list_del_stays_linked [of ?m 8 "[2000]" 1000 "[]" 2000] show ?thesis by simp
qed

end
