(* ===== verification/Phased.thy ===== *)
theory Phased
  imports Prelude
begin

text \<open>
  Lookups that are split around a prefetch. A first phase computes where the data of a key is and
  prefetches it; the second phase, run after other keys had their first phase, ends the lookup. A
  program runs the first phase for every key of a batch and then the second one for every key.
  \<open>stepped_lookup\<close> is the finer contract of a lookup that is run a step at a time: the steps of
  several lookups may be interleaved in any order.
\<close>

definition batch_lookup :: "('k \<Rightarrow> 's) \<Rightarrow> ('k \<Rightarrow> 's \<Rightarrow> 'r) \<Rightarrow> 'k list \<Rightarrow> 'r list" where
  "batch_lookup p1 p2 ks = (let ss = map p1 ks in map2 p2 ks ss)"

locale phased_lookup =
  fixes lookup :: "'d \<Rightarrow> 'k \<Rightarrow> 'r"
    and p1 :: "'d \<Rightarrow> 'k \<Rightarrow> 's"
    and p2 :: "'d \<Rightarrow> 'k \<Rightarrow> 's \<Rightarrow> 'r"
  assumes phases: "p2 d k (p1 d k) = lookup d k"
begin

lemma batch: "batch_lookup (p1 d) (p2 d) ks = map (lookup d) ks"
  by (induction ks) (simp_all add: batch_lookup_def phases)

lemma batch_nth: "i < length ks \<Longrightarrow> batch_lookup (p1 d) (p2 d) ks ! i = lookup d (ks ! i)"
  by (simp add: batch)

end

text \<open>
  A step gives the next state or the result. \<open>run_steps\<close> is the loop of a program that keeps a
  state per lookup and works through a schedule of positions; a finished lookup is skipped.
\<close>

fun run_steps :: "('k \<Rightarrow> 's \<Rightarrow> 's + 'r) \<Rightarrow> 'k list \<Rightarrow> nat list \<Rightarrow> ('s + 'r) list \<Rightarrow> ('s + 'r) list" where
  "run_steps step ks [] ss = ss"
| "run_steps step ks (i # is) ss =
     (if i < length ss
      then case ss ! i of
             Inl s \<Rightarrow> run_steps step ks is (ss[i := step (ks ! i) s])
           | Inr r \<Rightarrow> run_steps step ks is ss
      else run_steps step ks is ss)"

locale stepped_lookup =
  fixes lookup :: "'d \<Rightarrow> 'k \<Rightarrow> 'r"
    and init :: "'d \<Rightarrow> 'k \<Rightarrow> 's"
    and step :: "'d \<Rightarrow> 'k \<Rightarrow> 's \<Rightarrow> 's + 'r"
    and final :: "'d \<Rightarrow> 'k \<Rightarrow> 's \<Rightarrow> 'r"
    and left :: "'d \<Rightarrow> 'k \<Rightarrow> 's \<Rightarrow> nat"
  assumes start: "final d k (init d k) = lookup d k"
    and step_more: "step d k s = Inl s' \<Longrightarrow> final d k s' = final d k s \<and> left d k s' < left d k s"
    and step_done: "step d k s = Inr r \<Longrightarrow> r = final d k s"
begin

definition agrees :: "'d \<Rightarrow> 'k \<Rightarrow> 's + 'r \<Rightarrow> bool" where
  "agrees d k x = (case x of Inl s \<Rightarrow> final d k s = lookup d k | Inr r \<Rightarrow> r = lookup d k)"

lemma agrees_step: "agrees d k (Inl s) \<Longrightarrow> agrees d k (step d k s)"
  using step_more [of d k s] step_done [of d k s]
  by (cases "step d k s") (auto simp: agrees_def)

lemma run_agrees:
  assumes "length ss = length ks" and "\<forall>j < length ks. agrees d (ks ! j) (ss ! j)"
  shows "length (run_steps (step d) ks is ss) = length ks
    \<and> (\<forall>j < length ks. agrees d (ks ! j) (run_steps (step d) ks is ss ! j))"
  using assms
proof (induction "is" arbitrary: ss)
  case (Cons i js)
  show ?case
  proof (cases "i < length ss")
    case True
    show ?thesis
    proof (cases "ss ! i")
      case (Inl s)
      have "agrees d (ks ! i) (step d (ks ! i) s)"
        using Cons.prems True Inl by (intro agrees_step) metis
      then have "\<forall>j < length ks. agrees d (ks ! j) (ss[i := step d (ks ! i) s] ! j)"
        using Cons.prems True by (auto simp: nth_list_update)
      then show ?thesis using Cons.IH [of "ss[i := step d (ks ! i) s]"] Cons.prems True Inl by simp
    next
      case (Inr r)
      then show ?thesis using Cons True by simp
    qed
  next
    case False
    then show ?thesis using Cons by simp
  qed
qed simp

text \<open>Whatever the schedule, a lookup that has finished has the right result.\<close>

lemma any_schedule:
  assumes "i < length ks" and "run_steps (step d) ks is (map (\<lambda>k. Inl (init d k)) ks) ! i = Inr r"
  shows "r = lookup d (ks ! i)"
proof -
  have "\<forall>j < length ks. agrees d (ks ! j) (map (\<lambda>k. Inl (init d k)) ks ! j)"
    by (simp add: agrees_def start)
  from run_agrees [OF _ this, of "is"] assms show ?thesis by (auto simp: agrees_def)
qed

text \<open>A lookup that is scheduled often enough finishes.\<close>

lemma run_finishes:
  assumes "i < length ks" and "length ss = length ks" and "ss ! i = Inl s"
    and "left d (ks ! i) s < count_list is i"
  shows "\<exists>r. run_steps (step d) ks is ss ! i = Inr r"
  using assms
proof (induction "is" arbitrary: ss s)
  case (Cons j js)
  have fin: "run_steps (step d) ks is ss ! i = Inr r" if "ss ! i = Inr r" for ss r "is"
    using that
  proof (induction "is" arbitrary: ss)
    case (Cons j js)
    then show ?case by (auto split: sum.splits) (metis Inr_Inl_False nth_list_update_neq)
  qed simp
  show ?case
  proof (cases "j = i")
    case True
    show ?thesis
    proof (cases "step d (ks ! i) s")
      case (Inl s')
      with step_more [OF Inl] Cons.prems True
      show ?thesis by (auto intro!: Cons.IH [where s = s'])
    next
      case (Inr r)
      with fin [of "ss[i := Inr r]" r js] Cons.prems True show ?thesis by auto
    qed
  next
    case False
    then have c: "left d (ks ! i) s < count_list js i" using Cons.prems(4) by simp
    show ?thesis
      using False Cons.prems(1-3) Cons.IH [OF _ _ _ c]
      by (auto split: sum.splits)
  qed
qed simp

end

end
