(* ===== verification/Htab.thy ===== *)
theory Htab
  imports Arena_List Jhash Phased
begin

text \<open>
  The arena hash table: \<open>libs/arena-ds/htab.h\<close>. The state is the \<open>struct htab\<close> and the arena
  memory behind it, split by the kind of field: pointer words (bucket heads, \<open>next\<close>, \<open>pprev\<close>),
  the \<open>hash\<close> field of an element, at the address of the element, and the key and value bytes.
  An element takes 24 bytes (\<open>sizeof(hashtab_elem_t)\<close>), then the key, then the value. The sizes of
  \<open>my_key_t\<close> and \<open>my_value_t\<close> are chosen by the including program and are a parameter.
\<close>

record htab_cfg =
  key_sz :: u16
  val_sz :: u16

record htab =
  buckets :: addr
  n_buckets :: u32
  elems :: addr
  elems_sz :: u64
  elems_used :: u64

record htab_mem =
  words :: words
  hash_at :: "addr \<Rightarrow> u32"
  byte_at :: bytes

definition MAX_BUCKET_LENGHT :: nat where "MAX_BUCKET_LENGHT = 8"
definition ELEM_HDR :: nat where "ELEM_HDR = 24"

definition EXTRACT_KEY :: "addr \<Rightarrow> addr" where
  "EXTRACT_KEY elm = elm + ELEM_HDR"

definition EXTRACT_VAL :: "htab_cfg \<Rightarrow> addr \<Rightarrow> addr" where
  "EXTRACT_VAL c elm = elm + ELEM_HDR + unat (key_sz c)"

definition HTAB_ENTRY_SZ :: "htab_cfg \<Rightarrow> nat" where
  "HTAB_ENTRY_SZ c = ELEM_HDR + unat (key_sz c) + unat (val_sz c)"

text \<open>The bytes at an address, as the object a pointer names.\<close>

definition bytes_at :: "htab_mem \<Rightarrow> addr \<Rightarrow> bytes" where
  "bytes_at m a = (\<lambda>i. byte_at m (a + i))"

definition set_bytes :: "htab_mem \<Rightarrow> addr \<Rightarrow> nat \<Rightarrow> bytes \<Rightarrow> htab_mem" where
  "set_bytes m a n b =
     m\<lparr>byte_at := (\<lambda>x. if a \<le> x \<and> x < a + n then b (x - a) else byte_at m x)\<rparr>"

definition htab_entry_get :: "htab_cfg \<Rightarrow> htab \<Rightarrow> addr \<times> htab" where
  "htab_entry_get c t =
     (let elem_sz = of_nat (HTAB_ENTRY_SZ c);
          available_mem = elems_sz t - elems_used t
      in if available_mem < elem_sz then (0, t)
         else (elems t + unat (elems_used t), t\<lparr>elems_used := elems_used t + elem_sz\<rparr>))"

definition select_bucket :: "htab \<Rightarrow> u32 \<Rightarrow> addr" where
  "select_bucket t hash = buckets t + 8 * unat (hash AND (n_buckets t - 1))"

text \<open>
  The bounded walk along a bucket: the counter is the number of turns of the
  \<open>for (i = 0; i < MAX_BUCKET_LENGHT; i++)\<close> that are left.
\<close>

fun lookup_walk :: "htab_mem \<Rightarrow> u32 \<Rightarrow> bytes \<Rightarrow> u16 \<Rightarrow> nat \<Rightarrow> addr \<Rightarrow> addr" where
  "lookup_walk m hash key ksz 0 l = 0"
| "lookup_walk m hash key ksz (Suc k) l =
     (if l = 0 then 0
      else if hash_at m l \<noteq> hash then lookup_walk m hash key ksz k (words m l)
      else if my_memcmp (bytes_at m (EXTRACT_KEY l)) key ksz = 0 then l
      else lookup_walk m hash key ksz k (words m l))"

definition lookup_elem_raw :: "htab_mem \<Rightarrow> addr \<Rightarrow> u32 \<Rightarrow> bytes \<Rightarrow> u16 \<Rightarrow> addr" where
  "lookup_elem_raw m head hash key ksz = lookup_walk m hash key ksz MAX_BUCKET_LENGHT (words m head)"

definition htab_hash :: "bytes \<Rightarrow> u16 \<Rightarrow> u32" where
  "htab_hash key sz =
     (if sz = 4 then jhash_1word (load32 key 0) JHASH_INITVAL
      else if sz = 8 then jhash_2words (load32 key 0) (load32 key 4) JHASH_INITVAL
      else jhash key (ucast sz) JHASH_INITVAL)"

text \<open>The address of the value, or null.\<close>

definition htab_lookup_elem :: "htab_cfg \<Rightarrow> htab \<Rightarrow> htab_mem \<Rightarrow> bytes \<Rightarrow> addr" where
  "htab_lookup_elem c t m key =
     (let hash = htab_hash key (key_sz c);
          head = select_bucket t hash;
          l_old = lookup_elem_raw m head hash key (key_sz c)
      in if l_old \<noteq> 0 then EXTRACT_VAL c l_old else 0)"

text \<open>The two phases of the split lookup; the first one prefetches the bucket head.\<close>

record partial_lookup_state =
  pl_head :: addr
  pl_hash :: u32

definition htab_lookup_elem_p1 :: "htab_cfg \<Rightarrow> htab \<Rightarrow> bytes \<Rightarrow> partial_lookup_state" where
  "htab_lookup_elem_p1 c t key =
     (let hash = htab_hash key (key_sz c)
      in \<lparr>pl_head = select_bucket t hash, pl_hash = hash\<rparr>)"

definition htab_lookup_elem_p2 ::
  "htab_cfg \<Rightarrow> htab_mem \<Rightarrow> bytes \<Rightarrow> partial_lookup_state \<Rightarrow> addr" where
  "htab_lookup_elem_p2 c m key s =
     (let l_old = lookup_elem_raw m (pl_head s) (pl_hash s) key (key_sz c)
      in if l_old \<noteq> 0 then EXTRACT_VAL c l_old else 0)"

text \<open>
  The update. For a key that is already there the code computes
  \<open>l_val = EXTRACT_VAL(htab, l_val)\<close> from the uninitialised \<open>l_val\<close>. The second part fills the
  new element and links it.
\<close>

definition fill_element ::
  "htab_cfg \<Rightarrow> htab_mem \<Rightarrow> addr \<Rightarrow> u32 \<Rightarrow> bytes \<Rightarrow> bytes \<Rightarrow> addr \<Rightarrow> htab_mem" where
  "fill_element c m l_new hash key value head =
     (let m = m\<lparr>hash_at := (hash_at m)(l_new := hash)\<rparr>;
          l_key = EXTRACT_KEY l_new;
          m = set_bytes m l_key (unat (key_sz c))
                (my_memcpy (bytes_at m l_key) key (key_sz c));
          l_val = l_key + unat (key_sz c);
          m = set_bytes m l_val (unat (val_sz c))
                (my_memcpy (bytes_at m l_val) value (val_sz c))
      in m\<lparr>words := list_add_head (words m) l_new head\<rparr>)"

definition htab_update_elem ::
  "htab_cfg \<Rightarrow> htab \<Rightarrow> htab_mem \<Rightarrow> bytes \<Rightarrow> bytes \<Rightarrow> (int \<times> htab \<times> htab_mem) checked" where
  "htab_update_elem c t m key value =
     (let hash = htab_hash key (key_sz c);
          head = select_bucket t hash;
          l_old = lookup_elem_raw m head hash key (key_sz c)
      in if l_old \<noteq> 0 then Inl Uninitialised
         else
           let (l_new, t) = htab_entry_get c t
           in if l_new = 0 then Inr (- ENOMEM, t, m)
              else Inr (0, t, fill_element c m l_new hash key value head))"

text \<open>
  The initialisation in user space. \<open>1 << counter\<close> shifts an \<open>int\<close>, which overflows from 31 on.
\<close>

fun count_bits :: "nat \<Rightarrow> nat" where
  "count_bits tmp = (if tmp = 0 then 0 else Suc (count_bits (tmp div 2)))"

declare count_bits.simps [simp del]

definition round_down_pow_two :: "nat \<Rightarrow> nat checked" where
  "round_down_pow_two x =
     (let counter = count_bits x in if counter < 31 then Inr (2 ^ counter) else Inl Signed_overflow)"

definition round_up_pow_two :: "u64 \<Rightarrow> nat checked" where
  "round_up_pow_two x =
     (if x AND (x - 1) = 0 then Inr (unat x)
      else checked_bind (round_down_pow_two (unat x)) (\<lambda>p. Inr (2 * p)))"

text \<open>
  The first word of every page is written, so that the pages are there. The sizes are kept in
  variables of type \<open>int\<close>; the total has to fit one. \<open>sizeof(htab_t)\<close> is 40 and is rounded up
  to 64. The number of pages is the second output.
\<close>

definition touch_pages :: "htab_mem \<Rightarrow> addr \<Rightarrow> nat \<Rightarrow> htab_mem" where
  "touch_pages m area count =
     m\<lparr>byte_at := (\<lambda>a. if area \<le> a \<and> (a - area) div 4096 < count \<and> (a - area) mod 4096 < 4
                      then 0 else byte_at m a),
       hash_at := (\<lambda>a. if area \<le> a \<and> (a - area) div 4096 < count \<and> (a - area) mod 4096 = 0
                      then 0 else hash_at m a),
       words := (\<lambda>a. if area \<le> a \<and> (a - area) div 4096 < count \<and> (a - area) mod 4096 = 0
                    then words m a div 2 ^ 32 * 2 ^ 32 else words m a)\<rparr>"

definition htab_init_userspace_2 ::
  "htab_cfg \<Rightarrow> htab_mem \<Rightarrow> addr \<Rightarrow> u32 \<Rightarrow> (htab \<times> htab_mem \<times> nat) checked" where
  "htab_init_userspace_2 c m area max_entries =
     checked_bind (round_up_pow_two (ucast max_entries)) (\<lambda>n.
       let htab_size_rounded = 64;
           mem_sz_buckets = n * 8 + htab_size_rounded;
           mem_sz_entries = unat max_entries * HTAB_ENTRY_SZ c;
           total_mem_sz = mem_sz_buckets + mem_sz_entries;
           count_pages = (total_mem_sz + 4096 - 1) div 4096;
           m = touch_pages m area count_pages;
           bs = area + htab_size_rounded;
           m = m\<lparr>words := (\<lambda>a. if bs \<le> a \<and> a < bs + mem_sz_buckets then 0 else words m a)\<rparr>
       in if total_mem_sz < 2 ^ 31
          then Inr (\<lparr>buckets = bs, n_buckets = of_nat n, elems = area + mem_sz_buckets,
                     elems_sz = of_nat mem_sz_entries, elems_used = 0\<rparr>, m, count_pages)
          else Inl Signed_overflow)"

definition htab_init_userspace ::
  "htab_cfg \<Rightarrow> htab_mem \<Rightarrow> addr \<Rightarrow> u32 \<Rightarrow> (htab \<times> htab_mem) checked" where
  "htab_init_userspace c m area max_entries =
     checked_bind (htab_init_userspace_2 c m area max_entries) (\<lambda>(t, m, _). Inr (t, m))"

definition htab_update_elem_userspace ::
  "htab_cfg \<Rightarrow> htab \<Rightarrow> htab_mem \<Rightarrow> bytes \<Rightarrow> bytes \<Rightarrow> (int \<times> htab \<times> htab_mem) checked" where
  "htab_update_elem_userspace c t m key value = htab_update_elem c t m key value"

subsection \<open>The hash of a key\<close>

lemma htab_hash_jhash: "htab_hash key sz = jhash key (ucast sz) JHASH_INITVAL"
  by (simp add: htab_hash_def jhash_4_eq_1word jhash_8_eq_2words)

lemma htab_hash_cong:
  assumes "\<And>i. i < unat sz \<Longrightarrow> a i = b i"
  shows "htab_hash a sz = htab_hash b sz"
proof -
  have "unat (ucast sz :: u32) = unat sz" by (rule unat_ucast_widen) simp
  then show ?thesis unfolding htab_hash_jhash using assms by (intro jhash_cong) simp
qed

subsection \<open>The walk is a bounded search of the bucket\<close>

definition matches :: "htab_mem \<Rightarrow> u32 \<Rightarrow> bytes \<Rightarrow> u16 \<Rightarrow> addr \<Rightarrow> bool" where
  "matches m hash key ksz x \<longleftrightarrow>
     hash_at m x = hash \<and> my_memcmp (bytes_at m (EXTRACT_KEY x)) key ksz = 0"

definition found :: "addr option \<Rightarrow> addr" where
  "found r = (case r of None \<Rightarrow> 0 | Some x \<Rightarrow> x)"

lemma lookup_walk_find:
  "chain (words m) l xs \<Longrightarrow>
     lookup_walk m hash key ksz k l = found (find (matches m hash key ksz) (take k xs))"
proof (induction k arbitrary: l xs)
  case 0
  then show ?case by (simp add: found_def)
next
  case (Suc k)
  then show ?case by (cases xs) (auto simp: found_def matches_def)
qed

lemma find_mem: "find P xs = Some x \<Longrightarrow> x \<in> set xs \<and> P x"
  by (auto simp: find_Some_iff in_set_conv_nth)

subsection \<open>The invariant\<close>

text \<open>
  Element \<open>j\<close> of the element area is at \<open>slot c t j\<close>. In a well-formed table with \<open>cnt\<close>
  elements, bucket \<open>b\<close> is the list of the elements with the indices \<open>I b\<close>; an element carries
  the hash of its key and sits in the bucket that the hash selects.
\<close>

definition slot :: "htab_cfg \<Rightarrow> htab \<Rightarrow> nat \<Rightarrow> addr" where
  "slot c t j = elems t + j * HTAB_ENTRY_SZ c"

definition key_at :: "htab_cfg \<Rightarrow> htab \<Rightarrow> htab_mem \<Rightarrow> nat \<Rightarrow> bytes" where
  "key_at c t m j = bytes_at m (EXTRACT_KEY (slot c t j))"

definition bucket_of :: "htab_cfg \<Rightarrow> htab \<Rightarrow> bytes \<Rightarrow> nat" where
  "bucket_of c t key = unat (htab_hash key (key_sz c) AND (n_buckets t - 1))"

definition same_key :: "htab_cfg \<Rightarrow> bytes \<Rightarrow> bytes \<Rightarrow> bool" where
  "same_key c a b \<longleftrightarrow> (\<forall>i < unat (key_sz c). a i = b i)"

definition htab_shape :: "htab_cfg \<Rightarrow> htab \<Rightarrow> nat \<Rightarrow> bool" where
  "htab_shape c t cnt \<longleftrightarrow>
     unat (key_sz c) \<le> MEM_LIMIT \<and> unat (val_sz c) \<le> MEM_LIMIT
     \<and> (\<exists>k < 32. unat (n_buckets t) = 2 ^ k)
     \<and> 0 < buckets t \<and> buckets t + 8 * unat (n_buckets t) \<le> elems t
     \<and> unat (elems_used t) = cnt * HTAB_ENTRY_SZ c \<and> elems_used t \<le> elems_sz t"

definition bucket_ok ::
  "htab_cfg \<Rightarrow> htab \<Rightarrow> htab_mem \<Rightarrow> nat \<Rightarrow> nat \<Rightarrow> nat list \<Rightarrow> bool" where
  "bucket_ok c t m cnt b is \<longleftrightarrow>
     dlist (words m) (buckets t + 8 * b) (map (slot c t) is) \<and> distinct is
     \<and> (\<forall>j \<in> set is. j < cnt \<and> bucket_of c t (key_at c t m j) = b
          \<and> hash_at m (slot c t j) = htab_hash (key_at c t m j) (key_sz c))"

definition htab_inv ::
  "htab_cfg \<Rightarrow> htab \<Rightarrow> htab_mem \<Rightarrow> nat \<Rightarrow> (nat \<Rightarrow> nat list) \<Rightarrow> bool" where
  "htab_inv c t m cnt I \<longleftrightarrow>
     htab_shape c t cnt \<and> (\<forall>b < unat (n_buckets t). bucket_ok c t m cnt b (I b))"

lemma same_key_refl [simp]: "same_key c a a" by (simp add: same_key_def)

lemma same_key_sym: "same_key c a b \<longleftrightarrow> same_key c b a" by (auto simp: same_key_def)

lemma same_key_hash: "same_key c a b \<Longrightarrow> htab_hash a (key_sz c) = htab_hash b (key_sz c)"
  by (rule htab_hash_cong) (simp add: same_key_def)

lemma same_key_bucket: "same_key c a b \<Longrightarrow> bucket_of c t a = bucket_of c t b"
  by (simp add: bucket_of_def same_key_hash)

lemma memcmp_same_key:
  "unat (key_sz c) \<le> MEM_LIMIT \<Longrightarrow> my_memcmp a b (key_sz c) = 0 \<longleftrightarrow> same_key c a b"
  by (simp add: my_memcmp_zero same_key_def)

lemma bucket_of_less:
  assumes "unat (n_buckets t) = 2 ^ k" and "k < 32"
  shows "bucket_of c t key < unat (n_buckets t)"
proof -
  have n: "n_buckets t = 2 ^ k"
  proof -
    have "n_buckets t = of_nat (unat (n_buckets t))" by simp
    also have "\<dots> = 2 ^ k" by (simp only: assms(1) of_nat_power of_nat_numeral)
    finally show ?thesis .
  qed
  have "x AND (n_buckets t - 1) = take_bit k x" for x
    by (simp add: n take_bit_eq_mask mask_eq_exp_minus_1)
  then have "bucket_of c t key = unat (take_bit k (htab_hash key (key_sz c)))"
    by (simp add: bucket_of_def)
  also have "\<dots> = take_bit k (unat (htab_hash key (key_sz c)))" by (rule unsigned_take_bit_eq)
  also have "\<dots> < 2 ^ k" by (rule take_bit_nat_less_exp)
  finally show ?thesis by (simp add: assms(1))
qed

lemma htab_inv_bucket:
  assumes "htab_inv c t m cnt I"
  shows "bucket_ok c t m cnt (bucket_of c t key) (I (bucket_of c t key))"
  using assms bucket_of_less by (auto simp: htab_inv_def htab_shape_def)

subsection \<open>What a lookup finds\<close>

text \<open>The first element among the first eight of the key's bucket that has the key.\<close>

definition htab_find :: "htab_cfg \<Rightarrow> htab \<Rightarrow> htab_mem \<Rightarrow> (nat \<Rightarrow> nat list) \<Rightarrow> bytes \<Rightarrow> nat option" where
  "htab_find c t m I key =
     find (\<lambda>j. same_key c (key_at c t m j) key) (take MAX_BUCKET_LENGHT (I (bucket_of c t key)))"

lemma find_map_on:
  "(\<And>x. x \<in> set xs \<Longrightarrow> P (f x) = Q x) \<Longrightarrow> find P (map f xs) = map_option f (find Q xs)"
  by (induction xs) auto

lemma lookup_elem_raw_find:
  assumes inv: "htab_inv c t m cnt I"
  shows "lookup_elem_raw m (select_bucket t (htab_hash key (key_sz c))) (htab_hash key (key_sz c))
           key (key_sz c) = found (map_option (slot c t) (htab_find c t m I key))"
proof -
  let ?b = "bucket_of c t key" and ?h = "htab_hash key (key_sz c)"
  have ok: "bucket_ok c t m cnt ?b (I ?b)" by (rule htab_inv_bucket [OF inv])
  have ks: "unat (key_sz c) \<le> MEM_LIMIT" using inv by (simp add: htab_inv_def htab_shape_def)
  have head: "select_bucket t ?h = buckets t + 8 * ?b" by (simp add: select_bucket_def bucket_of_def)
  have "chain (words m) (words m (buckets t + 8 * ?b)) (map (slot c t) (I ?b))"
    using ok by (intro dlist_chain) (simp add: bucket_ok_def)
  from lookup_walk_find [OF this]
  have "lookup_elem_raw m (select_bucket t ?h) ?h key (key_sz c)
      = found (find (matches m ?h key (key_sz c)) (map (slot c t) (take MAX_BUCKET_LENGHT (I ?b))))"
    by (simp add: lookup_elem_raw_def head take_map)
  also have "find (matches m ?h key (key_sz c)) (map (slot c t) (take MAX_BUCKET_LENGHT (I ?b)))
      = map_option (slot c t) (htab_find c t m I key)"
    unfolding htab_find_def
  proof (rule find_map_on)
    fix j assume "j \<in> set (take MAX_BUCKET_LENGHT (I ?b))"
    then have "hash_at m (slot c t j) = htab_hash (key_at c t m j) (key_sz c)"
      using ok by (auto simp: bucket_ok_def dest: in_set_takeD)
    then show "matches m ?h key (key_sz c) (slot c t j) = same_key c (key_at c t m j) key"
      using memcmp_same_key [OF ks] same_key_hash by (auto simp: matches_def key_at_def)
  qed
  finally show ?thesis .
qed

lemma slot_nonzero: "htab_shape c t cnt \<Longrightarrow> slot c t j \<noteq> 0"
  by (auto simp: htab_shape_def slot_def)

lemma htab_lookup_find:
  assumes inv: "htab_inv c t m cnt I"
  shows "htab_lookup_elem c t m key =
    (case htab_find c t m I key of None \<Rightarrow> 0 | Some j \<Rightarrow> EXTRACT_VAL c (slot c t j))"
proof -
  have "slot c t j \<noteq> 0" for j using inv slot_nonzero by (auto simp: htab_inv_def)
  then show ?thesis
    by (simp add: htab_lookup_elem_def lookup_elem_raw_find [OF inv] found_def split: option.splits)
qed

subsection \<open>Insertion of a fresh key\<close>

lemma slot_less: "i < j \<Longrightarrow> slot c t i + HTAB_ENTRY_SZ c \<le> slot c t j"
proof -
  assume "i < j"
  then have "Suc i * HTAB_ENTRY_SZ c \<le> j * HTAB_ENTRY_SZ c" by (intro mult_le_mono1) simp
  then show ?thesis by (simp add: slot_def)
qed

lemma entry_sz_ge: "24 + unat (key_sz c) + unat (val_sz c) = HTAB_ENTRY_SZ c"
  by (simp add: HTAB_ENTRY_SZ_def ELEM_HDR_def)

lemma slot_apart: "i \<noteq> j \<Longrightarrow> d < HTAB_ENTRY_SZ c \<Longrightarrow> e < HTAB_ENTRY_SZ c
    \<Longrightarrow> slot c t i + d \<noteq> slot c t j + e"
  using slot_less [of i j c t] slot_less [of j i c t] by (cases i j rule: linorder_cases) auto

lemma slot_inj: "slot c t i = slot c t j \<Longrightarrow> i = j"
  using slot_apart [of i j 0 c 0 t] entry_sz_ge [of c] by auto

lemma slot_inj_set [simp]: "inj_on (slot c t) A"
  by (auto intro: inj_onI slot_inj)

lemma entry_get_room:
  assumes "htab_shape c t cnt" and "unat (elems_used t) + HTAB_ENTRY_SZ c \<le> unat (elems_sz t)"
  shows "htab_entry_get c t = (slot c t cnt, t\<lparr>elems_used := elems_used t + of_nat (HTAB_ENTRY_SZ c)\<rparr>)"
    and "htab_shape c (t\<lparr>elems_used := elems_used t + of_nat (HTAB_ENTRY_SZ c)\<rparr>) (Suc cnt)"
proof -
  have E: "HTAB_ENTRY_SZ c < 2 ^ 64"
    using unat_bound [of "elems_sz t"] assms(2) by simp
  then have n: "unat (of_nat (HTAB_ENTRY_SZ c) :: u64) = HTAB_ENTRY_SZ c"
    by (intro unat_of_nat_small) simp
  have "unat (elems_used t + of_nat (HTAB_ENTRY_SZ c)) = unat (elems_used t) + HTAB_ENTRY_SZ c"
    using assms(2) unat_bound [of "elems_sz t"] by (subst unat_add_no_wrap) (simp_all add: n)
  note used = this
  have "unat (elems_sz t - elems_used t) = unat (elems_sz t) - unat (elems_used t)"
    using assms(1) by (intro unat_sub) (simp add: htab_shape_def)
  then have "\<not> elems_sz t - elems_used t < of_nat (HTAB_ENTRY_SZ c)"
    using assms(2) n by (simp add: word_less_nat_alt)
  then show "htab_entry_get c t = (slot c t cnt, t\<lparr>elems_used := elems_used t + of_nat (HTAB_ENTRY_SZ c)\<rparr>)"
    using assms(1) by (simp add: htab_entry_get_def Let_def slot_def htab_shape_def)
  show "htab_shape c (t\<lparr>elems_used := elems_used t + of_nat (HTAB_ENTRY_SZ c)\<rparr>) (Suc cnt)"
    using assms used by (simp add: htab_shape_def word_le_nat_alt)
qed

lemma entry_get_full:
  assumes "htab_shape c t cnt" and "unat (elems_sz t) < unat (elems_used t) + HTAB_ENTRY_SZ c"
  shows "htab_entry_get c t = (0, t)"
proof -
  have "HTAB_ENTRY_SZ c < 2 ^ 64"
    using unat_bound [of "key_sz c"] unat_bound [of "val_sz c"]
    by (simp add: HTAB_ENTRY_SZ_def ELEM_HDR_def)
  then have n: "unat (of_nat (HTAB_ENTRY_SZ c) :: u64) = HTAB_ENTRY_SZ c"
    by (intro unat_of_nat_small) simp
  have "unat (elems_sz t - elems_used t) = unat (elems_sz t) - unat (elems_used t)"
    using assms(1) by (intro unat_sub) (simp add: htab_shape_def)
  then have "elems_sz t - elems_used t < of_nat (HTAB_ENTRY_SZ c)"
    using assms n by (auto simp add: word_less_nat_alt htab_shape_def word_le_nat_alt)
  then show ?thesis by (simp add: htab_entry_get_def Let_def)
qed

text \<open>The memory after the fields of a new element are written and it is linked.\<close>

definition stored :: "htab_cfg \<Rightarrow> htab_mem \<Rightarrow> addr \<Rightarrow> u32 \<Rightarrow> bytes \<Rightarrow> bytes \<Rightarrow> addr \<Rightarrow> htab_mem" where
  "stored c m n hash key value head =
     \<lparr>words = list_add_head (words m) n head, hash_at = (hash_at m)(n := hash),
      byte_at = (\<lambda>a. if n + 24 \<le> a \<and> a < n + 24 + unat (key_sz c) then key (a - (n + 24))
        else if n + 24 + unat (key_sz c) \<le> a \<and> a < n + HTAB_ENTRY_SZ c
             then value (a - (n + 24 + unat (key_sz c))) else byte_at m a)\<rparr>"

lemma fill_element_stored:
  assumes "unat (key_sz c) \<le> MEM_LIMIT" and "unat (val_sz c) \<le> MEM_LIMIT"
  shows "fill_element c m n hash key value head = stored c m n hash key value head"
  using assms entry_sz_ge [of c, symmetric]
  by (intro htab_mem.equality)
    (auto simp: fill_element_def Let_def set_bytes_def stored_def EXTRACT_KEY_def ELEM_HDR_def
      fun_eq_iff)

lemma htab_update_fresh:
  assumes inv: "htab_inv c t m cnt I" and new: "htab_find c t m I key = None"
    and room: "unat (elems_used t) + HTAB_ENTRY_SZ c \<le> unat (elems_sz t)"
  shows "htab_update_elem c t m key value =
    Inr (0, t\<lparr>elems_used := elems_used t + of_nat (HTAB_ENTRY_SZ c)\<rparr>,
         stored c m (slot c t cnt) (htab_hash key (key_sz c)) key value
           (buckets t + 8 * bucket_of c t key))"
proof -
  have shape: "htab_shape c t cnt" using inv by (simp add: htab_inv_def)
  have head: "select_bucket t (htab_hash key (key_sz c)) = buckets t + 8 * bucket_of c t key"
    by (simp add: select_bucket_def bucket_of_def)
  have l0: "lookup_elem_raw m (buckets t + 8 * bucket_of c t key) (htab_hash key (key_sz c)) key
      (key_sz c) = 0"
    using lookup_elem_raw_find [OF inv, of key] new by (simp add: found_def head)
  have "unat (key_sz c) \<le> MEM_LIMIT" "unat (val_sz c) \<le> MEM_LIMIT"
    using shape by (auto simp: htab_shape_def)
  from fill_element_stored [OF this] show ?thesis
    using slot_nonzero [OF shape, of cnt]
    by (simp add: htab_update_elem_def head l0 entry_get_room(1) [OF shape room])
qed

lemma stored_keys:
  assumes "unat (key_sz c) \<le> MEM_LIMIT"
  shows "i < unat (key_sz c) \<Longrightarrow> key_at c t (stored c m (slot c t cnt) h key value head) cnt i = key i"
    and "j \<noteq> cnt \<Longrightarrow> i < unat (key_sz c) \<Longrightarrow>
      key_at c t (stored c m (slot c t cnt) h key value head) j i = key_at c t m j i"
    and "i < unat (val_sz c) \<Longrightarrow>
      bytes_at (stored c m (slot c t cnt) h key value head) (EXTRACT_VAL c (slot c t cnt)) i = value i"
    and "j \<noteq> cnt \<Longrightarrow> i < unat (val_sz c) \<Longrightarrow>
      bytes_at (stored c m (slot c t cnt) h key value head) (EXTRACT_VAL c (slot c t j)) i
        = bytes_at m (EXTRACT_VAL c (slot c t j)) i"
proof -
  show "key_at c t (stored c m (slot c t cnt) h key value head) cnt i = key i"
    if "i < unat (key_sz c)"
    using that by (simp add: key_at_def bytes_at_def EXTRACT_KEY_def ELEM_HDR_def stored_def)
  show "bytes_at (stored c m (slot c t cnt) h key value head) (EXTRACT_VAL c (slot c t cnt)) i = value i"
    if "i < unat (val_sz c)"
    using that entry_sz_ge [of c]
    by (simp add: bytes_at_def EXTRACT_VAL_def ELEM_HDR_def stored_def)
  have far: "\<not> (slot c t cnt \<le> a \<and> a < slot c t cnt + HTAB_ENTRY_SZ c)"
    if "j \<noteq> cnt" and "slot c t j \<le> a" and "a < slot c t j + HTAB_ENTRY_SZ c" for a
    using that slot_less [of j cnt c t] slot_less [of cnt j c t]
    by (cases j cnt rule: linorder_cases) auto
  show "key_at c t (stored c m (slot c t cnt) h key value head) j i = key_at c t m j i"
    if "j \<noteq> cnt" and "i < unat (key_sz c)"
    using that far [of "slot c t j + 24 + i"] entry_sz_ge [of c]
    by (auto simp: key_at_def bytes_at_def EXTRACT_KEY_def ELEM_HDR_def stored_def)
  show "bytes_at (stored c m (slot c t cnt) h key value head) (EXTRACT_VAL c (slot c t j)) i
        = bytes_at m (EXTRACT_VAL c (slot c t j)) i"
    if "j \<noteq> cnt" and "i < unat (val_sz c)"
    using that far [of "slot c t j + 24 + unat (key_sz c) + i"] entry_sz_ge [of c]
    by (auto simp: bytes_at_def EXTRACT_VAL_def ELEM_HDR_def stored_def)
qed

lemma used_irrelevant [simp]:
  "slot c (t\<lparr>elems_used := u\<rparr>) = slot c t" "bucket_of c (t\<lparr>elems_used := u\<rparr>) = bucket_of c t"
  "key_at c (t\<lparr>elems_used := u\<rparr>) m = key_at c t m"
  by (auto simp: slot_def bucket_of_def key_at_def fun_eq_iff)

abbreviation insert_index :: "(nat \<Rightarrow> nat list) \<Rightarrow> nat \<Rightarrow> nat \<Rightarrow> nat \<Rightarrow> nat list" where
  "insert_index I b j \<equiv> I(b := j # I b)"

lemma slots_above_buckets:
  assumes "htab_shape c t cnt" and "b < unat (n_buckets t)"
  shows "buckets t + 8 * b < slot c t j"
  using assms by (auto simp: htab_shape_def slot_def)

lemma node_words_slots: "a \<in> node_words (map (slot c t) js) \<longleftrightarrow>
    (\<exists>j \<in> set js. a = slot c t j \<or> a = slot c t j + 8)"
  by (auto simp: node_words_def)

lemma stored_bucket:
  assumes inv: "htab_inv c t m cnt I" and b: "b < unat (n_buckets t)"
    and bk: "bk = bucket_of c t key"
  shows "dlist (words (stored c m (slot c t cnt) h key value (buckets t + 8 * bk)))
           (buckets t + 8 * b) (map (slot c t) (insert_index I bk cnt b))"
proof -
  have shape: "htab_shape c t cnt" and oks: "\<And>b. b < unat (n_buckets t) \<Longrightarrow> bucket_ok c t m cnt b (I b)"
    using inv by (auto simp: htab_inv_def)
  have bkl: "bk < unat (n_buckets t)"
    using shape bucket_of_less by (auto simp: bk htab_shape_def)
  have E: "24 \<le> HTAB_ENTRY_SZ c" using entry_sz_ge [of c] by linarith
  have cross: "slot c t i \<noteq> slot c t j + 8" for i j
    using slot_apart [of i j 0 c 8 t] E by (cases "i = j") auto
  have cross8: "slot c t i + 8 = slot c t j + 8 \<longleftrightarrow> i = j" "slot c t i = slot c t j \<longleftrightarrow> i = j" for i j
    using slot_inj by auto
  have heads: "buckets t + 8 * b' \<noteq> slot c t j" "buckets t + 8 * b' \<noteq> slot c t j + 8"
    if "b' < unat (n_buckets t)" for b' j
    using slots_above_buckets [OF shape that, of j] by auto
  have old: "cnt \<notin> set (I b')" if "b' < unat (n_buckets t)" for b'
    using oks [OF that] by (auto simp: bucket_ok_def)
  have dl: "dlist (words m) (buckets t + 8 * b') (map (slot c t) (I b'))" and
    di: "distinct (I b')" if "b' < unat (n_buckets t)" for b'
    using oks [OF that] by (auto simp: bucket_ok_def)
  show ?thesis
  proof (cases "b = bk")
    case True
    have "fresh_node (slot c t cnt) (buckets t + 8 * bk) (map (slot c t) (I bk))"
      using old [OF bkl] heads [OF bkl] cross cross [THEN not_sym] slot_nonzero [OF shape, of cnt] slot_inj
      by (auto simp: fresh_node_def node_words_slots slot_inj dest: slot_inj)
    moreover have "x + 8 \<notin> insert x (node_words ys)" if xs: "map (slot c t) (I bk) = x # ys" for x ys
    proof -
      obtain i js where js: "I bk = i # js" "x = slot c t i" "ys = map (slot c t) js"
        using xs by (cases "I bk") auto
      have "i \<notin> set js" using di [OF bkl] js(1) by simp
      then show ?thesis
        unfolding js(2,3) insert_iff node_words_slots cross8 using cross [THEN not_sym] by auto
    qed
    ultimately show ?thesis
      using list_add_head_dlist [OF dl [OF bkl]] True by (simp add: stored_def)
  next
    case False
    have "words m (buckets t + 8 * bk) + 8 \<notin> insert (buckets t + 8 * b) (node_words (map (slot c t) (I b)))"
      if nz: "words m (buckets t + 8 * bk) \<noteq> 0"
    proof -
      obtain i js where js: "I bk = i # js" "words m (buckets t + 8 * bk) = slot c t i"
        using dl [OF bkl] nz by (cases "I bk") auto
      have "i \<notin> set (I b)"
        using oks [OF bkl] oks [OF b] js(1) False by (auto simp: bucket_ok_def)
      then show ?thesis
        unfolding js(2) insert_iff node_words_slots cross8
        using heads(2) [OF b, of i] cross [THEN not_sym] by auto
    qed
    moreover have "buckets t + 8 * bk \<notin> insert (buckets t + 8 * b) (node_words (map (slot c t) (I b)))"
      using False heads [OF bkl] by (auto simp: node_words_slots)
    moreover have "slot c t cnt \<notin> insert (buckets t + 8 * b) (node_words (map (slot c t) (I b)))"
      "slot c t cnt + 8 \<notin> insert (buckets t + 8 * b) (node_words (map (slot c t) (I b)))"
      unfolding insert_iff node_words_slots cross8
      using heads [OF b, of cnt] old [OF b] cross cross [THEN not_sym] by (auto simp: cross8)
    ultimately have "dlist (list_add_head (words m) (slot c t cnt) (buckets t + 8 * bk))
        (buckets t + 8 * b) (map (slot c t) (I b)) = dlist (words m) (buckets t + 8 * b) (map (slot c t) (I b))"
      by (intro dlist_cong list_add_head_frame) auto
    then show ?thesis using dl [OF b] False by (simp add: stored_def)
  qed
qed

lemma stored_hash [simp]:
  "hash_at (stored c m n h key value head) = (hash_at m)(n := h)"
  by (simp add: stored_def)

lemma stored_same_key:
  assumes "unat (key_sz c) \<le> MEM_LIMIT"
  shows "same_key c (key_at c t (stored c m (slot c t cnt) h key value head) j)
    (if j = cnt then key else key_at c t m j)"
  using stored_keys(1,2) [OF assms] by (simp add: same_key_def)

lemma stored_inv:
  assumes inv: "htab_inv c t m cnt I" and room: "unat (elems_used t) + HTAB_ENTRY_SZ c \<le> unat (elems_sz t)"
  shows "htab_inv c (t\<lparr>elems_used := elems_used t + of_nat (HTAB_ENTRY_SZ c)\<rparr>)
    (stored c m (slot c t cnt) (htab_hash key (key_sz c)) key value (buckets t + 8 * bucket_of c t key))
    (Suc cnt) (insert_index I (bucket_of c t key) cnt)"
    (is "htab_inv c ?t ?m _ ?I")
proof -
  have shape: "htab_shape c t cnt" and oks: "\<And>b. b < unat (n_buckets t) \<Longrightarrow> bucket_ok c t m cnt b (I b)"
    using inv by (auto simp: htab_inv_def)
  have ks: "unat (key_sz c) \<le> MEM_LIMIT" using shape by (simp add: htab_shape_def)
  have sk: "same_key c (key_at c t ?m j) (if j = cnt then key else key_at c t m j)" for j
    by (rule stored_same_key [OF ks])
  have skb: "bucket_of c t (key_at c t ?m j) = bucket_of c t (if j = cnt then key else key_at c t m j)"
    and skh: "htab_hash (key_at c t ?m j) (key_sz c) =
      htab_hash (if j = cnt then key else key_at c t m j) (key_sz c)" for j
    using sk [of j] same_key_bucket same_key_hash by blast+
  have "bucket_ok c ?t ?m (Suc cnt) b (?I b)" if b: "b < unat (n_buckets t)" for b
  proof -
    have old: "cnt \<notin> set (I b)" "distinct (I b)"
      and each: "\<And>j. j \<in> set (I b) \<Longrightarrow> j < cnt \<and> bucket_of c t (key_at c t m j) = b
          \<and> hash_at m (slot c t j) = htab_hash (key_at c t m j) (key_sz c)"
      using oks [OF b] by (auto simp: bucket_ok_def)
    have "j < Suc cnt \<and> bucket_of c t (key_at c t ?m j) = b
        \<and> hash_at ?m (slot c t j) = htab_hash (key_at c t ?m j) (key_sz c)" if "j \<in> set (?I b)" for j
    proof (cases "j = cnt")
      case True
      with that old have "b = bucket_of c t key" by (auto split: if_splits)
      then show ?thesis
        using skb [of cnt] skh [of cnt] True by simp
    next
      case False
      with that have "j \<in> set (I b)" by (auto split: if_splits)
      from each [OF this] show ?thesis
        using skb [of j] skh [of j] False slot_inj [of c t j cnt] by auto
    qed
    moreover have "distinct (?I b)" using old by auto
    ultimately show ?thesis
      using stored_bucket [OF inv b refl, of "htab_hash key (key_sz c)" key "value"]
      unfolding bucket_ok_def by simp
  qed
  then show ?thesis using entry_get_room(2) [OF shape room] by (simp add: htab_inv_def)
qed

subsection \<open>The table as a finite map\<close>

lemma find_cons_fresh:
  "find P (take (Suc k) (x # xs)) = (if P x then Some x else find P (take k xs))"
  by simp

lemma htab_find_stored:
  assumes inv: "htab_inv c t m cnt I" and ks: "unat (key_sz c) \<le> MEM_LIMIT"
    and m': "m' = stored c m (slot c t cnt) h key value head"
  shows "same_key c key key' \<Longrightarrow>
      htab_find c t m' (insert_index I (bucket_of c t key) cnt) key' = Some cnt"
    and "\<lbrakk>\<not> same_key c key key'; bucket_of c t key' \<noteq> bucket_of c t key
          \<or> length (I (bucket_of c t key)) < MAX_BUCKET_LENGHT; bucket_of c t key' < unat (n_buckets t)\<rbrakk>
      \<Longrightarrow> htab_find c t m' (insert_index I (bucket_of c t key) cnt) key' = htab_find c t m I key'"
proof -
  have sk: "same_key c (key_at c t m' j) k \<longleftrightarrow> same_key c (if j = cnt then key else key_at c t m j) k" for j k
    using stored_same_key [OF ks, of t m cnt h key "value" head j] unfolding m' same_key_def by auto
  show "htab_find c t m' (insert_index I (bucket_of c t key) cnt) key' = Some cnt"
    if "same_key c key key'"
    using that same_key_bucket [OF that, of t] by (simp add: htab_find_def sk MAX_BUCKET_LENGHT_def)
  have cnt: "cnt \<notin> set (I b)" if "b < unat (n_buckets t)" for b
    using inv that by (auto simp: htab_inv_def bucket_ok_def)
  show "htab_find c t m' (insert_index I (bucket_of c t key) cnt) key' = htab_find c t m I key'"
    if n: "\<not> same_key c key key'" and sp: "bucket_of c t key' \<noteq> bucket_of c t key
          \<or> length (I (bucket_of c t key)) < MAX_BUCKET_LENGHT" and b: "bucket_of c t key' < unat (n_buckets t)"
  proof -
    have same: "find (\<lambda>j. same_key c (key_at c t m' j) key') js = find (\<lambda>j. same_key c (key_at c t m j) key') js"
      if "set js \<subseteq> set (I (bucket_of c t key'))" for js
      using cnt [OF b] that by (intro find_cong refl) (auto simp: sk)
    show ?thesis
    proof (cases "bucket_of c t key' = bucket_of c t key")
      case True
      with sp have "length (I (bucket_of c t key)) \<le> 7" by (simp add: MAX_BUCKET_LENGHT_def)
      then show ?thesis
        using same [of "I (bucket_of c t key')"] n True by (simp add: htab_find_def sk MAX_BUCKET_LENGHT_def)
    next
      case False
      then show ?thesis
        using same [OF set_take_subset] by (simp add: htab_find_def)
    qed
  qed
qed

text \<open>C33. Inserting a fresh key: the update succeeds and keeps the table well formed; a lookup of the
  key then yields the address of a copy of the value; and every other key keeps its lookup result
  and its value, unless it lives in the same bucket and that bucket already holds eight elements.\<close>

theorem htab_insert_lookup:
  assumes inv: "htab_inv c t m cnt I" and new: "htab_lookup_elem c t m key = 0"
    and room: "unat (elems_used t) + HTAB_ENTRY_SZ c \<le> unat (elems_sz t)"
  shows "\<exists>t' m'. htab_update_elem c t m key value = Inr (0, t', m')
    \<and> htab_inv c t' m' (Suc cnt) (insert_index I (bucket_of c t key) cnt)
    \<and> htab_lookup_elem c t' m' key \<noteq> 0
    \<and> (\<forall>i < unat (val_sz c). bytes_at m' (htab_lookup_elem c t' m' key) i = value i)
    \<and> (\<forall>key'. \<not> same_key c key key'
        \<and> (bucket_of c t key' \<noteq> bucket_of c t key
           \<or> length (I (bucket_of c t key)) < MAX_BUCKET_LENGHT) \<longrightarrow>
          htab_lookup_elem c t' m' key' = htab_lookup_elem c t m key'
          \<and> (\<forall>i < unat (val_sz c). htab_lookup_elem c t m key' \<noteq> 0 \<longrightarrow>
               bytes_at m' (htab_lookup_elem c t m key') i = bytes_at m (htab_lookup_elem c t m key') i))"
proof -
  have shape: "htab_shape c t cnt" using inv by (simp add: htab_inv_def)
  have ks: "unat (key_sz c) \<le> MEM_LIMIT" using shape by (simp add: htab_shape_def)
  have nz: "EXTRACT_VAL c (slot c t j) \<noteq> 0" for j by (simp add: EXTRACT_VAL_def ELEM_HDR_def)
  have none: "htab_find c t m I key = None"
    using new by (simp add: htab_lookup_find [OF inv] EXTRACT_VAL_def ELEM_HDR_def split: option.splits)
  define t' where "t' = t\<lparr>elems_used := elems_used t + of_nat (HTAB_ENTRY_SZ c)\<rparr>"
  define m' where "m' = stored c m (slot c t cnt) (htab_hash key (key_sz c)) key value
    (buckets t + 8 * bucket_of c t key)"
  have upd: "htab_update_elem c t m key value = Inr (0, t', m')"
    unfolding t'_def m'_def by (rule htab_update_fresh [OF inv none room])
  have inv': "htab_inv c t' m' (Suc cnt) (insert_index I (bucket_of c t key) cnt)"
    unfolding t'_def m'_def by (rule stored_inv [OF inv room])
  have ft: "htab_find c t' = htab_find c t" "slot c t' = slot c t"
    by (simp_all add: htab_find_def t'_def fun_eq_iff)
  note find' = htab_find_stored [OF inv ks m'_def]
  have here: "htab_lookup_elem c t' m' key = EXTRACT_VAL c (slot c t cnt)"
    by (simp add: htab_lookup_find [OF inv'] find'(1) ft)
  have other: "htab_lookup_elem c t' m' key' = htab_lookup_elem c t m key'"
    and vals: "htab_lookup_elem c t m key' \<noteq> 0 \<Longrightarrow> i < unat (val_sz c) \<Longrightarrow>
      bytes_at m' (htab_lookup_elem c t m key') i = bytes_at m (htab_lookup_elem c t m key') i"
    if "\<not> same_key c key key'" and "bucket_of c t key' \<noteq> bucket_of c t key
           \<or> length (I (bucket_of c t key)) < MAX_BUCKET_LENGHT" for key' i
  proof -
    have b: "bucket_of c t key' < unat (n_buckets t)"
      using shape bucket_of_less by (auto simp: htab_shape_def)
    show "htab_lookup_elem c t' m' key' = htab_lookup_elem c t m key'"
      by (simp add: htab_lookup_find [OF inv'] htab_lookup_find [OF inv] ft find'(2) [OF that b]
          split: option.split)
    assume "htab_lookup_elem c t m key' \<noteq> 0" and i: "i < unat (val_sz c)"
    then obtain j where j: "htab_find c t m I key' = Some j"
      by (auto simp: htab_lookup_find [OF inv] split: option.splits)
    have "j \<in> set (I (bucket_of c t key'))"
      using find_mem [OF j [unfolded htab_find_def]] by (auto dest: in_set_takeD)
    then have "j \<noteq> cnt" using htab_inv_bucket [OF inv, of key'] by (auto simp: bucket_ok_def)
    then show "bytes_at m' (htab_lookup_elem c t m key') i = bytes_at m (htab_lookup_elem c t m key') i"
      by (simp add: htab_lookup_find [OF inv] j m'_def stored_keys(4) [OF ks] i)
  qed
  show ?thesis
    using upd inv' here nz stored_keys(3) [OF ks] other vals
    by (intro exI [of _ t'] exI [of _ m']) (auto simp: m'_def)
qed

text \<open>A table with four-byte keys and values, two buckets and room for two elements.\<close>

definition ex_cfg :: htab_cfg where "ex_cfg = \<lparr>key_sz = 4, val_sz = 4\<rparr>"
definition ex_tab :: htab where
  "ex_tab = \<lparr>buckets = 64, n_buckets = 2, elems = 144, elems_sz = 64, elems_used = 0\<rparr>"
definition ex_mem :: htab_mem where
  "ex_mem = \<lparr>words = (\<lambda>_. 0), hash_at = (\<lambda>_. 0), byte_at = (\<lambda>_. 0)\<rparr>"

lemma ex_inv: "htab_inv ex_cfg ex_tab ex_mem 0 (\<lambda>_. [])"
  unfolding htab_inv_def htab_shape_def bucket_ok_def ex_cfg_def ex_tab_def ex_mem_def MEM_LIMIT_def
  by (auto intro: exI [of _ 1])

lemma ex_empty: "htab_lookup_elem ex_cfg ex_tab ex_mem key = 0"
  by (simp add: htab_lookup_find [OF ex_inv] htab_find_def)

theorem htab_insert_lookup_witness:
  "\<exists>t' m'. htab_update_elem ex_cfg ex_tab ex_mem (\<lambda>i. of_nat i) (\<lambda>i. 7) = Inr (0, t', m')
    \<and> (\<forall>i < 4. bytes_at m' (htab_lookup_elem ex_cfg t' m' (\<lambda>i. of_nat i)) i = 7)"
  using htab_insert_lookup [OF ex_inv ex_empty, of "\<lambda>i. of_nat i" "\<lambda>i. 7"]
  by (auto simp: ex_tab_def ex_cfg_def HTAB_ENTRY_SZ_def ELEM_HDR_def)

text \<open>An update with no room left in the element area fails with \<open>-ENOMEM\<close> and changes
  neither the table nor the memory.\<close>

theorem htab_update_full:
  assumes inv: "htab_inv c t m cnt I" and new: "htab_lookup_elem c t m key = 0"
    and full: "unat (elems_sz t) < unat (elems_used t) + HTAB_ENTRY_SZ c"
  shows "htab_update_elem c t m key value = Inr (- ENOMEM, t, m)"
proof -
  have "htab_shape c t cnt" using inv by (simp add: htab_inv_def)
  from entry_get_full [OF this full] new show ?thesis
    by (auto simp: htab_update_elem_def htab_lookup_elem_def Let_def EXTRACT_VAL_def ELEM_HDR_def
        split: if_splits)
qed

theorem htab_update_full_witness:
  "htab_update_elem ex_cfg (ex_tab\<lparr>elems_sz := 31\<rparr>) ex_mem (\<lambda>_. 1) (\<lambda>_. 2)
    = Inr (-12, ex_tab\<lparr>elems_sz := 31\<rparr>, ex_mem)"
proof -
  have inv: "htab_inv ex_cfg (ex_tab\<lparr>elems_sz := 31\<rparr>) ex_mem 0 (\<lambda>_. [])"
    using ex_inv by (simp add: htab_inv_def htab_shape_def bucket_ok_def ex_tab_def)
  have "htab_lookup_elem ex_cfg (ex_tab\<lparr>elems_sz := 31\<rparr>) ex_mem key = 0" for key
    by (simp add: htab_lookup_find [OF inv] htab_find_def)
  from htab_update_full [OF inv this] show ?thesis
    by (simp add: ENOMEM_def ex_cfg_def ex_tab_def HTAB_ENTRY_SZ_def ELEM_HDR_def)
qed

text \<open>Updating a key that a lookup finds computes the address of the value from an
  uninitialised pointer.\<close>

theorem htab_update_existing_uninitialised:
  "htab_lookup_elem c t m key \<noteq> 0 \<longleftrightarrow> htab_update_elem c t m key value = Inl Uninitialised"
  by (auto simp: htab_update_elem_def htab_lookup_elem_def Let_def EXTRACT_VAL_def ELEM_HDR_def
      split: prod.splits)

interpretation hb: phased_lookup "\<lambda>t. htab_lookup_elem c t m" "htab_lookup_elem_p1 c"
    "\<lambda>t. htab_lookup_elem_p2 c m" for c m
  by unfold_locales
    (simp add: htab_lookup_elem_p1_def htab_lookup_elem_p2_def htab_lookup_elem_def Let_def)

text \<open>The hash of a key is \<open>jhash\<close> of its bytes for every size: the shortcuts for keys of one and
  of two words compute the same.\<close>

theorem htab_hash_is_jhash:
  "htab_hash key sz = jhash key (ucast sz) JHASH_INITVAL"
  by (simp add: htab_hash_def jhash_4_eq_1word jhash_8_eq_2words)

text \<open>The split lookup on a batch of keys: the first phase for every key and then the second
  phase for every key give the results of the plain lookups, in order.\<close>

theorem htab_batch_lookup:
  "batch_lookup (htab_lookup_elem_p1 c t) (htab_lookup_elem_p2 c m) keys
    = map (htab_lookup_elem c t m) keys"
  by (rule hb.batch)

subsection \<open>Initialisation\<close>

lemma count_bits_bounds:
  "x \<noteq> 0 \<Longrightarrow> 2 ^ (count_bits x - 1) \<le> x \<and> x < 2 ^ count_bits x \<and> 0 < count_bits x"
proof (induction x rule: count_bits.induct)
  case (1 x)
  show ?case
  proof (cases "x div 2 = 0")
    case True
    with 1(2) have "x = 1" by linarith
    then show ?thesis by (simp add: count_bits.simps)
  next
    case False
    define k where "k = count_bits (x div 2)"
    from 1(1) [OF 1(2) False] have "2 ^ (k - 1) \<le> x div 2" "x div 2 < 2 ^ k" "0 < k"
      by (simp_all add: k_def)
    moreover have "count_bits x = Suc k" using 1(2) by (simp add: count_bits.simps [of x] k_def)
    moreover have "(2::nat) ^ k = 2 * 2 ^ (k - 1)" using \<open>0 < k\<close> by (cases k) auto
    ultimately show ?thesis by simp linarith
  qed
qed

lemma pow_two_test:
  "n \<noteq> 0 \<Longrightarrow> n AND (n - 1) = (0::nat) \<longleftrightarrow> (\<exists>k. n = 2 ^ k)"
proof (induction n rule: less_induct)
  case (less n)
  show ?case
  proof (cases "even n")
    case True
    then obtain q where q: "n = 2 * q" by (elim evenE)
    with less.prems have q0: "q \<noteq> 0" "q < n" by auto
    have odd: "n - 1 = 2 * (q - 1) + 1" using q0 q by simp
    have "n AND (n - 1) = 2 * (q AND (q - 1))"
      unfolding q [symmetric] by (subst and_nat_rec) (use q odd in auto)
    moreover have "(\<exists>k. n = 2 ^ k) \<longleftrightarrow> (\<exists>k. q = 2 ^ k)"
    proof
      assume "\<exists>k. n = 2 ^ k"
      then obtain k where k: "n = 2 ^ k" by blast
      then have "k \<noteq> 0" using True by (intro notI) simp
      then obtain j where "k = Suc j" by (cases k) auto
      with k q show "\<exists>k. q = 2 ^ k" by auto
    next
      assume "\<exists>k. q = 2 ^ k"
      then obtain k where "q = 2 ^ k" by blast
      then have "n = 2 ^ Suc k" using q by simp
      then show "\<exists>k. n = 2 ^ k" by blast
    qed
    ultimately show ?thesis using less.IH [OF q0(2,1)] by simp
  next
    case False
    then obtain q where q: "n = 2 * q + 1" by (elim oddE)
    have "n AND (n - 1) = 2 * (q AND q)"
      by (subst and_nat_rec) (use q in auto)
    moreover have "(\<exists>k. n = 2 ^ k) \<longleftrightarrow> q = 0"
    proof
      assume "\<exists>k. n = 2 ^ k"
      then obtain k where "n = 2 ^ k" by blast
      with False have "k = 0" by (cases k) auto
      with \<open>n = 2 ^ k\<close> q show "q = 0" by simp
    next
      assume "q = 0"
      with q have "n = 2 ^ 0" by simp
      then show "\<exists>k. n = 2 ^ k" by blast
    qed
    ultimately show ?thesis by simp
  qed
qed

lemma pow_two_test_word:
  fixes x :: "'a::len word"
  assumes "x \<noteq> 0"
  shows "x AND (x - 1) = 0 \<longleftrightarrow> (\<exists>k. unat x = 2 ^ k)"
proof -
  have "unat (x - 1) = unat x - 1" using assms by (rule unat_minus_one)
  then have "unat (x AND (x - 1)) = unat x AND (unat x - 1)" by (simp add: unsigned_and_eq)
  moreover have "unat x \<noteq> 0" using assms by (simp add: unat_eq_0)
  ultimately show ?thesis using pow_two_test by (metis unat_eq_0)
qed

lemma round_up_pow_two_cases:
  assumes "x \<noteq> 0" and "unat x < 2 ^ 30"
  shows "\<exists>k. round_up_pow_two x = Inr (2 ^ k) \<and> unat x \<le> 2 ^ k
    \<and> (if x AND (x - 1) = 0 then 2 ^ k = unat x else 2 * unat x < 2 ^ k \<and> 2 ^ k \<le> 4 * unat x)"
proof (cases "x AND (x - 1) = 0")
  case True
  with pow_two_test_word [OF assms(1)] obtain k where "unat x = 2 ^ k" by blast
  with True show ?thesis by (intro exI [of _ k]) (simp add: round_up_pow_two_def)
next
  case False
  define j where "j = count_bits (unat x)"
  have "unat x \<noteq> 0" using assms(1) by (simp add: unat_eq_0)
  from count_bits_bounds [OF this] have j: "2 ^ (j - 1) \<le> unat x" "unat x < 2 ^ j" "0 < j"
    by (simp_all add: j_def)
  have "(2::nat) ^ (j - 1) < 2 ^ 30" using j(1) assms(2) by (rule le_less_trans)
  then have "j - 1 < 30" by (rule two_power_less)
  then have "round_up_pow_two x = Inr (2 ^ Suc j)"
    using False by (simp add: round_up_pow_two_def round_down_pow_two_def Let_def j_def)
  moreover have "(2::nat) ^ j = 2 * 2 ^ (j - 1)" using j(3) by (cases j) auto
  ultimately show ?thesis using j False by (intro exI [of _ "Suc j"]) simp
qed

text \<open>Rounding up: a power of two is kept; any other number gives a power of two more than
  twice and at most four times as large, since the helper that rounds down goes up to the next
  power.\<close>

theorem round_up_pow_two_spec:
  assumes "x \<noteq> 0" and "unat x < 2 ^ 30"
  shows "\<exists>k. round_up_pow_two x = Inr (2 ^ k) \<and> unat x \<le> 2 ^ k
    \<and> (if x AND (x - 1) = 0 then 2 ^ k = unat x else 2 * unat x < 2 ^ k \<and> 2 ^ k \<le> 4 * unat x)"
  by (rule round_up_pow_two_cases [OF assms])

theorem round_up_pow_two_spec_witness:
  "\<exists>k. round_up_pow_two 5 = Inr (2 ^ k) \<and> 10 < (2::nat) ^ k \<and> (2::nat) ^ k \<le> 20"
  using round_up_pow_two_spec [of 5] by auto

text \<open>Initialisation: for a number of entries below \<open>2 ^ 20\<close> and objects that
  \<open>my_memcpy\<close> can copy, the table comes out well formed and empty, with room for exactly that
  many elements.\<close>

theorem htab_init_inv:
  assumes "unat (key_sz c) \<le> MEM_LIMIT" and "unat (val_sz c) \<le> MEM_LIMIT"
    and "0 < unat me" and "unat me < 2 ^ 20"
  shows "\<exists>t m'. htab_init_userspace c m area me = Inr (t, m') \<and> htab_inv c t m' 0 (\<lambda>_. [])
    \<and> unat (elems_sz t) = unat me * HTAB_ENTRY_SZ c \<and> elems_used t = 0
    \<and> (\<forall>key. htab_lookup_elem c t m' key = 0)"
proof -
  have u: "unat (ucast me :: u64) = unat me" by (rule unat_ucast_widen) simp
  then have "ucast me \<noteq> (0::u64)" using assms(3) by (intro notI) simp
  from round_up_pow_two_cases [OF this] u assms(4) obtain k where k: "round_up_pow_two (ucast me) = Inr (2 ^ k)"
    and "if ucast me AND (ucast me - 1) = (0::u64) then 2 ^ k = unat me else (2::nat) ^ k \<le> 4 * unat me"
    by (auto split: if_splits)
  then have le: "2 ^ k \<le> 4 * unat me" by (auto split: if_splits)
  then have pk: "(2::nat) ^ k < 2 ^ 22" using assms(4) by simp
  then have k32: "k < 32" using two_power_less [OF pk] by linarith
  have E: "HTAB_ENTRY_SZ c \<le> 280"
    using assms(1,2) by (simp add: HTAB_ENTRY_SZ_def ELEM_HDR_def MEM_LIMIT_def)
  have es: "unat me * HTAB_ENTRY_SZ c \<le> 2 ^ 20 * 280" using assms(4) E by (intro mult_le_mono) auto
  then have total: "2 ^ k * 8 + 64 + unat me * HTAB_ENTRY_SZ c < 2 ^ 31" using pk by simp
  have nb: "unat (of_nat (2 ^ k) :: u32) = 2 ^ k" using pk by (intro unat_of_nat_small) simp
  have esz: "unat (of_nat (unat me * HTAB_ENTRY_SZ c) :: u64) = unat me * HTAB_ENTRY_SZ c"
    using es by (intro unat_of_nat_small) simp
  obtain t m' where tm: "htab_init_userspace c m area me = Inr (t, m')"
    and t: "t = \<lparr>buckets = area + 64, n_buckets = of_nat (2 ^ k), elems = area + (2 ^ k * 8 + 64),
                elems_sz = of_nat (unat me * HTAB_ENTRY_SZ c), elems_used = 0\<rparr>"
    and m': "\<And>a. area + 64 \<le> a \<Longrightarrow> a < area + 64 + (2 ^ k * 8 + 64) \<Longrightarrow> words m' a = 0"
    using total by (simp add: htab_init_userspace_def htab_init_userspace_2_def k Let_def add.assoc)
  have "htab_shape c t 0"
    using assms(1,2) nb k32 unfolding htab_shape_def t by (auto intro: exI [of _ k])
  moreover have "bucket_ok c t m' 0 b []" if "b < unat (n_buckets t)" for b
    using that nb by (simp add: bucket_ok_def t m')
  ultimately have inv: "htab_inv c t m' 0 (\<lambda>_. [])" by (simp add: htab_inv_def)
  have "htab_lookup_elem c t m' key = 0" for key
    by (simp add: htab_lookup_find [OF inv] htab_find_def)
  with tm inv esz show ?thesis by (intro exI [of _ t] exI [of _ m']) (simp add: t)
qed

theorem htab_init_inv_witness:
  "\<exists>t m'. htab_init_userspace ex_cfg ex_mem 4096 2 = Inr (t, m') \<and> htab_inv ex_cfg t m' 0 (\<lambda>_. [])
    \<and> unat (elems_sz t) = 64"
  using htab_init_inv [of ex_cfg 2 ex_mem 4096]
  by (auto simp: ex_cfg_def MEM_LIMIT_def HTAB_ENTRY_SZ_def ELEM_HDR_def)

end
