(* ===== verification/Lpm_Dri.thy ===== *)
theory Lpm_Dri
  imports Arena_Mm Bytes Phased
begin

text \<open>
  The longest-prefix-match table DIR-24-8: \<open>libs/arena-ds/arena_lpm_dri.h\<close>. The state is
  \<open>struct lpm_dri\<close>: the table of \<open>2 ^ 24\<close> entries that the first 24 bits of an address select,
  the second table with its chunks of 256 entries, the allocator of the values (with its handle in
  the structure) and the bytes of the values. A \<open>data\<close> pointer and \<open>long_entry\<close> share the union
  of an entry: \<open>union_word\<close> holds its eight bytes.
\<close>

record lpm_dri_key_t =
  prefixlen :: u32
  key_data :: u32

definition MAX_VAL_SZ :: nat where "MAX_VAL_SZ = 128"
definition TBL24_COUNT :: nat where "TBL24_COUNT = 2 ^ 24"
definition TBL_LONG_CHUNK :: nat where "TBL_LONG_CHUNK = 2 ^ 8"
definition TBL_LONG_COUNT :: nat where "TBL_LONG_COUNT = 2 ^ 14"

definition NOT_SET :: u8 where "NOT_SET = 0"
definition IN_TBL_24 :: u8 where "IN_TBL_24 = 1"
definition IN_TBL_LONG :: u8 where "IN_TBL_LONG = 2"

record lpm_dri_entry =
  state :: u8
  e_prefixlen :: u32
  union_word :: u64

record lpm_dri_long_entry =
  valid :: u8
  l_prefixlen :: u32
  l_data :: u64

record lpm_dri =
  tbl_24 :: "nat \<Rightarrow> lpm_dri_entry"
  tbl_24_sz :: u32
  tbl_long :: "nat \<Rightarrow> lpm_dri_long_entry"
  tbl_long_sz :: u32
  tbl_long_free_chunks :: u32
  tbl_long_alloc_chunks :: u32
  value_size :: u32
  mem_handle :: addr
  pool :: arena_mem
  val_bytes :: bytes

text \<open>\<open>sizeof\<close> of the packed entry, of the long entry and of the structure.\<close>

definition DRI_ENTRY_SZ :: nat where "DRI_ENTRY_SZ = 13"
definition DRI_LONG_ENTRY_SZ :: nat where "DRI_LONG_ENTRY_SZ = 16"
definition DRI_SZ :: nat where "DRI_SZ = 48"

lemmas dri_consts = MAX_VAL_SZ_def TBL24_COUNT_def TBL_LONG_CHUNK_def TBL_LONG_COUNT_def
  NOT_SET_def IN_TBL_24_def IN_TBL_LONG_def DRI_ENTRY_SZ_def DRI_LONG_ENTRY_SZ_def DRI_SZ_def

text \<open>The two members of the union.\<close>

definition data_of :: "lpm_dri_entry \<Rightarrow> u64" where
  "data_of e = union_word e"

definition long_entry_of :: "lpm_dri_entry \<Rightarrow> u32" where
  "long_entry_of e = ucast (union_word e)"

definition set_long_entry :: "lpm_dri_entry \<Rightarrow> u32 \<Rightarrow> lpm_dri_entry" where
  "set_long_entry e b =
     e\<lparr>union_word := (union_word e AND NOT (mask 32)) OR ucast b\<rparr>"

text \<open>A read of the second table outside of its entries is a fault.\<close>

definition read_long :: "lpm_dri \<Rightarrow> u32 \<Rightarrow> lpm_dri_long_entry checked" where
  "read_long d off =
     (if unat off < TBL_LONG_COUNT then Inr (tbl_long d (unat off)) else Inl Out_of_bounds)"

definition arena_lpm_dri_lookup_elem :: "lpm_dri \<Rightarrow> lpm_dri_key_t \<Rightarrow> u64 checked" where
  "arena_lpm_dri_lookup_elem d key =
     (if prefixlen key \<noteq> 32 then Inr 0
      else
        let K = ntohl (key_data key);
            offset = drop_bit 8 K;
            e = tbl_24 d (unat offset)
        in if state e = NOT_SET then Inr 0
           else if state e = IN_TBL_LONG
           then let base = long_entry_of e;
                    rel_off8 = K AND 0xff;
                    off = base + rel_off8
                in checked_bind (read_long d off) (\<lambda>e2. Inr (l_data e2))
           else Inr (data_of e))"

text \<open>
  The split lookup. The first phase gives a pointer to an entry of the table, as an index, or
  null; the second one reads through it.
\<close>

definition arena_lpm_dri_lookup_elem_p1 :: "lpm_dri \<Rightarrow> lpm_dri_key_t \<Rightarrow> nat option" where
  "arena_lpm_dri_lookup_elem_p1 d key =
     (if prefixlen key \<noteq> 32 then None
      else let K = ntohl (key_data key); offset = drop_bit 8 K in Some (unat offset))"

definition arena_lpm_dri_lookup_elem_p2 ::
  "lpm_dri \<Rightarrow> lpm_dri_key_t \<Rightarrow> nat option \<Rightarrow> u64 checked" where
  "arena_lpm_dri_lookup_elem_p2 d key p =
     (case p of
        None \<Rightarrow> Inl Null_pointer
      | Some i \<Rightarrow>
          let e = tbl_24 d i in
          if state e = NOT_SET then Inr 0
          else if state e = IN_TBL_LONG
          then let K = ntohl (key_data key);
                   base = long_entry_of e;
                   rel_off8 = K AND 0xff;
                   off = base + rel_off8
               in checked_bind (read_long d off) (\<lambda>e2. Inr (l_data e2))
          else Inr (data_of e))"

subsection \<open>Allocation and update, in user space\<close>

text \<open>
  \<open>arg\<close> holds the sizes; \<open>area\<close> is the start of the arena. The page count is a 32-bit variable,
  and its product with the page size is computed in 32 bits. The handle of the allocator is the
  last member of the structure. The result is the table and the number of pages.
\<close>

record dri_alloc_args =
  area_size :: u32
  key_size :: u32
  max_entries :: u32
  arg_value_size :: u32

definition userspace_arena_lpm_dri_alloc ::
  "addr \<Rightarrow> arena_mem \<Rightarrow> bytes \<Rightarrow> dri_alloc_args \<Rightarrow> int + (lpm_dri \<times> u32)" where
  "userspace_arena_lpm_dri_alloc area m vb arg =
     (if area = 0 then Inl (- EINVAL)
      else if key_size arg \<noteq> 8 then Inl (- EINVAL)
      else if MAX_VAL_SZ < unat (arg_value_size arg) then Inl (- EINVAL)
      else
        let data_pool_sz = (unat (arg_value_size arg) + HDR_SZ) * unat (max_entries arg);
            sz24 = TBL24_COUNT * DRI_ENTRY_SZ;
            szl = TBL_LONG_COUNT * DRI_LONG_ENTRY_SZ;
            mem_sz = DRI_SZ + sz24 + szl + data_pool_sz;
            num_pages = (of_nat (COUNT_OBJ mem_sz PAGE_SIZE) :: u32);
            total_req_mem = (ucast (num_pages * of_nat PAGE_SIZE) :: u64)
        in if (ucast (area_size arg) :: u64) < total_req_mem then Inl (- ENOMEM)
           else
             let available_memory =
                   total_req_mem - of_nat DRI_SZ - of_nat sz24 - of_nat szl;
                 mempool = area + DRI_SZ + sz24 + szl;
                 h = area + 40;
                 (ret, m) = create_mem_region_obj m mempool (unat available_memory) h
             in if ret \<noteq> 0 then Inl (- EINVAL)
                else Inr (\<lparr>tbl_24 = (\<lambda>_. \<lparr>state = 0, e_prefixlen = 0, union_word = 0\<rparr>),
                          tbl_24_sz = of_nat sz24,
                          tbl_long = (\<lambda>_. \<lparr>valid = 0, l_prefixlen = 0, l_data = 0\<rparr>),
                          tbl_long_sz = of_nat szl,
                          tbl_long_free_chunks = of_nat (TBL_LONG_COUNT div TBL_LONG_CHUNK),
                          tbl_long_alloc_chunks = 0,
                          value_size = arg_value_size arg,
                          mem_handle = h, pool = m, val_bytes = vb\<rparr>, num_pages))"

definition alloc_chunk :: "lpm_dri \<Rightarrow> (int + u32) \<times> lpm_dri" where
  "alloc_chunk d =
     (if tbl_long_free_chunks d \<le> tbl_long_alloc_chunks d then (Inl (- ENOSPC), d)
      else (Inr (tbl_long_alloc_chunks d * of_nat TBL_LONG_CHUNK),
            d\<lparr>tbl_long_alloc_chunks := tbl_long_alloc_chunks d + 1\<rparr>))"

text \<open>
  The loops over a part of the second table, from \<open>off\<close> on for \<open>n\<close> entries. \<open>keep\<close> is the test
  that leaves an entry as it is.
\<close>

fun fill_long ::
  "(lpm_dri_long_entry \<Rightarrow> bool) \<Rightarrow> u32 \<Rightarrow> u64 \<Rightarrow> nat \<Rightarrow> u32 \<Rightarrow> lpm_dri \<Rightarrow> lpm_dri checked" where
  "fill_long keep plen obj 0 off d = Inr d"
| "fill_long keep plen obj (Suc n) off d =
     (if unat off < TBL_LONG_COUNT
      then if keep (tbl_long d (unat off)) then fill_long keep plen obj n (off + 1) d
           else fill_long keep plen obj n (off + 1)
                  (d\<lparr>tbl_long := (tbl_long d)(unat off :=
                       \<lparr>valid = 1, l_prefixlen = plen, l_data = obj\<rparr>)\<rparr>)
      else Inl Out_of_bounds)"

definition set_entry :: "lpm_dri \<Rightarrow> nat \<Rightarrow> lpm_dri_entry \<Rightarrow> lpm_dri" where
  "set_entry d i e = d\<lparr>tbl_24 := (tbl_24 d)(i := e)\<rparr>"

definition add_long_entry :: "lpm_dri \<Rightarrow> lpm_dri_key_t \<Rightarrow> u64 \<Rightarrow> (int \<times> lpm_dri) checked" where
  "add_long_entry d key obj =
     (if \<not> 24 < prefixlen key then Inl Assertion_failed
      else if 31 \<le> unat (prefixlen key - 24) then Inl Signed_overflow
      else
        let K = ntohl (key_data key);
            off24 = unat (drop_bit 8 K);
            rel_off8 = K AND 0xff;
            affected_entries = 2 ^ unat (prefixlen key - 24);
            ent = tbl_24 d off24
        in if state ent = NOT_SET then
             (case alloc_chunk d of
                (Inl _, d) \<Rightarrow> Inr (- ENOSPC, d)
              | (Inr base, d) \<Rightarrow>
                  let d = set_entry d off24 (set_long_entry
                            (ent\<lparr>state := IN_TBL_LONG, e_prefixlen := 24\<rparr>) base)
                  in checked_bind (fill_long (\<lambda>_. False) (prefixlen key) obj affected_entries
                                     (base + rel_off8) d) (\<lambda>d. Inr (0, d)))
           else if state ent = IN_TBL_24 then
             (let old_obj = data_of ent; old_prefixlen = e_prefixlen ent in
              case alloc_chunk d of
                (Inl _, d) \<Rightarrow> Inr (- ENOSPC, d)
              | (Inr base, d) \<Rightarrow>
                  let d = set_entry d off24 (set_long_entry
                            (ent\<lparr>state := IN_TBL_LONG, e_prefixlen := 24\<rparr>) base)
                  in checked_bind (fill_long (\<lambda>_. False) old_prefixlen old_obj TBL_LONG_CHUNK base d)
                       (\<lambda>d. checked_bind (fill_long (\<lambda>_. False) (prefixlen key) obj
                                            affected_entries (base + rel_off8) d)
                              (\<lambda>d. Inr (0, d))))
           else if state ent = IN_TBL_LONG then
             let base = long_entry_of ent
             in checked_bind (fill_long (\<lambda>e. valid e = 1 \<and> prefixlen key < l_prefixlen e)
                                (prefixlen key) obj affected_entries (base + rel_off8) d)
                  (\<lambda>d. Inr (0, d))
           else Inr (0, d))"

text \<open>The loop of the update over \<open>n\<close> entries of the first table, from index \<open>o\<close> on.\<close>

fun fill_24 :: "u32 \<Rightarrow> u64 \<Rightarrow> nat \<Rightarrow> nat \<Rightarrow> (nat \<Rightarrow> lpm_dri_entry) \<Rightarrow>
    (nat \<Rightarrow> lpm_dri_entry) checked" where
  "fill_24 plen obj 0 i t = Inr t"
| "fill_24 plen obj (Suc n) i t =
     (if state (t i) = NOT_SET \<or> (state (t i) = IN_TBL_24 \<and> e_prefixlen (t i) \<le> plen)
      then fill_24 plen obj n (Suc i)
             (t(i := \<lparr>state = IN_TBL_24, e_prefixlen = plen, union_word = obj\<rparr>))
      else if state (t i) = IN_TBL_24 then fill_24 plen obj n (Suc i) t
      else Inl Assertion_failed)"

definition store_value :: "lpm_dri \<Rightarrow> addr \<Rightarrow> bytes \<Rightarrow> lpm_dri" where
  "store_value d p v =
     d\<lparr>val_bytes := (\<lambda>a. if p \<le> a \<and> a < p + unat (value_size d) then v (a - p) else val_bytes d a)\<rparr>"

text \<open>
  The update. \<open>None\<close> is the run in which the allocator does not return.
\<close>

definition update_tbl_24 :: "lpm_dri \<Rightarrow> lpm_dri_key_t \<Rightarrow> u64 \<Rightarrow> (int \<times> lpm_dri) checked" where
  "update_tbl_24 d key obj =
     (let affected_entries = (push_bit (unat (24 - prefixlen key)) 1 :: u64);
          msk = (if 0 < prefixlen key then NOT (affected_entries - 1) else 0);
          K = ntohl (key_data key);
          begin_offset = (ucast (drop_bit 8 K) :: u64) AND msk;
          e = unat begin_offset
      in if \<not> (e + 1) * DRI_ENTRY_SZ < unat (tbl_24_sz d) then Inl Assertion_failed
         else if \<not> (e + unat affected_entries + 1) * DRI_ENTRY_SZ < unat (tbl_24_sz d)
         then Inl Assertion_failed
         else checked_bind (fill_24 (prefixlen key) obj (unat affected_entries) e (tbl_24 d))
                (\<lambda>t. Inr (0, d\<lparr>tbl_24 := t\<rparr>)))"

definition userspace_arena_lpm_dri_update_elem ::
  "lpm_dri \<Rightarrow> lpm_dri_key_t \<Rightarrow> bytes \<Rightarrow> (int \<times> lpm_dri) checked option" where
  "userspace_arena_lpm_dri_update_elem d key v =
     (case just_alloc (pool d) (mem_handle d) (unat (value_size d)) of
        None \<Rightarrow> None
      | Some (data_obj, m) \<Rightarrow>
          let d = d\<lparr>pool := m\<rparr> in
          if data_obj = 0 then Some (Inr (- ENOMEM, d))
          else
            let d = store_value d data_obj v
            in if 24 < prefixlen key then Some (add_long_entry d key (of_nat data_obj))
               else Some (update_tbl_24 d key (of_nat data_obj)))"

subsection \<open>The split lookup\<close>

interpretation hd: phased_lookup "\<lambda>d k. arena_lpm_dri_lookup_elem d \<lparr>prefixlen = 32, key_data = k\<rparr>"
    "\<lambda>d k. arena_lpm_dri_lookup_elem_p1 d \<lparr>prefixlen = 32, key_data = k\<rparr>"
    "\<lambda>d k. arena_lpm_dri_lookup_elem_p2 d \<lparr>prefixlen = 32, key_data = k\<rparr>"
  by unfold_locales
    (simp add: arena_lpm_dri_lookup_elem_p1_def arena_lpm_dri_lookup_elem_p2_def
      arena_lpm_dri_lookup_elem_def Let_def)

text \<open>On a batch of addresses the two phases of the split lookup give the results of the plain
  lookup, in order.\<close>

theorem dri_batch_lookup:
  "batch_lookup (\<lambda>k. arena_lpm_dri_lookup_elem_p1 d \<lparr>prefixlen = 32, key_data = k\<rparr>)
     (\<lambda>k. arena_lpm_dri_lookup_elem_p2 d \<lparr>prefixlen = 32, key_data = k\<rparr>) ks
   = map (\<lambda>k. arena_lpm_dri_lookup_elem d \<lparr>prefixlen = 32, key_data = k\<rparr>) ks"
  by (rule hd.batch)

subsection \<open>The table as a list of rules\<close>

text \<open>
  The specification: the history of the updates, the newest first. The rule of an address is the
  one with the longest prefix, the newest one among equal lengths.
\<close>

type_synonym rule = "lpm_dri_key_t \<times> bytes"

definition covered_by :: "u32 \<Rightarrow> lpm_dri_key_t \<Rightarrow> bool" where
  "covered_by K key \<longleftrightarrow>
     (let s = 32 - unat (prefixlen key) in drop_bit s K = drop_bit s (ntohl (key_data key)))"

fun best_rule :: "u32 \<Rightarrow> rule list \<Rightarrow> rule option" where
  "best_rule K [] = None"
| "best_rule K (r # rs) =
     (if covered_by K (fst r)
      then case best_rule K rs of
             None \<Rightarrow> Some r
           | Some r' \<Rightarrow> if prefixlen (fst r') \<le> prefixlen (fst r) then Some r else Some r'
      else best_rule K rs)"

lemma best_rule_longest:
  "best_rule K rs = Some r \<Longrightarrow> r \<in> set rs \<and> covered_by K (fst r)
     \<and> (\<forall>r' \<in> set rs. covered_by K (fst r') \<longrightarrow> prefixlen (fst r') \<le> prefixlen (fst r))"
  "best_rule K rs = None \<longleftrightarrow> (\<forall>r' \<in> set rs. \<not> covered_by K (fst r'))"
proof (induction rs arbitrary: r)
  case (Cons x rs)
  case 1
  then show ?case
    using Cons by (fastforce split: if_splits option.splits)
next
  case (Cons x rs)
  case 2
  then show ?case
    using Cons by (auto split: if_splits option.splits)
qed simp_all

lemma fill_24_spec:
  assumes "\<forall>j. i \<le> j \<and> j < i + n \<longrightarrow> state (t j) = NOT_SET \<or> state (t j) = IN_TBL_24"
  shows "fill_24 plen obj n i t = Inr (\<lambda>j.
    if i \<le> j \<and> j < i + n \<and> (state (t j) = NOT_SET \<or> e_prefixlen (t j) \<le> plen)
    then \<lparr>state = IN_TBL_24, e_prefixlen = plen, union_word = obj\<rparr> else t j)"
  using assms
proof (induction plen obj n i t rule: fill_24.induct)
  case (1 plen obj i t)
  then show ?case by (auto simp: fun_eq_iff)
next
  case (2 plen obj n i t)
  let ?upd = "t(i := \<lparr>state = IN_TBL_24, e_prefixlen = plen, union_word = obj\<rparr>)"
  have here: "state (t i) = NOT_SET \<or> state (t i) = IN_TBL_24" using 2(3) by simp
  show ?case
  proof (cases "state (t i) = NOT_SET \<or> e_prefixlen (t i) \<le> plen")
    case True
    then have c: "state (t i) = NOT_SET \<or> (state (t i) = IN_TBL_24 \<and> e_prefixlen (t i) \<le> plen)"
      using here by auto
    have "fill_24 plen obj n (Suc i) ?upd = Inr (\<lambda>j.
        if Suc i \<le> j \<and> j < Suc i + n \<and> (state (?upd j) = NOT_SET \<or> e_prefixlen (?upd j) \<le> plen)
        then \<lparr>state = IN_TBL_24, e_prefixlen = plen, union_word = obj\<rparr> else ?upd j)"
      by (rule 2(1) [OF c]) (use 2(3) in auto)
    then show ?thesis using c True by (auto simp: fun_eq_iff)
  next
    case False
    then have c: "\<not> (state (t i) = NOT_SET \<or> (state (t i) = IN_TBL_24 \<and> e_prefixlen (t i) \<le> plen))"
      "state (t i) = IN_TBL_24"
      using here by auto
    have "fill_24 plen obj n (Suc i) t = Inr (\<lambda>j.
        if Suc i \<le> j \<and> j < Suc i + n \<and> (state (t j) = NOT_SET \<or> e_prefixlen (t j) \<le> plen)
        then \<lparr>state = IN_TBL_24, e_prefixlen = plen, union_word = obj\<rparr> else t j)"
      by (rule 2(2) [OF c]) (use 2(3) in auto)
    then show ?thesis using c False by (auto simp: fun_eq_iff le_Suc_eq Suc_le_eq nat_less_le)
  qed
qed

text \<open>Where the range of a rule starts, and which addresses are in it.\<close>

lemma range_word:
  fixes w :: u64
  assumes "s \<le> 24"
  shows "unat (w AND NOT (push_bit s 1 - 1)) = unat w div 2 ^ s * 2 ^ s"
proof -
  have "push_bit s 1 - 1 = (mask s :: u64)"
    by (simp add: mask_eq_exp_minus_1 push_bit_eq_mult)
  then have "w AND NOT (push_bit s 1 - 1) = push_bit s (drop_bit s w)"
    by (auto intro!: bit_word_eqI simp: bit_simps)
  moreover have "unat (push_bit s (drop_bit s w)) = unat w div 2 ^ s * 2 ^ s"
  proof -
    have "unat (push_bit s (drop_bit s w)) = take_bit 64 (push_bit s (unat (drop_bit s w)))"
      by (simp add: unsigned_push_bit_eq)
    also have "\<dots> = take_bit 64 (unat w div 2 ^ s * 2 ^ s)"
      by (simp only: unat_drop_bit push_bit_eq_mult)
    also have "\<dots> = unat w div 2 ^ s * 2 ^ s"
    proof (rule take_bit_nat_eq_self)
      have "unat w div 2 ^ s * 2 ^ s \<le> unat w" by simp
      also have "\<dots> < 2 ^ 64" using unat_bound [of w] by simp
      finally show "unat w div 2 ^ s * 2 ^ s < 2 ^ 64" .
    qed
    finally show ?thesis .
  qed
  ultimately show ?thesis by simp
qed

lemma in_block_iff: "(k div b * b \<le> j \<and> j < k div b * b + b) \<longleftrightarrow> j div b = k div (b::nat)"
  if "0 < b"
proof
  assume "k div b * b \<le> j \<and> j < k div b * b + b"
  then show "j div b = k div b" using that by (intro div_nat_eqI) (auto simp: mult.commute)
next
  assume j: "j div b = k div b"
  have "j = j div b * b + j mod b" by simp
  moreover have "j mod b < b" using that by simp
  ultimately show "k div b * b \<le> j \<and> j < k div b * b + b" using j by (metis le_add1 nat_add_left_cancel_less)
qed

lemma unat_hi24: "unat (drop_bit 8 (K :: u32)) = unat K div 2 ^ 8"
  by (rule unat_drop_bit)

lemma covered_index:
  assumes "unat (prefixlen key) \<le> 24"
  shows "covered_by K key \<longleftrightarrow> unat (drop_bit 8 K) div 2 ^ (24 - unat (prefixlen key))
      = unat (drop_bit 8 (ntohl (key_data key))) div 2 ^ (24 - unat (prefixlen key))"
proof -
  define s where "s = 24 - unat (prefixlen key)"
  have s: "32 - unat (prefixlen key) = 8 + s" using assms by (simp add: s_def)
  have "drop_bit (8 + s) K = drop_bit (8 + s) K' \<longleftrightarrow> unat (drop_bit (8 + s) K) = unat (drop_bit (8 + s) K')"
    for K' :: u32 by (simp only: word_unat_eq_iff)
  moreover have "unat (drop_bit (8 + s) K) = unat (drop_bit 8 K) div 2 ^ s" for K :: u32
    by (simp only: unat_drop_bit power_add div_mult2_eq)
  ultimately show ?thesis unfolding covered_by_def s Let_def s_def [symmetric] by simp
qed

text \<open>The range of the entries that an update with a prefix of at most 24 bits writes.\<close>

lemma update_tbl_24_spec:
  fixes d key obj
  defines "s \<equiv> 24 - unat (prefixlen key)"
  defines "o0 \<equiv> unat (drop_bit 8 (ntohl (key_data key))) div 2 ^ s * 2 ^ s"
  assumes p: "unat (prefixlen key) \<le> 24"
    and sz: "unat (tbl_24_sz d) = TBL24_COUNT * DRI_ENTRY_SZ"
    and st: "\<And>j. j < TBL24_COUNT \<Longrightarrow> state (tbl_24 d j) = NOT_SET \<or> state (tbl_24 d j) = IN_TBL_24"
  shows "update_tbl_24 d key obj =
    (if o0 + 2 ^ s + 1 < TBL24_COUNT
     then Inr (0, d\<lparr>tbl_24 := (\<lambda>j.
            if j div 2 ^ s = unat (drop_bit 8 (ntohl (key_data key))) div 2 ^ s
               \<and> (state (tbl_24 d j) = NOT_SET \<or> e_prefixlen (tbl_24 d j) \<le> prefixlen key)
            then \<lparr>state = IN_TBL_24, e_prefixlen = prefixlen key, union_word = obj\<rparr>
            else tbl_24 d j)\<rparr>)
     else Inl Assertion_failed)"
proof -
  let ?k = "unat (drop_bit 8 (ntohl (key_data key)))"
  have sub: "unat (24 - prefixlen key) = s"
  proof -
    have "prefixlen key \<le> 24" using p by (simp add: word_le_nat_alt)
    from unat_sub [OF this] show ?thesis by (simp add: s_def)
  qed
  have aff: "unat (push_bit s 1 :: u64) = 2 ^ s"
  proof -
    have "(push_bit s 1 :: u64) = of_nat (2 ^ s)" by (simp add: push_bit_eq_mult)
    moreover have lt: "(2::nat) ^ s < 2 ^ LENGTH(64)"
      by (rule power_strict_increasing) (simp_all add: s_def)
    ultimately show ?thesis by (simp only: unat_of_nat_small [OF lt])
  qed
  have wide: "unat (ucast (drop_bit 8 (ntohl (key_data key))) :: u64) = ?k"
    by (rule unat_ucast_widen) simp
  have k24: "?k < 2 ^ 24"
    using unat_bound [of "ntohl (key_data key)"] by (simp add: unat_hi24)
  have e: "unat ((ucast (drop_bit 8 (ntohl (key_data key))) :: u64) AND
      (if 0 < prefixlen key then NOT (push_bit s 1 - 1) else 0)) = o0"
  proof (cases "0 < prefixlen key")
    case True
    have "s \<le> 24" by (simp add: s_def)
    from range_word [OF this] True show ?thesis by (simp only: if_True wide o0_def)
  next
    case False
    then have "s = 24" by (simp add: s_def word_gt_0)
    then show ?thesis using False k24 by (simp add: o0_def)
  qed
  have bs: "(a + 1) * DRI_ENTRY_SZ < unat (tbl_24_sz d) \<longleftrightarrow> a + 1 < TBL24_COUNT" for a
    by (simp only: sz mult_less_cancel2) (simp add: DRI_ENTRY_SZ_def)
  show ?thesis
  proof (cases "o0 + 2 ^ s + 1 < TBL24_COUNT")
    case True
    have "fill_24 (prefixlen key) obj (2 ^ s) o0 (tbl_24 d) = Inr (\<lambda>j.
        if o0 \<le> j \<and> j < o0 + 2 ^ s \<and> (state (tbl_24 d j) = NOT_SET \<or> e_prefixlen (tbl_24 d j) \<le> prefixlen key)
        then \<lparr>state = IN_TBL_24, e_prefixlen = prefixlen key, union_word = obj\<rparr> else tbl_24 d j)"
      by (rule fill_24_spec) (use st True in auto)
    moreover have "o0 \<le> j \<and> j < o0 + 2 ^ s \<longleftrightarrow> j div 2 ^ s = ?k div 2 ^ s" for j
      unfolding o0_def by (rule in_block_iff) simp
    ultimately show ?thesis
      using True unfolding update_tbl_24_def Let_def sub aff e bs by (simp add: conj_assoc [symmetric])
  next
    case False
    then show ?thesis unfolding update_tbl_24_def Let_def sub aff e bs by simp
  qed
qed

subsection \<open>The invariant and the history\<close>

text \<open>
  \<open>hist\<close> is the list of the updates that succeeded, newest first, each with the address of its
  value. All its rules have at most 24 bits.
\<close>

definition entry_agrees :: "lpm_dri_entry \<Rightarrow> (rule \<times> addr) option \<Rightarrow> bool" where
  "entry_agrees e ro = (case ro of
     None \<Rightarrow> state e = NOT_SET
   | Some (r, a) \<Rightarrow> state e = IN_TBL_24 \<and> e_prefixlen e = prefixlen (fst r) \<and> union_word e = of_nat a)"

text \<open>\<open>best_rule\<close> on a history with addresses.\<close>

fun best_at :: "u32 \<Rightarrow> (rule \<times> addr) list \<Rightarrow> (rule \<times> addr) option" where
  "best_at K [] = None"
| "best_at K ((r, a) # h) =
     (if covered_by K (fst r)
      then case best_at K h of
             None \<Rightarrow> Some (r, a)
           | Some (r', a') \<Rightarrow> if prefixlen (fst r') \<le> prefixlen (fst r) then Some (r, a) else Some (r', a')
      else best_at K h)"

lemma best_at_rule: "map_option fst (best_at K h) = best_rule K (map fst h)"
  by (induction h rule: best_at.induct) (auto split: option.splits)

lemma best_at_mem: "best_at K h = Some x \<Longrightarrow> x \<in> set h"
  by (induction h arbitrary: x rule: best_at.induct) (auto split: if_splits option.splits)

definition dri_inv ::
  "lpm_dri \<Rightarrow> addr \<Rightarrow> addr \<Rightarrow> (addr \<times> nat) list \<Rightarrow> (rule \<times> addr) list \<Rightarrow> bool" where
  "dri_inv d lo hi bs h \<longleftrightarrow>
     unat (tbl_24_sz d) = TBL24_COUNT * DRI_ENTRY_SZ \<and> 0 < lo \<and> hi \<le> 2 ^ 64
     \<and> 0 < unat (value_size d)
     \<and> mm_live (mem_handle d) lo hi (pool d) bs
     \<and> (\<forall>(r, a) \<in> set h. (a, unat (value_size d)) \<in> set bs
          \<and> (\<forall>i < unat (value_size d). val_bytes d (a + i) = snd r i))
     \<and> (\<forall>K. entry_agrees (tbl_24 d (unat (drop_bit 8 K))) (best_at K h))"

lemma dri_inv_states:
  assumes "dri_inv d lo hi bs h" and "j < TBL24_COUNT"
  shows "state (tbl_24 d j) = NOT_SET \<or> state (tbl_24 d j) = IN_TBL_24"
proof -
  define K :: u32 where "K = of_nat (j * 2 ^ 8)"
  have "unat K = j * 2 ^ 8"
    unfolding K_def using assms(2) by (intro unat_of_nat_small) (simp add: TBL24_COUNT_def)
  then have "unat (drop_bit 8 K) = j" by (simp add: unat_hi24)
  moreover have "entry_agrees (tbl_24 d (unat (drop_bit 8 K))) (best_at K h)"
    using assms(1) by (simp add: dri_inv_def)
  ultimately show ?thesis by (auto simp: entry_agrees_def split: option.splits)
qed

lemma dri_inv_lookup:
  assumes "dri_inv d lo hi bs h"
  shows "arena_lpm_dri_lookup_elem d \<lparr>prefixlen = 32, key_data = k\<rparr>
    = Inr (case best_at (ntohl k) h of None \<Rightarrow> 0 | Some (r, a) \<Rightarrow> of_nat a)"
proof -
  have "entry_agrees (tbl_24 d (unat (drop_bit 8 (ntohl k)))) (best_at (ntohl k) h)"
    using assms by (simp add: dri_inv_def)
  then show ?thesis
    by (auto simp: arena_lpm_dri_lookup_elem_def Let_def entry_agrees_def data_of_def NOT_SET_def
        IN_TBL_24_def IN_TBL_LONG_def split: option.splits)
qed

lemma dri_inv_block:
  assumes "dri_inv d lo hi bs h" and "(r, a) \<in> set h"
  shows "unat (of_nat a :: u64) = a" and "0 < a"
proof -
  have "mm_live (mem_handle d) lo hi (pool d) bs" "(a, unat (value_size d)) \<in> set bs"
    "0 < lo" "hi \<le> 2 ^ 64" "0 < unat (value_size d)"
    using assms by (auto simp: dri_inv_def)
  with mm.live_within [OF this(1,2)] show "unat (of_nat a :: u64) = a" "0 < a"
    by (auto intro!: unat_of_nat_small)
qed

text \<open>One update: it returns; without memory it fails, at the end of the table it aborts, otherwise
  the rule is added to the history.\<close>

lemma dri_update_step:
  assumes inv: "dri_inv d lo hi bs h" and p: "unat (prefixlen key) \<le> 24"
  defines "s \<equiv> 24 - unat (prefixlen key)"
  shows "\<exists>r. userspace_arena_lpm_dri_update_elem d key v = Some r \<and>
    (case r of
       Inl f \<Rightarrow> f = Assertion_failed
         \<and> TBL24_COUNT \<le> unat (drop_bit 8 (ntohl (key_data key))) div 2 ^ s * 2 ^ s + 2 ^ s + 1
     | Inr (ret, d') \<Rightarrow> ret = - ENOMEM \<and> d' = d
         \<or> ret = 0 \<and> (\<exists>bs' a. dri_inv d' lo hi bs' (((key, v), a) # h)) \<and> value_size d' = value_size d)"
proof -
  let ?vs = "unat (value_size d)" and ?k = "unat (drop_bit 8 (ntohl (key_data key)))"
  have live: "mm_live (mem_handle d) lo hi (pool d) bs"
    and sz: "unat (tbl_24_sz d) = TBL24_COUNT * DRI_ENTRY_SZ"
    and vs: "0 < ?vs"
    and agr: "\<And>K. entry_agrees (tbl_24 d (unat (drop_bit 8 K))) (best_at K h)"
    using inv by (auto simp: dri_inv_def)
  from mm.alloc_returns [OF live, of ?vs] obtain a m where
    al: "just_alloc (pool d) (mem_handle d) ?vs = Some (a, m)" by blast
  show ?thesis
  proof (cases "a = 0")
    case True
    with al mm.alloc_fail [OF live, of ?vs m] have "m = pool d" by simp
    with True al show ?thesis by (simp add: userspace_arena_lpm_dri_update_elem_def)
  next
    case False
    have live': "mm_live (mem_handle d) lo hi m ((a, ?vs) # bs)" by (rule mm.alloc_block [OF live al False])
    define d1 where "d1 = store_value (d\<lparr>pool := m\<rparr>) a v"
    have d1: "tbl_24 d1 = tbl_24 d" "tbl_24_sz d1 = tbl_24_sz d" "value_size d1 = value_size d"
      "pool d1 = m" "mem_handle d1 = mem_handle d"
      by (simp_all add: d1_def store_value_def)
    have "\<not> 24 < prefixlen key" using p by (simp add: word_less_nat_alt)
    then have res: "userspace_arena_lpm_dri_update_elem d key v = Some (update_tbl_24 d1 key (of_nat a))"
      using al False by (simp add: userspace_arena_lpm_dri_update_elem_def d1_def)
    have upd: "update_tbl_24 d1 key (of_nat a) = (if ?k div 2 ^ s * 2 ^ s + 2 ^ s + 1 < TBL24_COUNT
     then Inr (0, d1\<lparr>tbl_24 := (\<lambda>j.
            if j div 2 ^ s = ?k div 2 ^ s
               \<and> (state (tbl_24 d j) = NOT_SET \<or> e_prefixlen (tbl_24 d j) \<le> prefixlen key)
            then \<lparr>state = IN_TBL_24, e_prefixlen = prefixlen key, union_word = of_nat a\<rparr>
            else tbl_24 d j)\<rparr>)
     else Inl Assertion_failed)"
      unfolding s_def d1(1) [symmetric]
      by (rule update_tbl_24_spec) (use p sz dri_inv_states [OF inv] in \<open>simp_all add: d1\<close>)
    show ?thesis
    proof (cases "?k div 2 ^ s * 2 ^ s + 2 ^ s + 1 < TBL24_COUNT")
      case room: True
      define d2 where "d2 = d1\<lparr>tbl_24 := (\<lambda>j.
            if j div 2 ^ s = ?k div 2 ^ s
               \<and> (state (tbl_24 d j) = NOT_SET \<or> e_prefixlen (tbl_24 d j) \<le> prefixlen key)
            then \<lparr>state = IN_TBL_24, e_prefixlen = prefixlen key, union_word = of_nat a\<rparr>
            else tbl_24 d j)\<rparr>"
      have d2: "tbl_24_sz d2 = tbl_24_sz d" "value_size d2 = value_size d"
        "pool d2 = m" "mem_handle d2 = mem_handle d" "val_bytes d2 = val_bytes d1"
        by (simp_all add: d2_def d1)
      have agr': "entry_agrees (tbl_24 d2 (unat (drop_bit 8 K))) (best_at K (((key, v), a) # h))" for K
        using agr [of K] covered_index [OF p, of K]
        by (auto simp: d2_def s_def [symmetric] entry_agrees_def NOT_SET_def IN_TBL_24_def
            split: option.splits)
      have vals: "val_bytes d2 (b + i) = snd r i" if "(r, b) \<in> set (((key, v), a) # h)" "i < ?vs" for r b i
      proof (cases "(r, b) = ((key, v), a)")
        case True
        with that show ?thesis by (simp add: d2 d1_def store_value_def)
      next
        case False
        with that(1) have rb: "(r, b) \<in> set h" by auto
        with inv have "(b, ?vs) \<in> set bs" and ok: "val_bytes d (b + i) = snd r i"
          using that(2) by (auto simp: dri_inv_def)
        with mm.live_apart [OF live'] have "payload_apart (a, ?vs) (b, ?vs)" by auto
        with that(2) ok show ?thesis
          by (auto simp: d2 d1_def store_value_def payload_apart_def)
      qed
      have mem: "(b, ?vs) \<in> set ((a, ?vs) # bs)" if "(r, b) \<in> set (((key, v), a) # h)" for r b
        using that inv by (auto simp: dri_inv_def)
      have "dri_inv d2 lo hi ((a, ?vs) # bs) (((key, v), a) # h)"
        using inv live' agr' vals mem unfolding dri_inv_def d2 by fastforce
      then show ?thesis using res upd room d2(2) unfolding d2_def by auto
    next
      case False
      then show ?thesis using res upd by simp
    qed
  qed
qed

text \<open>A sequence of updates, the oldest first, that all return zero.\<close>

fun dri_updates :: "lpm_dri \<Rightarrow> rule list \<Rightarrow> lpm_dri option" where
  "dri_updates d [] = Some d"
| "dri_updates d ((key, v) # us) =
     (case userspace_arena_lpm_dri_update_elem d key v of
        Some (Inr (ret, d')) \<Rightarrow> if ret = 0 then dri_updates d' us else None
      | _ \<Rightarrow> None)"

lemma dri_updates_inv:
  assumes "dri_inv d lo hi bs h" and "\<forall>(key, v) \<in> set us. unat (prefixlen key) \<le> 24"
    and "dri_updates d us = Some d'"
  shows "\<exists>bs' h'. dri_inv d' lo hi bs' h' \<and> map fst h' = rev us @ map fst h \<and> value_size d' = value_size d"
  using assms
proof (induction us arbitrary: d bs h)
  case Nil
  then show ?case by auto
next
  case (Cons u us)
  obtain key v where u: "u = (key, v)" by force
  with Cons.prems(3) obtain d1 where d1: "userspace_arena_lpm_dri_update_elem d key v = Some (Inr (0, d1))"
    "dri_updates d1 us = Some d'"
    by (auto split: option.splits sum.splits prod.splits if_splits)
  have "unat (prefixlen key) \<le> 24" using Cons.prems(2) u by simp
  from dri_update_step [OF Cons.prems(1) this, of v] d1(1) obtain bs1 a where
    i1: "dri_inv d1 lo hi bs1 (((key, v), a) # h)" and vs: "value_size d1 = value_size d"
    by (auto simp: ENOMEM_def)
  from Cons.IH [OF i1 _ d1(2)] Cons.prems(2) obtain bs' h' where
    "dri_inv d' lo hi bs' h'" "map fst h' = rev us @ map fst (((key, v), a) # h)"
    "value_size d' = value_size d1" by auto
  with u vs show ?case by auto
qed

lemma dri_alloc_inv:
  assumes al: "userspace_arena_lpm_dri_alloc area m vb arg = Inr (d, n)"
    and fits: "area \<le> 2 ^ 63" "(unat (arg_value_size arg) + 32) * unat (max_entries arg) \<le> 2 ^ 31"
    and vs: "0 < unat (arg_value_size arg)"
  shows "\<exists>lo hi. dri_inv d lo hi [] []" and "value_size d = arg_value_size arg"
proof -
  define pool_sz where "pool_sz = (unat (arg_value_size arg) + 32) * unat (max_entries arg)"
  define mem_sz where "mem_sz = 48 + 218103808 + 262144 + pool_sz"
  define np where "np = COUNT_OBJ mem_sz PAGE_SIZE"
  define total where "total = (ucast ((of_nat np :: u32) * of_nat PAGE_SIZE) :: u64)"
  define av where "av = total - of_nat 48 - of_nat 218103808 - of_nat 262144"
  have np: "np * 4096 < mem_sz + 4096" "mem_sz \<le> np * 4096"
    using COUNT_OBJ_bounds [of PAGE_SIZE mem_sz] by (simp_all add: np_def PAGE_SIZE_def)
  have ms: "mem_sz \<le> 2 ^ 31 + 218366000" using fits(2) by (simp add: mem_sz_def pool_sz_def)
  have np32: "np * 4096 < 2 ^ LENGTH(32)" using np(1) ms by simp
  have w: "unat ((of_nat np :: u32) * of_nat PAGE_SIZE) = np * 4096"
    using unat_of_nat_small [OF np32] by (simp add: PAGE_SIZE_def)
  have tot: "unat total = np * 4096" unfolding total_def using w by (subst unat_ucast_widen) simp_all
  have "unat av = np * 4096 - 218366000"
  proof -
    have "218366000 \<le> unat total" using np(2) tot by (simp add: mem_sz_def)
    then have "unat (total - 218366000) = unat total - 218366000"
      by (subst unat_sub) (simp_all add: word_le_nat_alt)
    moreover have "av = total - 218366000" by (simp add: av_def)
    ultimately show ?thesis using tot by simp
  qed
  then have av: "unat av \<le> 2 ^ 32" using np32 by simp
  obtain m' where cr: "create_mem_region_obj m (area + 48 + 218103808 + 262144) (unat av) (area + 40) = (0, m')"
    and d: "d = \<lparr>tbl_24 = (\<lambda>_. \<lparr>state = 0, e_prefixlen = 0, union_word = 0\<rparr>),
                 tbl_24_sz = of_nat 218103808,
                 tbl_long = (\<lambda>_. \<lparr>valid = 0, l_prefixlen = 0, l_data = 0\<rparr>),
                 tbl_long_sz = of_nat 262144, tbl_long_free_chunks = 64, tbl_long_alloc_chunks = 0,
                 value_size = arg_value_size arg, mem_handle = area + 40, pool = m', val_bytes = vb\<rparr>"
    using al unfolding userspace_arena_lpm_dri_alloc_def Let_def av_def total_def np_def mem_sz_def
      pool_sz_def
    by (auto simp: dri_consts HDR_SZ_def add.assoc split: if_splits prod.splits)
  show "value_size d = arg_value_size arg" by (simp add: d)
  have "heap_inv m' (area + 40) (area + 48 + 218103808 + 262144)
      (area + 48 + 218103808 + 262144 + unat av) [area + 48 + 218103808 + 262144] []"
    by (rule create_mem_region_obj_inv [OF cr]) simp_all
  then have "mm_live (area + 40) (area + 48 + 218103808 + 262144)
      (area + 48 + 218103808 + 262144 + unat av) m' []"
    by (auto simp: mm_live_def)
  then show "\<exists>lo hi. dri_inv d lo hi [] []"
    using vs fits(1) av unfolding dri_inv_def d
    by (intro exI [of _ "area + 48 + 218103808 + 262144"]
          exI [of _ "area + 48 + 218103808 + 262144 + unat av"])
      (simp add: dri_consts entry_agrees_def)
qed

lemma dri_updates_lookup:
  assumes al: "userspace_arena_lpm_dri_alloc area m vb arg = Inr (d0, n)"
    and fits: "area \<le> 2 ^ 63" "(unat (arg_value_size arg) + 32) * unat (max_entries arg) \<le> 2 ^ 31"
    and vs: "0 < unat (arg_value_size arg)"
    and short: "\<forall>(key, v) \<in> set us. unat (prefixlen key) \<le> 24"
    and upd: "dri_updates d0 us = Some d"
  shows "\<exists>p. arena_lpm_dri_lookup_elem d \<lparr>prefixlen = 32, key_data = k\<rparr> = Inr p
    \<and> (case best_rule (ntohl k) (rev us) of
         None \<Rightarrow> p = 0
       | Some (key, v) \<Rightarrow> p \<noteq> 0 \<and> covered_by (ntohl k) key \<and> (key, v) \<in> set us
           \<and> (\<forall>(key', v') \<in> set us. covered_by (ntohl k) key' \<longrightarrow> prefixlen key' \<le> prefixlen key)
           \<and> (\<forall>i < unat (arg_value_size arg). val_bytes d (unat p + i) = v i))"
proof -
  from dri_alloc_inv(1) [OF al fits vs] obtain lo hi where "dri_inv d0 lo hi [] []" by blast
  from dri_updates_inv [OF this short upd] dri_alloc_inv(2) [OF al fits vs] obtain bs h where
    inv: "dri_inv d lo hi bs h" and h: "map fst h = rev us" and vsd: "value_size d = arg_value_size arg"
    by auto
  have rule: "map_option fst (best_at (ntohl k) h) = best_rule (ntohl k) (rev us)"
    using best_at_rule [of "ntohl k" h] h by simp
  show ?thesis
  proof (cases "best_at (ntohl k) h")
    case None
    with rule dri_inv_lookup [OF inv, of k] show ?thesis by simp
  next
    case (Some x)
    obtain key v a where x: "x = ((key, v), a)" by (metis prod.exhaust)
    from best_at_mem [OF Some] x have mem: "((key, v), a) \<in> set h" by simp
    from dri_inv_block [OF inv mem] have a: "unat (of_nat a :: u64) = a" "0 < a" .
    have b: "best_rule (ntohl k) (rev us) = Some (key, v)" using rule Some x by simp
    have "\<forall>i < unat (value_size d). val_bytes d (a + i) = v i"
      using inv mem by (fastforce simp: dri_inv_def)
    moreover have "(of_nat a :: u64) \<noteq> 0"
    proof
      assume "(of_nat a :: u64) = 0"
      with a show False by simp
    qed
    ultimately show ?thesis
      using dri_inv_lookup [OF inv, of k] Some x a vsd best_rule_longest(1) [OF b] by (auto simp: b)
  qed
qed

text \<open>C24. From a fresh table, after any sequence of successful updates with prefixes of at most 24
  bits, the lookup of an address gives a null pointer when no rule covers it, and otherwise a
  pointer to a copy of the value of the rule with the longest prefix, the newest one on a tie.\<close>

theorem dri_lookup_longest_prefix:
  assumes al: "userspace_arena_lpm_dri_alloc area m vb arg = Inr (d0, n)"
    and fits: "area \<le> 2 ^ 63" "(unat (arg_value_size arg) + 32) * unat (max_entries arg) \<le> 2 ^ 31"
    and vs: "0 < unat (arg_value_size arg)"
    and short: "\<forall>(key, v) \<in> set us. unat (prefixlen key) \<le> 24"
    and upd: "dri_updates d0 us = Some d"
  shows "\<exists>p. arena_lpm_dri_lookup_elem d \<lparr>prefixlen = 32, key_data = k\<rparr> = Inr p
    \<and> (case best_rule (ntohl k) (rev us) of
         None \<Rightarrow> p = 0
       | Some (key, v) \<Rightarrow> p \<noteq> 0 \<and> covered_by (ntohl k) key \<and> (key, v) \<in> set us
           \<and> (\<forall>(key', v') \<in> set us. covered_by (ntohl k) key' \<longrightarrow> prefixlen key' \<le> prefixlen key)
           \<and> (\<forall>i < unat (arg_value_size arg). val_bytes d (unat p + i) = v i))"
  using assms by (rule dri_updates_lookup)

definition dri_ex_args :: dri_alloc_args where
  "dri_ex_args = \<lparr>area_size = 0x10000000, key_size = 8, max_entries = 16, arg_value_size = 4\<rparr>"

definition dri_ex_key :: lpm_dri_key_t where
  "dri_ex_key = \<lparr>prefixlen = 24, key_data = 0x0000000a\<rparr>"

definition dri_ex0 :: lpm_dri where
  "dri_ex0 = \<lparr>tbl_24 = (\<lambda>_. \<lparr>state = 0, e_prefixlen = 0, union_word = 0\<rparr>),
     tbl_24_sz = 218103808, tbl_long = (\<lambda>_. \<lparr>valid = 0, l_prefixlen = 0, l_data = 0\<rparr>),
     tbl_long_sz = 262144, tbl_long_free_chunks = 64, tbl_long_alloc_chunks = 0, value_size = 4,
     mem_handle = 4136, pool = snd (create_mem_region_obj mm_blank 218370096 4048 4136),
     val_bytes = (\<lambda>_. 0)\<rparr>"

lemma dri_ex0_alloc:
  "userspace_arena_lpm_dri_alloc 4096 mm_blank (\<lambda>_. 0) dri_ex_args = Inr (dri_ex0, 53313)"
  by (simp add: userspace_arena_lpm_dri_alloc_def dri_ex_args_def dri_consts HDR_SZ_def PAGE_SIZE_def
      COUNT_OBJ_def Let_def create_mem_region_obj_def MIN_SIZE_def dri_ex0_def)

lemma dri_ex0_pool:
  "\<exists>m. just_alloc (pool dri_ex0) 4136 4 = Some (218370128, m)"
  by (simp add: dri_ex0_def create_mem_region_obj_def MIN_SIZE_def HDR_SZ_def just_alloc_def
      find_fit.simps [of _ 4 "First 4136" 218370096] MAX_SIZE_def region_defs Let_def mm_blank_def
      split: prod.splits)

lemma dri_ex0_update:
  "\<exists>d. dri_updates dri_ex0 [(dri_ex_key, v)] = Some d"
proof -
  obtain m where m: "just_alloc (pool dri_ex0) 4136 4 = Some (218370128, m)" using dri_ex0_pool by blast
  have e: "mem_handle dri_ex0 = 4136" "value_size dri_ex0 = 4" "tbl_24_sz dri_ex0 = 218103808"
    "tbl_24 dri_ex0 i = \<lparr>state = 0, e_prefixlen = 0, union_word = 0\<rparr>" for i
    by (simp_all add: dri_ex0_def)
  have "bswap32 0xa = 0xa000000"
    by (simp add: bswap32_def le32_def drop_bit_eq_div push_bit_eq_mult)
  with m show ?thesis
    by (simp add: userspace_arena_lpm_dri_update_elem_def e dri_ex_key_def store_value_def
        update_tbl_24_def DRI_ENTRY_SZ_def NOT_SET_def Let_def drop_bit_eq_div)
qed

theorem dri_lookup_longest_prefix_witness:
  "\<exists>d p. dri_updates dri_ex0 [(dri_ex_key, \<lambda>i. of_nat i)] = Some d
    \<and> arena_lpm_dri_lookup_elem d \<lparr>prefixlen = 32, key_data = 0x0700000a\<rparr> = Inr p
    \<and> p \<noteq> 0 \<and> (\<forall>i < 4. val_bytes d (unat p + i) = of_nat i)"
proof -
  obtain d where d: "dri_updates dri_ex0 [(dri_ex_key, \<lambda>i. of_nat i)] = Some d"
    using dri_ex0_update by blast
  have "covered_by (bswap32 0x0700000a) dri_ex_key"
    by (simp add: covered_by_def dri_ex_key_def bswap32_def le32_def drop_bit_eq_div push_bit_eq_mult Let_def)
  then show ?thesis
    using dri_lookup_longest_prefix [OF dri_ex0_alloc _ _ _ _ d, of "0x0700000a"] d
    by (auto simp: dri_ex_args_def dri_ex_key_def)
qed

text \<open>A default route (prefix length zero) can never be installed: when the value could be
  allocated, the update aborts in an assertion, since the range has to end two entries before
  the end of the table.\<close>

theorem dri_default_route_aborts:
  assumes "unat (tbl_24_sz d) = TBL24_COUNT * DRI_ENTRY_SZ" and "prefixlen key = 0"
    and "just_alloc (pool d) (mem_handle d) (unat (value_size d)) = Some (a, m)" and "a \<noteq> 0"
  shows "userspace_arena_lpm_dri_update_elem d key v = Some (Inl Assertion_failed)"
  using assms
  by (simp add: userspace_arena_lpm_dri_update_elem_def update_tbl_24_def store_value_def dri_consts
      push_bit_eq_mult Let_def)

theorem dri_default_route_aborts_witness:
  "userspace_arena_lpm_dri_update_elem dri_ex0 \<lparr>prefixlen = 0, key_data = 0\<rparr> (\<lambda>_. 0)
    = Some (Inl Assertion_failed)"
proof -
  obtain m where "just_alloc (pool dri_ex0) 4136 4 = Some (218370128, m)" using dri_ex0_pool by blast
  then show ?thesis
    by (intro dri_default_route_aborts [where a = 218370128 and m = m])
      (simp_all add: dri_ex0_def dri_consts)
qed

subsection \<open>Rules with more than 24 bits\<close>

lemma fill_long_spec:
  assumes "unat off + n \<le> TBL_LONG_COUNT"
  shows "fill_long keep plen obj n off d = Inr (d\<lparr>tbl_long := (\<lambda>j.
    if unat off \<le> j \<and> j < unat off + n \<and> \<not> keep (tbl_long d j)
    then \<lparr>valid = 1, l_prefixlen = plen, l_data = obj\<rparr> else tbl_long d j)\<rparr>)"
  using assms
proof (induction n arbitrary: off d)
  case 0
  have "(\<lambda>j. if unat off \<le> j \<and> j < unat off + 0 \<and> \<not> keep (tbl_long d j)
    then \<lparr>valid = 1, l_prefixlen = plen, l_data = obj\<rparr> else tbl_long d j) = tbl_long d"
    by (auto simp: fun_eq_iff)
  then show ?case by simp
next
  case (Suc n)
  have lt: "unat off < TBL_LONG_COUNT" using Suc.prems by simp
  then have "unat (off + 1) = unat off + 1"
    by (subst unat_add_no_wrap) (simp_all add: TBL_LONG_COUNT_def)
  with Suc.prems have off1: "unat (off + 1) = Suc (unat off)" "unat (off + 1) + n \<le> TBL_LONG_COUNT" by simp_all
  let ?new = "\<lparr>valid = 1, l_prefixlen = plen, l_data = obj\<rparr>"
  let ?at = "\<lambda>lo n t j. if lo \<le> j \<and> j < lo + n \<and> \<not> keep (t j) then ?new else t j"
  show ?case
  proof (cases "keep (tbl_long d (unat off))")
    case True
    have "?at (Suc (unat off)) n (tbl_long d) = ?at (unat off) (Suc n) (tbl_long d)"
      using True by (auto simp: fun_eq_iff Suc_le_eq nat_less_le)
    then show ?thesis using lt True Suc.IH [OF off1(2)] by (simp add: off1(1))
  next
    case False
    show ?thesis
      using lt False Suc.IH [OF off1(2)]
      by (simp add: off1(1))
        (rule arg_cong [where f = "\<lambda>t. d\<lparr>tbl_long := t\<rparr>"],
         auto simp: fun_eq_iff Suc_le_eq nat_less_le)
  qed
qed

text \<open>
  The result of the update of a rule with more than 24 bits, for an entry of the first table that
  is not set or holds a shorter rule: the chunk gets the old data, then the window of the rule.
\<close>

lemma chunk_offsets:
  assumes "c < (64 :: u32)"
  shows "unat (c * of_nat TBL_LONG_CHUNK) = unat c * 256" and "unat c * 256 + 256 \<le> TBL_LONG_COUNT"
proof -
  have c: "unat c < 64" using assms by (simp add: word_less_nat_alt)
  have "c * of_nat TBL_LONG_CHUNK = of_nat (unat c * 256)" by (simp add: TBL_LONG_CHUNK_def)
  moreover have "unat (of_nat (unat c * 256) :: u32) = unat c * 256"
    using c by (intro unat_of_nat_small) simp
  ultimately show "unat (c * of_nat TBL_LONG_CHUNK) = unat c * 256" by simp
  show "unat c * 256 + 256 \<le> TBL_LONG_COUNT" using c by (simp add: TBL_LONG_COUNT_def)
qed

lemma set_long_entry_of [simp]: "long_entry_of (set_long_entry e b) = b"
proof -
  have "ucast ((union_word e AND NOT (mask 32)) OR ucast b :: u64) = b"
    by (rule word_eq_bitsI) (auto simp: bit_simps)
  then show ?thesis by (simp add: long_entry_of_def set_long_entry_def)
qed

lemma low_byte: "unat (K AND 0xff :: u32) < 256" and low_byte_word: "K AND 0xff = take_bit 8 (K :: u32)"
proof -
  show "K AND 0xff = take_bit 8 (K :: u32)" by (simp add: take_bit_eq_mask mask_eq_exp_minus_1)
  then have "unat (K AND 0xff) = take_bit 8 (unat K)" by (simp only: unsigned_take_bit_eq)
  then show "unat (K AND 0xff :: u32) < 256" using take_bit_nat_less_exp [of 8 "unat K"] by simp
qed

text \<open>After a rule with more than 24 bits is added below an entry that is not set, an address of
  the same 24-bit block gets the rule's data exactly when its last byte lies in the window of
  \<open>2 ^ (prefixlen - 24)\<close> entries that starts at the last byte of the rule; a rule of 25 bits thus
  covers two addresses instead of 128, a rule of 32 bits 256 instead of one.\<close>

theorem dri_long_rule_window:
  assumes p: "24 < prefixlen key" "prefixlen key \<le> 32"
    and K: "K = ntohl (key_data key)" and unset: "state (tbl_24 d (unat (drop_bit 8 K))) = NOT_SET"
    and room: "tbl_long_alloc_chunks d < tbl_long_free_chunks d" "tbl_long_free_chunks d \<le> 64"
    and blank: "\<And>j. j < 256 \<Longrightarrow> l_data (tbl_long d (unat (tbl_long_alloc_chunks d) * 256 + j)) = 0"
    and win: "w = 2 ^ unat (prefixlen key - 24)" "unat (K AND 0xff) + w \<le> 256"
    and block: "drop_bit 8 (ntohl k) = drop_bit 8 K"
  shows "\<exists>d'. add_long_entry d key obj = Inr (0, d')
    \<and> arena_lpm_dri_lookup_elem d' \<lparr>prefixlen = 32, key_data = k\<rparr>
      = Inr (if unat (K AND 0xff) \<le> unat (ntohl k AND 0xff)
               \<and> unat (ntohl k AND 0xff) < unat (K AND 0xff) + w then obj else 0)"
proof -
  let ?c = "tbl_long_alloc_chunks d"
  let ?base = "?c * of_nat TBL_LONG_CHUNK"
  have c64: "?c < 64" using room by (rule less_le_trans)
  note ch = chunk_offsets [OF c64]
  have sum: "unat (?base + (x AND 0xff)) = unat ?c * 256 + unat (x AND 0xff)" for x :: u32
    using ch low_byte [of x] by (subst unat_add_no_wrap) (auto simp: TBL_LONG_COUNT_def)
  define d1 where "d1 = set_entry (d\<lparr>tbl_long_alloc_chunks := ?c + 1\<rparr>) (unat (drop_bit 8 K))
    (set_long_entry (tbl_24 d (unat (drop_bit 8 K))\<lparr>state := IN_TBL_LONG, e_prefixlen := 24\<rparr>) ?base)"
  have fill: "fill_long (\<lambda>_. False) (prefixlen key) obj w (?base + (K AND 0xff)) d1
    = Inr (d1\<lparr>tbl_long := (\<lambda>j. if unat ?c * 256 + unat (K AND 0xff) \<le> j
        \<and> j < unat ?c * 256 + unat (K AND 0xff) + w \<and> \<not> False
      then \<lparr>valid = 1, l_prefixlen = prefixlen key, l_data = obj\<rparr> else tbl_long d1 j)\<rparr>)"
    unfolding sum [symmetric] by (rule fill_long_spec) (use ch win in \<open>simp add: sum\<close>)
  have p24: "unat (prefixlen key - 24) \<le> 8"
    using p unat_sub [of 24 "prefixlen key"] by (simp add: word_le_nat_alt word_less_nat_alt)
  have "alloc_chunk d = (Inr ?base, d\<lparr>tbl_long_alloc_chunks := ?c + 1\<rparr>)"
    using room by (simp add: alloc_chunk_def)
  then have res: "add_long_entry d key obj = Inr (0, d1\<lparr>tbl_long := (\<lambda>j.
      if unat ?c * 256 + unat (K AND 0xff) \<le> j
        \<and> j < unat ?c * 256 + unat (K AND 0xff) + w \<and> \<not> False
      then \<lparr>valid = 1, l_prefixlen = prefixlen key, l_data = obj\<rparr> else tbl_long d1 j)\<rparr>)"
    using p unset p24 fill by (simp add: add_long_entry_def Let_def K [symmetric] d1_def win(1))
  have e: "tbl_24 d1 (unat (drop_bit 8 K)) =
      set_long_entry (tbl_24 d (unat (drop_bit 8 K))\<lparr>state := IN_TBL_LONG, e_prefixlen := 24\<rparr>) ?base"
    "tbl_long d1 = tbl_long d"
    by (simp_all add: d1_def set_entry_def)
  have st: "state (set_long_entry x b) = state x" for x b by (simp add: set_long_entry_def)
  have rd: "unat (?base + (ntohl k AND 0xff)) < TBL_LONG_COUNT"
    using ch low_byte [of "ntohl k"] by (simp add: sum)
  show ?thesis
    using res rd low_byte [of "ntohl k"]
    by (auto simp: arena_lpm_dri_lookup_elem_def Let_def block e st NOT_SET_def IN_TBL_LONG_def
        read_long_def sum blank)
qed

theorem dri_long_rule_window_witness:
  "\<exists>d'. add_long_entry dri_ex0 \<lparr>prefixlen = 25, key_data = 0x0000000a\<rparr> 77 = Inr (0, d')
    \<and> arena_lpm_dri_lookup_elem d' \<lparr>prefixlen = 32, key_data = 0x0500000a\<rparr> = Inr 0
    \<and> covered_by (ntohl 0x0500000a) \<lparr>prefixlen = 25, key_data = 0x0000000a\<rparr>"
proof -
  have K: "bswap32 0xa = 0xa000000" "bswap32 0x0500000a = 0xa000005"
    by (simp_all add: bswap32_def le32_def drop_bit_eq_div push_bit_eq_mult)
  have "covered_by (ntohl 0x0500000a) \<lparr>prefixlen = 25, key_data = 0x0000000a\<rparr>"
    by (simp add: covered_by_def K Let_def drop_bit_eq_div)
  then show ?thesis
    using dri_long_rule_window [of "\<lparr>prefixlen = 25, key_data = 0x0000000a\<rparr>" "0xa000000" dri_ex0 2
        "0x0500000a" 77]
    by (auto simp: K dri_ex0_def NOT_SET_def drop_bit_eq_div)
qed

end
