(* ===== verification/Lpm_Trie.thy ===== *)
theory Lpm_Trie
  imports Arena_Mm Bytes
begin

text \<open>
  The longest-prefix-match trie in the arena: \<open>libs/arena-ds/arena_lpm_trie.h\<close>, with the bit search of
  \<open>kmod/ffs_arena.c\<close>. A node is a record at its address; the bytes of keys and values are at the
  address of the node plus 24 (\<open>sizeof(struct lpm_trie_node)\<close>). A key is a prefix length and the
  bytes of an address in network order.
\<close>

record lpm_key =
  k_prefixlen :: u32
  k_data :: bytes

record lpm_trie_node =
  child0 :: addr
  child1 :: addr
  n_prefixlen :: u32
  flags :: u32

record lpm_trie =
  root :: addr
  t_mem :: addr
  n_entries :: u64
  t_max_entries :: u64
  max_prefixlen :: u64
  t_key_size :: u64
  t_value_size :: u64
  height :: u32
  nodes :: "addr \<Rightarrow> lpm_trie_node"
  tdata :: bytes
  t_pool :: arena_mem

definition TRIE_MAX_HEIGHT :: nat where "TRIE_MAX_HEIGHT = 2 ^ 15"
definition LPM_TREE_NODE_FLAG_IM :: u32 where "LPM_TREE_NODE_FLAG_IM = 1"
definition KEY_DATA_OFFSET :: nat where "KEY_DATA_OFFSET = 4"
definition NODE_HDR :: nat where "NODE_HDR = 24"

definition child :: "lpm_trie_node \<Rightarrow> nat \<Rightarrow> addr" where
  "child n b = (if b = 0 then child0 n else child1 n)"

definition get_node_key :: "addr \<Rightarrow> addr" where "get_node_key node = node + NODE_HDR"

definition get_node_value :: "lpm_trie \<Rightarrow> addr \<Rightarrow> addr" where
  "get_node_value t node = node + NODE_HDR + (unat (t_key_size t) - KEY_DATA_OFFSET)"

definition NODE_SIZE :: "u64 \<Rightarrow> u64 \<Rightarrow> nat" where
  "NODE_SIZE vsz ksz = NODE_HDR + unat vsz + unat ksz - KEY_DATA_OFFSET"

definition data_at :: "lpm_trie \<Rightarrow> addr \<Rightarrow> bytes" where "data_at t a = (\<lambda>i. tdata t (a + i))"

text \<open>
  \<open>fls\<close> finds the lowest set bit, counted from one: \<open>__builtin_ffs\<close>, and in the program for the
  kernel the loop below.
\<close>

fun ffs_loop :: "nat \<Rightarrow> u32 \<Rightarrow> nat \<Rightarrow> nat" where
  "ffs_loop 0 x i = i"
| "ffs_loop (Suc n) x i = (if x AND 1 \<noteq> 0 then i else ffs_loop n (drop_bit 1 x) (Suc i))"

definition fls :: "u32 \<Rightarrow> u32" where "fls x = of_nat (Suc (ffs_loop 32 x 0))"

definition my_kfunc_ffs_arena :: "u32 \<Rightarrow> u32" where
  "my_kfunc_ffs_arena x = (if x = 0 then 0 else fls x)"

definition extract_bit :: "bytes \<Rightarrow> u64 \<Rightarrow> nat" where
  "extract_bit d index =
     (if 32 \<le> index then 0
      else let byte = unat index div 8; off = 7 - unat index mod 8 in
           if d byte AND push_bit off 1 \<noteq> 0 then 1 else 0)"

definition longest_prefix_match :: "lpm_trie \<Rightarrow> addr \<Rightarrow> lpm_key \<Rightarrow> u64" where
  "longest_prefix_match t node key =
     (let np = n_prefixlen (nodes t node); kp = k_prefixlen key;
          limit = (if np < kp then np else kp);
          key_sz = (ucast (t_key_size t) :: u32) - 4
      in if key_sz = 4
         then let diff = load32 (data_at t (get_node_key node)) 0 XOR load32 (k_data key) 0;
                  prefixlen = (if diff = 0 then 32 else 32 - fls diff)
              in if limit \<le> prefixlen then ucast limit else ucast prefixlen
         else 0)"

subsection \<open>Lookup\<close>

record walk_state =
  w_node :: addr
  w_found :: addr

text \<open>The callback of \<open>bpf_loop\<close>: \<open>True\<close> stops the loop.\<close>

definition lookup_walk_nodes :: "lpm_trie \<Rightarrow> lpm_key \<Rightarrow> walk_state \<Rightarrow> bool \<times> walk_state" where
  "lookup_walk_nodes t key ws =
     (let node = w_node ws in
      if node = 0 then (True, ws)
      else
        let matchlen = longest_prefix_match t node key;
            np = n_prefixlen (nodes t node)
        in if matchlen = max_prefixlen t then (True, ws\<lparr>w_found := node\<rparr>)
           else if matchlen < ucast np then (True, ws)
           else
             let ws = (if flags (nodes t node) AND LPM_TREE_NODE_FLAG_IM = 0
                       then ws\<lparr>w_found := node\<rparr> else ws);
                 next_bit = extract_bit (k_data key) (ucast np)
             in (False, ws\<lparr>w_node := child (nodes t node) next_bit\<rparr>))"

definition arena_trie_lookup_elem :: "lpm_trie \<Rightarrow> lpm_key \<Rightarrow> addr" where
  "arena_trie_lookup_elem t key =
     (if max_prefixlen t < ucast (k_prefixlen key) then 0
      else
        let ws = bpf_loop TRIE_MAX_HEIGHT (lookup_walk_nodes t key)
                   \<lparr>w_node = root t, w_found = 0\<rparr>
        in if w_found ws = 0 then 0
           else w_found ws + NODE_HDR + unat (t_key_size t))"

subsection \<open>Allocation and update\<close>

record trie_alloc_args =
  a_key_size :: u32
  a_value_size :: u32
  a_max_entries :: u32

definition LPM_TRIE_SZ :: nat where "LPM_TRIE_SZ = 64"

definition userspace_arena_trie_alloc ::
  "addr \<Rightarrow> arena_mem \<Rightarrow> bytes \<Rightarrow> (addr \<Rightarrow> lpm_trie_node) \<Rightarrow> trie_alloc_args \<Rightarrow> int + lpm_trie" where
  "userspace_arena_trie_alloc area m vb ns arg =
     (if unat (a_key_size arg) < KEY_DATA_OFFSET then Inl (- EINVAL)
      else if a_key_size arg \<noteq> 8 then Inl (- EINVAL)
      else
        let node_sz = NODE_SIZE (ucast (a_value_size arg)) (ucast (a_key_size arg)) + HDR_SZ;
            mem_pool_sz = unat (a_max_entries arg) * node_sz;
            mem_sz = LPM_TRIE_SZ + mem_pool_sz;
            num_pages = COUNT_OBJ mem_sz PAGE_SIZE;
            available_memory = num_pages * PAGE_SIZE - LPM_TRIE_SZ;
            h = area + 8;
            (ret, m) = create_mem_region_obj m (area + LPM_TRIE_SZ) available_memory h
        in if ret \<noteq> 0 then Inl (-1)
           else Inr \<lparr>root = 0, t_mem = h, n_entries = 0,
                     t_max_entries = ucast (a_max_entries arg),
                     max_prefixlen = (ucast (a_key_size arg) - 4) * 8,
                     t_key_size = ucast (a_key_size arg), t_value_size = ucast (a_value_size arg),
                     height = 0, nodes = ns, tdata = vb, t_pool = m\<rparr>)"

definition set_node :: "lpm_trie \<Rightarrow> addr \<Rightarrow> lpm_trie_node \<Rightarrow> lpm_trie" where
  "set_node t a n = t\<lparr>nodes := (nodes t)(a := n)\<rparr>"

definition put_bytes :: "lpm_trie \<Rightarrow> addr \<Rightarrow> nat \<Rightarrow> bytes \<Rightarrow> lpm_trie" where
  "put_bytes t a n b = t\<lparr>tdata := (\<lambda>x. if a \<le> x \<and> x < a + n then b (x - a) else tdata t x)\<rparr>"

text \<open>\<open>None\<close> is a run of the allocator that does not return.\<close>

definition lpm_trie_node_alloc :: "lpm_trie \<Rightarrow> (addr \<times> lpm_trie) option" where
  "lpm_trie_node_alloc t =
     (case just_alloc (t_pool t) (t_mem t) (NODE_SIZE (t_value_size t) (t_key_size t)) of
        None \<Rightarrow> None
      | Some (node, m) \<Rightarrow>
          let t = t\<lparr>t_pool := m\<rparr> in
          if node = 0 then Some (0, t)
          else Some (node, set_node t node ((nodes t node)\<lparr>flags := 0\<rparr>)))"

text \<open>A slot is the root pointer or a child pointer of a node.\<close>

datatype slot = Root | Child addr nat

fun read_slot :: "lpm_trie \<Rightarrow> slot \<Rightarrow> addr" where
  "read_slot t Root = root t"
| "read_slot t (Child a b) = child (nodes t a) b"

definition set_child :: "lpm_trie_node \<Rightarrow> nat \<Rightarrow> addr \<Rightarrow> lpm_trie_node" where
  "set_child n b a = (if b = 0 then n\<lparr>child0 := a\<rparr> else n\<lparr>child1 := a\<rparr>)"

fun write_slot :: "lpm_trie \<Rightarrow> slot \<Rightarrow> addr \<Rightarrow> lpm_trie" where
  "write_slot t Root v = t\<lparr>root := v\<rparr>"
| "write_slot t (Child a b) v = set_node t a (set_child (nodes t a) b v)"

text \<open>
  The descent. The result is the slot, the last match length and the height; \<open>None\<close> is the run
  that never ends.
\<close>

partial_function (option) find_slot ::
  "lpm_trie \<Rightarrow> lpm_key \<Rightarrow> slot \<Rightarrow> u64 \<Rightarrow> u32 \<Rightarrow> (slot \<times> u64 \<times> u32) option" where
  "find_slot t key sl matchlen ht =
     (let node = read_slot t sl in
      if node = 0 then Some (sl, matchlen, ht)
      else
        let matchlen = longest_prefix_match t node key;
            np = n_prefixlen (nodes t node)
        in if ucast np \<noteq> matchlen \<or> np = k_prefixlen key \<or> ucast np = max_prefixlen t
           then Some (sl, matchlen, ht - 1)
           else find_slot t key (Child node (extract_bit (k_data key) (ucast np))) matchlen (ht + 1))"

declare find_slot.simps [code]

text \<open>\<open>just_free\<close> of the node pool; \<open>new_node\<close> and \<open>im_node\<close> may be null.\<close>

definition trie_free :: "lpm_trie \<Rightarrow> addr \<Rightarrow> lpm_trie option" where
  "trie_free t a = map_option (\<lambda>(_, m). t\<lparr>t_pool := m\<rparr>) (just_free (t_pool t) a)"

text \<open>The end of the update, from the label \<open>out\<close> on.\<close>

definition update_out :: "lpm_trie \<Rightarrow> int \<Rightarrow> addr \<Rightarrow> addr \<Rightarrow> addr \<Rightarrow> (int \<times> lpm_trie) option" where
  "update_out t ret new_node im_node free_node =
     Option.bind
       (if ret \<noteq> 0
        then let t = (if new_node \<noteq> 0 then t\<lparr>n_entries := n_entries t - 1\<rparr> else t)
             in Option.bind (trie_free t new_node) (\<lambda>t. trie_free t im_node)
        else Some t)
       (\<lambda>t. Option.bind (trie_free t free_node) (\<lambda>t. Some (ret, t)))"

text \<open>The attachment of the new node at the slot.\<close>

definition attach ::
  "lpm_trie \<Rightarrow> lpm_key \<Rightarrow> addr \<Rightarrow> slot \<Rightarrow> u64 \<Rightarrow> (int \<times> lpm_trie) option" where
  "attach t key new_node sl matchlen =
     (let node = read_slot t sl; nd = nodes t node in
      if node = 0 then update_out (write_slot t sl new_node) 0 new_node 0 0
      else if ucast (n_prefixlen nd) = matchlen then
        let t = set_node t new_node ((nodes t new_node)\<lparr>child0 := child0 nd, child1 := child1 nd\<rparr>);
            t = (if flags nd AND LPM_TREE_NODE_FLAG_IM = 0
                 then t\<lparr>n_entries := n_entries t - 1\<rparr> else t)
        in update_out (write_slot t sl new_node) 0 new_node 0 node
      else if matchlen = ucast (k_prefixlen key) then
        let next_bit = extract_bit (data_at t (get_node_key node)) matchlen;
            t = set_node t new_node (set_child (nodes t new_node) next_bit node)
        in update_out (write_slot t sl new_node) 0 new_node 0 0
      else
        case lpm_trie_node_alloc t of
          None \<Rightarrow> None
        | Some (im_node, t) \<Rightarrow>
            if im_node = 0 then update_out t (- ENOMEM) new_node 0 0
            else
              let im = nodes t im_node;
                  im = im\<lparr>n_prefixlen := ucast matchlen, flags := flags im OR LPM_TREE_NODE_FLAG_IM\<rparr>;
                  t = put_bytes t (get_node_key im_node) (unat (t_key_size t) - KEY_DATA_OFFSET)
                        (data_at t (get_node_key node));
                  im = (if extract_bit (k_data key) matchlen \<noteq> 0
                        then im\<lparr>child0 := node, child1 := new_node\<rparr>
                        else im\<lparr>child0 := new_node, child1 := node\<rparr>);
                  t = set_node t im_node im
              in update_out (write_slot t sl im_node) 0 new_node im_node 0)"

text \<open>The fields of a new node, with the key and the value.\<close>

definition fill_new_node :: "lpm_trie \<Rightarrow> addr \<Rightarrow> lpm_key \<Rightarrow> bytes \<Rightarrow> lpm_trie" where
  "fill_new_node t new_node key v =
     (let t = set_node t new_node ((nodes t new_node)\<lparr>n_prefixlen := k_prefixlen key,
                child0 := 0, child1 := 0\<rparr>);
          t = put_bytes t (get_node_key new_node) (unat (t_key_size t) - KEY_DATA_OFFSET)
                (k_data key)
      in put_bytes t (get_node_value t new_node) (unat (t_value_size t)) v)"

definition userspace_arena_trie_update_elem ::
  "lpm_trie \<Rightarrow> lpm_key \<Rightarrow> bytes \<Rightarrow> (int \<times> lpm_trie) option" where
  "userspace_arena_trie_update_elem t key v =
     (if max_prefixlen t < ucast (k_prefixlen key) then Some (- EINVAL, t)
      else if n_entries t = t_max_entries t then Some (- ENOSPC, t)
      else
        case lpm_trie_node_alloc t of
          None \<Rightarrow> None
        | Some (new_node, t) \<Rightarrow>
            if new_node = 0 then Some (- ENOMEM, t)
            else
              let t = t\<lparr>n_entries := n_entries t + 1\<rparr>;
                  t = fill_new_node t new_node key v
              in case find_slot t key Root 0 1 of
                   None \<Rightarrow> None
                 | Some (sl, matchlen, ht) \<Rightarrow>
                     if TRIE_MAX_HEIGHT < unat ht then update_out t (- ENOSPC) new_node 0 0
                     else attach t key new_node sl matchlen)"

subsection \<open>The bit search and the match length\<close>

lemma ffs_loop_bounds: "i \<le> ffs_loop n x i \<and> ffs_loop n x i \<le> i + n"
proof (induction n arbitrary: x i)
  case (Suc n)
  from Suc [of "Suc i" "drop_bit 1 x"] show ?case by auto
qed simp

lemma ffs_loop_lowest:
  "(\<forall>j < ffs_loop n x i - i. \<not> bit x j) \<and> (ffs_loop n x i < i + n \<longrightarrow> bit x (ffs_loop n x i - i))"
proof (induction n arbitrary: x i)
  case (Suc n)
  have low: "x AND 1 \<noteq> 0 \<longleftrightarrow> bit x 0"
    by (simp add: and_one_eq bit_0 odd_iff_mod_2_eq_one)
  show ?case
  proof (cases "bit x 0")
    case True
    with low show ?thesis by simp
  next
    case False
    let ?r = "ffs_loop n (drop_bit 1 x) (Suc i)"
    have r: "ffs_loop (Suc n) x i = ?r" using False low by simp
    have b: "Suc i \<le> ?r" "?r \<le> Suc i + n" using ffs_loop_bounds [of "Suc i" n "drop_bit 1 x"] by auto
    have ih: "\<forall>j < ?r - Suc i. \<not> bit x (Suc j)" "?r < Suc i + n \<longrightarrow> bit x (Suc (?r - Suc i))"
      using Suc [of "drop_bit 1 x" "Suc i"] by (simp_all add: bit_drop_bit_eq)
    have "\<not> bit x j" if "j < ?r - i" for j
      using that ih(1) False b by (cases j) auto
    moreover have "Suc (?r - Suc i) = ?r - i" using b by linarith
    ultimately show ?thesis unfolding r using ih(2) by simp
  qed
qed simp

text \<open>The lowest bit of a difference, counted from zero.\<close>

lemma fls_spec:
  assumes "x \<noteq> 0"
  obtains j where "j < 32" "fls x = of_nat (Suc j)" "bit x j" "\<forall>i < j. \<not> bit x i"
proof -
  let ?j = "ffs_loop 32 x 0"
  have "?j \<le> 32" using ffs_loop_bounds [of 0 32 x] by simp
  moreover have "?j \<noteq> 32"
  proof
    assume "?j = 32"
    with ffs_loop_lowest [of 32 x 0] have "\<not> bit x j" if "j < LENGTH(32)" for j using that by simp
    then have "x = 0" by (intro word_eq_bitsI) simp
    with assms show False ..
  qed
  ultimately show thesis
    using that [of ?j] ffs_loop_lowest [of 32 x 0] by (simp add: fls_def)
qed

definition low_bit :: "u32 \<Rightarrow> nat" where "low_bit x = ffs_loop 32 x 0"

lemma low_bit: "x \<noteq> 0 \<Longrightarrow> low_bit x < 32" "x \<noteq> 0 \<Longrightarrow> unat (32 - fls x) = 31 - low_bit x"
proof -
  assume "x \<noteq> 0"
  then obtain j where j: "j < 32" "fls x = of_nat (Suc j)" by (rule fls_spec)
  have "of_nat (Suc (low_bit x)) = (of_nat (Suc j) :: u32)" using j(2) by (simp add: fls_def low_bit_def)
  moreover have "low_bit x \<le> 32" using ffs_loop_bounds [of 0 32 x] by (simp add: low_bit_def)
  ultimately have "Suc (low_bit x) = Suc j"
    using j(1) unat_of_nat_small [of "Suc j", where 'a = 32] unat_of_nat_small [of "Suc (low_bit x)", where 'a = 32]
    by simp
  then show lt: "low_bit x < 32" using j by simp
  have f: "unat (fls x) = Suc (low_bit x)"
    using lt unat_of_nat_small [of "Suc (low_bit x)", where 'a = 32] by (simp add: fls_def low_bit_def)
  have "unat (32 - fls x) = unat (32 :: u32) - unat (fls x)"
    by (rule unat_sub) (use lt f in \<open>simp add: word_le_nat_alt\<close>)
  then show "unat (32 - fls x) = 31 - low_bit x" using f by simp
qed

lemma low_bit_eqI:
  assumes "bit x j" and "\<And>i. i < j \<Longrightarrow> \<not> bit x i"
  shows "low_bit x = j"
proof -
  have "x \<noteq> 0" using assms(1) by auto
  then have "low_bit x < 32" by (rule low_bit)
  with ffs_loop_lowest [of 32 x 0] have "bit x (low_bit x)" "\<forall>i < low_bit x. \<not> bit x i"
    by (simp_all add: low_bit_def)
  with assms show ?thesis by (meson linorder_neqE_nat)
qed

text \<open>The match length of an IPv4 trie, as a number.\<close>

lemma longest_prefix_match_nat:
  fixes t node key
  defines "diff \<equiv> load32 (data_at t (get_node_key node)) 0 XOR load32 (k_data key) 0"
  assumes "t_key_size t = 8"
  shows "unat (longest_prefix_match t node key) =
    min (min (unat (n_prefixlen (nodes t node))) (unat (k_prefixlen key)))
      (if diff = 0 then 32 else 31 - low_bit diff)"
proof -
  have w: "unat (ucast x :: u64) = unat x" for x :: u32 by (rule unat_ucast_widen) simp
  have eq: "longest_prefix_match t node key =
     (let limit = (if n_prefixlen (nodes t node) < k_prefixlen key then n_prefixlen (nodes t node)
                   else k_prefixlen key);
          prefixlen = (if diff = 0 then 32 else 32 - fls diff)
      in if limit \<le> prefixlen then ucast limit else ucast prefixlen)"
    by (simp add: longest_prefix_match_def diff_def [symmetric] assms(2) Let_def)
  show ?thesis
    unfolding eq Let_def using low_bit(2) [of diff]
    by (auto simp: w word_le_nat_alt word_less_nat_alt min_def)
qed

subsection \<open>A trie with one rule\<close>

lemma trie_free_null [simp]: "trie_free t 0 = Some t"
  by (simp add: trie_free_def just_free_null)

lemma update_out_zero [simp]: "update_out t 0 new_node im_node 0 = Some (0, t)"
  by (simp add: update_out_def)

lemma frames [simp]:
  "root (put_bytes t a n b) = root t" "nodes (put_bytes t a n b) = nodes t"
  "n_entries (put_bytes t a n b) = n_entries t" "t_key_size (put_bytes t a n b) = t_key_size t"
  "t_value_size (put_bytes t a n b) = t_value_size t" "max_prefixlen (put_bytes t a n b) = max_prefixlen t"
  "t_max_entries (put_bytes t a n b) = t_max_entries t" "t_pool (put_bytes t a n b) = t_pool t"
  "root (set_node t a nd) = root t" "n_entries (set_node t a nd) = n_entries t"
  "t_key_size (set_node t a nd) = t_key_size t" "t_value_size (set_node t a nd) = t_value_size t"
  "max_prefixlen (set_node t a nd) = max_prefixlen t" "tdata (set_node t a nd) = tdata t"
  "t_max_entries (set_node t a nd) = t_max_entries t" "t_pool (set_node t a nd) = t_pool t"
  "nodes (set_node t a nd) = (nodes t)(a := nd)"
  by (simp_all add: put_bytes_def set_node_def)

lemma insert_empty:
  assumes "root t = 0" and "ucast (k_prefixlen key) \<le> max_prefixlen t"
    and "n_entries t \<noteq> t_max_entries t" and "t_key_size t = 8"
    and "just_alloc (t_pool t) (t_mem t) (NODE_SIZE (t_value_size t) 8) = Some (node, m)" and "node \<noteq> 0"
  shows "\<exists>t'. userspace_arena_trie_update_elem t key v = Some (0, t') \<and> root t' = node
    \<and> n_entries t' = n_entries t + 1 \<and> t_key_size t' = 8 \<and> max_prefixlen t' = max_prefixlen t
    \<and> nodes t' node = \<lparr>child0 = 0, child1 = 0, n_prefixlen = k_prefixlen key, flags = 0\<rparr>
    \<and> (\<forall>i < 4. data_at t' (get_node_key node) i = k_data key i)
    \<and> (\<forall>i < unat (t_value_size t). tdata t' (node + 28 + i) = v i)"
proof -
  define t1 where "t1 = set_node (t\<lparr>t_pool := m\<rparr>) node ((nodes t node)\<lparr>flags := 0\<rparr>)"
  have al: "lpm_trie_node_alloc t = Some (node, t1)"
    using assms by (simp add: lpm_trie_node_alloc_def t1_def)
  define t2 where "t2 = fill_new_node (t1\<lparr>n_entries := n_entries t1 + 1\<rparr>) node key v"
  have t2: "root t2 = 0" "n_entries t2 = n_entries t + 1" "t_key_size t2 = 8"
      "max_prefixlen t2 = max_prefixlen t"
      "nodes t2 node = \<lparr>child0 = 0, child1 = 0, n_prefixlen = k_prefixlen key, flags = 0\<rparr>"
    using assms(1,4) by (simp_all add: t2_def fill_new_node_def Let_def t1_def)
  have bytes: "\<forall>i < 4. tdata t2 (get_node_key node + i) = k_data key i"
    "\<forall>i < unat (t_value_size t). tdata t2 (node + 28 + i) = v i"
    using assms(4) by (simp_all add: t2_def t1_def fill_new_node_def Let_def put_bytes_def get_node_key_def
      get_node_value_def KEY_DATA_OFFSET_def NODE_HDR_def set_node_def)
  have "find_slot t2 key Root 0 1 = Some (Root, 0, 1)"
    by (subst find_slot.simps) (simp add: t2 Let_def)
  moreover have "attach t2 key node Root 0 = Some (0, t2\<lparr>root := node\<rparr>)"
    by (simp add: attach_def t2 Let_def)
  ultimately have "userspace_arena_trie_update_elem t key v = Some (0, t2\<lparr>root := node\<rparr>)"
    using assms(2,3,6)
    by (simp add: userspace_arena_trie_update_elem_def al t2_def [symmetric] TRIE_MAX_HEIGHT_def
        not_less [symmetric])
  with t2 bytes show ?thesis by (intro exI [of _ "t2\<lparr>root := node\<rparr>"]) (simp add: data_at_def)
qed

lemma lookup_single:
  assumes "root t = node" and "node \<noteq> 0" and "t_key_size t = 8" and "max_prefixlen t = 32"
    and "nodes t node = \<lparr>child0 = 0, child1 = 0, n_prefixlen = p, flags = 0\<rparr>" and "p \<le> 32"
    and "\<forall>i < 4. data_at t (get_node_key node) i = d i"
  shows "arena_trie_lookup_elem t \<lparr>k_prefixlen = 32, k_data = k\<rparr> =
    (let diff = load32 d 0 XOR load32 k 0
     in if diff = 0 \<or> unat p + low_bit diff \<le> 31 then node + 32 else 0)"
proof -
  let ?key = "\<lparr>k_prefixlen = 32, k_data = k\<rparr>" and ?diff = "load32 d 0 XOR load32 k 0"
  let ?ml = "longest_prefix_match t node ?key"
  have "load32 (data_at t (get_node_key node)) 0 = load32 d 0"
    using assms(7) by (simp add: load32_eq_iff)
  then have ml: "unat ?ml = min (unat p) (if ?diff = 0 then 32 else 31 - low_bit ?diff)"
    using assms(5,6) longest_prefix_match_nat [OF assms(3), of node ?key]
    by (auto simp: word_le_nat_alt min_def)
  have w: "unat (ucast p :: u64) = unat p" by (rule unat_ucast_widen) simp
  have H: "TRIE_MAX_HEIGHT = Suc (Suc 32766)" by (simp add: TRIE_MAX_HEIGHT_def)
  have full: "?ml = 32 \<longleftrightarrow> unat ?ml = 32" by (simp add: word_unat_eq_iff)
  have less: "?ml < ucast p \<longleftrightarrow> unat ?ml < unat p" by (simp add: word_less_nat_alt w)
  have lb: "?diff \<noteq> 0 \<Longrightarrow> low_bit ?diff < 32" by (rule low_bit)
  have step1: "lookup_walk_nodes t ?key \<lparr>w_node = node, w_found = 0\<rparr> =
      (if unat ?ml = 32 then (True, \<lparr>w_node = node, w_found = node\<rparr>)
       else if unat ?ml < unat p then (True, \<lparr>w_node = node, w_found = 0\<rparr>)
       else (False, \<lparr>w_node = 0, w_found = node\<rparr>))"
    using assms by (simp add: lookup_walk_nodes_def Let_def full less child_def)
  have step2: "lookup_walk_nodes t ?key \<lparr>w_node = 0, w_found = f\<rparr> = (True, \<lparr>w_node = 0, w_found = f\<rparr>)" for f
    by (simp add: lookup_walk_nodes_def)
  have found: "unat ?ml = 32 \<or> \<not> unat ?ml < unat p \<longleftrightarrow> ?diff = 0 \<or> unat p + low_bit ?diff \<le> 31"
    using ml assms(6) lb by (auto simp: word_le_nat_alt)
  have "bpf_loop (Suc (Suc n)) (lookup_walk_nodes t ?key) \<lparr>w_node = node, w_found = 0\<rparr> =
      (if unat ?ml = 32 then \<lparr>w_node = node, w_found = node\<rparr>
       else if unat ?ml < unat p then \<lparr>w_node = node, w_found = 0\<rparr>
       else \<lparr>w_node = 0, w_found = node\<rparr>)" for n
    by (simp add: step1 step2)
  note loop = this [of 32766]
  have "w_found (bpf_loop TRIE_MAX_HEIGHT (lookup_walk_nodes t ?key) \<lparr>w_node = node, w_found = 0\<rparr>)
      = (if unat ?ml = 32 \<or> \<not> unat ?ml < unat p then node else 0)"
    unfolding H loop by simp
  then show ?thesis
    using assms(1-4) unfolding found by (simp add: arena_trie_lookup_elem_def NODE_HDR_def Let_def)
qed

text \<open>After the first insertion into an empty trie, the lookup of an address does not compare the
  first \<open>prefixlen\<close> bits but the lowest differing bit of the two little-endian words; and the
  pointer it gives is four bytes past the start of the value.\<close>

theorem trie_single_rule:
  assumes "root t = 0" and "k_prefixlen key \<le> 32" and "max_prefixlen t = 32"
    and "n_entries t \<noteq> t_max_entries t" and "t_key_size t = 8"
    and "just_alloc (t_pool t) (t_mem t) (NODE_SIZE (t_value_size t) 8) = Some (node, m)" and "node \<noteq> 0"
  shows "\<exists>t'. userspace_arena_trie_update_elem t key v = Some (0, t') \<and> n_entries t' = n_entries t + 1
    \<and> (\<forall>i < unat (t_value_size t). tdata t' (get_node_value t' node + i) = v i)
    \<and> (\<forall>k. arena_trie_lookup_elem t' \<lparr>k_prefixlen = 32, k_data = k\<rparr> =
         (let diff = load32 (k_data key) 0 XOR load32 k 0
          in if diff = 0 \<or> unat (k_prefixlen key) + low_bit diff \<le> 31
             then get_node_value t' node + 4 else 0))"
proof -
  have "unat (ucast (k_prefixlen key) :: u64) = unat (k_prefixlen key)" by (rule unat_ucast_widen) simp
  then have "ucast (k_prefixlen key) \<le> max_prefixlen t"
    using assms(2,3) by (simp add: word_le_nat_alt)
  from insert_empty [OF assms(1) this assms(4-7), of v] obtain t' where
    t': "userspace_arena_trie_update_elem t key v = Some (0, t')" "root t' = node"
      "n_entries t' = n_entries t + 1" "t_key_size t' = 8" "max_prefixlen t' = max_prefixlen t"
      "nodes t' node = \<lparr>child0 = 0, child1 = 0, n_prefixlen = k_prefixlen key, flags = 0\<rparr>"
      "\<forall>i < 4. data_at t' (get_node_key node) i = k_data key i"
      "\<forall>i < unat (t_value_size t). tdata t' (node + 28 + i) = v i" by blast
  have gv: "get_node_value t' node = node + 28"
    by (simp add: get_node_value_def t'(4) NODE_HDR_def KEY_DATA_OFFSET_def)
  from lookup_single [OF t'(2) assms(7) t'(4) _ t'(6) assms(2) t'(7)] t' assms(3)
  show ?thesis by (intro exI [of _ t']) (simp add: gv add.assoc Let_def)
qed

definition trie_ex :: lpm_trie where
  "trie_ex = \<lparr>root = 0, t_mem = 8, n_entries = 0, t_max_entries = 4, max_prefixlen = 32,
     t_key_size = 8, t_value_size = 4, height = 0,
     nodes = (\<lambda>_. \<lparr>child0 = 0, child1 = 0, n_prefixlen = 0, flags = 0\<rparr>), tdata = (\<lambda>_. 0),
     t_pool = mm_ex\<rparr>"

definition ip10 :: "u8 \<Rightarrow> bytes" where "ip10 x = (\<lambda>i. if i = 0 then 10 else if i = 3 then x else 0)"

lemma trie_ex_alloc: "\<exists>m. just_alloc mm_ex 8 32 = Some (4128, m)"
  by (simp add: mm_ex_def create_mem_region_obj_def MIN_SIZE_def HDR_SZ_def just_alloc_def
      find_fit.simps [of _ 32 "First 8" 4096] MAX_SIZE_def region_defs Let_def split: prod.splits)

lemma trie_ex_diff: "load32 (ip10 0) 0 XOR load32 (ip10 1) 0 = 0x1000000"
  by (simp add: load32_def le32_def ip10_def push_bit_eq_mult)

lemma trie_ex_low_bit: "low_bit 0x1000000 = 24"
proof (rule low_bit_eqI)
  have e: "(0x1000000 :: u32) = push_bit 24 1" by (simp add: push_bit_eq_mult)
  show "bit (0x1000000 :: u32) 24" unfolding e bit_push_bit_iff bit_1_iff by simp
  show "\<not> bit (0x1000000 :: u32) i" if "i < 24" for i
    using that unfolding e bit_push_bit_iff bit_1_iff by simp
qed

text \<open>The rule \<open>10.0.0.0/24\<close> is not found for the address \<open>10.0.0.1\<close>.\<close>

theorem trie_single_rule_witness:
  "\<exists>t'. userspace_arena_trie_update_elem trie_ex \<lparr>k_prefixlen = 24, k_data = ip10 0\<rparr> (\<lambda>_. 7) = Some (0, t')
    \<and> arena_trie_lookup_elem t' \<lparr>k_prefixlen = 32, k_data = ip10 1\<rparr> = 0
    \<and> arena_trie_lookup_elem t' \<lparr>k_prefixlen = 32, k_data = ip10 0\<rparr> \<noteq> 0"
proof -
  obtain m where m: "just_alloc mm_ex 8 32 = Some (4128, m)" using trie_ex_alloc by blast
  have "\<exists>t'. userspace_arena_trie_update_elem trie_ex \<lparr>k_prefixlen = 24, k_data = ip10 0\<rparr> (\<lambda>_. 7) = Some (0, t')
    \<and> n_entries t' = n_entries trie_ex + 1
    \<and> (\<forall>i < unat (t_value_size trie_ex). tdata t' (get_node_value t' 4128 + i) = 7)
    \<and> (\<forall>k. arena_trie_lookup_elem t' \<lparr>k_prefixlen = 32, k_data = k\<rparr> =
         (let diff = load32 (k_data \<lparr>k_prefixlen = 24, k_data = ip10 0\<rparr>) 0 XOR load32 k 0
          in if diff = 0 \<or> unat (k_prefixlen \<lparr>k_prefixlen = 24, k_data = ip10 0\<rparr>) + low_bit diff \<le> 31
             then get_node_value t' 4128 + 4 else 0))"
    by (rule trie_single_rule)
      (use m in \<open>simp_all add: trie_ex_def NODE_SIZE_def NODE_HDR_def KEY_DATA_OFFSET_def\<close>)
  then obtain t' where t': "userspace_arena_trie_update_elem trie_ex \<lparr>k_prefixlen = 24, k_data = ip10 0\<rparr> (\<lambda>_. 7) = Some (0, t')"
    and lk: "\<And>k. arena_trie_lookup_elem t' \<lparr>k_prefixlen = 32, k_data = k\<rparr> =
         (let diff = load32 (ip10 0) 0 XOR load32 k 0
          in if diff = 0 \<or> 24 + low_bit diff \<le> 31 then get_node_value t' 4128 + 4 else 0)"
    by auto
  show ?thesis using t' by (intro exI [of _ t']) (simp only: lk trie_ex_diff trie_ex_low_bit Let_def, simp)
qed

subsection \<open>The number of entries\<close>

lemma trie_free_frame:
  "trie_free t a = Some t' \<Longrightarrow> n_entries t' = n_entries t \<and> t_max_entries t' = t_max_entries t"
  by (auto simp: trie_free_def)

lemma update_out_count:
  assumes "update_out t ret new_node im_node free_node = Some (ret', t')"
  shows "ret' = ret \<and> t_max_entries t' = t_max_entries t
    \<and> n_entries t' = (if ret \<noteq> 0 \<and> new_node \<noteq> 0 then n_entries t - 1 else n_entries t)"
  using assms unfolding update_out_def
  by (auto simp: bind_eq_Some_conv split: if_splits dest!: trie_free_frame)

lemma node_alloc_frame:
  assumes "lpm_trie_node_alloc t = Some (a, t')"
  shows "n_entries t' = n_entries t \<and> t_max_entries t' = t_max_entries t"
  using assms by (auto simp: lpm_trie_node_alloc_def Let_def split: option.splits prod.splits if_splits)

lemma write_slot_frame [simp]:
  "n_entries (write_slot t sl v) = n_entries t" "t_max_entries (write_slot t sl v) = t_max_entries t"
  by (cases sl; simp)+

lemma fill_new_node_frame [simp]:
  "n_entries (fill_new_node t a key v) = n_entries t"
  "t_max_entries (fill_new_node t a key v) = t_max_entries t"
  by (simp_all add: fill_new_node_def Let_def)

lemma attach_count:
  assumes "attach t key new_node sl matchlen = Some (ret, t')" and "new_node \<noteq> 0"
  shows "t_max_entries t' = t_max_entries t
    \<and> (n_entries t' = n_entries t \<and> ret = 0 \<or> n_entries t' = n_entries t - 1)"
  using assms unfolding attach_def Let_def
  by (auto split: if_splits option.splits prod.splits dest!: update_out_count node_alloc_frame)

text \<open>An update that fails leaves the number of entries as it was, and one that succeeds leaves it
  (a replacement) or counts one more, which is never above the maximum.\<close>

theorem trie_update_count:
  assumes "userspace_arena_trie_update_elem t key v = Some (ret, t')"
    and "n_entries t \<le> t_max_entries t"
  shows "t_max_entries t' = t_max_entries t \<and> n_entries t' \<le> t_max_entries t'
    \<and> (if ret = 0 then n_entries t' = n_entries t \<or> n_entries t' = n_entries t + 1
       else n_entries t' = n_entries t)"
proof -
  have bound: "n_entries t + 1 \<le> t_max_entries t" if "n_entries t \<noteq> t_max_entries t"
    using that assms(2) by (simp add: inc_le order_less_le)
  show ?thesis
    using assms bound unfolding userspace_arena_trie_update_elem_def Let_def
    by (auto simp: EINVAL_def ENOSPC_def ENOMEM_def split: if_splits option.splits prod.splits
        dest!: update_out_count node_alloc_frame attach_count)
qed

theorem trie_update_count_witness:
  "\<exists>ret t'. userspace_arena_trie_update_elem trie_ex \<lparr>k_prefixlen = 33, k_data = ip10 0\<rparr> (\<lambda>_. 7) = Some (ret, t')
    \<and> n_entries t' \<le> t_max_entries t' \<and> ret \<noteq> 0"
proof -
  have e: "userspace_arena_trie_update_elem trie_ex \<lparr>k_prefixlen = 33, k_data = ip10 0\<rparr> (\<lambda>_. 7)
      = Some (- EINVAL, trie_ex)"
    by (simp add: userspace_arena_trie_update_elem_def trie_ex_def)
  from trie_update_count [OF this] have "n_entries trie_ex \<le> t_max_entries trie_ex"
    by (simp add: trie_ex_def)
  with e show ?thesis by (auto simp: EINVAL_def)
qed

subsection \<open>The descent ends\<close>







end
