(* ===== verification/Dat.thy ===== *)
theory Dat
  imports Bytes Phased
begin

text \<open>
  The double-array trie: \<open>libs/arena-ds/double_array_trie.h\<close>, with values kept apart from the nodes. The
  arrays are lists of their length; an access outside of one is a fault. A node's \<open>next\<close> is the
  index of a block of two nodes, the children for bit 0 and bit 1; index 0 (\<open>EMPTY\<close>) is no node, the
  root has index 1. The highest bit of \<open>value_flag\<close> marks a node that ends a key, the other bits
  are the index of its value. A pointer to a value is its index. The size of a value is a parameter of
  the operations that store one: \<open>DAT_VAL_SIZE_BYTE\<close> by default.
\<close>

record dat_node =
  next_block :: u32
  value_flag :: u32

record dat =
  base :: "dat_node list"
  vals :: "bytes list"
  free_stk :: "u32 list"
  value_free_stk :: "u32 list"
  node_count :: u32
  value_count :: u32
  value_stk_ptr :: u32
  stk_size :: u32
  stk_ptr :: u32

definition DAT_KEY_SIZE_BIT :: nat where "DAT_KEY_SIZE_BIT = 128"
definition DAT_VAL_SIZE_BYTE :: nat where "DAT_VAL_SIZE_BYTE = 4"
definition root_index :: u32 where "root_index = 1"
definition EMPTY :: u32 where "EMPTY = 0"
definition TERMINAL_MASK :: u32 where "TERMINAL_MASK = 0x80000000"

definition IS_TERMINAL :: "u32 \<Rightarrow> bool" where
  "IS_TERMINAL flag \<longleftrightarrow> flag AND TERMINAL_MASK \<noteq> 0"

definition EXTRACT_VALUE_INDEX :: "u32 \<Rightarrow> u32" where
  "EXTRACT_VALUE_INDEX flag = flag AND NOT TERMINAL_MASK"

definition get_bit :: "bytes \<Rightarrow> nat \<Rightarrow> bool" where
  "get_bit key i \<longleftrightarrow> key (i div 8) AND push_bit (7 - i mod 8) 1 \<noteq> 0"

definition node_at :: "dat \<Rightarrow> u32 \<Rightarrow> dat_node checked" where
  "node_at d i = read_at (base d) (unat i)"

text \<open>The error codes are returned as unsigned numbers.\<close>

definition neg_u32 :: "int \<Rightarrow> u32" where "neg_u32 e = of_int (- e)"

definition get_free_block :: "dat \<Rightarrow> (u32 \<times> dat) checked" where
  "get_free_block d =
     (if stk_size d \<le> stk_ptr d then Inr (neg_u32 ENOSPC, d)
      else checked_bind (read_at (free_stk d) (unat (stk_ptr d))) (\<lambda>index.
             let d = d\<lparr>stk_ptr := stk_ptr d + 1\<rparr> in
             if node_count d < index + 1 then Inr (neg_u32 EINVAL, d) else Inr (index, d)))"

definition put_used_block :: "dat \<Rightarrow> u32 \<Rightarrow> int" where
  "put_used_block d index = (if index AND 1 \<noteq> 0 then -1 else -1)"

definition get_value :: "dat \<Rightarrow> (u32 \<times> dat) checked" where
  "get_value d =
     (if value_count d < value_stk_ptr d then Inr (neg_u32 ENOSPC, d)
      else checked_bind (read_at (value_free_stk d) (unat (value_stk_ptr d))) (\<lambda>index.
             let d = d\<lparr>value_stk_ptr := value_stk_ptr d + 1\<rparr> in
             if value_count d < index then Inr (neg_u32 EINVAL, d) else Inr (index, d)))"

definition bit_u32 :: "bool \<Rightarrow> u32" where "bit_u32 b = (if b then 1 else 0)"

text \<open>The walk down to a leaf: the node and the number of bits that matched.\<close>

function find_leaf :: "dat \<Rightarrow> bytes \<Rightarrow> nat \<Rightarrow> nat \<Rightarrow> u32 \<Rightarrow> (u32 \<times> nat) checked" where
  "find_leaf d key ksz i node =
     (if i < ksz \<and> i < DAT_KEY_SIZE_BIT
      then case node_at d node of
             Inl f \<Rightarrow> Inl f
           | Inr e \<Rightarrow> if next_block e = EMPTY then Inr (node, i)
                      else find_leaf d key ksz (i + 1) (next_block e + bit_u32 (get_bit key i))
      else Inr (node, i))"
  by auto
termination by (relation "measure (\<lambda>(d, key, ksz, i, node). DAT_KEY_SIZE_BIT - i)") auto

function find_lpm :: "dat \<Rightarrow> bytes \<Rightarrow> nat \<Rightarrow> nat \<Rightarrow> u32 \<Rightarrow> u32 \<Rightarrow> u32 checked" where
  "find_lpm d key ksz i node lpm =
     (if i < ksz \<and> i < DAT_KEY_SIZE_BIT
      then case node_at d node of
             Inl f \<Rightarrow> Inl f
           | Inr e \<Rightarrow>
               let lpm = (if IS_TERMINAL (value_flag e) then node else lpm)
               in if next_block e = EMPTY then Inr lpm
                  else find_lpm d key ksz (i + 1) (next_block e + bit_u32 (get_bit key i)) lpm
      else Inr lpm)"
  by auto
termination by (relation "measure (\<lambda>(d, key, ksz, i, node, lpm). DAT_KEY_SIZE_BIT - i)") auto

declare find_leaf.simps [simp del] find_lpm.simps [simp del]

definition dat_lookup :: "dat \<Rightarrow> bytes \<Rightarrow> u32 \<Rightarrow> u32 option checked" where
  "dat_lookup d key key_size =
     checked_bind (find_lpm d key (unat key_size) 0 root_index EMPTY) (\<lambda>node.
       if node \<noteq> EMPTY
       then checked_bind (node_at d node) (\<lambda>e. Inr (Some (EXTRACT_VALUE_INDEX (value_flag e))))
       else Inr None)"

text \<open>The lookup one level at a time; the result says whether to go on.\<close>

record dat_partial_lookup_state =
  p_offset :: u16
  p_node :: u32
  p_lpm :: u32
  p_val :: "u32 option"

definition dat_lookup_partial_init :: dat_partial_lookup_state where
  "dat_lookup_partial_init = \<lparr>p_offset = 0, p_node = root_index, p_lpm = EMPTY, p_val = None\<rparr>"

definition partial_resp :: "dat \<Rightarrow> dat_partial_lookup_state \<Rightarrow> (int \<times> dat_partial_lookup_state) checked" where
  "partial_resp d s =
     (if p_lpm s \<noteq> EMPTY
      then checked_bind (node_at d (p_lpm s))
             (\<lambda>e. Inr (0, s\<lparr>p_val := Some (EXTRACT_VALUE_INDEX (value_flag e))\<rparr>))
      else Inr (0, s))"

definition dat_lookup_partial ::
  "dat \<Rightarrow> bytes \<Rightarrow> u32 \<Rightarrow> dat_partial_lookup_state \<Rightarrow> (int \<times> dat_partial_lookup_state) checked" where
  "dat_lookup_partial d key key_size s =
     (let i = unat (p_offset s); node = p_node s in
      if \<not> (i < unat key_size \<and> i < DAT_KEY_SIZE_BIT) then partial_resp d s
      else checked_bind (node_at d node) (\<lambda>e.
        let s = (if IS_TERMINAL (value_flag e) then s\<lparr>p_lpm := node\<rparr> else s) in
        if next_block e = EMPTY then partial_resp d s
        else Inr (1, s\<lparr>p_node := next_block e + bit_u32 (get_bit key i),
                      p_offset := p_offset s + 1\<rparr>)))"

subsection \<open>Insertion\<close>

definition write_node :: "dat \<Rightarrow> u32 \<Rightarrow> dat_node \<Rightarrow> dat checked" where
  "write_node d i e = checked_bind (write_at (base d) (unat i) e) (\<lambda>b. Inr (d\<lparr>base := b\<rparr>))"

definition write_val :: "nat \<Rightarrow> dat \<Rightarrow> u32 \<Rightarrow> bytes \<Rightarrow> dat checked" where
  "write_val vsz d i v = checked_bind (write_at (vals d) (unat i)
      (\<lambda>j. if j < vsz then v j else (vals d ! unat i) j)) (\<lambda>b. Inr (d\<lparr>vals := b\<rparr>))"

text \<open>The part for a key whose bits are all there.\<close>

definition set_existing :: "nat \<Rightarrow> dat \<Rightarrow> u32 \<Rightarrow> bytes \<Rightarrow> (int \<times> dat) checked" where
  "set_existing vsz d leaf_node v =
     checked_bind (node_at d leaf_node) (\<lambda>e.
       if IS_TERMINAL (value_flag e)
       then checked_bind (write_val vsz d (EXTRACT_VALUE_INDEX (value_flag e)) v) (\<lambda>d. Inr (0, d))
       else checked_bind (get_value d) (\<lambda>(val_index, d).
              if value_count d < val_index then Inr (-2, d)
              else checked_bind (write_node d leaf_node (e\<lparr>value_flag := val_index OR TERMINAL_MASK\<rparr>))
                     (\<lambda>d. checked_bind (write_val vsz d val_index v) (\<lambda>d. Inr (0, d)))))"

text \<open>The loop that adds the nodes of the other bits: a return code, or the last node.\<close>

function extend :: "dat \<Rightarrow> bytes \<Rightarrow> nat \<Rightarrow> nat \<Rightarrow> u32 \<Rightarrow> ((int + u32) \<times> dat) checked" where
  "extend d key ksz i node =
     (if i < DAT_KEY_SIZE_BIT \<and> i < ksz
      then case node_at d node of
             Inl f \<Rightarrow> Inl f
           | Inr e \<Rightarrow>
               if next_block e \<noteq> EMPTY then Inr (Inl (- EINVAL), d)
               else case get_free_block d of
                      Inl f \<Rightarrow> Inl f
                    | Inr (free_node, d) \<Rightarrow>
                        if node_count d < free_node then Inr (Inl (- ENOMEM), d)
                        else case write_node d node (e\<lparr>next_block := free_node\<rparr>) of
                               Inl f \<Rightarrow> Inl f
                             | Inr d \<Rightarrow> extend d key ksz (i + 1) (free_node + bit_u32 (get_bit key i))
      else Inr (Inr node, d))"
  by auto
termination by (relation "measure (\<lambda>(d, key, ksz, i, node). DAT_KEY_SIZE_BIT - i)") auto

declare extend.simps [simp del]

definition set_new :: "nat \<Rightarrow> dat \<Rightarrow> u32 \<Rightarrow> bytes \<Rightarrow> (int \<times> dat) checked" where
  "set_new vsz d node v =
     checked_bind (get_value d) (\<lambda>(val_index, d).
       if value_count d < val_index then Inr (- ENOSPC, d)
       else checked_bind (node_at d node) (\<lambda>e.
              checked_bind (write_node d node (e\<lparr>value_flag := val_index OR TERMINAL_MASK\<rparr>))
                (\<lambda>d. checked_bind (write_val vsz d val_index v) (\<lambda>d. Inr (0, d)))))"

definition dat_insert :: "nat \<Rightarrow> dat \<Rightarrow> bytes \<Rightarrow> u32 \<Rightarrow> bytes \<Rightarrow> (int \<times> dat) checked" where
  "dat_insert vsz d key key_size v =
     checked_bind (find_leaf d key (unat key_size) 0 root_index) (\<lambda>(leaf_node, bits).
       if bits = unat key_size then set_existing vsz d leaf_node v
       else if unat key_size < bits then Inr (-1, d)
       else checked_bind (extend d key (unat key_size) bits leaf_node) (\<lambda>(r, d).
              case r of Inl ret \<Rightarrow> Inr (ret, d) | Inr node \<Rightarrow> set_new vsz d node v))"

text \<open>
  Allocation in user space. \<open>area\<close> is not null. The sizes in bytes: 64 for the structure, 8 for a
  node, \<open>vsz\<close> for a value, 4 for the other entries. With fewer than two nodes the number of stack entries wraps and
  the loop over them leaves the area.
\<close>

definition userspace_arena_dat_alloc :: "nat \<Rightarrow> u32 \<Rightarrow> u32 \<Rightarrow> (int + (dat \<times> u32)) checked" where
  "userspace_arena_dat_alloc vsz max_ent max_nod =
     (if max_ent AND 1 \<noteq> 0 then Inr (Inl (- EINVAL))
      else if unat max_nod < 2 then Inl Out_of_bounds
      else
        let size = unat max_nod; vcount = unat max_ent;
            stack_entries = size div 2 - 1;
            required_size = 64 + size * 8 + vcount * vsz + stack_entries * 4 + vcount * 4;
            d = \<lparr>base = replicate size \<lparr>next_block = EMPTY, value_flag = 0\<rparr>,
                 vals = replicate vcount (\<lambda>_. 0),
                 free_stk = map (\<lambda>i. of_nat (i * 2 + 2)) [0 ..< stack_entries],
                 value_free_stk = map of_nat [0 ..< vcount],
                 node_count = max_nod, value_count = max_ent, value_stk_ptr = 0,
                 stk_size = of_nat stack_entries, stk_ptr = 0\<rparr>
        in checked_bind (get_free_block d) (\<lambda>(next_node, d).
             if node_count d < next_node then Inr (Inl (-1))
             else checked_bind (node_at d root_index) (\<lambda>e.
                    checked_bind (write_node d root_index (e\<lparr>next_block := next_node\<rparr>)) (\<lambda>d.
                      Inr (Inr (d, of_nat required_size))))))"

subsection \<open>The lookup in steps\<close>

definition dat_step ::
  "u32 \<Rightarrow> dat \<Rightarrow> bytes \<Rightarrow> dat_partial_lookup_state \<Rightarrow> dat_partial_lookup_state + u32 option checked" where
  "dat_step key_size d key s =
     (case dat_lookup_partial d key key_size s of
        Inl f \<Rightarrow> Inr (Inl f)
      | Inr (ret, s) \<Rightarrow> if ret = 1 then Inl s else Inr (Inr (p_val s)))"

text \<open>What the loop of \<open>dat_lookup\<close> computes from a state of the stepped lookup.\<close>

definition dat_final :: "u32 \<Rightarrow> dat \<Rightarrow> bytes \<Rightarrow> dat_partial_lookup_state \<Rightarrow> u32 option checked" where
  "dat_final key_size d key s =
     checked_bind (find_lpm d key (unat key_size) (unat (p_offset s)) (p_node s) (p_lpm s)) (\<lambda>node.
       if node \<noteq> EMPTY
       then checked_bind (node_at d node) (\<lambda>e. Inr (Some (EXTRACT_VALUE_INDEX (value_flag e))))
       else Inr (p_val s))"

lemma partial_resp_result:
  "(case partial_resp d s of Inl f \<Rightarrow> Inr (Inl f)
    | Inr (ret, s) \<Rightarrow> if ret = 1 then Inl s else Inr (Inr (p_val s)))
   = Inr (if p_lpm s \<noteq> EMPTY
          then checked_bind (node_at d (p_lpm s)) (\<lambda>e. Inr (Some (EXTRACT_VALUE_INDEX (value_flag e))))
          else Inr (p_val s))"
  by (cases "node_at d (p_lpm s)") (auto simp: partial_resp_def)

lemma offset_inc: "unat (x :: u16) < 128 \<Longrightarrow> unat (x + 1) = unat x + 1"
  by (subst unat_add_no_wrap) simp_all

lemma dat_step_cases:
  "dat_step ksz d key s = Inl s' \<Longrightarrow> dat_final ksz d key s' = dat_final ksz d key s
     \<and> DAT_KEY_SIZE_BIT - unat (p_offset s') < DAT_KEY_SIZE_BIT - unat (p_offset s)"
  "dat_step ksz d key s = Inr r \<Longrightarrow> r = dat_final ksz d key s"
proof -
  let ?i = "unat (p_offset s)"
  have more: "dat_step ksz d key s = (if \<not> (?i < unat ksz \<and> ?i < DAT_KEY_SIZE_BIT)
      then Inr (dat_final ksz d key s)
      else case node_at d (p_node s) of
             Inl f \<Rightarrow> Inr (Inl f)
           | Inr e \<Rightarrow> if next_block e = EMPTY then Inr (dat_final ksz d key s)
                      else Inl (s\<lparr>p_lpm := (if IS_TERMINAL (value_flag e) then p_node s else p_lpm s),
                                 p_node := next_block e + bit_u32 (get_bit key ?i),
                                 p_offset := p_offset s + 1\<rparr>))"
    by (cases "node_at d (p_node s)")
      (auto simp: dat_step_def dat_lookup_partial_def Let_def partial_resp_result dat_final_def
        find_lpm.simps [of d key "unat ksz" ?i])
  show "dat_final ksz d key s' = dat_final ksz d key s
     \<and> DAT_KEY_SIZE_BIT - unat (p_offset s') < DAT_KEY_SIZE_BIT - ?i"
    if "dat_step ksz d key s = Inl s'"
  proof -
    from that obtain e where e: "?i < unat ksz" "?i < DAT_KEY_SIZE_BIT" "node_at d (p_node s) = Inr e"
        "next_block e \<noteq> EMPTY"
      and s': "s' = s\<lparr>p_lpm := (if IS_TERMINAL (value_flag e) then p_node s else p_lpm s),
                      p_node := next_block e + bit_u32 (get_bit key ?i), p_offset := p_offset s + 1\<rparr>"
      unfolding more by (auto split: if_splits sum.splits)
    have inc: "unat (p_offset s + 1) = ?i + 1"
      using e(2) by (intro offset_inc) (simp add: DAT_KEY_SIZE_BIT_def)
    have "find_lpm d key (unat ksz) ?i (p_node s) (p_lpm s) =
        find_lpm d key (unat ksz) (?i + 1) (p_node s') (p_lpm s')"
      using e by (subst find_lpm.simps) (simp add: s' Let_def)
    moreover have "unat (p_offset s') = ?i + 1" "p_val s' = p_val s" by (simp_all add: s' inc)
    ultimately show ?thesis using e(2) by (simp add: dat_final_def cong: if_cong)
  qed
  show "r = dat_final ksz d key s" if "dat_step ksz d key s = Inr r"
    using that unfolding more
    by (auto simp: dat_final_def find_lpm.simps [of d key "unat ksz" ?i] split: if_splits sum.splits)
qed

interpretation ds: stepped_lookup "\<lambda>d key. dat_lookup d key ksz" "\<lambda>d key. dat_lookup_partial_init"
    "dat_step ksz" "dat_final ksz" "\<lambda>d key s. DAT_KEY_SIZE_BIT - unat (p_offset s)" for ksz
proof unfold_locales
  show "dat_final ksz d k dat_lookup_partial_init = dat_lookup d k ksz" for d k
    by (simp add: dat_final_def dat_lookup_partial_init_def dat_lookup_def cong: if_cong)
qed (use dat_step_cases in blast)+

text \<open>C39. A batch of stepped lookups, run in any order of steps: a lookup that has finished gives
  what the plain lookup gives, and one that got at least 129 steps has finished.\<close>

theorem dat_stepped_lookup:
  assumes "i < length keys"
  shows "let run = run_steps (dat_step ksz d) keys sched (map (\<lambda>_. Inl dat_lookup_partial_init) keys)
    in (\<forall>r. run ! i = Inr r \<longrightarrow> r = dat_lookup d (keys ! i) ksz)
       \<and> (128 < count_list sched i \<longrightarrow> run ! i = Inr (dat_lookup d (keys ! i) ksz))"
proof -
  let ?run = "run_steps (dat_step ksz d) keys sched (map (\<lambda>_. Inl dat_lookup_partial_init) keys)"
  have right: "?run ! i = Inr r \<Longrightarrow> r = dat_lookup d (keys ! i) ksz" for r
    by (rule ds.any_schedule [OF assms(1)])
  moreover have "\<exists>r. ?run ! i = Inr r" if "128 < count_list sched i"
    by (rule ds.run_finishes [OF assms(1), where s = dat_lookup_partial_init])
      (use assms(1) that in \<open>simp_all add: dat_lookup_partial_init_def DAT_KEY_SIZE_BIT_def\<close>)
  ultimately show ?thesis unfolding Let_def by blast
qed

subsection \<open>The trie as a map from bit strings\<close>

abbreviation nxt :: "dat_node list \<Rightarrow> nat \<Rightarrow> nat" where
  "nxt b n \<equiv> unat (next_block (b ! n))"
abbreviation terminal :: "dat_node list \<Rightarrow> nat \<Rightarrow> bool" where
  "terminal b n \<equiv> IS_TERMINAL (value_flag (b ! n))"
abbreviation val_idx :: "dat_node list \<Rightarrow> nat \<Rightarrow> nat" where
  "val_idx b n \<equiv> unat (EXTRACT_VALUE_INDEX (value_flag (b ! n)))"

text \<open>The node that a bit string leads to.\<close>

fun descend :: "dat_node list \<Rightarrow> nat \<Rightarrow> bool list \<Rightarrow> nat option" where
  "descend b n [] = Some n"
| "descend b n (x # xs) = (if nxt b n = 0 then None else descend b (nxt b n + of_bool x) xs)"

definition key_bits :: "bytes \<Rightarrow> nat \<Rightarrow> bool list" where
  "key_bits key i = map (get_bit key) [0 ..< i]"

text \<open>The value stored for a bit string.\<close>

definition dat_entry :: "dat \<Rightarrow> bool list \<Rightarrow> bytes option" where
  "dat_entry d bs = (case descend (base d) 1 bs of
     None \<Rightarrow> None
   | Some n \<Rightarrow> if terminal (base d) n then Some (vals d ! val_idx (base d) n) else None)"

text \<open>
  The invariant: blocks are handed out from the stack in order; every used block has one parent,
  the unused ones are blank; every terminal node has a value index of its own, below the top of
  the value stack.
\<close>

definition dat_sizes :: "dat \<Rightarrow> bool" where
  "dat_sizes d \<longleftrightarrow> unat (node_count d) < 2 ^ 31 \<and> unat (value_count d) < 2 ^ 31 \<and> 2 \<le> unat (node_count d)
     \<and> length (base d) = unat (node_count d) \<and> length (vals d) = unat (value_count d)
     \<and> unat (stk_size d) = unat (node_count d) div 2 - 1
     \<and> free_stk d = map (\<lambda>i. of_nat (i * 2 + 2)) [0 ..< unat (stk_size d)]
     \<and> value_free_stk d = map of_nat [0 ..< unat (value_count d)]
     \<and> unat (stk_ptr d) \<le> unat (stk_size d) \<and> unat (value_stk_ptr d) \<le> unat (value_count d)"

definition dat_tree :: "dat_node list \<Rightarrow> nat \<Rightarrow> nat \<Rightarrow> bool" where
  "dat_tree b sp vp \<longleftrightarrow>
     (\<forall>n < length b. nxt b n \<noteq> 0 \<longrightarrow> (\<exists>j < sp. nxt b n = 2 * j + 2))
     \<and> (\<forall>n < length b. \<forall>n' < length b. nxt b n \<noteq> 0 \<and> nxt b n = nxt b n' \<longrightarrow> n = n')
     \<and> (\<forall>n < length b. 2 * sp + 2 \<le> n \<longrightarrow> nxt b n = 0 \<and> \<not> terminal b n)
     \<and> (\<forall>n < length b. terminal b n \<longrightarrow> val_idx b n < vp)
     \<and> (\<forall>n < length b. \<forall>n' < length b. terminal b n \<and> terminal b n' \<and> val_idx b n = val_idx b n'
          \<longrightarrow> n = n')"

definition dat_inv :: "dat \<Rightarrow> bool" where
  "dat_inv d \<longleftrightarrow> dat_sizes d \<and> dat_tree (base d) (unat (stk_ptr d)) (unat (value_stk_ptr d))"

lemma descend_append:
  "descend b n (xs @ ys) = Option.bind (descend b n xs) (\<lambda>m. descend b m ys)"
  by (induction b n xs rule: descend.induct) auto

lemma key_bits_Suc: "key_bits key (Suc i) = key_bits key i @ [get_bit key i]"
  by (simp add: key_bits_def)

lemma length_key_bits [simp]: "length (key_bits key i) = i"
  by (simp add: key_bits_def)

lemma key_bits_prefix: "i \<le> j \<Longrightarrow> \<exists>zs. key_bits key j = key_bits key i @ zs"
proof -
  assume "i \<le> j"
  then have "[0 ..< j] = [0 ..< i] @ [i ..< j]"
    using upt_add_eq_append [of 0 i "j - i"] by simp
  then show ?thesis by (simp add: key_bits_def)
qed

lemma dat_step_in:
  assumes "dat_tree b sp vp" and "2 * sp + 2 \<le> length b" and "n < length b" and "nxt b n \<noteq> 0"
  shows "nxt b n + of_bool x < 2 * sp + 2" and "nxt b n + of_bool x < length b" and "2 \<le> nxt b n"
    and "even (nxt b n)"
proof -
  from assms(1,3,4) obtain j where "j < sp" "nxt b n = 2 * j + 2" by (auto simp: dat_tree_def)
  then show "nxt b n + of_bool x < 2 * sp + 2" "2 \<le> nxt b n" "even (nxt b n)" by (auto simp: of_bool_def)
  then show "nxt b n + of_bool x < length b" using assms(2) by linarith
qed

lemma descend_in:
  assumes t: "dat_tree b sp vp" and l: "2 * sp + 2 \<le> length b"
  shows "descend b n xs = Some m \<Longrightarrow> n < 2 * sp + 2 \<Longrightarrow> m < 2 * sp + 2"
proof (induction xs arbitrary: n)
  case (Cons x xs)
  then have nz: "nxt b n \<noteq> 0" and dn: "descend b (nxt b n + of_bool x) xs = Some m"
    by (auto split: if_splits)
  have "n < length b" using Cons.prems(2) l by linarith
  from Cons.IH [OF dn dat_step_in(1) [OF t l this nz]] show ?case .
qed simp

lemma descend_snoc:
  "descend b n (xs @ [x]) = Some m \<longleftrightarrow>
    (\<exists>p. descend b n xs = Some p \<and> nxt b p \<noteq> 0 \<and> m = nxt b p + of_bool x)"
  by (auto simp: descend_append bind_eq_Some_conv split: if_splits)

lemma even_plus_bit:
  "even (a :: nat) \<Longrightarrow> even b \<Longrightarrow> a + of_bool x = b + of_bool u \<Longrightarrow> x = u \<and> a = b"
  by (cases x; cases u; simp; presburger)

text \<open>Every node is reached by one bit string only.\<close>

lemma descend_root:
  assumes t: "dat_tree b sp vp" and l: "2 * sp + 2 \<le> length b" and "descend b 1 zs = Some 1"
  shows "zs = []"
proof (rule ccontr)
  assume "zs \<noteq> []"
  then obtain us u where zs: "zs = us @ [u]" by (metis rev_exhaust)
  with assms(3) obtain p where p: "descend b 1 us = Some p" "nxt b p \<noteq> 0" "1 = nxt b p + of_bool u"
    by (auto simp: descend_snoc)
  have "p < length b" using descend_in [OF t l p(1)] l by simp
  from dat_step_in(3) [OF t l this p(2)] p(3) show False by simp
qed

lemma descend_inj:
  assumes t: "dat_tree b sp vp" and l: "2 * sp + 2 \<le> length b"
  shows "descend b 1 xs = Some m \<Longrightarrow> descend b 1 ys = Some m \<Longrightarrow> xs = ys"
proof (induction xs arbitrary: ys m rule: rev_induct)
  case Nil
  with descend_root [OF t l, of ys] show ?case by simp
next
  case (snoc x xs)
  from snoc.prems(1) obtain p where p: "descend b 1 xs = Some p" "nxt b p \<noteq> 0" "m = nxt b p + of_bool x"
    by (auto simp: descend_snoc)
  have pl: "p < length b" using descend_in [OF t l p(1)] l by simp
  have "ys \<noteq> []"
  proof
    assume "ys = []"
    with snoc.prems have "m = 1" by simp
    with snoc.prems(1) descend_root [OF t l, of "xs @ [x]"] show False by simp
  qed
  then obtain us u where ys: "ys = us @ [u]" by (metis rev_exhaust)
  with snoc.prems(2) obtain q where q: "descend b 1 us = Some q" "nxt b q \<noteq> 0" "m = nxt b q + of_bool u"
    by (auto simp: descend_snoc)
  have ql: "q < length b" using descend_in [OF t l q(1)] l by simp
  have "x = u \<and> nxt b p = nxt b q"
    by (rule even_plus_bit) (use dat_step_in(4) [OF t l pl p(2)] dat_step_in(4) [OF t l ql q(2)]
      p(3) q(3) in simp_all)
  moreover from this have "p = q" using t pl ql p(2) unfolding dat_tree_def by blast
  ultimately show ?case using snoc.IH [OF p(1)] q(1) ys by simp
qed

subsection \<open>What a lookup finds\<close>

lemma dat_inv_room:
  assumes "dat_inv d"
  shows "2 * unat (stk_ptr d) + 2 \<le> length (base d)"
proof -
  have "unat (stk_ptr d) \<le> unat (node_count d) div 2 - 1" "length (base d) = unat (node_count d)"
    "2 \<le> unat (node_count d)"
    using assms by (auto simp: dat_inv_def dat_sizes_def)
  then show ?thesis by linarith
qed

lemma dat_inv_next:
  assumes inv: "dat_inv d" and n: "unat node < length (base d)" and nz: "nxt (base d) (unat node) \<noteq> 0"
  shows "unat (next_block (base d ! unat node) + bit_u32 x) = nxt (base d) (unat node) + of_bool x"
proof -
  have t: "dat_tree (base d) (unat (stk_ptr d)) (unat (value_stk_ptr d))"
    and sz: "length (base d) < 2 ^ 31"
    using inv by (auto simp: dat_inv_def dat_sizes_def)
  have "unat (bit_u32 x) = of_bool x" by (simp add: bit_u32_def)
  moreover have "nxt (base d) (unat node) + of_bool x < 2 ^ 31"
    using dat_step_in(2) [OF t dat_inv_room [OF inv] n nz, of x] sz by linarith
  ultimately show ?thesis by (subst unat_add_no_wrap) simp_all
qed

lemma node_at_in [simp]: "unat i < length (base d) \<Longrightarrow> node_at d i = Inr (base d ! unat i)"
  by (simp add: node_at_def)

text \<open>The last terminal node on the path of the first \<open>i\<close> prefixes, zero when there is none.\<close>

fun last_terminal :: "dat_node list \<Rightarrow> bytes \<Rightarrow> nat \<Rightarrow> nat" where
  "last_terminal b key 0 = 0"
| "last_terminal b key (Suc i) = (case descend b 1 (key_bits key i) of
     None \<Rightarrow> last_terminal b key i
   | Some n \<Rightarrow> if terminal b n then n else last_terminal b key i)"

lemma last_terminal_stop:
  assumes "descend b 1 (key_bits key i) = Some n" and "nxt b n = 0" and "i < j"
  shows "last_terminal b key j = last_terminal b key (Suc i)"
  using assms(3)
proof (induction j)
  case (Suc j)
  show ?case
  proof (cases "i = j")
    case False
    with Suc.prems have ij: "i < j" by simp
    then obtain zs where zs: "key_bits key j = key_bits key (Suc i) @ zs"
      using key_bits_prefix [of "Suc i" j] by auto
    have "descend b 1 (key_bits key j) = None"
      using assms(1,2) unfolding zs key_bits_Suc by (simp add: descend_append)
    then show ?thesis using Suc.IH [OF ij] by simp
  qed simp
qed simp

lemma find_lpm_last:
  assumes inv: "dat_inv d" and "descend (base d) 1 (key_bits key i) = Some (unat node)"
    and "unat lpm = last_terminal (base d) key i" and "i \<le> min ksz DAT_KEY_SIZE_BIT"
  shows "\<exists>r. find_lpm d key ksz i node lpm = Inr r
    \<and> unat r = last_terminal (base d) key (min ksz DAT_KEY_SIZE_BIT)"
  using assms(2-4)
proof (induction "min ksz DAT_KEY_SIZE_BIT - i" arbitrary: i node lpm)
  case 0
  then have "i = min ksz DAT_KEY_SIZE_BIT" by simp
  with 0 show ?case by (subst find_lpm.simps) auto
next
  case (Suc k)
  let ?e = "base d ! unat node"
  let ?lpm = "if IS_TERMINAL (value_flag ?e) then node else lpm"
  have i: "i < ksz" "i < DAT_KEY_SIZE_BIT" using Suc.hyps(2) by auto
  have t: "dat_tree (base d) (unat (stk_ptr d)) (unat (value_stk_ptr d))"
    using inv by (simp add: dat_inv_def)
  have nl: "unat node < length (base d)"
    using descend_in [OF t dat_inv_room [OF inv] Suc.prems(1)] dat_inv_room [OF inv] by simp
  have lt: "unat ?lpm = last_terminal (base d) key (Suc i)" using Suc.prems by simp
  show ?case
  proof (cases "next_block ?e = EMPTY")
    case True
    then have "nxt (base d) (unat node) = 0" by (simp add: EMPTY_def)
    from last_terminal_stop [OF Suc.prems(1) this, of "min ksz DAT_KEY_SIZE_BIT"] i lt True nl
    show ?thesis by (subst find_lpm.simps) (simp add: Let_def)
  next
    case False
    then have nz: "nxt (base d) (unat node) \<noteq> 0" by (simp add: EMPTY_def unat_eq_0)
    let ?next = "next_block ?e + bit_u32 (get_bit key i)"
    have "descend (base d) 1 (key_bits key (Suc i)) = Some (unat ?next)"
      using Suc.prems(1) nz by (simp add: key_bits_Suc descend_snoc dat_inv_next [OF inv nl nz])
    then have "\<exists>r. find_lpm d key ksz (Suc i) ?next ?lpm = Inr r
        \<and> unat r = last_terminal (base d) key (min ksz DAT_KEY_SIZE_BIT)"
      by (intro Suc.hyps(1)) (use Suc.hyps(2) lt in auto)
    then show ?thesis using i nl False by (subst find_lpm.simps) (simp add: Let_def)
  qed
qed

lemma last_terminal_spec:
  assumes inv: "dat_inv d"
  shows "if last_terminal (base d) key i = 0 then \<forall>j < i. dat_entry d (key_bits key j) = None
     else \<exists>j < i. descend (base d) 1 (key_bits key j) = Some (last_terminal (base d) key i)
       \<and> terminal (base d) (last_terminal (base d) key i)
       \<and> (\<forall>l. j < l \<and> l < i \<longrightarrow> dat_entry d (key_bits key l) = None)"
proof (induction i)
  case (Suc i)
  have t: "dat_tree (base d) (unat (stk_ptr d)) (unat (value_stk_ptr d))"
    using inv by (simp add: dat_inv_def)
  have nz: "n \<noteq> 0" if "descend (base d) 1 zs = Some n" for zs n
  proof
    assume "n = 0"
    have "zs \<noteq> []" using that \<open>n = 0\<close> by auto
    then obtain us u where "zs = us @ [u]" by (metis rev_exhaust)
    with that \<open>n = 0\<close> show False by (auto simp: descend_snoc)
  qed
  show ?case
  proof (cases "\<exists>n. descend (base d) 1 (key_bits key i) = Some n \<and> terminal (base d) n")
    case True
    then obtain n where n: "descend (base d) 1 (key_bits key i) = Some n" "terminal (base d) n" by blast
    then have "last_terminal (base d) key (Suc i) = n" by simp
    with nz [OF n(1)] n show ?thesis by (intro if_split [THEN iffD2]) (auto intro!: exI [of _ i])
  next
    case False
    then have none: "dat_entry d (key_bits key i) = None"
      and eq: "last_terminal (base d) key (Suc i) = last_terminal (base d) key i"
      by (auto simp: dat_entry_def split: option.splits)
    show ?thesis
    proof (cases "last_terminal (base d) key i = 0")
      case True
      with Suc.IH have "\<forall>j < i. dat_entry d (key_bits key j) = None" by simp
      with none have "\<forall>j < Suc i. dat_entry d (key_bits key j) = None" by (metis less_Suc_eq)
      with True show ?thesis unfolding eq by simp
    next
      case False
      with Suc.IH obtain j where j: "j < i"
        "descend (base d) 1 (key_bits key j) = Some (last_terminal (base d) key i)"
        "terminal (base d) (last_terminal (base d) key i)"
        "\<forall>l. j < l \<and> l < i \<longrightarrow> dat_entry d (key_bits key l) = None" by auto
      have "\<forall>l. j < l \<and> l < Suc i \<longrightarrow> dat_entry d (key_bits key l) = None"
        using j(4) none by (metis less_Suc_eq)
      with False j show ?thesis unfolding eq by (auto intro!: exI [of _ j])
    qed
  qed
qed simp

lemma dat_lookup_spec:
  assumes inv: "dat_inv d"
  shows "\<exists>r. dat_lookup d key key_size = Inr r
    \<and> (case r of
         None \<Rightarrow> \<forall>i < min (unat key_size) DAT_KEY_SIZE_BIT. dat_entry d (key_bits key i) = None
       | Some v \<Rightarrow> unat v < length (vals d) \<and> (\<exists>i < min (unat key_size) DAT_KEY_SIZE_BIT.
           dat_entry d (key_bits key i) = Some (vals d ! unat v)
           \<and> (\<forall>j. i < j \<and> j < min (unat key_size) DAT_KEY_SIZE_BIT
                \<longrightarrow> dat_entry d (key_bits key j) = None)))"
proof -
  let ?L = "min (unat key_size) DAT_KEY_SIZE_BIT"
  let ?n = "last_terminal (base d) key ?L"
  have t: "dat_tree (base d) (unat (stk_ptr d)) (unat (value_stk_ptr d))"
    using inv by (simp add: dat_inv_def)
  obtain r where r: "find_lpm d key (unat key_size) 0 root_index EMPTY = Inr r" "unat r = ?n"
    using find_lpm_last [OF inv, of key 0 root_index EMPTY "unat key_size"]
    by (auto simp: root_index_def EMPTY_def key_bits_def)
  show ?thesis
  proof (cases "?n = 0")
    case True
    with r(2) have "r = EMPTY" by (simp add: EMPTY_def unat_eq_0)
    then show ?thesis using last_terminal_spec [OF inv, of key ?L] True r(1) by (simp add: dat_lookup_def)
  next
    case False
    with last_terminal_spec [OF inv, of key ?L] obtain j where j: "j < ?L"
      "descend (base d) 1 (key_bits key j) = Some ?n" "terminal (base d) ?n"
      "\<forall>l. j < l \<and> l < ?L \<longrightarrow> dat_entry d (key_bits key l) = None" by auto
    have "?n < length (base d)"
      using descend_in [OF t dat_inv_room [OF inv] j(2)] dat_inv_room [OF inv] by simp
    moreover have "r \<noteq> EMPTY" using r(2) False by (auto simp: EMPTY_def)
    ultimately have "dat_lookup d key key_size = Inr (Some (EXTRACT_VALUE_INDEX (value_flag (base d ! ?n))))"
      using r(1) unfolding r(2) [symmetric] by (simp add: dat_lookup_def)
    moreover have "dat_entry d (key_bits key j) = Some (vals d ! val_idx (base d) ?n)"
      using j(2,3) by (simp add: dat_entry_def)
    moreover have "val_idx (base d) ?n < length (vals d)"
    proof -
      have "val_idx (base d) ?n < unat (value_stk_ptr d)"
        using t j(3) \<open>?n < length (base d)\<close> by (auto simp: dat_tree_def)
      then show ?thesis using inv by (simp add: dat_inv_def dat_sizes_def)
    qed
    ultimately show ?thesis using j(1,4) by auto
  qed
qed

text \<open>C21. A lookup returns, without an access outside of the arrays, the value of the longest entry
  that is a proper prefix of the key of \<open>key_size\<close> bits: an entry of the full length is not found.\<close>

theorem dat_lookup_longest:
  assumes inv: "dat_inv d"
  shows "\<exists>r. dat_lookup d key key_size = Inr r
    \<and> (case r of
         None \<Rightarrow> \<forall>i < min (unat key_size) DAT_KEY_SIZE_BIT. dat_entry d (key_bits key i) = None
       | Some v \<Rightarrow> \<exists>i < min (unat key_size) DAT_KEY_SIZE_BIT.
           dat_entry d (key_bits key i) = Some (vals d ! unat v)
           \<and> (\<forall>j. i < j \<and> j < min (unat key_size) DAT_KEY_SIZE_BIT
                \<longrightarrow> dat_entry d (key_bits key j) = None))"
proof -
  from dat_lookup_spec [OF assms, of key key_size] obtain r where "dat_lookup d key key_size = Inr r"
    "case r of
         None \<Rightarrow> \<forall>i < min (unat key_size) DAT_KEY_SIZE_BIT. dat_entry d (key_bits key i) = None
       | Some v \<Rightarrow> unat v < length (vals d) \<and> (\<exists>i < min (unat key_size) DAT_KEY_SIZE_BIT.
           dat_entry d (key_bits key i) = Some (vals d ! unat v)
           \<and> (\<forall>j. i < j \<and> j < min (unat key_size) DAT_KEY_SIZE_BIT
                \<longrightarrow> dat_entry d (key_bits key j) = None))" by blast
  then show ?thesis by (cases r) auto
qed

subsection \<open>Insertion refines the update of the map\<close>

lemma mask_31: "TERMINAL_MASK = push_bit 31 1"
  by (simp add: TERMINAL_MASK_def push_bit_eq_mult)

lemma flag_value:
  assumes "unat vi < 2 ^ 31"
  shows "IS_TERMINAL (vi OR TERMINAL_MASK)" and "EXTRACT_VALUE_INDEX (vi OR TERMINAL_MASK) = vi"
proof -
  have "bit ((vi OR TERMINAL_MASK) AND TERMINAL_MASK) 31"
    unfolding mask_31 by (simp only: bit_and_iff bit_or_iff bit_push_bit_iff bit_1_iff) simp
  then show "IS_TERMINAL (vi OR TERMINAL_MASK)" by (auto simp: IS_TERMINAL_def)
  have "take_bit 31 vi = vi"
    by (rule unat_eqI) (use assms in \<open>simp add: unsigned_take_bit_eq take_bit_nat_eq_self\<close>)
  then have "\<not> bit vi 31" by (metis bit_take_bit_iff less_irrefl)
  then show "EXTRACT_VALUE_INDEX (vi OR TERMINAL_MASK) = vi"
    unfolding EXTRACT_VALUE_INDEX_def mask_31
    by (intro word_eq_bitsI)
      (auto simp only: bit_and_iff bit_or_iff bit_not_iff bit_push_bit_iff bit_1_iff possible_bit_word diff_is_0_eq
        dest: le_antisym)
qed

lemma neg_large:
  assumes "e \<in> {ENOSPC, EINVAL}" and "unat x < 2 ^ 31"
  shows "x < neg_u32 e"
  using assms by (auto simp: neg_u32_def errno_defs word_less_nat_alt)

lemma descend_flag:
  assumes "n < length b"
  shows "descend (b[n := (b ! n)\<lparr>value_flag := w\<rparr>]) m zs = descend b m zs"
  using assms by (induction zs arbitrary: m) (auto simp: nth_list_update)

lemma descend_link:
  assumes "n < length b" and "nxt b n = 0" and "unat f = F" and "F \<noteq> 0"
    and "\<And>x :: bool. F + of_bool x \<noteq> n \<and> nxt b (F + of_bool x) = 0"
  defines "b' \<equiv> b[n := (b ! n)\<lparr>next_block := f\<rparr>]"
  shows "(descend b m zs = Some q \<longrightarrow> descend b' m zs = Some q)
    \<and> (descend b m zs = None \<longrightarrow> descend b' m zs \<in> {None, Some F, Some (F + 1)})"
proof (induction zs arbitrary: m)
  case (Cons x xs)
  have stop: "descend b' (F + of_bool x) xs = (if xs = [] then Some (F + of_bool x) else None)"
    using assms(5) [of x] by (cases xs) (simp_all add: b'_def)
  show ?case
  proof (cases "m = n")
    case True
    then have "nxt b' m = F" using assms(1,3) by (simp add: b'_def)
    with True stop assms(2,4) show ?thesis by auto
  next
    case False
    then have "nxt b' m = nxt b m" by (simp add: b'_def)
    with Cons show ?thesis by simp
  qed
qed simp

lemma get_free_block_inv:
  assumes inv: "dat_inv d"
  shows "stk_size d \<le> stk_ptr d \<Longrightarrow> \<exists>e. get_free_block d = Inr (e, d) \<and> node_count d < e"
    and "stk_ptr d < stk_size d \<Longrightarrow> \<exists>f. get_free_block d = Inr (f, d\<lparr>stk_ptr := stk_ptr d + 1\<rparr>)
      \<and> unat f = 2 * unat (stk_ptr d) + 2 \<and> \<not> node_count d < f
      \<and> unat (stk_ptr d + 1) = unat (stk_ptr d) + 1"
proof -
  have sz: "dat_sizes d" using inv by (simp add: dat_inv_def)
  then have nc: "unat (node_count d) < 2 ^ 31" by (simp add: dat_sizes_def)
  show "\<exists>e. get_free_block d = Inr (e, d) \<and> node_count d < e" if "stk_size d \<le> stk_ptr d"
    using that neg_large [of ENOSPC "node_count d"] nc by (simp add: get_free_block_def)
  show "\<exists>f. get_free_block d = Inr (f, d\<lparr>stk_ptr := stk_ptr d + 1\<rparr>)
      \<and> unat f = 2 * unat (stk_ptr d) + 2 \<and> \<not> node_count d < f
      \<and> unat (stk_ptr d + 1) = unat (stk_ptr d) + 1" if lt: "stk_ptr d < stk_size d"
  proof -
    let ?f = "of_nat (unat (stk_ptr d) * 2 + 2) :: u32"
    have l: "unat (stk_ptr d) < unat (node_count d) div 2 - 1"
      using lt sz by (simp add: dat_sizes_def word_less_nat_alt)
    have f: "unat ?f = 2 * unat (stk_ptr d) + 2"
      using l nc by (subst unat_of_nat_small) simp_all
    have f1: "unat (?f + 1) = 2 * unat (stk_ptr d) + 3"
      using l nc f by (subst unat_add_no_wrap) simp_all
    have s1: "unat (stk_ptr d + 1) = unat (stk_ptr d) + 1"
      using l nc by (subst unat_add_no_wrap) simp_all
    have "read_at (free_stk d) (unat (stk_ptr d)) = Inr ?f"
      using lt sz by (simp add: dat_sizes_def word_less_nat_alt)
    moreover have "\<not> node_count d < ?f + 1" "\<not> node_count d < ?f"
      using l f f1 by (simp_all add: word_less_nat_alt)
    moreover have "\<not> stk_size d \<le> stk_ptr d" using lt by (simp add: not_le)
    ultimately show ?thesis
      using f s1 by (intro exI [of _ ?f]) (simp add: get_free_block_def Let_def)
  qed
qed

text \<open>A leaf gets a fresh block of two blank nodes.\<close>

definition linked :: "dat \<Rightarrow> nat \<Rightarrow> u32 \<Rightarrow> dat" where
  "linked d n f = d\<lparr>stk_ptr := stk_ptr d + 1,
     base := (base d)[n := (base d ! n)\<lparr>next_block := f\<rparr>]\<rparr>"

lemma linked_inv:
  assumes inv: "dat_inv d" and P: "descend (base d) 1 P = Some n" and leaf: "nxt (base d) n = 0"
    and lt: "stk_ptr d < stk_size d" and f: "unat f = 2 * unat (stk_ptr d) + 2"
    and s1: "unat (stk_ptr d + 1) = unat (stk_ptr d) + 1"
  shows "dat_inv (linked d n f)" and "dat_entry (linked d n f) = dat_entry d"
    and "descend (base (linked d n f)) 1 (P @ [x]) = Some (unat f + of_bool x)"
    and "nxt (base (linked d n f)) (unat f + of_bool x) = 0"
proof -
  let ?b = "base d" and ?sp = "unat (stk_ptr d)" and ?vp = "unat (value_stk_ptr d)"
  let ?b' = "base (linked d n f)"
  have b': "?b' = ?b[n := (?b ! n)\<lparr>next_block := f\<rparr>]" by (simp add: linked_def)
  have t: "dat_tree ?b ?sp ?vp" and sz: "dat_sizes d" using inv by (auto simp: dat_inv_def)
  note room = dat_inv_room [OF inv]
  have nlt: "n < 2 * ?sp + 2" using descend_in [OF t room P] by simp
  then have nl: "n < length ?b" using room by simp
  have room': "2 * ?sp + 3 < length ?b"
    using sz lt by (simp add: dat_sizes_def word_less_nat_alt)
  have blank: "nxt ?b m = 0" "\<not> terminal ?b m" if "2 * ?sp + 2 \<le> m" "m < length ?b" for m
    using t that by (auto simp: dat_tree_def)
  have fr: "unat f + of_bool y \<noteq> n \<and> nxt ?b (unat f + of_bool y) = 0"
    "\<not> terminal ?b (unat f + of_bool y)" for y :: bool
    using nlt f room' blank [of "unat f + of_bool y"] by (cases y; simp)+
  have nx: "nxt ?b' m = (if m = n then unat f else nxt ?b m)" for m
    using nl by (simp add: b' nth_list_update)
  have fl: "value_flag (?b' ! m) = value_flag (?b ! m)" for m
    using nl by (cases "m = n") (simp_all add: b' nth_list_update)
  have old: "nxt ?b m \<noteq> unat f" if "m < length ?b" for m
    using t that f by (auto simp: dat_tree_def dest!: spec [of _ m])
  have tree': "dat_tree ?b' (?sp + 1) ?vp"
    unfolding dat_tree_def nx fl
  proof (intro conjI allI impI; (simp only: b' length_list_update)?)
    fix m assume m: "m < length ?b" "(if m = n then unat f else nxt ?b m) \<noteq> 0"
    show "\<exists>j < ?sp + 1. (if m = n then unat f else nxt ?b m) = 2 * j + 2"
      using m t f unfolding dat_tree_def by (cases "m = n") (auto intro: less_SucI)
  next
    fix m m' assume m: "m < length ?b" "m' < length ?b"
      "(if m = n then unat f else nxt ?b m) \<noteq> 0
       \<and> (if m = n then unat f else nxt ?b m) = (if m' = n then unat f else nxt ?b m')"
    show "m = m'"
      using m old [OF m(1)] old [OF m(2)] t unfolding dat_tree_def by (auto split: if_splits)
  next
    fix m assume "m < length ?b" "2 * (?sp + 1) + 2 \<le> m"
    then show "(if m = n then unat f else nxt ?b m) = 0" "\<not> terminal ?b m"
      using blank [of m] nlt by auto
  next
    fix m assume "m < length ?b" "terminal ?b m"
    then show "val_idx ?b m < ?vp" using t by (auto simp: dat_tree_def)
  next
    fix m m' assume "m < length ?b" "m' < length ?b"
      "terminal ?b m \<and> terminal ?b m' \<and> val_idx ?b m = val_idx ?b m'"
    then show "m = m'" using t by (auto simp: dat_tree_def)
  qed
  have "?sp + 1 \<le> unat (stk_size d)" using lt by (simp add: word_less_nat_alt)
  with tree' sz show "dat_inv (linked d n f)"
    unfolding dat_inv_def dat_sizes_def by (simp add: linked_def s1)
  have dl: "(descend ?b 1 zs = Some q \<longrightarrow> descend ?b' 1 zs = Some q)
    \<and> (descend ?b 1 zs = None \<longrightarrow> descend ?b' 1 zs \<in> {None, Some (unat f), Some (unat f + 1)})" for zs q
    unfolding b' by (rule descend_link [OF nl leaf refl]) (use f fr in auto)
  show "dat_entry (linked d n f) = dat_entry d"
  proof
    fix zs
    have vs: "vals (linked d n f) = vals d" by (simp add: linked_def)
    show "dat_entry (linked d n f) zs = dat_entry d zs"
    proof (cases "descend ?b 1 zs")
      case None
      with dl [of zs] fr(2) [of False] fr(2) [of True] show ?thesis
        by (auto simp: dat_entry_def fl)
    next
      case (Some q)
      with dl [of zs q] show ?thesis by (simp add: dat_entry_def fl vs)
    qed
  qed
  show "descend ?b' 1 (P @ [x]) = Some (unat f + of_bool x)"
    using dl [of P n] P f by (simp add: descend_snoc nx)
  show "nxt ?b' (unat f + of_bool x) = 0" using fr(1) [of x] by (simp add: nx)
qed

lemma extend_spec:
  assumes "dat_inv d" and "descend (base d) 1 (key_bits key i) = Some (unat node)"
    and "nxt (base d) (unat node) = 0" and "i \<le> ksz" and "ksz \<le> DAT_KEY_SIZE_BIT"
  shows "\<exists>r d'. extend d key ksz i node = Inr (r, d') \<and> dat_inv d' \<and> dat_entry d' = dat_entry d
    \<and> value_stk_ptr d' = value_stk_ptr d \<and> value_count d' = value_count d
    \<and> stk_size d' = stk_size d \<and> unat (stk_ptr d') \<le> unat (stk_ptr d) + (ksz - i)
    \<and> (case r of Inl ret \<Rightarrow> ret = - ENOMEM \<and> unat (stk_size d) < unat (stk_ptr d) + (ksz - i)
       | Inr n \<Rightarrow> descend (base d') 1 (key_bits key ksz) = Some (unat n))"
  using assms
proof (induction "ksz - i" arbitrary: d i node)
  case 0
  then have "i = ksz" by simp
  with 0 show ?case by (subst extend.simps) simp
next
  case (Suc k)
  have i: "i < ksz" "i < DAT_KEY_SIZE_BIT" using Suc.hyps(2) Suc.prems(5) by auto
  have t: "dat_tree (base d) (unat (stk_ptr d)) (unat (value_stk_ptr d))"
    using Suc.prems(1) by (simp add: dat_inv_def)
  note room = dat_inv_room [OF Suc.prems(1)]
  have nl: "unat node < length (base d)" using descend_in [OF t room Suc.prems(2)] room by simp
  have empty: "next_block (base d ! unat node) = EMPTY"
    using Suc.prems(3) by (simp add: EMPTY_def unat_eq_0)
  show ?case
  proof (cases "stk_ptr d < stk_size d")
    case False
    then obtain e where "get_free_block d = Inr (e, d)" "node_count d < e"
      using get_free_block_inv(1) [OF Suc.prems(1)] by (auto simp: not_less)
    then show ?thesis using i nl empty Suc.prems(1) False
      by (subst extend.simps) (auto simp: Let_def word_less_nat_alt)
  next
    case True
    from get_free_block_inv(2) [OF Suc.prems(1) True] obtain f where
      f: "get_free_block d = Inr (f, d\<lparr>stk_ptr := stk_ptr d + 1\<rparr>)"
        "unat f = 2 * unat (stk_ptr d) + 2" "\<not> node_count d < f"
        "unat (stk_ptr d + 1) = unat (stk_ptr d) + 1" by blast
    note li = linked_inv [OF Suc.prems(1-3) True f(2,4)]
    let ?d' = "linked d (unat node) f" and ?x = "get_bit key i"
    have wr: "write_node (d\<lparr>stk_ptr := stk_ptr d + 1\<rparr>) node ((base d ! unat node)\<lparr>next_block := f\<rparr>) = Inr ?d'"
      using nl by (simp add: write_node_def linked_def)
    have step: "extend d key ksz i node = extend ?d' key ksz (i + 1) (f + bit_u32 ?x)"
      using i nl empty f(1,3) wr by (subst extend.simps) simp
    have "unat (f + bit_u32 ?x) = unat f + of_bool ?x"
    proof -
      have "unat (stk_ptr d) < unat (node_count d) div 2 - 1" "unat (node_count d) < 2 ^ 31"
        using True Suc.prems(1) by (auto simp: dat_inv_def dat_sizes_def word_less_nat_alt)
      then show ?thesis using f(2)
        by (subst unat_add_no_wrap) (auto simp: bit_u32_def)
    qed
    then have "descend (base ?d') 1 (key_bits key (i + 1)) = Some (unat (f + bit_u32 ?x))"
      "nxt (base ?d') (unat (f + bit_u32 ?x)) = 0"
      using li(3,4) by (simp_all add: key_bits_Suc)
    moreover have "k = ksz - (i + 1)" using Suc.hyps(2) by simp
    ultimately obtain r d'' where "extend ?d' key ksz (i + 1) (f + bit_u32 ?x) = Inr (r, d'')"
      "dat_inv d''" "dat_entry d'' = dat_entry ?d'" "value_stk_ptr d'' = value_stk_ptr ?d'"
      "value_count d'' = value_count ?d'" "stk_size d'' = stk_size ?d'"
      "unat (stk_ptr d'') \<le> unat (stk_ptr ?d') + (ksz - (i + 1))"
      "case r of Inl ret \<Rightarrow> ret = - ENOMEM \<and> unat (stk_size ?d') < unat (stk_ptr ?d') + (ksz - (i + 1))
       | Inr n \<Rightarrow> descend (base d'') 1 (key_bits key ksz) = Some (unat n)"
      using Suc.hyps(1) [of "i + 1" ?d' "f + bit_u32 ?x"] li(1) i Suc.prems(5) by auto
    moreover have "unat (stk_ptr ?d') = unat (stk_ptr d) + 1" "stk_size ?d' = stk_size d"
      using f(4) by (simp_all add: linked_def)
    ultimately show ?thesis using step li(2) i by (auto simp: linked_def split: sum.splits)
  qed
qed

text \<open>A value of its own for a node that has none, and the overwriting of a value.\<close>

definition with_value :: "dat \<Rightarrow> nat \<Rightarrow> u32 \<Rightarrow> bytes \<Rightarrow> dat" where
  "with_value d n vi w = d\<lparr>value_stk_ptr := value_stk_ptr d + 1,
     base := (base d)[n := (base d ! n)\<lparr>value_flag := vi OR TERMINAL_MASK\<rparr>],
     vals := (vals d)[unat vi := w]\<rparr>"

lemma with_value_inv:
  assumes inv: "dat_inv d" and P: "descend (base d) 1 P = Some n" and new: "\<not> terminal (base d) n"
    and lt: "unat (value_stk_ptr d) < unat (value_count d)" and vi: "vi = value_stk_ptr d"
  shows "dat_inv (with_value d n vi w)" and "dat_entry (with_value d n vi w) = (dat_entry d)(P \<mapsto> w)"
proof -
  let ?b = "base d" and ?sp = "unat (stk_ptr d)" and ?vp = "unat (value_stk_ptr d)"
  let ?d' = "with_value d n vi w"
  let ?b' = "base ?d'"
  have t: "dat_tree ?b ?sp ?vp" and sz: "dat_sizes d" using inv by (auto simp: dat_inv_def)
  note room = dat_inv_room [OF inv]
  have nlt: "n < 2 * ?sp + 2" using descend_in [OF t room P] by simp
  then have nl: "n < length ?b" using room by simp
  have v31: "unat vi < 2 ^ 31" using lt sz by (simp add: vi dat_sizes_def)
  have v1: "unat (value_stk_ptr d + 1) = ?vp + 1"
    using v31 by (subst unat_add_no_wrap) (simp_all add: vi)
  have b': "?b' = ?b[n := (?b ! n)\<lparr>value_flag := vi OR TERMINAL_MASK\<rparr>]" by (simp add: with_value_def)
  have nx: "nxt ?b' m = nxt ?b m" for m
    using nl by (cases "m = n") (simp_all add: b')
  have tm: "terminal ?b' m \<longleftrightarrow> m = n \<or> terminal ?b m" for m
    using nl flag_value(1) [OF v31] by (cases "m = n") (simp_all add: b')
  have ix: "val_idx ?b' m = (if m = n then ?vp else val_idx ?b m)" for m
    using nl unfolding b' by (cases "m = n") (simp_all add: flag_value(2) [OF v31], simp add: vi)
  have below: "val_idx ?b m < ?vp" if "m < length ?b" "terminal ?b m" for m
    using t that by (auto simp: dat_tree_def)
  have tree': "dat_tree ?b' ?sp (?vp + 1)"
    unfolding dat_tree_def nx tm ix
  proof (intro conjI allI impI; (simp only: b' length_list_update)?)
    fix m assume "m < length ?b" "nxt ?b m \<noteq> 0"
    then show "\<exists>j < ?sp. nxt ?b m = 2 * j + 2" using t by (auto simp: dat_tree_def)
  next
    fix m m' assume "m < length ?b" "m' < length ?b" "nxt ?b m \<noteq> 0 \<and> nxt ?b m = nxt ?b m'"
    then show "m = m'" using t unfolding dat_tree_def by blast
  next
    fix m assume "m < length ?b" "2 * ?sp + 2 \<le> m"
    then show "nxt ?b m = 0" "\<not> (m = n \<or> terminal ?b m)" using t nlt by (auto simp: dat_tree_def)
  next
    fix m assume "m < length ?b" "m = n \<or> terminal ?b m"
    then show "(if m = n then ?vp else val_idx ?b m) < ?vp + 1"
      using below [of m] by (cases "m = n") auto
  next
    fix m m' assume m: "m < length ?b" "m' < length ?b"
      "(m = n \<or> terminal ?b m) \<and> (m' = n \<or> terminal ?b m')
       \<and> (if m = n then ?vp else val_idx ?b m) = (if m' = n then ?vp else val_idx ?b m')"
    have "val_idx ?b m = val_idx ?b m' \<Longrightarrow> terminal ?b m \<Longrightarrow> terminal ?b m' \<Longrightarrow> m = m'"
      using t m(1,2) unfolding dat_tree_def by blast
    with m below [of m] below [of m'] show "m = m'"
      by (cases "m = n"; cases "m' = n") simp_all
  qed
  have "?vp + 1 \<le> unat (value_count d)" using lt by simp
  with tree' sz show "dat_inv ?d'"
    unfolding dat_inv_def dat_sizes_def by (simp add: with_value_def v1)
  have d: "descend ?b' m zs = descend ?b m zs" for m zs unfolding b' by (rule descend_flag [OF nl])
  have vl: "vals ?d' = (vals d)[?vp := w]" by (simp add: with_value_def vi)
  have vpl: "?vp < length (vals d)" using lt sz by (simp add: dat_sizes_def)
  show "dat_entry ?d' = (dat_entry d)(P \<mapsto> w)"
  proof
    fix zs
    show "dat_entry ?d' zs = ((dat_entry d)(P \<mapsto> w)) zs"
    proof (cases "descend ?b 1 zs")
      case None
      with P show ?thesis by (auto simp: dat_entry_def d)
    next
      case (Some q)
      have "q < length ?b" using descend_in [OF t room Some] room by simp
      with below [of q] have "terminal ?b q \<Longrightarrow> val_idx ?b q \<noteq> ?vp" by auto
      then have old: "terminal ?b q \<Longrightarrow> (vals d)[?vp := w] ! val_idx ?b q = vals d ! val_idx ?b q" by simp
      have e: "dat_entry ?d' zs = (if q = n \<or> terminal ?b q
          then Some ((vals d)[?vp := w] ! (if q = n then ?vp else val_idx ?b q)) else None)"
        unfolding dat_entry_def d Some option.case tm ix vl ..
      show ?thesis
      proof (cases "q = n")
        case True
        then have "zs = P" using Some P descend_inj [OF t room Some, of P] by simp
        with True show ?thesis using vpl unfolding e by simp
      next
        case False
        then have "zs \<noteq> P" using Some P by auto
        with False show ?thesis unfolding e using old Some by (simp add: dat_entry_def)
      qed
    qed
  qed
qed

definition value_copy :: "nat \<Rightarrow> bytes \<Rightarrow> bytes \<Rightarrow> bytes" where
  "value_copy vsz old v = (\<lambda>j. if j < vsz then v j else old j)"

lemma overwrite_inv:
  assumes inv: "dat_inv d" and P: "descend (base d) 1 P = Some n" and old: "terminal (base d) n"
  shows "dat_inv (d\<lparr>vals := (vals d)[val_idx (base d) n := w]\<rparr>)"
    and "dat_entry (d\<lparr>vals := (vals d)[val_idx (base d) n := w]\<rparr>) = (dat_entry d)(P \<mapsto> w)"
    and "val_idx (base d) n < length (vals d)"
proof -
  let ?b = "base d"
  have t: "dat_tree ?b (unat (stk_ptr d)) (unat (value_stk_ptr d))" and sz: "dat_sizes d"
    using inv by (auto simp: dat_inv_def)
  note room = dat_inv_room [OF inv]
  show "dat_inv (d\<lparr>vals := (vals d)[val_idx ?b n := w]\<rparr>)"
    using inv by (simp add: dat_inv_def dat_sizes_def)
  have nl: "n < length ?b" using descend_in [OF t room P] room by simp
  have "val_idx ?b n < unat (value_stk_ptr d)" using t old nl by (auto simp: dat_tree_def)
  then show vl: "val_idx ?b n < length (vals d)" using sz by (simp add: dat_sizes_def)
  show "dat_entry (d\<lparr>vals := (vals d)[val_idx ?b n := w]\<rparr>) = (dat_entry d)(P \<mapsto> w)"
  proof
    fix zs
    show "dat_entry (d\<lparr>vals := (vals d)[val_idx ?b n := w]\<rparr>) zs = ((dat_entry d)(P \<mapsto> w)) zs"
    proof (cases "descend ?b 1 zs")
      case None
      with P show ?thesis by (auto simp: dat_entry_def)
    next
      case (Some q)
      show ?thesis
      proof (cases "q = n")
        case True
        then have "zs = P" using Some P descend_inj [OF t room Some, of P] by simp
        with True Some old vl show ?thesis by (simp add: dat_entry_def)
      next
        case False
        then have zs: "zs \<noteq> P" using Some P by auto
        have "q < length ?b" using descend_in [OF t room Some] room by simp
        then have "terminal ?b q \<Longrightarrow> val_idx ?b n \<noteq> val_idx ?b q"
          using t old nl False unfolding dat_tree_def by blast
        with zs Some show ?thesis by (auto simp: dat_entry_def)
      qed
    qed
  qed
qed

lemma get_value_inv:
  assumes "dat_inv d" and "unat (value_stk_ptr d) < unat (value_count d)"
  shows "get_value d = Inr (value_stk_ptr d, d\<lparr>value_stk_ptr := value_stk_ptr d + 1\<rparr>)"
    and "\<not> value_count d < value_stk_ptr d"
proof -
  have "value_free_stk d = map of_nat [0 ..< unat (value_count d)]"
    using assms(1) by (simp add: dat_inv_def dat_sizes_def)
  then have "read_at (value_free_stk d) (unat (value_stk_ptr d)) = Inr (value_stk_ptr d)"
    using assms(2) by simp
  moreover show "\<not> value_count d < value_stk_ptr d" using assms(2) by (simp add: word_less_nat_alt)
  ultimately show "get_value d = Inr (value_stk_ptr d, d\<lparr>value_stk_ptr := value_stk_ptr d + 1\<rparr>)"
    by (simp add: get_value_def Let_def)
qed

lemma set_new_spec:
  assumes inv: "dat_inv d" and P: "descend (base d) 1 P = Some (unat n)"
    and new: "\<not> terminal (base d) (unat n)" and lt: "unat (value_stk_ptr d) < unat (value_count d)"
  shows "\<exists>w. set_new vsz d n v = Inr (0, with_value d (unat n) (value_stk_ptr d) (value_copy vsz w v))"
    and "\<exists>w. set_existing vsz d n v = Inr (0, with_value d (unat n) (value_stk_ptr d) (value_copy vsz w v))"
proof -
  have nl: "unat n < length (base d)"
    using descend_in [OF _ dat_inv_room [OF inv] P] inv dat_inv_room [OF inv]
    by (force simp: dat_inv_def)
  have vl: "unat (value_stk_ptr d) < length (vals d)"
    using inv lt by (simp add: dat_inv_def dat_sizes_def)
  note gv = get_value_inv [OF inv lt]
  let ?w = "vals d ! unat (value_stk_ptr d)"
  show "\<exists>w. set_new vsz d n v = Inr (0, with_value d (unat n) (value_stk_ptr d) (value_copy vsz w v))"
    using nl vl gv by (intro exI [of _ ?w])
      (simp add: set_new_def write_node_def write_val_def with_value_def value_copy_def cong: if_cong)
  show "\<exists>w. set_existing vsz d n v = Inr (0, with_value d (unat n) (value_stk_ptr d) (value_copy vsz w v))"
    using nl vl gv new by (intro exI [of _ ?w])
      (simp add: set_existing_def write_node_def write_val_def with_value_def value_copy_def cong: if_cong)
qed

lemma find_leaf_spec:
  assumes inv: "dat_inv d" and "descend (base d) 1 (key_bits key i) = Some (unat node)"
    and "i \<le> ksz" and "ksz \<le> DAT_KEY_SIZE_BIT"
  shows "\<exists>n j. find_leaf d key ksz i node = Inr (n, j) \<and> j \<le> ksz
    \<and> descend (base d) 1 (key_bits key j) = Some (unat n) \<and> (j < ksz \<longrightarrow> nxt (base d) (unat n) = 0)"
  using assms(2-4)
proof (induction "ksz - i" arbitrary: i node)
  case 0
  then have "i = ksz" by simp
  with 0 show ?case by (subst find_leaf.simps) simp
next
  case (Suc k)
  have i: "i < ksz" "i < DAT_KEY_SIZE_BIT" using Suc.hyps(2) Suc.prems by auto
  have t: "dat_tree (base d) (unat (stk_ptr d)) (unat (value_stk_ptr d))"
    using inv by (simp add: dat_inv_def)
  have nl: "unat node < length (base d)"
    using descend_in [OF t dat_inv_room [OF inv] Suc.prems(1)] dat_inv_room [OF inv] by simp
  show ?case
  proof (cases "next_block (base d ! unat node) = EMPTY")
    case True
    then show ?thesis using i nl Suc.prems by (subst find_leaf.simps) (auto simp: EMPTY_def)
  next
    case False
    then have nz: "nxt (base d) (unat node) \<noteq> 0" by (simp add: EMPTY_def unat_eq_0)
    let ?next = "next_block (base d ! unat node) + bit_u32 (get_bit key i)"
    have "descend (base d) 1 (key_bits key (Suc i)) = Some (unat ?next)"
      using Suc.prems(1) nz by (simp add: key_bits_Suc descend_snoc dat_inv_next [OF inv nl nz])
    then have "\<exists>n j. find_leaf d key ksz (Suc i) ?next = Inr (n, j) \<and> j \<le> ksz
        \<and> descend (base d) 1 (key_bits key j) = Some (unat n) \<and> (j < ksz \<longrightarrow> nxt (base d) (unat n) = 0)"
      by (intro Suc.hyps(1)) (use Suc.hyps(2) Suc.prems i in auto)
    then show ?thesis using i nl False by (subst find_leaf.simps) simp
  qed
qed

lemma dat_insert_spec:
  assumes inv: "dat_inv d" and ks: "unat key_size \<le> DAT_KEY_SIZE_BIT"
    and lt: "unat (value_stk_ptr d) < unat (value_count d)"
  shows "\<exists>ret d'. dat_insert vsz d key key_size v = Inr (ret, d') \<and> dat_inv d'
    \<and> (if ret = 0
       then \<exists>w. dat_entry d' = (dat_entry d)(key_bits key (unat key_size) \<mapsto> value_copy vsz w v)
       else ret = - ENOMEM \<and> dat_entry d' = dat_entry d)
    \<and> value_count d' = value_count d \<and> stk_size d' = stk_size d
    \<and> unat (value_stk_ptr d') \<le> unat (value_stk_ptr d) + 1 \<and> unat (stk_ptr d') \<le> unat (stk_ptr d) + unat key_size
    \<and> (unat (stk_ptr d) + unat key_size \<le> unat (stk_size d) \<longrightarrow> ret = 0)"
proof -
  have v1: "unat (value_stk_ptr d + 1) = unat (value_stk_ptr d) + 1"
    using lt unat_bound [of "value_count d"] by (subst unat_add_no_wrap) simp_all
  let ?P = "key_bits key (unat key_size)"
  have "descend (base d) 1 (key_bits key 0) = Some (unat root_index)"
    by (simp add: key_bits_def root_index_def)
  from find_leaf_spec [OF inv this _ ks] obtain n j where
    leaf: "find_leaf d key (unat key_size) 0 root_index = Inr (n, j)" "j \<le> unat key_size"
      "descend (base d) 1 (key_bits key j) = Some (unat n)" "j < unat key_size \<longrightarrow> nxt (base d) (unat n) = 0"
    by blast
  show ?thesis
  proof (cases "j = unat key_size")
    case full: True
    then have P: "descend (base d) 1 ?P = Some (unat n)" using leaf(3) by simp
    have ins: "dat_insert vsz d key key_size v = set_existing vsz d n v" by (simp add: dat_insert_def leaf(1) full)
    show ?thesis
    proof (cases "terminal (base d) (unat n)")
      case False
      from set_new_spec(2) [OF inv P False lt, where v = v and vsz = vsz] obtain w where
        "set_existing vsz d n v = Inr (0, with_value d (unat n) (value_stk_ptr d) (value_copy vsz w v))" by blast
      with ins with_value_inv [OF inv P False lt refl] v1 show ?thesis by (auto simp: with_value_def)
    next
      case True
      let ?i = "val_idx (base d) (unat n)"
      have nl: "unat n < length (base d)"
        using descend_in [OF _ dat_inv_room [OF inv] P] inv dat_inv_room [OF inv]
        by (force simp: dat_inv_def)
      note ov = overwrite_inv [OF inv P True]
      have "set_existing vsz d n v = Inr (0, d\<lparr>vals := (vals d)[?i := value_copy vsz (vals d ! ?i) v]\<rparr>)"
        using nl True ov(3) by (simp add: set_existing_def write_val_def value_copy_def)
      with ins ov(1,2) show ?thesis by auto
    qed
  next
    case False
    then have jl: "j < unat key_size" using leaf(2) by simp
    with leaf(4) have "nxt (base d) (unat n) = 0" by simp
    from extend_spec [OF inv leaf(3) this leaf(2) ks] obtain r d1 where
      ex: "extend d key (unat key_size) j n = Inr (r, d1)" "dat_inv d1" "dat_entry d1 = dat_entry d"
        "value_stk_ptr d1 = value_stk_ptr d" "value_count d1 = value_count d" "stk_size d1 = stk_size d"
        "unat (stk_ptr d1) \<le> unat (stk_ptr d) + (unat key_size - j)"
      and r: "case r of Inl ret \<Rightarrow> ret = - ENOMEM \<and> unat (stk_size d) < unat (stk_ptr d) + (unat key_size - j)
       | Inr m \<Rightarrow> descend (base d1) 1 ?P = Some (unat m)" by blast
    have ins: "dat_insert vsz d key key_size v =
        (case r of Inl ret \<Rightarrow> Inr (ret, d1) | Inr m \<Rightarrow> set_new vsz d1 m v)"
      using jl by (simp add: dat_insert_def leaf(1) ex(1))
    show ?thesis
    proof (cases r)
      case (Inl ret)
      with ins ex r show ?thesis by (auto simp: ENOMEM_def)
    next
      case (Inr m)
      with r have P: "descend (base d1) 1 ?P = Some (unat m)" by simp
      have lt1: "unat (value_stk_ptr d1) < unat (value_count d1)" using lt ex by simp
      show ?thesis
      proof (cases "terminal (base d1) (unat m)")
        case False
        from set_new_spec(1) [OF ex(2) P False lt1, where v = v and vsz = vsz] obtain w where
          "set_new vsz d1 m v = Inr (0, with_value d1 (unat m) (value_stk_ptr d1) (value_copy vsz w v))" by blast
        with ins Inr ex(3) with_value_inv [OF ex(2) P False lt1 refl] v1 ex(4-7) show ?thesis
          by (auto simp: with_value_def)
      next
        case True
        have "dat_entry d1 ?P \<noteq> None" using P True by (simp add: dat_entry_def)
        then have "dat_entry d ?P \<noteq> None" using ex(3) by simp
        then obtain q where "descend (base d) 1 ?P = Some q" by (auto simp: dat_entry_def split: option.splits)
        moreover obtain zs where "?P = key_bits key (Suc j) @ zs" using key_bits_prefix [OF Suc_leI [OF jl]] by blast
        ultimately have False using leaf(3,4) jl by (simp add: key_bits_Suc descend_append)
        then show ?thesis ..
      qed
    qed
  qed
qed

text \<open>C5. Insertion, while values are left: it returns without an access outside of the arrays and keeps
  the invariant. On success the map of bit strings changes at the inserted prefix only, to a copy
  of the value; without free nodes it fails and the map is unchanged.\<close>

theorem dat_insert_refines:
  assumes inv: "dat_inv d" and ks: "unat key_size \<le> DAT_KEY_SIZE_BIT"
    and lt: "unat (value_stk_ptr d) < unat (value_count d)"
  shows "\<exists>ret d'. dat_insert vsz d key key_size v = Inr (ret, d') \<and> dat_inv d'
    \<and> (if ret = 0
       then \<exists>w. dat_entry d' = (dat_entry d)(key_bits key (unat key_size) \<mapsto> value_copy vsz w v)
       else ret = - ENOMEM \<and> dat_entry d' = dat_entry d)"
  using dat_insert_spec [OF assms, of vsz key v] by blast

text \<open>When all values are in use, inserting a prefix that has no entry does not report that: unless
  the nodes run out first, it reads past the end of the stack of free values.\<close>

theorem dat_insert_values_exhausted:
  assumes inv: "dat_inv d" and ks: "unat key_size \<le> DAT_KEY_SIZE_BIT"
    and new: "dat_entry d (key_bits key (unat key_size)) = None"
    and full: "value_stk_ptr d = value_count d"
  shows "dat_insert vsz d key key_size v = Inl Out_of_bounds
    \<or> (\<exists>d'. dat_insert vsz d key key_size v = Inr (- ENOMEM, d'))"
proof -
  let ?P = "key_bits key (unat key_size)"
  have gv: "get_value d' = Inl Out_of_bounds" if "dat_inv d'" "value_stk_ptr d' = value_count d'" for d'
    using that by (simp add: get_value_def dat_inv_def dat_sizes_def read_at_def)
  have "descend (base d) 1 (key_bits key 0) = Some (unat root_index)"
    by (simp add: key_bits_def root_index_def)
  from find_leaf_spec [OF inv this _ ks] obtain n j where
    leaf: "find_leaf d key (unat key_size) 0 root_index = Inr (n, j)" "j \<le> unat key_size"
      "descend (base d) 1 (key_bits key j) = Some (unat n)" "j < unat key_size \<longrightarrow> nxt (base d) (unat n) = 0"
    by blast
  show ?thesis
  proof (cases "j = unat key_size")
    case True
    then have P: "descend (base d) 1 ?P = Some (unat n)" using leaf(3) by simp
    then have "unat n < length (base d)"
      using descend_in [OF _ dat_inv_room [OF inv] P] inv dat_inv_room [OF inv]
      by (force simp: dat_inv_def)
    moreover have "\<not> terminal (base d) (unat n)" using new P by (simp add: dat_entry_def split: if_splits)
    ultimately show ?thesis
      using gv [OF inv full] by (simp add: dat_insert_def leaf(1) True set_existing_def)
  next
    case False
    then have jl: "j < unat key_size" using leaf(2) by simp
    with leaf(4) have "nxt (base d) (unat n) = 0" by simp
    from extend_spec [OF inv leaf(3) this leaf(2) ks] obtain r d1 where
      ex: "extend d key (unat key_size) j n = Inr (r, d1)" "dat_inv d1"
        "value_stk_ptr d1 = value_stk_ptr d" "value_count d1 = value_count d"
      and r: "case r of Inl ret \<Rightarrow> ret = - ENOMEM \<and> unat (stk_size d) < unat (stk_ptr d) + (unat key_size - j)
        | Inr m \<Rightarrow> descend (base d1) 1 ?P = Some (unat m)" by blast
    have "value_stk_ptr d1 = value_count d1" using ex(3,4) full by simp
    with jl ex r gv [of d1] show ?thesis
      by (cases r) (auto simp: dat_insert_def leaf(1) set_new_def)
  qed
qed

lemma dat_alloc_fresh:
  assumes "max_ent AND 1 = 0" and "unat max_ent < 2 ^ 31" and "4 \<le> unat max_nod" and "unat max_nod < 2 ^ 31"
  shows "\<exists>d sz. userspace_arena_dat_alloc vsz max_ent max_nod = Inr (Inr (d, sz)) \<and> dat_inv d
    \<and> dat_entry d = Map.empty \<and> value_stk_ptr d = 0 \<and> value_count d = max_ent
    \<and> unat (stk_ptr d) = 1 \<and> unat (stk_size d) = unat max_nod div 2 - 1"
proof -
  define size where "size = unat max_nod"
  define d0 where "d0 = \<lparr>base = replicate size \<lparr>next_block = EMPTY, value_flag = 0\<rparr>,
                 vals = replicate (unat max_ent) (\<lambda>_. 0),
                 free_stk = map (\<lambda>i. of_nat (i * 2 + 2)) [0 ..< size div 2 - 1],
                 value_free_stk = map of_nat [0 ..< unat max_ent],
                 node_count = max_nod, value_count = max_ent, value_stk_ptr = 0,
                 stk_size = of_nat (size div 2 - 1), stk_ptr = 0\<rparr>"
  have s4: "4 \<le> size" using assms(3) by (simp add: size_def)
  have ss: "unat (of_nat (size div 2 - 1) :: u32) = size div 2 - 1"
    using assms(4) by (intro unat_of_nat_small) (simp add: size_def)
  have nt: "\<not> IS_TERMINAL 0" by (simp add: IS_TERMINAL_def)
  have inv0: "dat_inv d0"
    using s4 assms(2,4) ss unfolding dat_inv_def dat_sizes_def dat_tree_def
    by (simp add: d0_def size_def EMPTY_def nt)
  have root0: "descend (base d0) 1 [] = Some 1" "nxt (base d0) 1 = 0"
    using s4 by (simp_all add: d0_def EMPTY_def)
  have e0: "dat_entry d0 = Map.empty"
  proof
    fix zs
    show "dat_entry d0 zs = None"
      using root0(2) s4 nt by (cases zs) (simp_all add: dat_entry_def, simp add: d0_def)
  qed
  have "stk_ptr d0 < stk_size d0" using s4 ss by (simp add: d0_def word_less_nat_alt)
  from get_free_block_inv(2) [OF inv0 this] obtain f where
    f: "get_free_block d0 = Inr (f, d0\<lparr>stk_ptr := stk_ptr d0 + 1\<rparr>)"
      "unat f = 2 * unat (stk_ptr d0) + 2" "\<not> node_count d0 < f"
      "unat (stk_ptr d0 + 1) = unat (stk_ptr d0) + 1" by blast
  have "1 < length (base d0)" using s4 by (simp add: d0_def)
  then have "\<exists>sz. checked_bind (get_free_block d0) (\<lambda>(next_node, d).
             if node_count d < next_node then Inr (Inl (-1))
             else checked_bind (node_at d root_index) (\<lambda>e.
                    checked_bind (write_node d root_index (e\<lparr>next_block := next_node\<rparr>)) (\<lambda>d.
                      Inr (Inr (d, of_nat (64 + size * 8 + unat max_ent * vsz
                        + (size div 2 - 1) * 4 + unat max_ent * 4))))))
    = (Inr (Inr (linked d0 1 f, sz)) :: (int + dat \<times> u32) checked)"
    using f(3) by (simp add: f(1) root_index_def write_node_def linked_def node_at_def)
  then have "\<exists>sz. userspace_arena_dat_alloc vsz max_ent max_nod = Inr (Inr (linked d0 1 f, sz))"
    using assms(1) s4 unfolding userspace_arena_dat_alloc_def Let_def d0_def size_def by simp
  with linked_inv(1,2) [OF inv0 root0 \<open>stk_ptr d0 < stk_size d0\<close> f(2,4)] e0 show ?thesis
    using ss by (auto simp: linked_def d0_def size_def)
qed

text \<open>The allocation for an even number of values and at least four nodes succeeds and gives an
  empty map that satisfies the invariant, with all values free.\<close>

theorem dat_alloc_empty:
  assumes "max_ent AND 1 = 0" and "unat max_ent < 2 ^ 31" and "4 \<le> unat max_nod" and "unat max_nod < 2 ^ 31"
  shows "\<exists>d sz. userspace_arena_dat_alloc vsz max_ent max_nod = Inr (Inr (d, sz)) \<and> dat_inv d
    \<and> dat_entry d = Map.empty \<and> value_stk_ptr d = 0 \<and> value_count d = max_ent"
  using dat_alloc_fresh [OF assms, of vsz] by blast

theorem dat_alloc_empty_witness:
  "\<exists>d sz. userspace_arena_dat_alloc DAT_VAL_SIZE_BYTE 2 8 = Inr (Inr (d, sz)) \<and> dat_inv d"
  using dat_alloc_empty [of 2 8 DAT_VAL_SIZE_BYTE] by auto

lemma dat_ex: "\<exists>d. dat_inv d \<and> dat_entry d = Map.empty \<and> value_stk_ptr d = 0 \<and> value_count d = 2"
  using dat_alloc_fresh [of 2 8 0] by fastforce

lemma dat_ex_none: "\<exists>d. dat_inv d \<and> dat_entry d = Map.empty \<and> value_stk_ptr d = value_count d"
  using dat_alloc_fresh [of 0 8 0] by fastforce

text \<open>In a table for two values, an entry for the first eight bits is found for nine bits and more.\<close>

theorem dat_insert_refines_witness:
  "\<exists>d ret d'. dat_inv d \<and> dat_insert DAT_VAL_SIZE_BYTE d (\<lambda>_. 10) 8 (\<lambda>_. 7) = Inr (ret, d') \<and> dat_inv d'
     \<and> (ret = 0 \<longrightarrow> dat_entry d' (key_bits (\<lambda>_. 10) 8) \<noteq> None)"
proof -
  obtain d where d: "dat_inv d" "value_stk_ptr d = 0" "value_count d = 2" using dat_ex by blast
  have u8: "unat (8 :: u32) = 8" by simp
  from dat_insert_refines [of d 8 DAT_VAL_SIZE_BYTE "\<lambda>_. 10" "\<lambda>_. 7", unfolded u8] d
  obtain ret d' where "dat_insert DAT_VAL_SIZE_BYTE d (\<lambda>_. 10) 8 (\<lambda>_. 7) = Inr (ret, d')" "dat_inv d'"
    "if ret = 0 then \<exists>w. dat_entry d' = (dat_entry d)(key_bits (\<lambda>_. 10) 8 \<mapsto> value_copy DAT_VAL_SIZE_BYTE w (\<lambda>_. 7))
       else ret = - ENOMEM \<and> dat_entry d' = dat_entry d"
    by (auto simp: DAT_KEY_SIZE_BIT_def)
  then show ?thesis using d(1) by (intro exI [of _ d] exI [of _ ret] exI [of _ d']) auto
qed

theorem dat_lookup_longest_witness:
  "\<exists>d. dat_inv d \<and> dat_lookup d (\<lambda>_. 10) 128 = Inr None"
proof -
  obtain d where d: "dat_inv d" "dat_entry d = Map.empty" using dat_ex by blast
  from dat_lookup_longest [OF d(1), of "\<lambda>_. 10" 128] d(2) have "dat_lookup d (\<lambda>_. 10) 128 = Inr None"
    by (auto split: option.splits)
  with d(1) show ?thesis by blast
qed

theorem dat_insert_values_exhausted_witness:
  "\<exists>d. dat_inv d \<and> (dat_insert DAT_VAL_SIZE_BYTE d (\<lambda>_. 10) 1 (\<lambda>_. 7) = Inl Out_of_bounds
     \<or> (\<exists>d'. dat_insert DAT_VAL_SIZE_BYTE d (\<lambda>_. 10) 1 (\<lambda>_. 7) = Inr (- ENOMEM, d')))"
proof -
  obtain d where d: "dat_inv d" "dat_entry d = Map.empty" "value_stk_ptr d = value_count d"
    using dat_ex_none by blast
  with dat_insert_values_exhausted [of d 1 "\<lambda>_. 10" DAT_VAL_SIZE_BYTE "\<lambda>_. 7"] show ?thesis
    by (intro exI [of _ d]) (simp add: DAT_KEY_SIZE_BIT_def)
qed

theorem dat_stepped_lookup_witness:
  "\<forall>d. run_steps (dat_step 1 d) [\<lambda>_. 10] (replicate 129 0) [Inl dat_lookup_partial_init] ! 0
     = Inr (dat_lookup d (\<lambda>_. 10) 1)"
proof
  fix d
  have c: "count_list (replicate n 0) (0 :: nat) = n" for n by (induction n) auto
  have l: "0 < length [\<lambda>_ :: nat. 10 :: u8]" by simp
  from dat_stepped_lookup [OF l, of 1 d "replicate 129 0"]
  have "(128::nat) < 129 \<longrightarrow> run_steps (dat_step 1 d) [\<lambda>_. 10] (replicate 129 0)
      [Inl dat_lookup_partial_init] ! 0 = Inr (dat_lookup d (\<lambda>_. 10) 1)"
    unfolding Let_def c list.map nth_Cons_0 by (rule conjunct2)
  then show "run_steps (dat_step 1 d) [\<lambda>_. 10] (replicate 129 0) [Inl dat_lookup_partial_init] ! 0
     = Inr (dat_lookup d (\<lambda>_. 10) 1)" by (rule mp) simp
qed

end
