(* ===== verification/Treap.thy ===== *)
theory Treap
  imports Prelude "HOL-Library.Tree" "HOL-Library.Multiset"
begin

text \<open>
  The treap: \<open>libs/arena-ds/treap.h\<close>. A node pointer is an index into the node array (\<open>None\<close> is null),
  a link is the root pointer or a child field of a node. A key of four bytes is the number that
  the comparisons load. The compile-time bounds \<open>TREAP_MAX_SIZE\<close> and \<open>TREAP_MAX_HEIGHT\<close>, which the
  including program sets, are the parameters \<open>sz\<close> and \<open>H\<close>.
\<close>

record treap_node =
  key :: u32
  priority :: u32
  left :: "nat option"
  right :: "nat option"

record treap =
  root :: "nat option"
  nodes :: "nat \<Rightarrow> treap_node"
  used :: nat
  stack :: "nat \<Rightarrow> nat"

datatype link = RootL | LeftL nat | RightL nat

fun rd :: "treap \<Rightarrow> link \<Rightarrow> nat option" where
  "rd t RootL = root t"
| "rd t (LeftL i) = left (nodes t i)"
| "rd t (RightL i) = right (nodes t i)"

fun wr :: "treap \<Rightarrow> link \<Rightarrow> nat option \<Rightarrow> treap" where
  "wr t RootL p = t\<lparr>root := p\<rparr>"
| "wr t (LeftL i) p = t\<lparr>nodes := (nodes t)(i := (nodes t i)\<lparr>left := p\<rparr>)\<rparr>"
| "wr t (RightL i) p = t\<lparr>nodes := (nodes t)(i := (nodes t i)\<lparr>right := p\<rparr>)\<rparr>"

definition treap_key_less_than :: "u32 \<Rightarrow> u32 \<Rightarrow> bool" where
  "treap_key_less_than a b \<longleftrightarrow> a < b"

definition treap_key_eq :: "u32 \<Rightarrow> u32 \<Rightarrow> bool" where
  "treap_key_eq a b \<longleftrightarrow> a = b"

definition treap_key_cmp :: "u32 \<Rightarrow> u32 \<Rightarrow> int" where
  "treap_key_cmp a b = uint a - uint b"

definition treap_top :: "treap \<Rightarrow> nat option" where "treap_top t = root t"

text \<open>The counter is the number of turns of the bounded loop that are left.\<close>

fun find_loop :: "treap \<Rightarrow> u32 \<Rightarrow> nat \<Rightarrow> nat option \<Rightarrow> link \<Rightarrow> (nat \<times> link) option" where
  "find_loop t k 0 ptr link = None"
| "find_loop t k (Suc n) ptr link =
     (case ptr of
        None \<Rightarrow> None
      | Some i \<Rightarrow>
          let cmp = treap_key_cmp k (key (nodes t i)) in
          if cmp = 0 then Some (i, link)
          else if cmp < 0 then find_loop t k n (left (nodes t i)) (LeftL i)
          else find_loop t k n (right (nodes t i)) (RightL i))"

definition treap_find_raw :: "nat \<Rightarrow> treap \<Rightarrow> u32 \<Rightarrow> (nat \<times> link) option" where
  "treap_find_raw H t k = find_loop t k H (root t) RootL"

definition treap_find :: "nat \<Rightarrow> treap \<Rightarrow> u32 \<Rightarrow> nat option" where
  "treap_find H t k = map_option fst (treap_find_raw H t k)"

datatype rotate_dir = LEFT | RIGHT

definition get_parent_link :: "treap \<Rightarrow> nat \<Rightarrow> nat \<Rightarrow> link option" where
  "get_parent_link t p n =
     (if left (nodes t p) = Some n then Some (LeftL p)
      else if right (nodes t p) = Some n then Some (RightL p) else None)"

definition rotate :: "treap \<Rightarrow> link \<Rightarrow> rotate_dir \<Rightarrow> treap" where
  "rotate t link dir =
     (case rd t link of
        None \<Rightarrow> t
      | Some parent \<Rightarrow>
          (case dir of
             RIGHT \<Rightarrow>
               (case left (nodes t parent) of
                  None \<Rightarrow> t
                | Some child \<Rightarrow>
                    let t = wr t link (Some child);
                        left_right = right (nodes t child);
                        t = wr t (RightL child) (Some parent)
                    in wr t (LeftL parent) left_right)
           | LEFT \<Rightarrow>
               (case right (nodes t parent) of
                  None \<Rightarrow> t
                | Some child \<Rightarrow>
                    let t = wr t link (Some child);
                        right_left = left (nodes t child);
                        t = wr t (LeftL child) (Some parent)
                    in wr t (RightL parent) right_left)))"

definition treap_alloc_node :: "nat \<Rightarrow> treap \<Rightarrow> (nat \<times> treap) option" where
  "treap_alloc_node sz t =
     (if sz \<le> used t then None
      else let top_stack = sz - used t - 1;
               t = t\<lparr>used := used t + 1\<rparr>;
               index = stack t top_stack
           in Some (index, t\<lparr>nodes := (nodes t)(index := (nodes t index)\<lparr>left := None, right := None\<rparr>)\<rparr>))"

definition treap_free_node :: "nat \<Rightarrow> treap \<Rightarrow> nat \<Rightarrow> treap" where
  "treap_free_node sz t n =
     (if used t = 0 then t
      else let t = t\<lparr>used := used t - 1\<rparr>; top_stack = sz - used t - 1
           in t\<lparr>stack := (stack t)(top_stack := n)\<rparr>)"

text \<open>
  The descent of an insertion: the empty link and the path, nearest node first; \<open>None\<close> when the
  bounded height is used up.
\<close>

fun insert_walk :: "treap \<Rightarrow> u32 \<Rightarrow> nat \<Rightarrow> nat option \<Rightarrow> link \<Rightarrow> nat list \<Rightarrow> (link \<times> nat list) option" where
  "insert_walk t k 0 ptr link path = None"
| "insert_walk t k (Suc n) ptr link path =
     (case ptr of
        None \<Rightarrow> Some (link, path)
      | Some i \<Rightarrow>
          if treap_key_less_than k (key (nodes t i))
          then insert_walk t k n (left (nodes t i)) (LeftL i) (i # path)
          else insert_walk t k n (right (nodes t i)) (RightL i) (i # path))"

text \<open>
  The way back along the path. The path is shorter than the height bound, so the bound of this
  loop is never reached before the path ends.
\<close>

fun bubble_up :: "treap \<Rightarrow> nat \<Rightarrow> nat list \<Rightarrow> int \<times> treap" where
  "bubble_up t n [] = (0, t)"
| "bubble_up t n (p # ps) =
     (if priority (nodes t p) < priority (nodes t n)
      then case (case ps of [] \<Rightarrow> Some RootL | g # _ \<Rightarrow> get_parent_link t g p) of
             None \<Rightarrow> (-3, t)
           | Some grand_p_link \<Rightarrow>
               if left (nodes t p) = Some n then bubble_up (rotate t grand_p_link RIGHT) n ps
               else bubble_up (rotate t grand_p_link LEFT) n ps
      else bubble_up t n ps)"

definition treap_insert :: "nat \<Rightarrow> nat \<Rightarrow> treap \<Rightarrow> u32 \<Rightarrow> u32 \<Rightarrow> int \<times> treap" where
  "treap_insert sz H t k pri =
     (case treap_alloc_node sz t of
        None \<Rightarrow> (- ENOSPC, t)
      | Some (n, t) \<Rightarrow>
          let t = t\<lparr>nodes := (nodes t)(n := (nodes t n)\<lparr>key := k, priority := pri\<rparr>)\<rparr>
          in case insert_walk t k H (root t) RootL [] of
               None \<Rightarrow> (-2, treap_free_node sz t n)
             | Some (link, path) \<Rightarrow> bubble_up (wr t link (Some n)) n path)"

fun succ_loop :: "treap \<Rightarrow> nat \<Rightarrow> nat \<Rightarrow> link \<Rightarrow> (nat \<times> link) option" where
  "succ_loop t 0 leaf link = None"
| "succ_loop t (Suc n) leaf link =
     (case left (nodes t leaf) of
        None \<Rightarrow> Some (leaf, link)
      | Some l \<Rightarrow> succ_loop t n l (LeftL leaf))"

definition get_immediate_succesor :: "nat \<Rightarrow> treap \<Rightarrow> nat \<Rightarrow> (nat \<times> link) option" where
  "get_immediate_succesor H t n =
     (case right (nodes t n) of
        None \<Rightarrow> None
      | Some leaf \<Rightarrow> succ_loop t H leaf (RightL n))"

definition child_link :: "treap \<Rightarrow> link \<Rightarrow> rotate_dir \<Rightarrow> link" where
  "child_link t link dir =
     (case rd t link of
        None \<Rightarrow> link
      | Some x \<Rightarrow> (case dir of LEFT \<Rightarrow> LeftL x | RIGHT \<Rightarrow> RightL x))"

fun fix_down :: "treap \<Rightarrow> nat \<Rightarrow> nat \<Rightarrow> link \<Rightarrow> int \<times> treap" where
  "fix_down t 0 ptr link = (-1, t)"
| "fix_down t (Suc n) ptr link =
     (let p = priority (nodes t ptr);
          go = (\<lambda>dir. let t = rotate t link dir in fix_down t n ptr (child_link t link dir))
      in case left (nodes t ptr) of
           None \<Rightarrow>
             (case right (nodes t ptr) of
                None \<Rightarrow> (0, t)
              | Some r \<Rightarrow> if priority (nodes t r) \<le> p then (0, t) else go LEFT)
         | Some l \<Rightarrow>
             (case right (nodes t ptr) of
                None \<Rightarrow> if priority (nodes t l) \<le> p then (0, t) else go RIGHT
              | Some r \<Rightarrow>
                  if priority (nodes t l) \<le> p
                  then if priority (nodes t r) \<le> p then (0, t) else go LEFT
                  else if priority (nodes t l) \<le> priority (nodes t r) then go LEFT else go RIGHT))"

text \<open>The removal of the node \<open>n\<close> that \<open>link\<close> points to, up to the freeing of the node.\<close>

definition unlink_node :: "nat \<Rightarrow> treap \<Rightarrow> nat \<Rightarrow> link \<Rightarrow> int \<times> treap" where
  "unlink_node H t n link =
     (if left (nodes t n) = None then (0, wr t link (right (nodes t n)))
      else if right (nodes t n) = None then (0, wr t link (left (nodes t n)))
      else
        case get_immediate_succesor H t n of
          None \<Rightarrow> (-2, t)
        | Some (leaf, leaf_link) \<Rightarrow>
            let t = wr t leaf_link (right (nodes t leaf));
                t = wr t (RightL leaf) (right (nodes t n));
                t = wr t (LeftL leaf) (left (nodes t n));
                t = wr t link (Some leaf);
                (ret, t) = fix_down t H leaf link
            in (if ret \<noteq> 0 then -3 else 0, t))"

definition treap_delete :: "nat \<Rightarrow> nat \<Rightarrow> treap \<Rightarrow> u32 \<Rightarrow> int \<times> treap" where
  "treap_delete sz H t k =
     (case treap_find_raw H t k of
        None \<Rightarrow> (-1, t)
      | Some (n, link) \<Rightarrow>
          let (ret, t) = unlink_node H t n link
          in if ret \<noteq> 0 then (ret, t) else (0, treap_free_node sz t n))"

definition treap_has_space :: "nat \<Rightarrow> treap \<Rightarrow> bool" where
  "treap_has_space sz t \<longleftrightarrow> used t < sz"

definition treap_reset :: "nat \<Rightarrow> treap \<Rightarrow> treap" where
  "treap_reset sz t =
     t\<lparr>root := None, used := 0, stack := (\<lambda>i. if i < sz then sz - i - 1 else stack t i)\<rparr>"

text \<open>Allocation in user space: the area is zero, the sizes must be the compiled-in ones.\<close>

definition userspace_arena_treap_alloc :: "nat \<Rightarrow> nat \<Rightarrow> u32 \<Rightarrow> u32 \<Rightarrow> u32 \<Rightarrow> int + treap" where
  "userspace_arena_treap_alloc sz H key_size max_entries max_height =
     (if unat key_size \<noteq> 4 \<or> unat max_entries \<noteq> sz \<or> unat max_height \<noteq> H then Inl (- EINVAL)
      else Inr \<lparr>root = None,
                nodes = (\<lambda>_. \<lparr>key = 0, priority = 0, left = None, right = None\<rparr>),
                used = 0, stack = (\<lambda>i. if i < sz then sz - i - 1 else 0)\<rparr>)"

subsection \<open>Trees in memory\<close>

text \<open>
  \<open>repr t p T\<close>: the pointer \<open>p\<close> is the root of the tree \<open>T\<close> of node indices. A context is the
  path from a hole up to the root: per node its index, whether the hole is on its left, and the
  other subtree.
\<close>

fun repr :: "treap \<Rightarrow> nat option \<Rightarrow> nat tree \<Rightarrow> bool" where
  "repr t p Leaf \<longleftrightarrow> p = None"
| "repr t p (Node l i r) \<longleftrightarrow> p = Some i \<and> repr t (left (nodes t i)) l \<and> repr t (right (nodes t i)) r"

type_synonym ctx = "(nat \<times> bool \<times> nat tree) list"

fun plug :: "ctx \<Rightarrow> nat tree \<Rightarrow> nat tree" where
  "plug [] T = T"
| "plug ((i, d, s) # c) T = plug c (if d then Node T i s else Node s i T)"

fun link_of :: "ctx \<Rightarrow> link" where
  "link_of [] = RootL"
| "link_of ((i, d, s) # c) = (if d then LeftL i else RightL i)"

fun in_ctx :: "treap \<Rightarrow> ctx \<Rightarrow> nat option \<Rightarrow> bool" where
  "in_ctx t [] q \<longleftrightarrow> root t = q"
| "in_ctx t ((i, d, s) # c) q \<longleftrightarrow>
     (if d then left (nodes t i) = q \<and> repr t (right (nodes t i)) s
      else right (nodes t i) = q \<and> repr t (left (nodes t i)) s) \<and> in_ctx t c (Some i)"

fun ctx_set :: "ctx \<Rightarrow> nat set" where
  "ctx_set [] = {}"
| "ctx_set ((i, d, s) # c) = insert i (set_tree s \<union> ctx_set c)"

fun before :: "ctx \<Rightarrow> nat list" where
  "before [] = []"
| "before ((i, d, s) # c) = (if d then before c else before c @ inorder s @ [i])"

fun after :: "ctx \<Rightarrow> nat list" where
  "after [] = []"
| "after ((i, d, s) # c) = (if d then i # inorder s @ after c else after c)"

lemma inorder_plug: "inorder (plug c T) = before c @ inorder T @ after c"
  by (induction c T rule: plug.induct) auto

lemma set_tree_plug: "set_tree (plug c T) = set_tree T \<union> ctx_set c"
  by (induction c T rule: plug.induct) auto

lemma repr_plug: "repr t (root t) (plug c T) \<longleftrightarrow> (\<exists>q. in_ctx t c q \<and> repr t q T)"
  by (induction c T rule: plug.induct) auto

lemma in_ctx_link: "in_ctx t c q \<Longrightarrow> rd t (link_of c) = q"
  by (cases "(t, c, q)" rule: in_ctx.cases) auto

text \<open>Only the child fields of the nodes of a tree matter.\<close>

abbreviation same_links :: "treap \<Rightarrow> treap \<Rightarrow> nat set \<Rightarrow> bool" where
  "same_links t t' A \<equiv> \<forall>i \<in> A. left (nodes t' i) = left (nodes t i) \<and> right (nodes t' i) = right (nodes t i)"

lemma repr_frame: "same_links t t' (set_tree T) \<Longrightarrow> repr t' p T = repr t p T"
  by (induction T arbitrary: p) auto

lemma in_ctx_frame:
  "same_links t t' (ctx_set c) \<Longrightarrow> root t' = root t \<Longrightarrow> in_ctx t' c q = in_ctx t c q"
proof (induction t c q rule: in_ctx.induct)
  case (2 t i d s c q)
  then have "repr t' p s = repr t p s" for p by (intro repr_frame) auto
  with 2 show ?case by auto
qed simp

text \<open>A distinct plugged tree gives a hole apart from its context.\<close>

lemma distinct_plug:
  assumes "distinct (inorder (plug c T))"
  shows "distinct (inorder T)" and "set_tree T \<inter> ctx_set c = {}" and "distinct (before c @ after c)"
proof -
  have cs: "ctx_set c = set (before c) \<union> set (after c)"
    by (induction c rule: ctx_set.induct) auto
  show "distinct (inorder T)" "set_tree T \<inter> ctx_set c = {}" "distinct (before c @ after c)"
    using assms unfolding inorder_plug cs by (auto simp flip: set_inorder)
qed

lemma ctx_set_lists: "ctx_set c = set (before c) \<union> set (after c)"
  by (induction c rule: ctx_set.induct) auto

lemma in_ctx_write:
  assumes "in_ctx t c q" and "distinct (before c @ after c)"
  shows "in_ctx (wr t (link_of c) p) c p"
proof (cases c)
  case (Cons x c')
  obtain i d s where x: "x = (i, d, s)" by (cases x)
  have "i \<notin> set_tree s" "i \<notin> ctx_set c'"
    using assms(2) unfolding Cons x ctx_set_lists by (auto split: if_splits)
  then have "repr (wr t (link_of c) p) r s = repr t r s"
    "in_ctx (wr t (link_of c) p) c' r = in_ctx t c' r" for r
    by (auto intro!: repr_frame in_ctx_frame simp: Cons x)
  then show ?thesis using assms(1) unfolding Cons x by (cases d) simp_all
qed simp

lemma wr_fields [simp]:
  "key (nodes (wr t l p) i) = key (nodes t i)" "priority (nodes (wr t l p) i) = priority (nodes t i)"
  "used (wr t l p) = used t" "stack (wr t l p) = stack t"
  by (cases l; simp)+

lemma wr_other:
  "l \<noteq> LeftL i \<Longrightarrow> left (nodes (wr t l p) i) = left (nodes t i)"
  "l \<noteq> RightL i \<Longrightarrow> right (nodes (wr t l p) i) = right (nodes t i)"
  "l \<noteq> RootL \<Longrightarrow> root (wr t l p) = root t"
  "rd (wr t l p) l = p"
  by (cases l; auto)+

lemma link_of_mem: "link_of c = LeftL i \<or> link_of c = RightL i \<Longrightarrow> i \<in> ctx_set c"
  by (cases c rule: link_of.cases) (auto split: if_splits)

text \<open>Plugging another tree at the link of a context, with changes to links outside of the context.\<close>

lemma plug_write:
  assumes "repr t (root t) (plug c T)" and "distinct (inorder (plug c T))"
    and "same_links (wr t (link_of c) p) t' (ctx_set c)" and "root t' = root (wr t (link_of c) p)"
    and "repr t' p T'"
  shows "repr t' (root t') (plug c T')"
proof -
  obtain q where "in_ctx t c q" using assms(1) by (auto simp: repr_plug)
  then have "in_ctx (wr t (link_of c) p) c p"
    by (rule in_ctx_write) (rule distinct_plug [OF assms(2)])
  then have "in_ctx t' c p" using in_ctx_frame [OF assms(3,4)] by simp
  with assms(5) show ?thesis by (auto simp: repr_plug)
qed

abbreviation same_rest :: "treap \<Rightarrow> treap \<Rightarrow> bool" where
  "same_rest t t' \<equiv> (\<forall>i. key (nodes t' i) = key (nodes t i) \<and> priority (nodes t' i) = priority (nodes t i))
     \<and> used t' = used t \<and> stack t' = stack t"

lemma same_rest_rotate: "same_rest t (rotate t l d)"
  by (auto simp: rotate_def Let_def split: option.splits rotate_dir.splits)

lemma hole_repr:
  "repr t (root t) (plug c T) \<Longrightarrow> repr t (rd t (link_of c)) T"
  by (auto simp: repr_plug dest: in_ctx_link)

lemma rotate_right:
  assumes r: "repr t (root t) (plug c (Node (Node a x b) y d))"
    and dis: "distinct (inorder (plug c (Node (Node a x b) y d)))"
  shows "repr (rotate t (link_of c) RIGHT) (root (rotate t (link_of c) RIGHT)) (plug c (Node a x (Node b y d)))"
    and "rd (rotate t (link_of c) RIGHT) (link_of c) = Some x"
proof -
  let ?l = "link_of c"
  let ?t' = "rotate t ?l RIGHT"
  have h: "rd t ?l = Some y" "left (nodes t y) = Some x" "repr t (right (nodes t y)) d"
    "repr t (left (nodes t x)) a" "repr t (right (nodes t x)) b"
    using hole_repr [OF r] by auto
  have xy: "x \<noteq> y" "x \<notin> ctx_set c" "y \<notin> ctx_set c" "x \<notin> set_tree a" "x \<notin> set_tree b" "x \<notin> set_tree d"
    "y \<notin> set_tree a" "y \<notin> set_tree b" "y \<notin> set_tree d"
    "ctx_set c \<inter> set_tree a = {}" "ctx_set c \<inter> set_tree b = {}" "ctx_set c \<inter> set_tree d = {}"
    using distinct_plug [OF dis] by auto
  have nl: "?l \<noteq> LeftL i" "?l \<noteq> RightL i" if "i \<notin> ctx_set c" for i using link_of_mem that by metis+
  have other: "left (nodes (wr t ?l p) i) = left (nodes t i)"
    "right (nodes (wr t ?l p) i) = right (nodes t i)" if "i \<notin> ctx_set c" for i p
    using nl [OF that] by (simp_all add: wr_other)
  have t': "?t' = wr (wr (wr t ?l (Some x)) (RightL x) (Some y)) (LeftL y) (right (nodes t x))"
    using h xy by (simp add: rotate_def Let_def wr_other nl)
  have nodes': "left (nodes ?t' i) = (if i = y then right (nodes t x) else left (nodes (wr t ?l (Some x)) i))"
    "right (nodes ?t' i) = (if i = x then Some y else right (nodes (wr t ?l (Some x)) i))" for i
    using xy(1) by (simp_all add: t')
  have same: "same_links t ?t' A" if "A \<inter> ctx_set c = {}" "x \<notin> A" "y \<notin> A" for A
    using that other by (auto simp: nodes' disjoint_iff)
  have "repr ?t' (Some x) (Node a x (Node b y d))"
    using h xy by (simp add: nodes' wr_other nl) (intro conjI, (subst repr_frame, rule same, auto)+)
  moreover have "same_links (wr t ?l (Some x)) ?t' (ctx_set c)" using xy by (auto simp: nodes')
  moreover have "root ?t' = root (wr t ?l (Some x))" by (simp add: t')
  ultimately show "repr ?t' (root ?t') (plug c (Node a x (Node b y d)))"
    by (intro plug_write [OF r dis])
  from hole_repr [OF this] show "rd ?t' ?l = Some x" by simp
qed

lemma rotate_left:
  assumes r: "repr t (root t) (plug c (Node a x (Node b y d)))"
    and dis: "distinct (inorder (plug c (Node a x (Node b y d))))"
  shows "repr (rotate t (link_of c) LEFT) (root (rotate t (link_of c) LEFT)) (plug c (Node (Node a x b) y d))"
    and "rd (rotate t (link_of c) LEFT) (link_of c) = Some y"
proof -
  let ?l = "link_of c"
  let ?t' = "rotate t ?l LEFT"
  have h: "rd t ?l = Some x" "right (nodes t x) = Some y" "repr t (left (nodes t x)) a"
    "repr t (left (nodes t y)) b" "repr t (right (nodes t y)) d"
    using hole_repr [OF r] by auto
  have xy: "x \<noteq> y" "x \<notin> ctx_set c" "y \<notin> ctx_set c" "x \<notin> set_tree a" "x \<notin> set_tree b" "x \<notin> set_tree d"
    "y \<notin> set_tree a" "y \<notin> set_tree b" "y \<notin> set_tree d"
    "ctx_set c \<inter> set_tree a = {}" "ctx_set c \<inter> set_tree b = {}" "ctx_set c \<inter> set_tree d = {}"
    using distinct_plug [OF dis] by auto
  have nl: "?l \<noteq> LeftL i" "?l \<noteq> RightL i" if "i \<notin> ctx_set c" for i using link_of_mem that by metis+
  have other: "left (nodes (wr t ?l p) i) = left (nodes t i)"
    "right (nodes (wr t ?l p) i) = right (nodes t i)" if "i \<notin> ctx_set c" for i p
    using nl [OF that] by (simp_all add: wr_other)
  have t': "?t' = wr (wr (wr t ?l (Some y)) (LeftL y) (Some x)) (RightL x) (left (nodes t y))"
    using h xy by (simp add: rotate_def Let_def wr_other nl)
  have nodes': "left (nodes ?t' i) = (if i = y then Some x else left (nodes (wr t ?l (Some y)) i))"
    "right (nodes ?t' i) = (if i = x then left (nodes t y) else right (nodes (wr t ?l (Some y)) i))" for i
    using xy(1) by (simp_all add: t')
  have same: "same_links t ?t' A" if "A \<inter> ctx_set c = {}" "x \<notin> A" "y \<notin> A" for A
    using that other by (auto simp: nodes' disjoint_iff)
  have "repr ?t' (Some y) (Node (Node a x b) y d)"
    using h xy by (simp add: nodes' wr_other nl) (intro conjI, (subst repr_frame, rule same, auto)+)
  moreover have "same_links (wr t ?l (Some y)) ?t' (ctx_set c)" using xy by (auto simp: nodes')
  moreover have "root ?t' = root (wr t ?l (Some y))" by (simp add: t')
  ultimately show "repr ?t' (root ?t') (plug c (Node (Node a x b) y d))"
    by (intro plug_write [OF r dis])
  from hole_repr [OF this] show "rd ?t' ?l = Some y" by simp
qed

subsection \<open>Heap order and search order\<close>

fun heap_ord :: "(nat \<Rightarrow> u32) \<Rightarrow> nat tree \<Rightarrow> bool" where
  "heap_ord P Leaf \<longleftrightarrow> True"
| "heap_ord P (Node l i r) \<longleftrightarrow> heap_ord P l \<and> heap_ord P r \<and> (\<forall>j \<in> set_tree l \<union> set_tree r. P j \<le> P i)"

abbreviation spine :: "ctx \<Rightarrow> nat set" where "spine c \<equiv> fst ` set c"

fun heap_ctx :: "(nat \<Rightarrow> u32) \<Rightarrow> ctx \<Rightarrow> bool" where
  "heap_ctx P [] \<longleftrightarrow> True"
| "heap_ctx P ((i, d, s) # c) \<longleftrightarrow> heap_ord P s \<and> (\<forall>j \<in> set_tree s. P j \<le> P i)
     \<and> (\<forall>j \<in> insert i (set_tree s). \<forall>m \<in> spine c. P j \<le> P m) \<and> heap_ctx P c"

lemma heap_plug: "heap_ord P (plug c T) \<longleftrightarrow>
    heap_ord P T \<and> heap_ctx P c \<and> (\<forall>j \<in> set_tree T. \<forall>m \<in> spine c. P j \<le> P m)"
  by (induction c T rule: plug.induct) auto

abbreviation pri :: "treap \<Rightarrow> nat \<Rightarrow> u32" where "pri t \<equiv> \<lambda>i. priority (nodes t i)"
abbreviation keyf :: "treap \<Rightarrow> nat \<Rightarrow> u32" where "keyf t \<equiv> \<lambda>i. key (nodes t i)"

lemma not_child:
  assumes "repr t p s" and "n \<notin> set_tree s"
  shows "p \<noteq> Some n"
  using assms by (cases s) auto

lemma parent_link:
  assumes "in_ctx t ((g, d, s) # c) (Some p)" and "p \<notin> set_tree s"
  shows "get_parent_link t g p = Some (link_of ((g, d, s) # c))"
  using assms by (auto simp: get_parent_link_def dest: not_child split: if_splits)

lemma bubble_stop:
  "\<forall>p \<in> set ps. pri t n \<le> pri t p \<Longrightarrow> bubble_up t n ps = (0, t)"
  by (induction ps) (auto simp: not_less [symmetric])

lemma bubble_spec:
  assumes "repr t (root t) (plug c (Node a n b))" and "distinct (inorder (plug c (Node a n b)))"
    and "heap_ord (pri t) (Node a n b)" and "heap_ctx (pri t) c"
    and "\<forall>j \<in> set_tree a \<union> set_tree b. \<forall>m \<in> spine c. pri t j \<le> pri t m"
  shows "\<exists>t' T'. bubble_up t n (map fst c) = (0, t') \<and> repr t' (root t') T'
    \<and> inorder T' = inorder (plug c (Node a n b)) \<and> heap_ord (pri t) T' \<and> same_rest t t'"
  using assms
proof (induction c arbitrary: t a b)
  case Nil
  then show ?case by (intro exI [of _ t] exI [of _ "Node a n b"]) auto
next
  case (Cons x c)
  obtain p d s where x: "x = (p, d, s)" by (cases x)
  let ?T = "Node a n b"
  have disT: "distinct (inorder ?T)" "set_tree ?T \<inter> ctx_set (x # c) = {}" "distinct (before (x # c) @ after (x # c))"
    using distinct_plug [OF Cons.prems(2)] by auto
  show ?case
  proof (cases "pri t p < pri t n")
    case False
    then have "pri t n \<le> pri t p" by simp
    then have le: "\<forall>m \<in> spine (x # c). pri t n \<le> pri t m"
      using Cons.prems(4) unfolding x by (auto intro: order_trans)
    then have "bubble_up t n (map fst (x # c)) = (0, t)" by (intro bubble_stop) auto
    moreover have "heap_ord (pri t) (plug (x # c) ?T)"
      using Cons.prems(3-5) le unfolding heap_plug by auto
    ultimately show ?thesis using Cons.prems(1) by blast
  next
    case True
    let ?link = "link_of c"
    obtain q where q: "in_ctx t (x # c) q" "repr t q ?T" using Cons.prems(1) by (auto simp: repr_plug)
    then have qn: "q = Some n" by simp
    have ps: "p \<notin> ctx_set c" "n \<notin> set_tree s" "p \<noteq> n"
      using disT unfolding x ctx_set_lists by (auto split: if_splits)
    have link: "(case map fst c of [] \<Rightarrow> Some RootL | g # _ \<Rightarrow> get_parent_link t g p) = Some ?link"
    proof (cases c)
      case (Cons y c')
      obtain g e u where y: "y = (g, e, u)" by (cases y)
      have "in_ctx t ((g, e, u) # c') (Some p)" using q(1) unfolding x Cons y by simp
      moreover have "p \<notin> set_tree u" using ps(1) unfolding Cons y by simp
      ultimately show ?thesis unfolding Cons y by (simp only: list.map list.case fst_conv) (rule parent_link)
    qed simp
    show ?thesis
    proof (cases d)
      case d: True
      let ?t' = "rotate t ?link RIGHT" and ?T' = "Node a n (Node b p s)"
      have lp: "left (nodes t p) = Some n" using q(1) qn d unfolding x by simp
      have r: "repr t (root t) (plug c (Node (Node a n b) p s))"
        and dd: "distinct (inorder (plug c (Node (Node a n b) p s)))"
        using Cons.prems(1,2) d unfolding x by simp_all
      have same: "same_rest t ?t'" by (rule same_rest_rotate)
      have io: "inorder (plug c ?T') = inorder (plug (x # c) ?T)"
        using d by (simp add: inorder_plug x)
      have "heap_ord (pri t) ?T'" using Cons.prems(3-5) True unfolding x
        by (auto intro: order_trans less_imp_le)
      moreover have "heap_ctx (pri t) c" using Cons.prems(4) unfolding x by simp
      moreover have "\<forall>j \<in> set_tree a \<union> set_tree (Node b p s). \<forall>m \<in> spine c. pri t j \<le> pri t m"
        using Cons.prems(4,5) unfolding x by auto
      ultimately have "\<exists>t'' T''. bubble_up ?t' n (map fst c) = (0, t'') \<and> repr t'' (root t'') T''
          \<and> inorder T'' = inorder (plug c ?T') \<and> heap_ord (pri t) T'' \<and> same_rest ?t' t''"
        using Cons.IH [OF rotate_right(1) [OF r dd]] dd same by (simp add: inorder_plug)
      moreover have "bubble_up t n (map fst (x # c)) = bubble_up ?t' n (map fst c)"
        using True lp link by (simp add: x)
      ultimately show ?thesis using same io by auto
    next
      case d: False
      let ?t' = "rotate t ?link LEFT" and ?T' = "Node (Node s p a) n b"
      have lp: "left (nodes t p) \<noteq> Some n" using q(1) not_child ps(2) d unfolding x by auto
      have r: "repr t (root t) (plug c (Node s p (Node a n b)))"
        and dd: "distinct (inorder (plug c (Node s p (Node a n b))))"
        using Cons.prems(1,2) d unfolding x by simp_all
      have same: "same_rest t ?t'" by (rule same_rest_rotate)
      have io: "inorder (plug c ?T') = inorder (plug (x # c) ?T)"
        using d by (simp add: inorder_plug x)
      have "heap_ord (pri t) ?T'" using Cons.prems(3-5) True d unfolding x
        by (auto intro: order_trans less_imp_le)
      moreover have "heap_ctx (pri t) c" using Cons.prems(4) unfolding x by simp
      moreover have "\<forall>j \<in> set_tree (Node s p a) \<union> set_tree b. \<forall>m \<in> spine c. pri t j \<le> pri t m"
        using Cons.prems(4,5) unfolding x by auto
      ultimately have "\<exists>t'' T''. bubble_up ?t' n (map fst c) = (0, t'') \<and> repr t'' (root t'') T''
          \<and> inorder T'' = inorder (plug c ?T') \<and> heap_ord (pri t) T'' \<and> same_rest ?t' t''"
        using Cons.IH [OF rotate_left(1) [OF r dd]] dd same by (simp add: inorder_plug)
      moreover have "bubble_up t n (map fst (x # c)) = bubble_up ?t' n (map fst c)"
        using True lp link by (simp add: x)
      ultimately show ?thesis using same io by auto
    qed
  qed
qed

subsection \<open>The invariant and insertion\<close>

definition free_list :: "nat \<Rightarrow> treap \<Rightarrow> nat list" where
  "free_list sz t = map (stack t) [0 ..< sz - used t]"

definition treap_inv :: "nat \<Rightarrow> treap \<Rightarrow> nat tree \<Rightarrow> bool" where
  "treap_inv sz t T \<longleftrightarrow> repr t (root t) T \<and> used t = size T \<and> used t \<le> sz
     \<and> distinct (free_list sz t @ inorder T) \<and> (\<forall>i \<in> set (free_list sz t) \<union> set_tree T. i < sz)
     \<and> sorted (map (keyf t) (inorder T)) \<and> heap_ord (pri t) T"

text \<open>What the treap holds: the keys with their priorities.\<close>

definition content :: "treap \<Rightarrow> nat tree \<Rightarrow> (u32 \<times> u32) multiset" where
  "content t T = image_mset (\<lambda>i. (key (nodes t i), priority (nodes t i))) (mset (inorder T))"

lemma insert_walk_spec:
  assumes "repr t ptr T" and "link = link_of c" and "path = map fst c"
    and "sorted (map (keyf t) (inorder T))"
    and "\<forall>i \<in> set (before c). keyf t i \<le> k" and "\<forall>i \<in> set (after c). k < keyf t i"
  shows "case insert_walk t k n ptr link path of
      None \<Rightarrow> n \<le> height T
    | Some (link', path') \<Rightarrow> \<exists>c'. link' = link_of c' \<and> path' = map fst c' \<and> plug c' Leaf = plug c T
        \<and> (\<forall>i \<in> set (before c'). keyf t i \<le> k) \<and> (\<forall>i \<in> set (after c'). k < keyf t i)"
  using assms
proof (induction n arbitrary: ptr T link path c)
  case (Suc n)
  show ?case
  proof (cases T)
    case Leaf
    with Suc.prems show ?thesis by auto
  next
    case (Node l i r)
    have ptr: "ptr = Some i" "repr t (left (nodes t i)) l" "repr t (right (nodes t i)) r"
      using Suc.prems(1) Node by auto
    have st: "sorted (map (keyf t) (inorder l))" "sorted (map (keyf t) (inorder r))"
      "\<forall>j \<in> set_tree l. keyf t j \<le> keyf t i" "\<forall>j \<in> set_tree r. keyf t i \<le> keyf t j"
      using Suc.prems(4) by (auto simp: Node sorted_append)
    show ?thesis
    proof (cases "k < keyf t i")
      case True
      have "\<forall>j \<in> set (after ((i, True, r) # c)). k < keyf t j"
        using Suc.prems(6) st(4) True by (auto intro: less_le_trans)
      from Suc.IH [OF ptr(2) refl refl st(1), of "(i, True, r) # c"] this Suc.prems(5)
      show ?thesis using Suc.prems(2,3) True ptr(1) Node
        by (auto simp: treap_key_less_than_def split: option.splits)
    next
      case False
      have "\<forall>j \<in> set (before ((i, False, l) # c)). keyf t j \<le> k"
        using Suc.prems(5) st(3) False by (auto intro: order_trans)
      from Suc.IH [OF ptr(3) refl refl st(2), of "(i, False, l) # c"] this Suc.prems(6)
      show ?thesis using Suc.prems(2,3) False ptr(1) Node
        by (auto simp: treap_key_less_than_def split: option.splits)
    qed
  qed
qed simp

lemma alloc_node_spec:
  assumes inv: "treap_inv sz t T" and lt: "used t < sz"
  obtains n t' where "treap_alloc_node sz t = Some (n, t')" and "n \<notin> set_tree T" and "n < sz"
    and "n \<notin> set (free_list sz t')" and "set (free_list sz t') \<subseteq> set (free_list sz t)"
    and "distinct (free_list sz t')" and "used t' = used t + 1" and "root t' = root t"
    and "left (nodes t' n) = None" and "right (nodes t' n) = None"
    and "\<And>i. i \<noteq> n \<Longrightarrow> nodes t' i = nodes t i" and "stack t' = stack t"
    and "n = stack t (sz - used t')"
proof -
  define m where "m = sz - used t - 1"
  have sz: "sz - used t = Suc m" using lt by (simp add: m_def)
  then have fl: "free_list sz t = map (stack t) [0 ..< m] @ [stack t m]" by (simp add: free_list_def)
  define t' where "t' = t\<lparr>used := used t + 1, nodes := (nodes t)(stack t m :=
      (nodes t (stack t m))\<lparr>left := None, right := None\<rparr>)\<rparr>"
  have "sz - used t' = m" using sz by (simp add: t'_def)
  then have fl': "free_list sz t' = map (stack t) [0 ..< m]" by (simp add: free_list_def t'_def)
  have mem: "stack t m \<in> set (free_list sz t)" by (simp add: fl)
  have dis: "distinct (free_list sz t @ inorder T)" and small: "\<forall>i \<in> set (free_list sz t). i < sz"
    using inv by (auto simp: treap_inv_def)
  show thesis
  proof (rule that)
    show "treap_alloc_node sz t = Some (stack t m, t')"
      using lt by (simp add: treap_alloc_node_def Let_def t'_def m_def)
    show "stack t m \<notin> set_tree T" using dis mem by auto
    show "stack t m < sz" using small mem by blast
    show "stack t m \<notin> set (free_list sz t')" "distinct (free_list sz t')"
      using dis unfolding fl fl' by auto
    show "set (free_list sz t') \<subseteq> set (free_list sz t)" unfolding fl fl' by auto
    show "stack t m = stack t (sz - used t')" by (simp add: \<open>sz - used t' = m\<close>)
  qed (simp_all add: t'_def)
qed

lemma repr_nodes:
  assumes "\<And>i. i \<in> set_tree T \<Longrightarrow> left (nodes t' i) = left (nodes t i) \<and> right (nodes t' i) = right (nodes t i)"
  shows "repr t' p T = repr t p T"
  using assms by (intro repr_frame) auto

lemma heap_ord_cong: "(\<And>i. i \<in> set_tree T \<Longrightarrow> P i = Q i) \<Longrightarrow> heap_ord P T = heap_ord Q T"
  by (induction T) auto

lemma content_cong:
  assumes "inorder T' = inorder T" and "\<And>i. i \<in> set_tree T \<Longrightarrow> keyf t' i = keyf t i \<and> pri t' i = pri t i"
  shows "content t' T' = content t T"
  unfolding content_def assms(1) by (rule image_mset_cong) (use assms(2) in auto)

text \<open>The tree in memory after an index outside of it has been written.\<close>

lemma inv_parts_frame:
  assumes inv: "treap_inv sz t T" and root: "root t' = root t"
    and same: "\<And>i. i \<in> set_tree T \<Longrightarrow> nodes t' i = nodes t i"
  shows "repr t' (root t') T" and "sorted (map (keyf t') (inorder T))" and "heap_ord (pri t') T"
    and "content t' T = content t T"
proof -
  show "repr t' (root t') T"
    using inv same root by (subst root, subst repr_nodes [where t = t]) (auto simp: treap_inv_def)
  have m: "map (keyf t') (inorder T) = map (keyf t) (inorder T)" using same by simp
  show "sorted (map (keyf t') (inorder T))" using inv unfolding m by (simp add: treap_inv_def)
  show "heap_ord (pri t') T"
    using inv same by (subst heap_ord_cong [where Q = "pri t"]) (auto simp: treap_inv_def)
  show "content t' T = content t T" using same by (intro content_cong) auto
qed

lemma treap_insert_spec:
  assumes inv: "treap_inv sz t T"
  shows "\<exists>ret t' T'. treap_insert sz H t k p = (ret, t') \<and> treap_inv sz t' T'
    \<and> (ret = 0 \<and> content t' T' = add_mset (k, p) (content t T) \<and> used t' = used t + 1
       \<or> ret \<in> {- ENOSPC, -2} \<and> content t' T' = content t T \<and> used t' = used t)
    \<and> (used t < sz \<and> height T < H \<longrightarrow> ret = 0) \<and> (used t = sz \<longrightarrow> ret = - ENOSPC)"
proof (cases "used t < sz")
  case False
  then have "used t = sz" using inv by (simp add: treap_inv_def)
  with inv False show ?thesis
    by (intro exI [of _ "- ENOSPC"] exI [of _ t] exI [of _ T])
      (simp add: treap_insert_def treap_alloc_node_def)
next
  case True
  from alloc_node_spec [OF inv True] obtain n t1 where
    al: "treap_alloc_node sz t = Some (n, t1)" and nT: "n \<notin> set_tree T" and nsz: "n < sz"
    and fl: "n \<notin> set (free_list sz t1)" "set (free_list sz t1) \<subseteq> set (free_list sz t)"
      "distinct (free_list sz t1)"
    and t1: "used t1 = used t + 1" "root t1 = root t" "left (nodes t1 n) = None" "right (nodes t1 n) = None"
      "\<And>i. i \<noteq> n \<Longrightarrow> nodes t1 i = nodes t i" "stack t1 = stack t" "n = stack t (sz - used t1)" by blast
  define t2 where "t2 = t1\<lparr>nodes := (nodes t1)(n := (nodes t1 n)\<lparr>key := k, priority := p\<rparr>)\<rparr>"
  have t2: "root t2 = root t" "used t2 = used t + 1" "stack t2 = stack t" "free_list sz t2 = free_list sz t1"
    "left (nodes t2 n) = None" "right (nodes t2 n) = None" "keyf t2 n = k" "pri t2 n = p"
    "\<And>i. i \<noteq> n \<Longrightarrow> nodes t2 i = nodes t i"
    using t1 by (simp_all add: t2_def free_list_def)
  have parts: "repr t2 (root t2) T" "sorted (map (keyf t2) (inorder T))" "heap_ord (pri t2) T"
    "content t2 T = content t T"
    using inv_parts_frame [OF inv t2(1)] t2(9) nT by metis+
  have disT: "distinct (inorder T)" and small: "\<forall>i \<in> set (free_list sz t) \<union> set_tree T. i < sz"
    and fT: "set (free_list sz t) \<inter> set_tree T = {}"
    using inv by (auto simp: treap_inv_def)
  have ins: "treap_insert sz H t k p = (case insert_walk t2 k H (root t2) RootL [] of
               None \<Rightarrow> (-2, treap_free_node sz t2 n)
             | Some (link, path) \<Rightarrow> bubble_up (wr t2 link (Some n)) n path)"
    unfolding treap_insert_def al t2_def Let_def by simp
  note walk = insert_walk_spec [OF parts(1) _ _ parts(2), of RootL "[]" "[]" k H, simplified]
  show ?thesis
  proof (cases "insert_walk t2 k H (root t2) RootL []")
    case None
    define t3 where "t3 = treap_free_node sz t2 n"
    have n: "n = stack t (sz - used t - 1)" using t1(1,7) by simp
    have t3: "root t3 = root t" "used t3 = used t" "nodes t3 = nodes t2" "stack t3 = stack t"
      using t2 n by (auto simp: t3_def treap_free_node_def Let_def fun_eq_iff)
    then have "free_list sz t3 = free_list sz t" by (simp add: free_list_def)
    moreover have "repr t3 (root t3) T" "sorted (map (keyf t3) (inorder T))" "heap_ord (pri t3) T"
      "content t3 T = content t T"
      using inv_parts_frame [OF inv t3(1)] t3(3) t2(9) nT by metis+
    ultimately have "treap_inv sz t3 T" using inv t3(2) by (simp add: treap_inv_def)
    then show ?thesis
      using ins None walk t3(2) \<open>content t3 T = content t T\<close> True
      by (intro exI [of _ "-2"] exI [of _ t3] exI [of _ T]) (simp add: t3_def [symmetric])
  next
    case (Some lp)
    then obtain link path c where lp: "insert_walk t2 k H (root t2) RootL [] = Some (link, path)"
      "link = link_of c" "path = map fst c" "plug c Leaf = T"
      "\<forall>i \<in> set (before c). keyf t2 i \<le> k" "\<forall>i \<in> set (after c). k < keyf t2 i"
      using walk by (cases lp) auto
    have io: "inorder T = before c @ after c" using inorder_plug [of c Leaf] lp(4) by simp
    have sT: "set_tree T = set (before c) \<union> set (after c)" using io by (metis set_append set_inorder)
    have nc: "n \<notin> ctx_set c" using nT by (simp add: ctx_set_lists sT)
    define t3 where "t3 = wr t2 link (Some n)"
    let ?N = "Node Leaf n Leaf"
    have "link_of c \<noteq> LeftL n" "link_of c \<noteq> RightL n" using nc link_of_mem [of c n] by auto
    then have rN: "repr t3 (Some n) ?N"
      using t2(5,6) unfolding t3_def lp(2) by (simp add: wr_other)
    have "repr t2 (root t2) (plug c Leaf)" "distinct (inorder (plug c Leaf))"
      using parts(1) disT lp(4) by simp_all
    from plug_write [OF this _ _ rN] have r3: "repr t3 (root t3) (plug c ?N)"
      by (simp add: t3_def lp(2))
    have d3: "distinct (inorder (plug c ?N))"
      using disT nT unfolding inorder_plug io sT by auto
    have P3: "pri t3 = pri t2" "keyf t3 = keyf t2" by (simp_all add: t3_def)
    have hc: "heap_ctx (pri t3) c" using parts(3) lp(4) heap_plug [of "pri t2" c Leaf] by (simp add: P3)
    from bubble_spec [OF r3 d3 _ hc] obtain t4 T4 where
      t4: "bubble_up t3 n (map fst c) = (0, t4)" "repr t4 (root t4) T4" "inorder T4 = before c @ n # after c"
        "heap_ord (pri t3) T4" "same_rest t3 t4"
      by (auto simp: inorder_plug)
    have P4: "pri t4 = pri t2" "keyf t4 = keyf t2" using t4(5) P3 by (auto simp: fun_eq_iff)
    have u4: "used t4 = used t + 1" "stack t4 = stack t" using t4(5) t2 by (simp_all add: t3_def)
    then have fl4: "free_list sz t4 = free_list sz t1" using t2 by (simp add: free_list_def t1(6) t1(1))
    have setT4: "set_tree T4 = insert n (set_tree T)"
    proof -
      have "set_tree T4 = set (before c @ n # after c)" unfolding t4(3) [symmetric] by simp
      then show ?thesis by (simp add: sT)
    qed
    have "sorted (map (keyf t2) (before c @ n # after c))"
      using parts(2) lp(5,6) t2(7) unfolding io
      by (auto simp: sorted_append intro: less_imp_le order_trans)
    moreover have "distinct (free_list sz t4 @ inorder T4)"
    proof -
      have "distinct (inorder T4)" using d3 by (simp add: t4(3) inorder_plug)
      then show ?thesis using fl fT unfolding fl4 by (auto simp: setT4)
    qed
    moreover have "\<forall>i \<in> set (free_list sz t4) \<union> set_tree T4. i < sz"
      using small fl(2) nsz unfolding fl4 setT4 by auto
    moreover have "heap_ord (pri t4) T4" using t4(4) P3 P4 by simp
    moreover have "used t4 = size T4"
    proof -
      have "size T4 = length (before c @ n # after c)" unfolding t4(3) [symmetric] by simp
      also have "\<dots> = Suc (size T)" using arg_cong [OF io, of length] by simp
      finally show ?thesis using u4 inv by (simp add: treap_inv_def)
    qed
    ultimately have "treap_inv sz t4 T4"
      using t4(2,3) u4 True unfolding treap_inv_def P4 by simp
    moreover have "content t4 T4 = add_mset (k, p) (content t T)"
    proof -
      have "content t4 T4 = content t2 T4" using P4 by (simp add: content_def fun_eq_iff)
      also have "\<dots> = add_mset (k, p) (content t2 T)"
        using t2(7,8) by (simp add: content_def t4(3) io)
      finally show ?thesis using parts(4) by simp
    qed
    moreover have "treap_insert sz H t k p = (0, t4)"
      unfolding ins lp(1) using t4(1) lp(3) by (simp add: t3_def)
    ultimately show ?thesis using u4 True by (intro exI [of _ 0] exI [of _ t4] exI [of _ T4]) simp
  qed
qed

subsection \<open>Search and deletion\<close>

lemma find_loop_spec:
  assumes "repr t ptr T" and "link = link_of c" and "sorted (map (keyf t) (inorder T))"
  shows "case find_loop t k n ptr link of
      None \<Rightarrow> height T \<le> n \<longrightarrow> (\<forall>i \<in> set_tree T. keyf t i \<noteq> k)
    | Some (i, link') \<Rightarrow> \<exists>c' l r. link' = link_of c' \<and> plug c' (Node l i r) = plug c T \<and> keyf t i = k
        \<and> i \<in> set_tree T"
  using assms
proof (induction n arbitrary: ptr T link c)
  case 0
  then show ?case by (cases T) auto
next
  case (Suc n)
  show ?case
  proof (cases T)
    case Leaf
    with Suc.prems show ?thesis by auto
  next
    case (Node l i r)
    have ptr: "ptr = Some i" "repr t (left (nodes t i)) l" "repr t (right (nodes t i)) r"
      using Suc.prems(1) Node by auto
    have st: "sorted (map (keyf t) (inorder l))" "sorted (map (keyf t) (inorder r))"
      "\<forall>j \<in> set_tree l. keyf t j \<le> keyf t i" "\<forall>j \<in> set_tree r. keyf t i \<le> keyf t j"
      using Suc.prems(3) by (auto simp: Node sorted_append)
    have cmp: "treap_key_cmp k (keyf t i) = 0 \<longleftrightarrow> k = keyf t i" "treap_key_cmp k (keyf t i) < 0 \<longleftrightarrow> k < keyf t i"
      by (auto simp: treap_key_cmp_def word_less_def word_uint_eq_iff)
    consider (eq) "k = keyf t i" | (lt) "k < keyf t i" | (gt) "keyf t i < k" by (metis linorder_cases)
    then show ?thesis
    proof cases
      case eq
      then show ?thesis using ptr(1) Suc.prems(2) cmp by (auto simp: Node Let_def)
    next
      case lt
      then have e: "find_loop t k (Suc n) ptr link = find_loop t k n (left (nodes t i)) (LeftL i)"
        using ptr(1) cmp by (auto simp: Let_def)
      have "\<forall>j \<in> set_tree r. keyf t j \<noteq> k" using st(4) lt by auto
      with Suc.IH [OF ptr(2) _ st(1), of "LeftL i" "(i, True, r) # c"] lt show ?thesis
        unfolding e Node by (auto split: option.splits)
    next
      case gt
      then have e: "find_loop t k (Suc n) ptr link = find_loop t k n (right (nodes t i)) (RightL i)"
        using ptr(1) cmp by (auto simp: Let_def)
      have "\<forall>j \<in> set_tree l. keyf t j \<noteq> k" using st(3) gt by auto
      with Suc.IH [OF ptr(3) _ st(2), of "RightL i" "(i, False, l) # c"] gt show ?thesis
        unfolding e Node by (auto split: option.splits)
    qed
  qed
qed

lemma plug_append: "plug (a @ b) T = plug b (plug a T)"
  by (induction a T rule: plug.induct) auto

lemma height_plug_mono: "height T' \<le> height T \<Longrightarrow> height (plug c T') \<le> height (plug c T)"
  by (induction c arbitrary: T T') (auto simp: plug.simps)

lemma succ_loop_spec:
  assumes "repr t (Some leaf) T" and "link = link_of c"
  shows "case succ_loop t n leaf link of
      None \<Rightarrow> n < height T
    | Some (s, link') \<Rightarrow> \<exists>cr rr. link' = link_of (cr @ c) \<and> plug cr (Node Leaf s rr) = T \<and> before cr = []"
  using assms
proof (induction n arbitrary: leaf T link c)
  case 0
  then show ?case by (cases T) auto
next
  case (Suc n)
  then obtain l r where T: "T = Node l leaf r" by (cases T) auto
  show ?case
  proof (cases l)
    case Leaf
    then show ?thesis using Suc.prems T by (auto intro!: exI [of _ "[]"])
  next
    case (Node ll x lr)
    have lx: "left (nodes t leaf) = Some x" "repr t (Some x) l" using Suc.prems(1) T Node by auto
    show ?thesis
    proof (cases "succ_loop t n x (LeftL leaf)")
      case None
      with Suc.IH [OF lx(2), of "LeftL leaf" "(leaf, True, r) # c"] lx(1) T show ?thesis by auto
    next
      case (Some sl)
      obtain s link' where sl: "sl = (s, link')" by (cases sl)
      from Suc.IH [OF lx(2), of "LeftL leaf" "(leaf, True, r) # c"] Some sl obtain cr rr where
        "link' = link_of (cr @ (leaf, True, r) # c)" "plug cr (Node Leaf s rr) = l" "before cr = []" by auto
      moreover have "before (cr @ [(leaf, True, r)]) = []"
        using \<open>before cr = []\<close> by (induction cr rule: before.induct) (auto split: if_splits)
      ultimately show ?thesis using Some sl lx(1) T
        by (auto simp: plug_append intro!: exI [of _ "cr @ [(leaf, True, r)]"] exI [of _ rr])
    qed
  qed
qed

lemma fix_down_spec:
  assumes "repr t (root t) (plug c (Node l s r))" and "distinct (inorder (plug c (Node l s r)))"
    and "heap_ord (pri t) l" and "heap_ord (pri t) r" and "heap_ctx (pri t) c"
    and "\<forall>j \<in> insert s (set_tree l \<union> set_tree r). \<forall>m \<in> spine c. pri t j \<le> pri t m"
  shows "\<exists>ret t' T'. fix_down t n s (link_of c) = (ret, t') \<and> repr t' (root t') T'
    \<and> inorder T' = inorder (plug c (Node l s r)) \<and> same_rest t t'
    \<and> (if ret = 0 then heap_ord (pri t) T' else ret = -1) \<and> (height l + height r < n \<longrightarrow> ret = 0)"
  using assms
proof (induction n arbitrary: t l r c)
  case 0
  then show ?case by (auto intro!: exI [of _ "plug c (Node l s r)"])
next
  case (Suc n)
  let ?P = "pri t" and ?link = "link_of c"
  have sl: "left (nodes t s) = (case l of Leaf \<Rightarrow> None | Node _ x _ \<Rightarrow> Some x)"
    "right (nodes t s) = (case r of Leaf \<Rightarrow> None | Node _ x _ \<Rightarrow> Some x)"
    using hole_repr [OF Suc.prems(1)] by (auto split: tree.splits)
  have top: "\<forall>j \<in> set_tree T. ?P j \<le> ?P x" if "heap_ord ?P T" "T = Node a x b" for T a x b
    using that by auto
  define stop where "stop \<longleftrightarrow> (\<forall>j \<in> set_tree l \<union> set_tree r. ?P j \<le> ?P s)"
  define go_left where "go_left \<longleftrightarrow> (\<exists>rl x rr. r = Node rl x rr \<and> ?P s < ?P x \<and> (\<forall>j \<in> set_tree l. ?P j \<le> ?P x)
      \<and> fix_down t (Suc n) s ?link =
        fix_down (rotate t ?link LEFT) n s (child_link (rotate t ?link LEFT) ?link LEFT))"
  define go_right where "go_right \<longleftrightarrow> (\<exists>ll x lr. l = Node ll x lr \<and> ?P s < ?P x \<and> (\<forall>j \<in> set_tree r. ?P j \<le> ?P x)
      \<and> fix_down t (Suc n) s ?link =
        fix_down (rotate t ?link RIGHT) n s (child_link (rotate t ?link RIGHT) ?link RIGHT))"
  have "stop \<and> fix_down t (Suc n) s ?link = (0, t) \<or> go_left \<or> go_right"
  proof (cases l; cases r)
    assume "l = Leaf" "r = Leaf"
    then show ?thesis using sl by (simp add: stop_def)
  next
    fix rl x rr assume *: "l = Leaf" "r = Node rl x rr"
    then show ?thesis
      using sl top [OF Suc.prems(4) *(2)]
      by (cases "?P x \<le> ?P s") (auto simp: stop_def go_left_def Let_def not_le intro: order_trans)
  next
    fix ll x lr assume *: "l = Node ll x lr" "r = Leaf"
    then show ?thesis
      using sl top [OF Suc.prems(3) *(1)]
      by (cases "?P x \<le> ?P s") (auto simp: stop_def go_right_def Let_def not_le intro: order_trans)
  next
    fix ll x lr rl y rr assume *: "l = Node ll x lr" "r = Node rl y rr"
    note tops = top [OF Suc.prems(3) *(1)] top [OF Suc.prems(4) *(2)]
    consider "?P x \<le> ?P s" "?P y \<le> ?P s" | "?P x \<le> ?P s" "?P s < ?P y"
      | "?P s < ?P x" "?P x \<le> ?P y" | "?P s < ?P x" "?P y < ?P x" by (meson not_le)
    then show ?thesis
    proof cases
      case 1
      then have stop unfolding stop_def using tops by (meson Un_iff order_trans)
      with 1 sl * show ?thesis by (simp add: Let_def)
    next
      case 2
      then have "\<forall>j \<in> set_tree l. ?P j \<le> ?P y" using tops(1) by (meson less_imp_le order_trans)
      then have go_left unfolding go_left_def using 2 sl * by (auto simp: Let_def)
      then show ?thesis by blast
    next
      case 3
      then have "\<forall>j \<in> set_tree l. ?P j \<le> ?P y" using tops(1) by (meson order_trans)
      moreover have "?P s < ?P y" using 3 by (rule less_le_trans)
      ultimately have go_left unfolding go_left_def using 3 sl * by (auto simp: Let_def)
      then show ?thesis by blast
    next
      case 4
      then have "\<forall>j \<in> set_tree r. ?P j \<le> ?P x" using tops(2) by (meson less_imp_le order_trans)
      then have go_right unfolding go_right_def using 4 sl * by (auto simp: Let_def)
      then show ?thesis by blast
    qed
  qed
  then consider (stop) stop "fix_down t (Suc n) s ?link = (0, t)" | (left) go_left | (right) go_right by blast
  then show ?case
  proof cases
    case stop
    then have "heap_ord ?P (plug c (Node l s r))"
      using Suc.prems(3-6) unfolding heap_plug stop_def by auto
    with stop Suc.prems(1) show ?thesis by (intro exI [of _ 0] exI [of _ t]) auto
  next
    case left
    then obtain rl x rr where r: "r = Node rl x rr" and le: "?P s < ?P x" "\<forall>j \<in> set_tree l. ?P j \<le> ?P x"
      and e: "fix_down t (Suc n) s ?link =
        fix_down (rotate t ?link LEFT) n s (child_link (rotate t ?link LEFT) ?link LEFT)"
      unfolding go_left_def by blast
    let ?t' = "rotate t ?link LEFT" and ?c = "(x, True, rr) # c"
    note ro = rotate_left [OF Suc.prems(1,2) [unfolded r]]
    have same: "same_rest t ?t'" by (rule same_rest_rotate)
    then have P': "pri ?t' i = pri t i" for i by simp
    have cl: "child_link ?t' ?link LEFT = link_of ?c" using ro(2) by (simp add: child_link_def)
    have ih: "\<exists>ret t'' T''. fix_down ?t' n s (link_of ?c) = (ret, t'') \<and> repr t'' (root t'') T''
        \<and> inorder T'' = inorder (plug ?c (Node l s rl)) \<and> same_rest ?t' t''
        \<and> (if ret = 0 then heap_ord (pri ?t') T'' else ret = -1) \<and> (height l + height rl < n \<longrightarrow> ret = 0)"
    proof (rule Suc.IH)
      show "repr ?t' (root ?t') (plug ?c (Node l s rl))" using ro(1) by simp
      show "distinct (inorder (plug ?c (Node l s rl)))" using Suc.prems(2) r by (simp add: inorder_plug)
      show "heap_ord (pri ?t') l" "heap_ord (pri ?t') rl" using Suc.prems(3,4) r by (simp_all add: P')
      show "heap_ctx (pri ?t') ?c" using Suc.prems(4,5,6) r by (auto simp: P')
      show "\<forall>j \<in> insert s (set_tree l \<union> set_tree rl). \<forall>m \<in> spine ?c. pri ?t' j \<le> pri ?t' m"
        using Suc.prems(4,6) r le by (auto simp: P')
    qed
    then obtain ret t'' T'' where f: "fix_down ?t' n s (link_of ?c) = (ret, t'')" "repr t'' (root t'') T''"
      "inorder T'' = inorder (plug ?c (Node l s rl))" "same_rest ?t' t''"
      "if ret = 0 then heap_ord (pri t) T'' else ret = -1" "height l + height rl < n \<longrightarrow> ret = 0"
      unfolding P' by blast
    have "inorder T'' = inorder (plug c (Node l s r))" using f(3) by (simp add: inorder_plug r)
    moreover have "height l + height r < Suc n \<longrightarrow> ret = 0" using f(6) by (simp add: r)
    moreover have "same_rest t t''" using f(4) same by simp
    ultimately show ?thesis unfolding e cl using f(1,2,5) by blast
  next
    case right
    then obtain ll x lr where l: "l = Node ll x lr" and le: "?P s < ?P x" "\<forall>j \<in> set_tree r. ?P j \<le> ?P x"
      and e: "fix_down t (Suc n) s ?link =
        fix_down (rotate t ?link RIGHT) n s (child_link (rotate t ?link RIGHT) ?link RIGHT)"
      unfolding go_right_def by blast
    let ?t' = "rotate t ?link RIGHT" and ?c = "(x, False, ll) # c"
    note ro = rotate_right [OF Suc.prems(1,2) [unfolded l]]
    have same: "same_rest t ?t'" by (rule same_rest_rotate)
    then have P': "pri ?t' i = pri t i" for i by simp
    have cl: "child_link ?t' ?link RIGHT = link_of ?c" using ro(2) by (simp add: child_link_def)
    have ih: "\<exists>ret t'' T''. fix_down ?t' n s (link_of ?c) = (ret, t'') \<and> repr t'' (root t'') T''
        \<and> inorder T'' = inorder (plug ?c (Node lr s r)) \<and> same_rest ?t' t''
        \<and> (if ret = 0 then heap_ord (pri ?t') T'' else ret = -1) \<and> (height lr + height r < n \<longrightarrow> ret = 0)"
    proof (rule Suc.IH)
      show "repr ?t' (root ?t') (plug ?c (Node lr s r))" using ro(1) by simp
      show "distinct (inorder (plug ?c (Node lr s r)))" using Suc.prems(2) l by (simp add: inorder_plug)
      show "heap_ord (pri ?t') lr" "heap_ord (pri ?t') r" using Suc.prems(3,4) l by (simp_all add: P')
      show "heap_ctx (pri ?t') ?c" using Suc.prems(3,5,6) l by (auto simp: P')
      show "\<forall>j \<in> insert s (set_tree lr \<union> set_tree r). \<forall>m \<in> spine ?c. pri ?t' j \<le> pri ?t' m"
        using Suc.prems(3,6) l le by (auto simp: P')
    qed
    then obtain ret t'' T'' where f: "fix_down ?t' n s (link_of ?c) = (ret, t'')" "repr t'' (root t'') T''"
      "inorder T'' = inorder (plug ?c (Node lr s r))" "same_rest ?t' t''"
      "if ret = 0 then heap_ord (pri t) T'' else ret = -1" "height lr + height r < n \<longrightarrow> ret = 0"
      unfolding P' by blast
    have "inorder T'' = inorder (plug c (Node l s r))" using f(3) by (simp add: inorder_plug l)
    moreover have "height l + height r < Suc n \<longrightarrow> ret = 0" using f(6) by (simp add: l)
    moreover have "same_rest t t''" using f(4) same by simp
    ultimately show ?thesis unfolding e cl using f(1,2,5) by blast
  qed
qed

lemma wr_repr:
  assumes "repr t p S" and "set_tree S \<inter> ctx_set c = {}"
  shows "repr (wr t (link_of c) q) p S"
proof -
  have "left (nodes (wr t (link_of c) q) i) = left (nodes t i)"
    "right (nodes (wr t (link_of c) q) i) = right (nodes t i)" if "i \<in> set_tree S" for i
    using that assms(2) link_of_mem [of c i] wr_other(1,2) [of "link_of c" i t q] by blast+
  then show ?thesis using assms(1) repr_frame by blast
qed

lemma inv_used_pos:
  assumes "treap_inv sz t T" and "i \<in> set_tree T"
  shows "0 < used t"
proof -
  let ?xs = "free_list sz t @ inorder T"
  have d: "distinct ?xs" and s: "set ?xs \<subseteq> {..< sz}" and u: "used t \<le> sz"
    using assms(1) by (auto simp: treap_inv_def)
  have "length ?xs = card (set ?xs)" using distinct_card [OF d] by simp
  also have "\<dots> \<le> card {..< sz}" using s by (rule card_mono [rotated]) simp
  finally have "(sz - used t) + length (inorder T) \<le> sz" by (simp add: free_list_def)
  moreover have "inorder T \<noteq> []" using assms(2) by (cases T) auto
  ultimately show ?thesis using u by (cases "inorder T") auto
qed

lemma finish_delete:
  assumes inv: "treap_inv sz t T" and io: "inorder T = xs @ n # ys"
    and t1: "repr t1 (root t1) T1" "inorder T1 = xs @ ys" "heap_ord (pri t) T1" "same_rest t t1"
  shows "treap_inv sz (treap_free_node sz t1 n) T1"
    and "content t T = add_mset (key (nodes t n), priority (nodes t n)) (content (treap_free_node sz t1 n) T1)"
    and "used (treap_free_node sz t1 n) = used t - 1"
proof -
  let ?f = "treap_free_node sz t1 n"
  have nT: "n \<in> set_tree T" using io by (metis in_set_conv_decomp set_inorder)
  have u: "0 < used t" "used t \<le> sz" using inv_used_pos [OF inv nT] inv by (auto simp: treap_inv_def)
  have f: "?f = t1\<lparr>used := used t - 1, stack := (stack t)(sz - used t := n)\<rparr>"
    using t1(4) u by (simp add: treap_free_node_def Let_def)
  have "sz - (used t - 1) = Suc (sz - used t)" using u by simp
  then have fl: "free_list sz ?f = free_list sz t @ [n]" by (simp add: free_list_def f)
  have sT: "set_tree T = insert n (set_tree T1)"
  proof -
    have "set_tree T = set (xs @ n # ys)" unfolding io [symmetric] by simp
    moreover have "set_tree T1 = set (xs @ ys)" unfolding t1(2) [symmetric] by simp
    ultimately show ?thesis by auto
  qed
  have P: "pri ?f i = pri t i" "keyf ?f i = keyf t i" for i using t1(4) by (simp_all add: f)
  have r: "repr ?f (root ?f) T1" using t1(1) repr_frame [where t = t1 and t' = ?f and T = T1] by (simp add: f)
  have d: "distinct (free_list sz t @ xs @ n # ys)" "sorted (map (keyf t) (xs @ n # ys))"
    "\<forall>i \<in> set (free_list sz t) \<union> set_tree T. i < sz"
    using inv by (simp_all add: treap_inv_def io)
  show "used ?f = used t - 1" by (simp add: f)
  show "treap_inv sz ?f T1"
    unfolding treap_inv_def fl P
  proof (intro conjI)
    show "repr ?f (root ?f) T1" by (rule r)
    show "used ?f \<le> sz" using u by (simp add: f)
    have "size T = Suc (size T1)" using arg_cong [OF io, of length] arg_cong [OF t1(2), of length] by simp
    then show "used ?f = size T1" using inv by (simp add: treap_inv_def f)
    show "distinct ((free_list sz t @ [n]) @ inorder T1)" using d(1) by (auto simp: t1(2))
    show "\<forall>i \<in> set (free_list sz t @ [n]) \<union> set_tree T1. i < sz" using d(3) sT by auto
    show "sorted (map (keyf t) (inorder T1))" using d(2) by (auto simp: t1(2) sorted_append)
    show "heap_ord (pri t) T1" by (rule t1(3))
  qed
  show "content t T = add_mset (key (nodes t n), priority (nodes t n)) (content ?f T1)"
    by (simp add: content_def io t1(2) P)
qed

lemma remove_one_child:
  assumes r: "repr t (root t) (plug c (Node l n r))" and d: "distinct (inorder (plug c (Node l n r)))"
    and X: "repr t p X" "set_tree X \<subseteq> set_tree l \<union> set_tree r"
  shows "repr (wr t (link_of c) p) (root (wr t (link_of c) p)) (plug c X)"
proof -
  have "set_tree X \<inter> ctx_set c = {}" using distinct_plug(2) [OF d] X(2) by auto
  from wr_repr [OF X(1) this] show ?thesis by (intro plug_write [OF r d]) auto
qed

text \<open>The successor takes the place of the removed node.\<close>

lemma move_successor:
  assumes r: "repr t (root t) (plug c (Node l n r))" and d: "distinct (inorder (plug c (Node l n r)))"
    and sr: "plug cr (Node Leaf s rr) = r"
  defines "t1 \<equiv> wr t (link_of (cr @ (n, False, l) # c)) (right (nodes t s))"
  defines "t2 \<equiv> wr t1 (RightL s) (right (nodes t1 n))"
  defines "t3 \<equiv> wr t2 (LeftL s) (left (nodes t2 n))"
  defines "t4 \<equiv> wr t3 (link_of c) (Some s)"
  shows "repr t4 (root t4) (plug c (Node l s (plug cr rr)))" and "same_rest t t4"
proof -
  let ?cc = "cr @ (n, False, l) # c"
  show "same_rest t t4" by (simp add: t4_def t3_def t2_def t1_def)
  have r1: "repr t (root t) (plug ?cc (Node Leaf s rr))" and d1: "distinct (inorder (plug ?cc (Node Leaf s rr)))"
    using r d by (simp_all add: plug_append sr)
  have srr: "repr t (right (nodes t s)) rr" using hole_repr [OF r1] by simp
  have "repr t1 (root t1) (plug ?cc rr)"
    unfolding t1_def by (rule remove_one_child [OF r1 d1 srr]) simp
  then have r2: "repr t1 (root t1) (plug c (Node l n (plug cr rr)))" by (simp add: plug_append)
  have io: "inorder (plug c (Node l n r)) = before c @ inorder l @ n # (before cr @ s # inorder rr @ after cr) @ after c"
    by (simp add: inorder_plug sr [symmetric])
  have d2: "distinct (inorder (plug c (Node l n (plug cr rr))))"
    using d unfolding io by (auto simp: inorder_plug)
  have s_out: "s \<notin> ctx_set c" "s \<noteq> n" "s \<notin> set_tree l" "s \<notin> set_tree (plug cr rr)"
  proof -
    have "s \<notin> set (before c @ inorder l @ n # (before cr @ inorder rr @ after cr) @ after c)"
      using d unfolding io by auto
    then show "s \<notin> ctx_set c" "s \<noteq> n" "s \<notin> set_tree l" "s \<notin> set_tree (plug cr rr)"
      unfolding set_tree_plug ctx_set_lists by auto
  qed
  have nl: "link_of c \<noteq> LeftL s" "link_of c \<noteq> RightL s" using link_of_mem s_out(1) by metis+
  have h: "repr t1 (left (nodes t1 n)) l" "repr t1 (right (nodes t1 n)) (plug cr rr)"
    using hole_repr [OF r2] by auto
  have dis2: "set_tree (Node l n (plug cr rr)) \<inter> ctx_set c = {}" using distinct_plug(2) [OF d2] .
  have n3: "left (nodes t3 i) = (if i = s then left (nodes t1 n) else left (nodes t1 i))"
    "right (nodes t3 i) = (if i = s then right (nodes t1 n) else right (nodes t1 i))" "root t3 = root t1" for i
    using s_out(2) by (simp_all add: t3_def t2_def)
  have sub: "repr t4 p S" if "repr t1 p S" "s \<notin> set_tree S" "set_tree S \<inter> ctx_set c = {}" for p S
  proof -
    have "repr t3 p S" using that(1,2) by (subst repr_frame [where t = t1]) (auto simp: n3)
    with that(3) show ?thesis unfolding t4_def by (intro wr_repr)
  qed
  have "repr t4 (left (nodes t1 n)) l" "repr t4 (right (nodes t1 n)) (plug cr rr)"
    using sub h s_out dis2 by auto
  moreover have "left (nodes t4 s) = left (nodes t1 n)" "right (nodes t4 s) = right (nodes t1 n)"
    using nl by (simp_all add: t4_def wr_other n3)
  ultimately have "repr t4 (Some s) (Node l s (plug cr rr))" by simp
  moreover have "same_links (wr t1 (link_of c) (Some s)) t4 (ctx_set c)"
  proof
    fix i assume "i \<in> ctx_set c"
    then have "i \<noteq> s" using s_out(1) by blast
    then show "left (nodes t4 i) = left (nodes (wr t1 (link_of c) (Some s)) i)
        \<and> right (nodes t4 i) = right (nodes (wr t1 (link_of c) (Some s)) i)"
      by (cases "link_of c") (simp_all add: t4_def n3)
  qed
  moreover have "root t4 = root (wr t1 (link_of c) (Some s))"
    by (cases "link_of c") (simp_all add: t4_def n3)
  ultimately show "repr t4 (root t4) (plug c (Node l s (plug cr rr)))"
    by (intro plug_write [OF r2 d2])
qed

lemma height_plug_child: "plug c (Node l n r) = T \<Longrightarrow> height l + height r + 2 \<le> 2 * height T"
proof -
  assume "plug c (Node l n r) = T"
  moreover have "height S \<le> height (plug c S)" for S
  proof (induction c arbitrary: S)
    case (Cons x c)
    obtain i d s where x: "x = (i, d, s)" by (cases x)
    show ?case
      using Cons [of "if d then Node S i s else Node s i S"] by (cases d) (simp_all add: x)
  qed simp
  ultimately have "height (Node l n r) \<le> height T" by blast
  then show ?thesis by simp
qed

lemma unlink_spec:
  assumes inv: "treap_inv sz t (plug c (Node l n r))"
  shows "\<exists>ret t'. unlink_node H t n (link_of c) = (ret, t')
    \<and> (if ret = 0
       then \<exists>T'. repr t' (root t') T' \<and> heap_ord (pri t) T' \<and> same_rest t t'
         \<and> inorder T' = (before c @ inorder l) @ (inorder r @ after c)
       else ret = -3 \<or> ret = -2 \<and> t' = t)
    \<and> (height l + height r < H \<longrightarrow> ret = 0)"
proof -
  let ?T = "plug c (Node l n r)"
  have rp: "repr t (root t) ?T" and ho: "heap_ord (pri t) ?T" and d: "distinct (inorder ?T)"
    using inv by (auto simp: treap_inv_def)
  have ch: "repr t (left (nodes t n)) l" "repr t (right (nodes t n)) r"
    using hole_repr [OF rp] by auto
  have hs: "heap_ord (pri t) l" "heap_ord (pri t) r" "heap_ctx (pri t) c"
    "\<forall>j \<in> insert n (set_tree l \<union> set_tree r). \<forall>m \<in> spine c. pri t j \<le> pri t m"
    using ho unfolding heap_plug by auto
  have done1: "\<exists>ret t'. unlink_node H t n (link_of c) = (ret, t')
    \<and> (if ret = 0
       then \<exists>T'. repr t' (root t') T' \<and> heap_ord (pri t) T' \<and> same_rest t t'
         \<and> inorder T' = (before c @ inorder l) @ (inorder r @ after c)
       else ret = -3 \<or> ret = -2 \<and> t' = t)
    \<and> (height l + height r < H \<longrightarrow> ret = 0)"
    if u: "unlink_node H t n (link_of c) = (0, wr t (link_of c) p)" and X: "repr t p X"
      "set_tree X \<subseteq> set_tree l \<union> set_tree r" "inorder X = inorder l @ inorder r" "heap_ord (pri t) X" for p X
  proof -
    have "repr (wr t (link_of c) p) (root (wr t (link_of c) p)) (plug c X)"
      by (rule remove_one_child [OF rp d X(1,2)])
    moreover have "heap_ord (pri t) (plug c X)" using X(2,4) hs unfolding heap_plug by auto
    ultimately show ?thesis using u X(3)
      by (intro exI [of _ 0] exI [of _ "wr t (link_of c) p"]) (auto simp: inorder_plug intro!: exI [of _ "plug c X"])
  qed
  show ?thesis
  proof (cases "left (nodes t n) = None")
    case True
    then have "l = Leaf" using ch(1) by (cases l) auto
    then show ?thesis using True ch(2) hs(2) by (intro done1 [of "right (nodes t n)" r]) (auto simp: unlink_node_def)
  next
    case lne: False
    show ?thesis
    proof (cases "right (nodes t n) = None")
      case True
      then have "r = Leaf" using ch(2) by (cases r) auto
      then show ?thesis using True lne ch(1) hs(1)
        by (intro done1 [of "left (nodes t n)" l]) (auto simp: unlink_node_def)
    next
      case False
      then obtain x where x: "right (nodes t n) = Some x" by blast
      with ch(2) have rx: "repr t (Some x) r" by simp
      have gs: "get_immediate_succesor H t n = succ_loop t H x (RightL n)"
        using x by (simp add: get_immediate_succesor_def)
      note sp = succ_loop_spec [OF rx, of "RightL n" "(n, False, l) # c" H, simplified]
      show ?thesis
      proof (cases "succ_loop t H x (RightL n)")
        case None
        then have "H < height r" using sp by simp
        with None lne False show ?thesis
          by (intro exI [of _ "-2"] exI [of _ t]) (simp add: unlink_node_def gs)
      next
        case (Some sl)
        then obtain s link' cr rr where sl: "succ_loop t H x (RightL n) = Some (s, link')"
          "link' = link_of (cr @ (n, False, l) # c)" "plug cr (Node Leaf s rr) = r" "before cr = []"
          using sp by (cases sl) auto
        define t4 where "t4 = (let t = wr t (link_of (cr @ (n, False, l) # c)) (right (nodes t s));
                t = wr t (RightL s) (right (nodes t n));
                t = wr t (LeftL s) (left (nodes t n))
            in wr t (link_of c) (Some s))"
        let ?r' = "plug cr rr"
        have m: "repr t4 (root t4) (plug c (Node l s ?r'))" "same_rest t t4"
          using move_successor [OF rp d sl(3)] by (simp_all add: t4_def Let_def)
        have P4: "pri t4 i = pri t i" for i using m(2) by simp
        have io: "inorder r = s # inorder ?r'" "inorder ?r' = inorder rr @ after cr"
          using inorder_plug [of cr "Node Leaf s rr"] sl(3,4) by (simp_all add: inorder_plug)
        then have sr: "set_tree r = insert s (set_tree ?r')" by (metis list.simps(15) set_inorder)
        have hr': "heap_ord (pri t) ?r'" using hs(2) unfolding sl(3) [symmetric] heap_plug by auto
        have d4: "distinct (inorder (plug c (Node l s ?r')))"
          using d by (auto simp: inorder_plug io(1))
        have "\<exists>ret t' T'. fix_down t4 H s (link_of c) = (ret, t') \<and> repr t' (root t') T'
            \<and> inorder T' = inorder (plug c (Node l s ?r')) \<and> same_rest t4 t'
            \<and> (if ret = 0 then heap_ord (pri t4) T' else ret = -1) \<and> (height l + height ?r' < H \<longrightarrow> ret = 0)"
          by (rule fix_down_spec [OF m(1) d4]) (use hs hr' sr in \<open>auto simp: P4\<close>)
        then obtain ret t' T' where f: "fix_down t4 H s (link_of c) = (ret, t')" "repr t' (root t') T'"
          "inorder T' = inorder (plug c (Node l s ?r'))" "same_rest t4 t'"
          "if ret = 0 then heap_ord (pri t) T' else ret = -1" "height l + height ?r' < H \<longrightarrow> ret = 0"
          unfolding P4 by blast
        have u: "unlink_node H t n (link_of c) = (if ret \<noteq> 0 then -3 else 0, t')"
          using f(1) [unfolded t4_def Let_def]
          by (simp only: unlink_node_def gs sl(1,2) Let_def lne False if_False option.case prod.case)
        have ht: "height ?r' \<le> height r" unfolding sl(3) [symmetric] by (rule height_plug_mono) simp
        show ?thesis
        proof (cases "ret = 0")
          case True
          have "inorder T' = (before c @ inorder l) @ (inorder r @ after c)"
            using f(3) by (simp add: inorder_plug io(1))
          moreover have "same_rest t t'" using m(2) f(4) by simp
          ultimately show ?thesis using u True f(2,5) by auto
        next
          case False
          then show ?thesis using u f(6) ht by auto
        qed
      qed
    qed
  qed
qed

lemma treap_find_spec:
  assumes inv: "treap_inv sz t T"
  shows "case treap_find_raw H t k of
      None \<Rightarrow> height T \<le> H \<longrightarrow> (\<forall>i \<in> set_tree T. keyf t i \<noteq> k)
    | Some (i, link) \<Rightarrow> \<exists>c l r. link = link_of c \<and> plug c (Node l i r) = T \<and> keyf t i = k
        \<and> i \<in> set_tree T"
proof -
  have "repr t (root t) T" "sorted (map (keyf t) (inorder T))" using inv by (auto simp: treap_inv_def)
  from find_loop_spec [OF this(1) _ this(2), where c = "[]" and link = RootL and k = k and n = H] show ?thesis
    unfolding treap_find_raw_def plug.simps(1) by simp
qed

lemma treap_delete_spec:
  assumes inv: "treap_inv sz t T"
  shows "\<exists>ret t'. treap_delete sz H t k = (ret, t')
    \<and> (if ret = 0 then \<exists>T' p. treap_inv sz t' T' \<and> content t T = add_mset (k, p) (content t' T')
         \<and> used t' = used t - 1
       else ret = -3 \<or> ret \<in> {-1, -2} \<and> t' = t)
    \<and> (2 * height T \<le> H + 1 \<longrightarrow> ret = (if \<exists>i \<in> set_tree T. keyf t i = k then 0 else -1))"
proof (cases "treap_find_raw H t k")
  case None
  with treap_find_spec [OF inv, of H k] show ?thesis
    by (intro exI [of _ "-1"] exI [of _ t]) (auto simp: treap_delete_def)
next
  case (Some nl)
  then obtain n link c l r where n: "treap_find_raw H t k = Some (n, link)" "link = link_of c"
    "plug c (Node l n r) = T" "keyf t n = k" "n \<in> set_tree T"
    using treap_find_spec [OF inv, of H k] by (cases nl) auto
  from unlink_spec [of sz t c l n r H] inv n(3) obtain ret t' where
    u: "unlink_node H t n (link_of c) = (ret, t')" and
    r: "if ret = 0
       then \<exists>T'. repr t' (root t') T' \<and> heap_ord (pri t) T' \<and> same_rest t t'
         \<and> inorder T' = (before c @ inorder l) @ (inorder r @ after c)
       else ret = -3 \<or> ret = -2 \<and> t' = t"
    and h: "height l + height r < H \<longrightarrow> ret = 0" by auto
  have small: "2 * height T \<le> H + 1 \<longrightarrow> ret = 0" using h height_plug_child [OF n(3)] by auto
  have ex: "\<exists>i \<in> set_tree T. keyf t i = k" using n(4,5) by blast
  show ?thesis
  proof (cases "ret = 0")
    case False
    then show ?thesis using n(1,2) u r small
      by (intro exI [of _ ret] exI [of _ t']) (auto simp: treap_delete_def)
  next
    case True
    then obtain T' where T': "repr t' (root t') T'" "heap_ord (pri t) T'" "same_rest t t'"
      "inorder T' = (before c @ inorder l) @ (inorder r @ after c)" using r by auto
    have io: "inorder T = (before c @ inorder l) @ n # (inorder r @ after c)"
      using inorder_plug [of c "Node l n r"] n(3) by simp
    have del: "treap_delete sz H t k = (0, treap_free_node sz t' n)"
      using n(1,2) u True by (simp add: treap_delete_def)
    from finish_delete [OF inv io T'(1,4,2,3)] n(4) show ?thesis
      unfolding del using ex by (intro exI [of _ 0] exI [of _ "treap_free_node sz t' n"]) auto
  qed
qed

lemma treap_empty_inv:
  assumes "root t = None" and "used t = 0" and "\<And>i. i < sz \<Longrightarrow> stack t i = sz - i - 1"
  shows "treap_inv sz t Leaf" and "content t Leaf = {#}"
proof -
  have "inj_on (stack t) {0 ..< sz}" using assms(3) by (auto simp: inj_on_def)
  then have "distinct (map (stack t) [0 ..< sz])" by (simp add: distinct_map)
  then show "treap_inv sz t Leaf"
    using assms by (auto simp: treap_inv_def free_list_def)
  show "content t Leaf = {#}" by (simp add: content_def)
qed

lemma treap_reset_inv: "treap_inv sz (treap_reset sz t) Leaf"
  by (rule treap_empty_inv) (simp_all add: treap_reset_def)

lemma treap_top_spec:
  assumes inv: "treap_inv sz t T"
  shows "case treap_top t of None \<Rightarrow> content t T = {#}
    | Some i \<Rightarrow> (key (nodes t i), priority (nodes t i)) \<in># content t T
        \<and> (\<forall>x \<in># content t T. snd x \<le> priority (nodes t i))"
proof (cases T)
  case Leaf
  then show ?thesis using inv by (simp add: treap_inv_def treap_top_def content_def)
next
  case (Node l i r)
  then show ?thesis using inv by (auto simp: treap_inv_def treap_top_def content_def)
qed

subsection \<open>Properties\<close>

text \<open>A search in a treap whose height is within the bound finds a node with the key when there
  is one, and null otherwise.\<close>

theorem treap_find_correct:
  assumes "treap_inv sz t T" and "height T \<le> H"
  shows "case treap_find H t k of
      None \<Rightarrow> \<forall>p. (k, p) \<notin># content t T
    | Some i \<Rightarrow> i \<in> set_tree T \<and> key (nodes t i) = k"
proof (cases "treap_find_raw H t k")
  case None
  with treap_find_spec [OF assms(1), of H k] assms(2) show ?thesis
    by (auto simp: treap_find_def content_def)
next
  case (Some x)
  with treap_find_spec [OF assms(1), of H k] show ?thesis
    by (cases x) (auto simp: treap_find_def)
qed

text \<open>C4. Insertion keeps the search order, the heap order and the pool of free nodes, whether it
  succeeds or not. It adds exactly the key with its priority, or fails with the treap's content
  unchanged; it cannot fail while a node is free and the height is below the bound.\<close>

theorem treap_insert_correct:
  assumes "treap_inv sz t T"
  shows "\<exists>ret t' T'. treap_insert sz H t k p = (ret, t') \<and> treap_inv sz t' T'
    \<and> (ret = 0 \<and> content t' T' = add_mset (k, p) (content t T)
       \<or> ret \<in> {- ENOSPC, -2} \<and> content t' T' = content t T)
    \<and> (used t < sz \<and> height T < H \<longrightarrow> ret = 0)"
  using treap_insert_spec [OF assms, of H k p] by blast

text \<open>C3. A successful deletion keeps the invariant and removes exactly one node with the key; one
  that fails with \<open>-1\<close> or \<open>-2\<close> changes nothing. When twice the height is within the bound
  plus one, it succeeds exactly for the keys that are there.\<close>

theorem treap_delete_correct:
  assumes "treap_inv sz t T"
  shows "\<exists>ret t'. treap_delete sz H t k = (ret, t')
    \<and> (ret = 0 \<longrightarrow> (\<exists>T' p. treap_inv sz t' T' \<and> content t T = add_mset (k, p) (content t' T')))
    \<and> (ret \<in> {-1, -2} \<longrightarrow> t' = t) \<and> ret \<in> {0, -1, -2, -3}
    \<and> (2 * height T \<le> H + 1 \<longrightarrow> ret = (if \<exists>p. (k, p) \<in># content t T then 0 else -1))"
proof -
  from treap_delete_spec [OF assms, of H k] obtain ret t' where
    d: "treap_delete sz H t k = (ret, t')"
    and r: "if ret = 0 then \<exists>T' p. treap_inv sz t' T' \<and> content t T = add_mset (k, p) (content t' T')
         \<and> used t' = used t - 1
       else ret = -3 \<or> ret \<in> {-1, -2} \<and> t' = t"
    and h: "2 * height T \<le> H + 1 \<longrightarrow> ret = (if \<exists>i \<in> set_tree T. keyf t i = k then 0 else -1)" by blast
  have "(\<exists>i \<in> set_tree T. keyf t i = k) \<longleftrightarrow> (\<exists>p. (k, p) \<in># content t T)"
    by (auto simp: content_def)
  with h have "2 * height T \<le> H + 1 \<longrightarrow> ret = (if \<exists>p. (k, p) \<in># content t T then 0 else -1)" by simp
  moreover have "ret = 0 \<longrightarrow> (\<exists>T' p. treap_inv sz t' T' \<and> content t T = add_mset (k, p) (content t' T'))"
    using r by (cases "ret = 0") (simp, blast, simp)
  moreover have "(ret \<in> {-1, -2} \<longrightarrow> t' = t) \<and> ret \<in> {0, -1, -2, -3}" using r by (auto split: if_splits)
  ultimately show ?thesis using d by blast
qed

definition treap_ex0 :: treap where
  "treap_ex0 = \<lparr>root = None, nodes = (\<lambda>_. \<lparr>key = 0, priority = 0, left = None, right = None\<rparr>),
     used = 0, stack = (\<lambda>i. if i < 4 then 4 - i - 1 else 0)\<rparr>"

definition treap_ex1 :: treap where
  "treap_ex1 = snd (treap_insert 4 16 (snd (treap_insert 4 16 treap_ex0 5 9)) 7 11)"

lemma treap_ex0_inv: "treap_inv 4 treap_ex0 Leaf"
  by (rule treap_empty_inv) (simp_all add: treap_ex0_def)

theorem treap_insert_correct_witness:
  "\<exists>t' T'. treap_insert 4 16 treap_ex0 5 9 = (0, t') \<and> treap_inv 4 t' T' \<and> content t' T' = {#(5, 9)#}"
  using treap_insert_correct [OF treap_ex0_inv, of 16 5 9]
  by (auto simp: treap_ex0_def content_def errno_defs)

lemma treap_ex1_inv: "\<exists>T. treap_inv 4 treap_ex1 T \<and> content treap_ex1 T = {#(7, 11), (5, 9)#}
    \<and> height T \<le> 2"
proof -
  obtain t1 T1 where 1: "treap_insert 4 16 treap_ex0 5 9 = (0, t1)" "treap_inv 4 t1 T1"
    "content t1 T1 = {#(5, 9)#}" "used t1 = 1"
    using treap_insert_spec [OF treap_ex0_inv, of 16 5 9]
    by (auto simp: treap_ex0_def content_def errno_defs)
  have sz: "size (content t T) = size T" for t T by (simp add: content_def)
  have hs: "height (T :: nat tree) \<le> size T" for T by (rule height_le_size_tree)
  have "height T1 \<le> 1" using hs [of T1] sz [of t1 T1] 1(3) by simp
  then obtain t2 T2 where 2: "treap_insert 4 16 t1 7 11 = (0, t2)" "treap_inv 4 t2 T2"
    "content t2 T2 = {#(7, 11), (5, 9)#}"
    using treap_insert_spec [OF 1(2), of 16 7 11] 1(3,4) by (auto simp: errno_defs)
  have "height T2 \<le> 2" using hs [of T2] sz [of t2 T2] 2(3) by simp
  with 1 2 show ?thesis by (auto simp: treap_ex1_def)
qed

theorem treap_find_correct_witness:
  "\<exists>i. treap_find 16 treap_ex1 7 = Some i \<and> key (nodes treap_ex1 i) = 7"
proof -
  obtain T where T: "treap_inv 4 treap_ex1 T" "content treap_ex1 T = {#(7, 11), (5, 9)#}" "height T \<le> 2"
    using treap_ex1_inv by blast
  from treap_find_correct [OF T(1), of 16 7] T(2,3) show ?thesis
    by (auto split: option.splits)
qed

theorem treap_delete_correct_witness:
  "\<exists>t' T'. treap_delete 4 16 treap_ex1 7 = (0, t') \<and> treap_inv 4 t' T' \<and> content t' T' = {#(5, 9)#}"
proof -
  obtain T where T: "treap_inv 4 treap_ex1 T" "content treap_ex1 T = {#(7, 11), (5, 9)#}" "height T \<le> 2"
    using treap_ex1_inv by blast
  from treap_delete_correct [OF T(1), of 16 7] T(2,3) show ?thesis
    by (fastforce simp: add_eq_conv_ex)
qed

end
