(* ===== verification/Packet.thy ===== *)
theory Packet
  imports Prelude
begin

text \<open>
  Packets and their headers: \<open>libs/honey/csum.h\<close>, \<open>libs/honey/exp_proto.h\<close>,
  \<open>libs/honey/is_relevant.h\<close>, \<open>libs/honey/report_throughput.h\<close>, and the helpers of
  \<open>motivation/arena_cvm/include\<close> (\<open>csum_helper.h\<close>, \<open>xdp_helpers.h\<close>, \<open>report_tput.h\<close>).

  A packet is the list of its bytes from \<open>data\<close> to \<open>data_end\<close>; a header pointer is an offset. The
  Ethernet header takes the bytes 0 to 13, the IP header starts at 14, and without IP options the UDP
  header starts at 34.
\<close>

type_synonym packet = "u8 list"

definition ld16 :: "packet \<Rightarrow> nat \<Rightarrow> u16" where
  "ld16 p i = le16 (p ! i) (p ! (i + 1))"

definition st16 :: "packet \<Rightarrow> nat \<Rightarrow> u16 \<Rightarrow> packet" where
  "st16 p i w = p[i := ucast w, i + 1 := ucast (drop_bit 8 w)]"

definition ld32 :: "packet \<Rightarrow> nat \<Rightarrow> u32" where
  "ld32 p i = le32 (p ! i) (p ! (i + 1)) (p ! (i + 2)) (p ! (i + 3))"

definition st32 :: "packet \<Rightarrow> nat \<Rightarrow> u32 \<Rightarrow> packet" where
  "st32 p i w = p[i := ucast w, i + 1 := ucast (drop_bit 8 w), i + 2 := ucast (drop_bit 16 w),
                  i + 3 := ucast (drop_bit 24 w)]"

text \<open>Header offsets and constants of the protocol headers.\<close>

definition ETH_HLEN :: nat where "ETH_HLEN = 14"
definition IP_HLEN :: nat where "IP_HLEN = 20"
definition UDP_HLEN :: nat where "UDP_HLEN = 8"
definition ETH_P_IP :: u16 where "ETH_P_IP = 0x0800"
definition IPPROTO_UDP :: u8 where "IPPROTO_UDP = 17"

lemmas hlen_defs = ETH_HLEN_def IP_HLEN_def UDP_HLEN_def

subsection \<open>Checksums\<close>

definition fold_step :: "u64 \<Rightarrow> u64" where
  "fold_step csum = (if drop_bit 16 csum \<noteq> 0 then (csum AND 0xffff) + drop_bit 16 csum else csum)"

definition csum_fold_helper :: "u64 \<Rightarrow> u16" where
  "csum_fold_helper csum = ucast (NOT (fold_step (fold_step (fold_step (fold_step csum)))))"

definition ipv4_sum :: "packet \<Rightarrow> nat \<Rightarrow> u64 \<Rightarrow> u64" where
  "ipv4_sum p iph csum =
     fold (\<lambda>i csum. csum + ucast (ntohs (ld16 p (iph + 2 * i)))) [0 ..< IP_HLEN div 2] csum"

definition ipv4_csum_inline :: "packet \<Rightarrow> nat \<Rightarrow> u64 \<Rightarrow> u64" where
  "ipv4_csum_inline p iph csum = ucast (csum_fold_helper (ipv4_sum p iph csum))"

text \<open>
  The checksum over the pseudo header and the UDP segment. The loop over the words is
  \<open>bpf_loop\<close> with \<open>csum_loop\<close>, which stops at the end of the packet; \<open>next\<close> is its position.
\<close>

fun csum_loop :: "packet \<Rightarrow> nat \<Rightarrow> nat \<times> u64 \<Rightarrow> nat \<times> u64" where
  "csum_loop p 0 (next, csum) = (next, csum)"
| "csum_loop p (Suc nr) (next, csum) =
     (if length p < next + 2 then (next, csum)
      else csum_loop p nr (next + 2, csum + ucast (ntohs (ld16 p next))))"

definition add_addr :: "u64 \<Rightarrow> u32 \<Rightarrow> u64" where
  "add_addr csum ip_addr = csum + ucast (drop_bit 16 ip_addr + (ip_addr AND 0xffff))"

definition ipv4_l4_csum_inline :: "packet \<Rightarrow> nat \<Rightarrow> nat \<Rightarrow> u64 \<Rightarrow> u64" where
  "ipv4_l4_csum_inline p l4_hdr iph csum =
     (let csum = add_addr csum (ntohl (ld32 p (iph + 12)));
          csum = add_addr csum (ntohl (ld32 p (iph + 16)));
          csum = csum + ucast (p ! (iph + 9));
          length' = (of_nat (length p - l4_hdr) :: u16);
          csum = csum + ucast length';
          nr = unat length' div 2;
          (next, csum) = csum_loop p nr (l4_hdr, csum);
          csum = (if next \<noteq> length p \<and> l4_hdr + 1 \<le> length p
                  then csum + push_bit 8 (ucast (p ! l4_hdr)) else csum)
      in ucast (csum_fold_helper csum))"

subsection \<open>Sending a packet back\<close>

definition swap_mac :: "packet \<Rightarrow> packet" where
  "swap_mac p = fold (\<lambda>i p. let tmp = p ! (6 + i) in p[6 + i := p ! i, i := tmp]) [0 ..< 6] p"

definition swap32 :: "packet \<Rightarrow> nat \<Rightarrow> nat \<Rightarrow> packet" where
  "swap32 p i j = (let tmp = ld32 p i; p = st32 p i (ld32 p j) in st32 p j tmp)"

definition swap16 :: "packet \<Rightarrow> nat \<Rightarrow> nat \<Rightarrow> packet" where
  "swap16 p i j = (let tmp = ld16 p i; p = st16 p i (ld16 p j) in st16 p j tmp)"

definition prepare_headers_before_send :: "packet \<Rightarrow> int \<times> packet" where
  "prepare_headers_before_send p =
     (let ip = ETH_HLEN; udp = ETH_HLEN + IP_HLEN in
      if length p < udp + UDP_HLEN then (-1, p)
      else
        let p = swap_mac p;
            p = swap32 p (ip + 12) (ip + 16);
            p = swap16 p udp (udp + 2);
            new_packet_len = (of_nat (length p) :: u32);
            new_ip_len = new_packet_len - of_nat ETH_HLEN;
            new_udp_len = new_ip_len - of_nat IP_HLEN;
            p = st16 p (ip + 2) (htons (ucast new_ip_len));
            p = p[ip + 8 := 64];
            p = st16 p (ip + 6) 0;
            p = st16 p (ip + 10) 0;
            csum = ipv4_csum_inline p ip 0;
            p = st16 p (ip + 10) (htons (ucast csum));
            p = st16 p (udp + 4) (htons (ucast new_udp_len));
            p = st16 p (udp + 6) 0
        in (0, p))"

subsection \<open>The experiment protocol\<close>

record udp_packet =
  u_eth :: nat
  u_ip :: nat
  u_udp :: nat

text \<open>\<open>SERVER_PORT\<close> is set by the including program.\<close>

definition parse_headers :: "u16 \<Rightarrow> packet \<Rightarrow> udp_packet \<Rightarrow> int \<times> udp_packet" where
  "parse_headers server_port p u =
     (if length p < 14 + 20 + 8 then (1, u)
      else
        let u = u\<lparr>u_eth := 0\<rparr> in
        if ld16 p 12 \<noteq> htons ETH_P_IP then (1, u)
        else
          let u = u\<lparr>u_ip := ETH_HLEN\<rparr> in
          if p ! (u_ip u + 9) \<noteq> IPPROTO_UDP then (1, u)
          else
            let size = unat (p ! u_ip u AND 0xf) * 4;
                u = u\<lparr>u_udp := ETH_HLEN + size\<rparr>
            in if length p < u_udp u + UDP_HLEN then (1, u)
               else if ld16 p (u_udp u + 2) \<noteq> htons server_port then (1, u)
               else (0, u))"

definition swap_address :: "packet \<Rightarrow> udp_packet \<Rightarrow> packet" where
  "swap_address p u =
     (let eth = u_eth u;
          tmp32 = ld32 p (eth + 6);
          tmp16 = ld16 p (eth + 6 + 4);
          p = st32 p (eth + 6) (ld32 p eth);
          p = st16 p (eth + 6 + 4) (ld16 p eth);
          p = st32 p eth tmp32;
          p = st16 p (eth + 4) tmp16;
          p = swap32 p (u_ip u + 12) (u_ip u + 16)
      in swap16 p (u_udp u) (u_udp u + 2))"

definition update_csum :: "packet \<Rightarrow> udp_packet \<Rightarrow> packet" where
  "update_csum p u =
     (let p = st16 p (u_udp u + 6) 0;
          p = st16 p (u_ip u + 10) 0;
          csum = ipv4_csum_inline p (u_ip u) 0
      in st16 p (u_ip u + 10) (htons (ucast csum)))"

text \<open>
  \<open>adjust_tail\<close> is the kernel helper \<open>bpf_xdp_adjust_tail\<close>: from the number of bytes to add (or to
  cut, when negative) and the packet to a return code and the new packet.
\<close>

definition update_udp_pkt_with_payload ::
  "(int \<Rightarrow> packet \<Rightarrow> int \<times> packet) \<Rightarrow> packet \<Rightarrow> udp_packet \<Rightarrow> u8 list \<Rightarrow> int \<times> packet \<times> udp_packet" where
  "update_udp_pkt_with_payload adjust_tail p u val =
     (let ip_hdr_sz = unat (p ! u_ip u AND 0xf) * 4;
          header_size = ETH_HLEN + ip_hdr_sz + UDP_HLEN;
          target_size = header_size + length val;
          delta = int target_size - int (length p);
          (ret, p) = adjust_tail delta p
      in if ret \<noteq> 0 then (1, p, u)
         else
           let u = \<lparr>u_eth = 0, u_ip = ETH_HLEN, u_udp = ETH_HLEN + ip_hdr_sz\<rparr>;
               payload = u_udp u + UDP_HLEN
           in if length p < payload + length val then (1, p, u)
              else
                let p = take payload p @ val @ drop (payload + length val) p in
                if length p < u_ip u + IP_HLEN then (1, p, u)
                else
                  let p = st16 p (u_ip u + 2) (htons (of_nat (target_size - ETH_HLEN)));
                      p = st16 p (u_udp u + 4) (htons (of_nat (target_size - ETH_HLEN - ip_hdr_sz)));
                      p = swap_address p u;
                      p = update_csum p u
                  in (0, p, u))"

definition is_relevant :: "u16 \<Rightarrow> packet \<Rightarrow> bool" where
  "is_relevant server_port p \<longleftrightarrow>
     (let ip = ETH_HLEN; udp = ip + IP_HLEN in
      if length p < udp + UDP_HLEN then False
      else if ld16 p 12 \<noteq> htons ETH_P_IP then False
      else if p ! (ip + 9) \<noteq> IPPROTO_UDP then False
      else if ld16 p (udp + 2) \<noteq> htons server_port then False
      else True)"

subsection \<open>Throughput reports\<close>

record tput =
  counter :: u64
  last_report :: u64

text \<open>
  The clock is an argument. The two versions differ in the interval and in what they print: the
  counter, or thousands of packets per second.
\<close>

definition report_tput :: "u64 \<Rightarrow> u64 \<Rightarrow> tput \<Rightarrow> int \<times> u64 option \<times> tput" where
  "report_tput ts count s =
     (let s = s\<lparr>counter := counter s + count\<rparr> in
      if last_report s = 0 then (0, None, s\<lparr>last_report := ts\<rparr>)
      else
        let delta = ts - last_report s in
        if 1000000000 \<le> delta then (1, Some (counter s), \<lparr>counter = 0, last_report = ts\<rparr>)
        else (0, None, s))"

definition report_tput_batch :: "u64 \<Rightarrow> u32 \<Rightarrow> tput \<Rightarrow> u64 option \<times> tput" where
  "report_tput_batch ts cnt s =
     (let s = s\<lparr>counter := counter s + ucast cnt\<rparr> in
      if last_report s = 0 then (None, s\<lparr>last_report := ts\<rparr>)
      else
        let delta = ts - last_report s in
        if 2000000000 \<le> delta
        then let t = (counter s * 1000000) div delta in (Some t, \<lparr>counter = 0, last_report = ts\<rparr>)
        else (None, s))"

text \<open>The actions that an XDP program returns.\<close>

datatype xdp_action = XDP_ABORTED | XDP_DROP | XDP_PASS | XDP_TX

subsection \<open>Loads after stores\<close>

lemma length_st [simp]: "length (st16 p i w) = length p" "length (st32 p i v) = length p"
  by (simp_all add: st16_def st32_def)

lemma length_swap [simp]:
  "length (swap16 p i j) = length p" "length (swap32 p i j) = length p" "length (swap_mac p) = length p"
proof -
  show "length (swap16 p i j) = length p" "length (swap32 p i j) = length p"
    by (simp_all add: swap16_def swap32_def Let_def)
  have "length (fold (\<lambda>i p. let tmp = p ! (6 + i) in p[6 + i := p ! i, i := tmp]) xs p) = length p" for xs
    by (induction xs arbitrary: p) (simp_all add: Let_def)
  then show "length (swap_mac p) = length p" by (simp add: swap_mac_def)
qed

lemma le16_bytes [simp]:
  "ucast (le16 a b) = a" "ucast (drop_bit 8 (le16 a b)) = b"
  "le16 (ucast w) (ucast (drop_bit 8 w)) = w"
  by (rule word_eq_bitsI; auto simp: bit_le16 bit_simps)+

lemma le32_bytes [simp]:
  "ucast (le32 a b c d) = a" "ucast (drop_bit 8 (le32 a b c d)) = b"
  "ucast (drop_bit 16 (le32 a b c d)) = c" "ucast (drop_bit 24 (le32 a b c d)) = d"
  "le32 (ucast w) (ucast (drop_bit 8 w)) (ucast (drop_bit 16 w)) (ucast (drop_bit 24 w)) = w"
  by (rule word_eq_bitsI; auto simp: bit_le32 bit_simps)+

lemma nth_st16:
  "i + 1 < length p \<Longrightarrow>
     st16 p i w ! k = (if k = i then ucast w else if k = i + 1 then ucast (drop_bit 8 w) else p ! k)"
  by (auto simp: st16_def nth_list_update)

lemma ld16_st16 [simp]: "i + 1 < length p \<Longrightarrow> ld16 (st16 p i w) i = w"
  by (simp add: ld16_def nth_st16)

lemma ld16_st16_other:
  "i + 1 < length p \<Longrightarrow> i + 1 < k \<or> k + 1 < i \<Longrightarrow> ld16 (st16 p i w) k = ld16 p k"
  by (auto simp: ld16_def nth_st16)

lemma nth_swap16:
  assumes "i + 1 < j" and "j + 1 < length p"
  shows "swap16 p i j ! k =
     p ! (if i \<le> k \<and> k < i + 2 then k + (j - i) else if j \<le> k \<and> k < j + 2 then k - (j - i) else k)"
  using assms
  by (auto simp: swap16_def st16_def ld16_def Let_def nth_list_update less_Suc_eq numeral_2_eq_2)

lemma nth_swap32:
  assumes "i + 3 < j" and "j + 3 < length p"
  shows "swap32 p i j ! k =
     p ! (if i \<le> k \<and> k < i + 4 then k + (j - i) else if j \<le> k \<and> k < j + 4 then k - (j - i) else k)"
proof -
  have "k = i \<or> k = i + 1 \<or> k = i + 2 \<or> k = i + 3" if "i \<le> k" "k < i + 4" for i k :: nat
    using that by linarith
  note four = this
  show ?thesis
  proof (cases "i \<le> k \<and> k < i + 4")
    case True
    with four [of i k] assms show ?thesis
      by (auto simp: swap32_def st32_def ld32_def Let_def nth_list_update add.commute)
  next
    case False
    note out = this
    show ?thesis
    proof (cases "j \<le> k \<and> k < j + 4")
      case True
      with four [of j k] assms show ?thesis
        by (auto simp: swap32_def st32_def ld32_def Let_def nth_list_update add.commute)
    next
      case False
      with out assms show ?thesis
        by (auto simp: swap32_def st32_def ld32_def Let_def nth_list_update)
    qed
  qed
qed

subsection \<open>Ones' complement sums\<close>

text \<open>The folding step on natural numbers keeps the remainder modulo \<open>2 ^ 16 - 1\<close>.\<close>

definition fold_nat :: "nat \<Rightarrow> nat" where "fold_nat x = x mod 65536 + x div 65536"

lemma fold_nat_mod: "fold_nat x mod 65535 = x mod 65535"
proof -
  have "x = 65536 * (x div 65536) + x mod 65536" by simp
  then have "x = fold_nat x + 65535 * (x div 65536)"
    unfolding fold_nat_def by linarith
  then show ?thesis by (metis mod_mult_self2)
qed

lemma fold_nat_pos: "0 < x \<Longrightarrow> 0 < fold_nat x"
proof (rule ccontr)
  assume "0 < x" and "\<not> 0 < fold_nat x"
  then have "x mod 65536 = 0" "x div 65536 = 0" by (simp_all add: fold_nat_def)
  then have "65536 * (x div 65536) + x mod 65536 = 0" by (simp only: mult_0_right add_0)
  with \<open>0 < x\<close> show False by (simp only: mult_div_mod_eq less_irrefl)
qed

lemma fold_nat_le:
  assumes "x \<le> 65536 * m + 65534"
  shows "fold_nat x \<le> m + 65534"
proof -
  have x: "x = 65536 * (x div 65536) + x mod 65536" by simp
  have r: "x mod 65536 < 65536" by simp
  show ?thesis
  proof (cases "x div 65536 < m")
    case True
    with r show ?thesis unfolding fold_nat_def by linarith
  next
    case False
    with x assms have "65536 * (x div 65536) \<le> 65536 * m + 65534" by linarith
    with False have "x div 65536 = m" by linarith
    with x assms show ?thesis unfolding fold_nat_def by linarith
  qed
qed

lemma unat_fold_step: "unat (fold_step x) = fold_nat (unat x)"
proof -
  have d: "unat (drop_bit 16 x) = unat x div 65536" by (simp add: unat_drop_bit)
  have "x AND 0xffff = take_bit 16 x" by (simp add: take_bit_eq_mask mask_eq_exp_minus_1)
  then have a: "unat (x AND 0xffff) = unat x mod 65536"
    by (simp only: unsigned_take_bit_eq) (simp add: take_bit_eq_mod)
  have "unat x < 2 ^ 64" using unsigned_less [of x] by simp
  then have "unat x \<le> 65536 * 2 ^ 48 + 65534" by simp
  from fold_nat_le [OF this] have "unat x mod 65536 + unat x div 65536 < 2 ^ LENGTH(64)"
    by (simp add: fold_nat_def)
  then have "unat ((x AND 0xffff) + drop_bit 16 x) = fold_nat (unat x)"
    by (subst unat_add_no_wrap) (simp_all add: a d fold_nat_def)
  moreover have "fold_nat (unat x) = unat x" if "drop_bit 16 x = 0"
  proof -
    have "unat x div 65536 = 0" using d that by simp
    then have "unat x < 65536" by (simp add: div_eq_0_iff)
    then show ?thesis by (simp add: fold_nat_def)
  qed
  ultimately show ?thesis by (simp add: fold_step_def)
qed

lemma fold_four:
  fixes s :: u64
  defines "f \<equiv> fold_step (fold_step (fold_step (fold_step s)))"
  shows "unat f \<le> 65535" and "unat f mod 65535 = unat s mod 65535" and "s \<noteq> 0 \<Longrightarrow> 0 < unat f"
    and "s = 0 \<Longrightarrow> f = 0"
proof -
  have f: "unat f = fold_nat (fold_nat (fold_nat (fold_nat (unat s))))"
    by (simp add: f_def unat_fold_step)
  have "unat s < 2 ^ 64" using unsigned_less [of s] by simp
  then have "unat s \<le> 65536 * (2 ^ 48) + 65534" by simp
  from fold_nat_le [OF this] have "fold_nat (unat s) \<le> 65536 * 2 ^ 32 + 65534" by simp
  from fold_nat_le [OF this] have "fold_nat (fold_nat (unat s)) \<le> 65536 * 2 ^ 16 + 65534" by simp
  from fold_nat_le [OF this] have "fold_nat (fold_nat (fold_nat (unat s))) \<le> 65536 * 1 + 65534" by simp
  from fold_nat_le [OF this] show "unat f \<le> 65535" unfolding f by simp
  show "unat f mod 65535 = unat s mod 65535" by (simp only: f fold_nat_mod)
  show "0 < unat f" if "s \<noteq> 0" using that by (simp add: f fold_nat_pos unat_gt_0)
  show "f = 0" if "s = 0" using that by (simp add: f_def fold_step_def)
qed

lemma csum_fold_helper_unat:
  "unat (csum_fold_helper s) = 65535 - unat (fold_step (fold_step (fold_step (fold_step s))))"
proof -
  let ?f = "fold_step (fold_step (fold_step (fold_step s)))"
  have le: "unat ?f \<le> 65535" by (rule fold_four)
  have c: "csum_fold_helper s = NOT (ucast ?f :: u16)"
    unfolding csum_fold_helper_def by (rule word_eq_bitsI) (simp add: bit_simps)
  have "unat (ucast ?f :: u16) = unat ?f"
    using le by (intro unat_ucast_narrow) simp
  moreover have "unat (NOT x) = 65535 - unat x" for x :: u16
  proof -
    have "NOT x = - 1 - x" by (simp add: not_eq_complement)
    moreover have "x \<le> - 1" by simp
    ultimately have "unat (NOT x) = unat (- 1 :: u16) - unat x" by (simp only: unat_sub)
    moreover have "unat (- 1 :: u16) = 65535" by (simp add: unsigned_minus_1_eq_mask mask_eq_exp_minus_1)
    ultimately show ?thesis by simp
  qed
  ultimately show ?thesis by (simp only: c)
qed

lemma csum_four:
  "65535 dvd unat s + unat (csum_fold_helper s)"
  "csum_fold_helper s = 0xffff \<longleftrightarrow> s = 0"
proof -
  let ?f = "fold_step (fold_step (fold_step (fold_step s)))"
  note f = fold_four [of s] csum_fold_helper_unat [of s]
  have "(unat s + unat (csum_fold_helper s)) mod 65535
      = (unat ?f + unat (csum_fold_helper s)) mod 65535"
    using f(2) by (metis mod_add_left_eq)
  also have "unat ?f + unat (csum_fold_helper s) = 65535" using f(1,5) by simp
  finally show "65535 dvd unat s + unat (csum_fold_helper s)" by (simp add: dvd_eq_mod_eq_0)
  have "csum_fold_helper s = 0xffff \<longleftrightarrow> unat (csum_fold_helper s) = 65535"
    by (simp add: word_unat_eq_iff)
  moreover have "unat (csum_fold_helper s) = 65535 \<longleftrightarrow> s = 0"
    using f(1,3,4,5) by (cases "s = 0") auto
  ultimately show "csum_fold_helper s = 0xffff \<longleftrightarrow> s = 0" by blast
qed

text \<open>The folded checksum of any 64-bit sum is the ones' complement of the sum: the sum and its
  checksum add up to a multiple of \<open>2 ^ 16 - 1\<close>, and only an empty sum has the checksum \<open>0xffff\<close>.
  The four folding steps always suffice.\<close>

theorem csum_fold_complement:
  "65535 dvd unat s + unat (csum_fold_helper s)
   \<and> (csum_fold_helper s = 0xffff \<longleftrightarrow> s = 0)"
  using csum_four by blast

subsection \<open>The header checksum verifies\<close>

lemma csum_zero_iff: "csum_fold_helper s = 0 \<longleftrightarrow> s \<noteq> 0 \<and> 65535 dvd unat s"
proof -
  let ?f = "fold_step (fold_step (fold_step (fold_step s)))"
  note f = fold_four [of s]
  have "csum_fold_helper s = 0 \<longleftrightarrow> 65535 - unat ?f = 0"
    by (simp only: csum_fold_helper_unat [symmetric] unat_eq_0)
  also have "\<dots> \<longleftrightarrow> unat ?f = 65535" using f(1) by linarith
  also have "\<dots> \<longleftrightarrow> s \<noteq> 0 \<and> 65535 dvd unat s"
  proof
    assume "unat ?f = 65535"
    with f(2,4) show "s \<noteq> 0 \<and> 65535 dvd unat s" by (auto simp: dvd_eq_mod_eq_0)
  next
    assume a: "s \<noteq> 0 \<and> 65535 dvd unat s"
    then have "65535 dvd unat ?f" using f(2) by (simp add: dvd_eq_mod_eq_0)
    moreover have "0 < unat ?f" using a f(3) by blast
    ultimately have "65535 \<le> unat ?f" by (simp add: dvd_imp_le)
    with f(1) show "unat ?f = 65535" by simp
  qed
  finally show ?thesis .
qed

definition hword :: "packet \<Rightarrow> nat \<Rightarrow> nat \<Rightarrow> nat" where
  "hword p iph i = unat (ntohs (ld16 p (iph + 2 * i)))"

lemma hword_bound: "hword p iph i \<le> 65535"
  using unat_bound [of "ntohs (ld16 p (iph + 2 * i))"] by (simp add: hword_def)

lemma unat_fold_sum:
  assumes "unat c + 65535 * length xs < 2 ^ 64"
  shows "unat (fold (\<lambda>i (csum :: u64). csum + ucast (ntohs (ld16 p (iph + 2 * i)))) xs c)
    = unat c + sum_list (map (hword p iph) xs)"
  using assms
proof (induction xs arbitrary: c)
  case (Cons x xs)
  have u: "unat (ucast (ntohs (ld16 p (iph + 2 * x))) :: u64) = hword p iph x"
    unfolding hword_def by (rule unat_ucast_widen) simp
  have "unat (c + ucast (ntohs (ld16 p (iph + 2 * x)))) = unat c + hword p iph x"
    using Cons.prems hword_bound [of p iph x] by (subst unat_add_no_wrap) (simp_all add: u)
  with Cons.IH [of "c + ucast (ntohs (ld16 p (iph + 2 * x)))"] Cons.prems hword_bound [of p iph x]
  show ?case by simp
qed simp

lemma unat_ipv4_sum: "unat (ipv4_sum p iph 0) = (\<Sum>i < 10. hword p iph i)"
proof -
  have "unat (ipv4_sum p iph 0) = sum_list (map (hword p iph) [0 ..< 10])"
    unfolding ipv4_sum_def IP_HLEN_def by (subst unat_fold_sum) simp_all
  also have "\<dots> = (\<Sum>i < 10. hword p iph i)"
    by (simp add: sum_list_distinct_conv_sum_set atLeast0LessThan)
  finally show ?thesis .
qed

text \<open>Filling in the checksum of a header whose checksum field was zeroed makes it verify.\<close>

lemma checksum_verifies:
  assumes l: "iph + 20 \<le> length p" and z: "ld16 p (iph + 10) = 0"
  defines "q \<equiv> st16 p (iph + 10) (htons (ucast (ipv4_csum_inline p iph 0)))"
  shows "ipv4_csum_inline q iph 0 = 0"
proof -
  let ?c = "csum_fold_helper (ipv4_sum p iph 0)"
  have c: "ucast (ipv4_csum_inline p iph 0) = ?c"
    by (rule word_eq_bitsI) (simp add: ipv4_csum_inline_def bit_simps)
  have h5: "hword q iph 5 = unat ?c"
    using l by (simp add: q_def hword_def c)
  have hi: "hword q iph i = hword p iph i" if "i \<noteq> 5" for i
    using l that unfolding q_def hword_def by (subst ld16_st16_other) auto
  have p5: "hword p iph 5 = 0" using z by (simp add: hword_def bswap16_def)
  have split: "(\<Sum>i < 10. hword r iph i) = hword r iph 5 + (\<Sum>i \<in> {..<10} - {5}. hword r iph i)" for r
    by (rule sum.remove) simp_all
  have "(\<Sum>i < 10. hword q iph i) = unat ?c + (\<Sum>i < 10. hword p iph i)"
    unfolding split [of q] split [of p] using hi by (simp add: h5 p5)
  then have s: "unat (ipv4_sum q iph 0) = unat (ipv4_sum p iph 0) + unat ?c"
    by (simp add: unat_ipv4_sum)
  note comp = csum_four [of "ipv4_sum p iph 0"]
  have "65535 dvd unat (ipv4_sum q iph 0)" unfolding s by (rule comp(1))
  moreover have "ipv4_sum q iph 0 \<noteq> 0"
  proof
    assume "ipv4_sum q iph 0 = 0"
    then have "unat (ipv4_sum p iph 0) = 0" "unat ?c = 0" using s by simp_all
    with comp(2) show False by (simp add: unat_eq_0)
  qed
  ultimately have "csum_fold_helper (ipv4_sum q iph 0) = 0" by (simp add: csum_zero_iff)
  then show ?thesis by (simp add: ipv4_csum_inline_def)
qed

subsection \<open>Sending a packet back\<close>

lemma swap_mac_split:
  assumes "12 \<le> length p"
  shows "swap_mac p = take 6 (drop 6 p) @ take 6 p @ drop 12 p"
proof -
  from assms obtain a0 a1 a2 a3 a4 a5 b0 b1 b2 b3 b4 b5 r where
    "p = [a0, a1, a2, a3, a4, a5, b0, b1, b2, b3, b4, b5] @ r"
    by (auto simp: Suc_le_length_iff numeral_eq_Suc)
  then show ?thesis by (simp add: swap_mac_def Let_def upt_rec numeral_eq_Suc)
qed

lemma nth_swap_mac:
  assumes "12 \<le> length p" and "k < length p"
  shows "swap_mac p ! k = p ! (if k < 6 then k + 6 else if k < 12 then k - 6 else k)"
proof -
  have l: "length (take 6 (drop 6 p)) = 6" "length (take 6 p) = 6" using assms by simp_all
  show ?thesis
    unfolding swap_mac_split [OF assms(1)] nth_append l using assms by (auto simp: add.commute)
qed

text \<open>The packet after the three swaps and with the fields before the checksum.\<close>

definition swapped :: "packet \<Rightarrow> packet" where
  "swapped p = swap16 (swap32 (swap_mac p) 26 30) 34 36"

lemma length_swapped [simp]: "length (swapped p) = length p"
  by (simp add: swapped_def)

lemma nth_swap_addr_ports:
  assumes "42 \<le> length p"
  shows "swap16 (swap32 p 26 30) 34 36 ! k = p ! (if 26 \<le> k \<and> k < 30 then k + 4
    else if 30 \<le> k \<and> k < 34 then k - 4 else if 34 \<le> k \<and> k < 36 then k + 2
    else if 36 \<le> k \<and> k < 38 then k - 2 else k)"
proof -
  define g32 where "g32 k = (if 26 \<le> k \<and> k < 30 then k + 4 else if 30 \<le> k \<and> k < 34 then k - 4 else k)"
    for k :: nat
  define g16 where "g16 k = (if 34 \<le> k \<and> k < 36 then k + 2 else if 36 \<le> k \<and> k < 38 then k - 2 else k)"
    for k :: nat
  have w: "swap32 p 26 30 ! k = p ! g32 k" for k
    using nth_swap32 [of 26 30 p k] assms by (simp add: g32_def)
  have h: "swap16 (swap32 p 26 30) 34 36 ! k = swap32 p 26 30 ! g16 k"
    using nth_swap16 [of 34 36 "swap32 p 26 30" k] assms by (simp add: g16_def)
  have "g32 (g16 k) = (if 26 \<le> k \<and> k < 30 then k + 4
    else if 30 \<le> k \<and> k < 34 then k - 4 else if 34 \<le> k \<and> k < 36 then k + 2
    else if 36 \<le> k \<and> k < 38 then k - 2 else k)"
    unfolding g32_def g16_def by auto
  then show ?thesis by (simp only: h w)
qed

lemma nth_swapped:
  assumes "42 \<le> length p" and "k < length p"
  shows "swapped p ! k = p ! (if k < 6 then k + 6 else if k < 12 then k - 6
    else if 26 \<le> k \<and> k < 30 then k + 4 else if 30 \<le> k \<and> k < 34 then k - 4
    else if 34 \<le> k \<and> k < 36 then k + 2 else if 36 \<le> k \<and> k < 38 then k - 2 else k)"
proof -
  define g where "g k = (if 26 \<le> k \<and> k < 30 then k + 4
    else if 30 \<le> k \<and> k < 34 then k - 4 else if 34 \<le> k \<and> k < 36 then k + 2
    else if 36 \<le> k \<and> k < 38 then k - 2 else k)" for k :: nat
  have s: "swapped p ! k = swap_mac p ! g k"
    using nth_swap_addr_ports [of "swap_mac p" k] assms(1) by (simp add: swapped_def g_def)
  have "g k < length p" using assms by (auto simp: g_def)
  then show ?thesis unfolding s using assms(1) by (subst nth_swap_mac) (auto simp: g_def)
qed

definition with_lengths :: "packet \<Rightarrow> packet" where
  "with_lengths p =
     st16 (st16 ((st16 (swapped p) 16 (htons (ucast (of_nat (length p) - 14 :: u32))))[22 := 64]) 20 0) 24 0"

lemma prepare_unfold:
  assumes "42 \<le> length p"
  shows "prepare_headers_before_send p =
    (0, st16 (st16 (st16 (with_lengths p) 24 (htons (ucast (ipv4_csum_inline (with_lengths p) 14 0)))) 38
          (htons (ucast (of_nat (length p) - 14 - 20 :: u32)))) 40 0)"
  using assms by (simp add: prepare_headers_before_send_def hlen_defs with_lengths_def swapped_def Let_def)

lemma with_lengths_nth:
  assumes "42 \<le> length p" and "k < length p" and "k \<notin> {16, 17, 20, 21, 22, 24, 25}"
  shows "with_lengths p ! k = swapped p ! k"
  using assms by (simp add: with_lengths_def nth_st16 nth_list_update)

lemma length_with_lengths [simp]: "length (with_lengths p) = length p"
  by (simp add: with_lengths_def)

lemma prepare_nth:
  assumes "42 \<le> length p" and "k < length p" and "k \<notin> {16, 17, 20, 21, 22, 24, 25, 38, 39, 40, 41}"
    and "prepare_headers_before_send p = (r, q)"
  shows "q ! k = swapped p ! k"
  using assms(4) assms(1-3)
  by (simp add: prepare_unfold [OF assms(1)]) (auto simp: nth_st16 with_lengths_nth)

lemma unat_lengths:
  assumes l: "42 \<le> length p" and "length p < 2 ^ 16"
  shows "unat (ucast (of_nat (length p) - 14 :: u32) :: u16) = length p - 14"
    "unat (ucast (of_nat (length p) - 14 - 20 :: u32) :: u16) = length p - 34"
proof -
  have u: "unat (of_nat (length p) :: u32) = length p"
    by (rule unat_of_nat_small) (use assms in simp)
  have "unat (14 :: u32) \<le> unat (of_nat (length p) :: u32)" using l by (simp add: u)
  then have a: "unat (of_nat (length p) - 14 :: u32) = length p - 14"
    by (simp add: unat_sub word_le_nat_alt u)
  then have "unat (20 :: u32) \<le> unat (of_nat (length p) - 14 :: u32)" using l by simp
  then have b: "unat (of_nat (length p) - 14 - 20 :: u32) = length p - 34"
    by (simp only: unat_sub word_le_nat_alt a) simp
  have n: "unat (ucast y :: u16) = unat y" if "unat y < 65536" for y :: u32
    by (rule unat_ucast_narrow) (use that in simp)
  show "unat (ucast (of_nat (length p) - 14 :: u32) :: u16) = length p - 14"
    using n [of "of_nat (length p) - 14"] assms unfolding a by simp
  show "unat (ucast (of_nat (length p) - 14 - 20 :: u32) :: u16) = length p - 34"
    using n [of "of_nat (length p) - 14 - 20"] assms unfolding b by simp
qed

lemma prepare_headers_spec:
  assumes "length p < 2 ^ 16"
  shows "if length p < 42 then prepare_headers_before_send p = (-1, p)
    else \<exists>q. prepare_headers_before_send p = (0, q) \<and> length q = length p \<and> drop 42 q = drop 42 p
      \<and> take 6 q = take 6 (drop 6 p) \<and> take 6 (drop 6 q) = take 6 p
      \<and> ld32 q 26 = ld32 p 30 \<and> ld32 q 30 = ld32 p 26
      \<and> ld16 q 34 = ld16 p 36 \<and> ld16 q 36 = ld16 p 34
      \<and> unat (ntohs (ld16 q 16)) = length p - 14 \<and> unat (ntohs (ld16 q 38)) = length p - 34
      \<and> ipv4_csum_inline q 14 0 = 0"
proof (cases "length p < 42")
  case True
  then show ?thesis by (simp add: prepare_headers_before_send_def hlen_defs)
next
  case False
  then have l: "42 \<le> length p" by simp
  let ?w = "with_lengths p"
  let ?c = "st16 ?w 24 (htons (ucast (ipv4_csum_inline ?w 14 0)))"
  obtain q where q: "prepare_headers_before_send p = (0, q)"
    and qq: "q = st16 (st16 ?c 38 (htons (ucast (of_nat (length p) - 14 - 20 :: u32)))) 40 0"
    by (simp add: prepare_unfold [OF l])
  have lq: "length q = length p" by (simp add: qq)
  have nth: "q ! k = swapped p ! k"
    if "k < length p" "k \<notin> {16, 17, 20, 21, 22, 24, 25, 38, 39, 40, 41}" for k
    using prepare_nth [OF l that q] .
  note sw = nth_swapped [OF l]
  note lens = unat_lengths [OF l assms]
  have "drop 42 q = drop 42 p"
    by (rule nth_equalityI) (simp_all add: lq nth sw)
  moreover have "take 6 q = take 6 (drop 6 p)"
    by (rule nth_equalityI) (use l in \<open>auto simp: lq nth sw add.commute\<close>)
  moreover have "take 6 (drop 6 q) = take 6 p"
    by (rule nth_equalityI) (use l in \<open>auto simp: lq nth sw\<close>)
  moreover have "ld32 q 26 = ld32 p 30" "ld32 q 30 = ld32 p 26" "ld16 q 34 = ld16 p 36" "ld16 q 36 = ld16 p 34"
    using l by (simp_all add: ld32_def ld16_def nth sw)
  moreover have "unat (ntohs (ld16 q 16)) = length p - 14"
    using l unfolding qq by (simp add: ld16_st16_other with_lengths_def lens ld16_def [of "list_update _ _ _"] nth_st16)
  moreover have "unat (ntohs (ld16 q 38)) = length p - 34"
  proof -
    have "ld16 q 38 = htons (ucast (of_nat (length p) - 14 - 20 :: u32))"
      unfolding qq by (subst ld16_st16_other) (use l in \<open>simp_all\<close>)
    then show ?thesis by (simp only: bswap16_bswap16 lens)
  qed
  moreover have "ipv4_csum_inline q 14 0 = 0"
  proof -
    have z: "ld16 ?w 24 = 0" using l by (simp add: with_lengths_def)
    have "ipv4_csum_inline ?c 14 0 = 0"
      using checksum_verifies [of 14 ?w] l z by simp
    moreover have "hword q 14 i = hword ?c 14 i" if "i < 10" for i
      using l that unfolding qq hword_def by (simp add: ld16_st16_other)
    then have "unat (ipv4_sum q 14 0) = unat (ipv4_sum ?c 14 0)"
      unfolding unat_ipv4_sum by (intro sum.cong) auto
    then have "ipv4_sum q 14 0 = ipv4_sum ?c 14 0" by (rule unat_eqI)
    ultimately show ?thesis by (simp only: ipv4_csum_inline_def)
  qed
  ultimately show ?thesis using q lq l by auto
qed

text \<open>A packet that is sent back: a packet too short for the headers is refused. Otherwise its
  length and payload are kept, the hardware addresses, the IP addresses and the ports change sides,
  the two length fields say how long the packet is, and the header checksum verifies.\<close>

theorem prepare_headers_correct:
  assumes "length p < 2 ^ 16"
  shows "if length p < 42 then prepare_headers_before_send p = (-1, p)
    else \<exists>q. prepare_headers_before_send p = (0, q) \<and> length q = length p \<and> drop 42 q = drop 42 p
      \<and> take 6 q = take 6 (drop 6 p) \<and> take 6 (drop 6 q) = take 6 p
      \<and> ld32 q 26 = ld32 p 30 \<and> ld32 q 30 = ld32 p 26
      \<and> ld16 q 34 = ld16 p 36 \<and> ld16 q 36 = ld16 p 34
      \<and> unat (ntohs (ld16 q 16)) = length p - 14 \<and> unat (ntohs (ld16 q 38)) = length p - 34
      \<and> ipv4_csum_inline q 14 0 = 0"
  using assms by (rule prepare_headers_spec)

theorem prepare_headers_correct_witness:
  "\<exists>q. prepare_headers_before_send (replicate 46 7) = (0, q) \<and> length q = 46
     \<and> unat (ntohs (ld16 q 16)) = 32 \<and> ipv4_csum_inline q 14 0 = 0"
  using prepare_headers_correct [of "replicate 46 7"] by auto

subsection \<open>The experiment protocol\<close>

text \<open>The two tests for a packet of the experiment agree on packets without IP options, and the
  parser then finds the UDP header behind the 20 bytes of the IP header.\<close>

theorem parse_headers_is_relevant:
  assumes "p ! 14 AND 0xf = 5"
  shows "(fst (parse_headers port p u) = 0 \<longleftrightarrow> is_relevant port p)
    \<and> (is_relevant port p \<longrightarrow> snd (parse_headers port p u) = \<lparr>u_eth = 0, u_ip = 14, u_udp = 34\<rparr>)"
  using assms by (auto simp: parse_headers_def is_relevant_def hlen_defs Let_def)

definition udp_ex :: packet where
  "udp_ex = [1, 1, 1, 1, 1, 1, 2, 2, 2, 2, 2, 2, 8, 0, 0x45, 0, 0, 32, 0, 0, 0, 0, 64, 17, 0, 0,
     10, 0, 0, 1, 10, 0, 0, 2, 0, 9, 0x1f, 0x40, 0, 12, 0, 0, 65, 66, 67, 68]"

theorem parse_headers_is_relevant_witness:
  "fst (parse_headers 8000 udp_ex \<lparr>u_eth = 0, u_ip = 0, u_udp = 0\<rparr>) = 0
     \<longleftrightarrow> is_relevant 8000 udp_ex"
  using parse_headers_is_relevant [of udp_ex 8000] by (simp add: udp_ex_def)

lemma udp_ex_relevant: "is_relevant 8000 udp_ex"
  by (simp add: is_relevant_def hlen_defs udp_ex_def ld16_def le16_def ETH_P_IP_def bswap16_def IPPROTO_UDP_def)

lemma nth_st32:
  "i + 3 < length p \<Longrightarrow> st32 p i w ! k = (if k = i then ucast w else if k = i + 1 then ucast (drop_bit 8 w)
     else if k = i + 2 then ucast (drop_bit 16 w) else if k = i + 3 then ucast (drop_bit 24 w) else p ! k)"
  by (auto simp: st32_def nth_list_update)

text \<open>The packet after the swap of the hardware addresses.\<close>

definition swapped_mac :: "packet \<Rightarrow> packet" where
  "swapped_mac p = st16 (st32 (st16 (st32 p 6 (ld32 p 0)) 10 (ld16 (st32 p 6 (ld32 p 0)) 0)) 0 (ld32 p 6)) 4
     (ld16 p 10)"

lemma nth_swapped_mac:
  assumes "42 \<le> length p"
  shows "swapped_mac p ! k = p ! (if k < 6 then k + 6 else if k < 10 then k - 6
    else if k < 12 then k - 10 else k)"
proof -
  have small: "k \<in> {0, 1, 2, 3, 4, 5, 6, 7, 8, 9, 10, 11}" if "k < 12"
    using that by (auto simp: numeral_eq_Suc less_Suc_eq)
  show ?thesis
  proof (cases "k < 12")
    case True
    from small [OF True] assms show ?thesis
      by (elim insertE emptyE) (simp_all add: swapped_mac_def nth_st16 nth_st32 ld16_def ld32_def
          numeral_2_eq_2)
  next
    case False
    with assms show ?thesis by (simp add: swapped_mac_def nth_st16 nth_st32)
  qed
qed

lemma length_swapped_mac [simp]: "length (swapped_mac p) = length p"
  by (simp add: swapped_mac_def)

lemma swap_address_eq:
  "swap_address p \<lparr>u_eth = 0, u_ip = 14, u_udp = ud\<rparr> = swap16 (swap32 (swapped_mac p) 26 30) ud (ud + 2)"
  by (simp add: swap_address_def swapped_mac_def Let_def)

text \<open>Swapping the addresses: the IP addresses and ports change sides and the destination
  address becomes the old source; but the last two bytes of the new source address are the first
  two of the old destination address, so that swapping twice does not restore a packet.\<close>

theorem swap_address_spec:
  assumes "42 \<le> length p" and "u = \<lparr>u_eth = 0, u_ip = 14, u_udp = 34\<rparr>"
  shows "let q = swap_address p u in length q = length p
    \<and> (\<forall>k < 6. q ! k = p ! (6 + k))
    \<and> (\<forall>k < 4. q ! (6 + k) = p ! k) \<and> q ! 10 = p ! 0 \<and> q ! 11 = p ! 1
    \<and> ld32 q 26 = ld32 p 30 \<and> ld32 q 30 = ld32 p 26
    \<and> ld16 q 34 = ld16 p 36 \<and> ld16 q 36 = ld16 p 34"
proof -
  have q: "swap_address p u ! k = swapped_mac p ! (if 26 \<le> k \<and> k < 30 then k + 4
      else if 30 \<le> k \<and> k < 34 then k - 4 else if 34 \<le> k \<and> k < 36 then k + 2
      else if 36 \<le> k \<and> k < 38 then k - 2 else k)" for k
    using nth_swap_addr_ports [of "swapped_mac p" k] assms by (simp add: swap_address_eq)
  have "length (swap_address p u) = length p" by (simp add: assms(2) swap_address_eq)
  then show ?thesis
    using assms(1) by (simp add: Let_def q nth_swapped_mac ld32_def ld16_def add.commute)
qed

theorem swap_address_spec_witness:
  "let q = swap_address udp_ex \<lparr>u_eth = 0, u_ip = 14, u_udp = 34\<rparr> in length q = 46
    \<and> ld32 q 26 = ld32 udp_ex 30 \<and> q ! 10 = udp_ex ! 0"
  using swap_address_spec [of udp_ex "\<lparr>u_eth = 0, u_ip = 14, u_udp = 34\<rparr>"]
  by (simp add: Let_def) (simp add: udp_ex_def)

lemma length_update_csum [simp]: "length (update_csum p u) = length p"
  by (simp add: update_csum_def Let_def)

lemma update_csum_nth:
  assumes "42 \<le> length p" and "k \<notin> {24, 25, 40, 41}"
  shows "update_csum p \<lparr>u_eth = 0, u_ip = 14, u_udp = 34\<rparr> ! k = p ! k"
  using assms by (simp add: update_csum_def Let_def nth_st16)

lemma update_csum_verifies:
  assumes "42 \<le> length p"
  shows "ipv4_csum_inline (update_csum p \<lparr>u_eth = 0, u_ip = 14, u_udp = 34\<rparr>) 14 0 = 0"
  using checksum_verifies [of 14 "st16 (st16 p 40 0) 24 0"] assms
  by (simp add: update_csum_def Let_def)

lemma swap_address_nth:
  assumes "42 \<le> length p"
  shows "swap_address p \<lparr>u_eth = 0, u_ip = 14, u_udp = 34\<rparr> ! k = swapped_mac p ! (if 26 \<le> k \<and> k < 30 then k + 4
      else if 30 \<le> k \<and> k < 34 then k - 4 else if 34 \<le> k \<and> k < 36 then k + 2
      else if 36 \<le> k \<and> k < 38 then k - 2 else k)"
  using nth_swap_addr_ports [of "swapped_mac p" k] assms by (simp add: swap_address_eq)

text \<open>
  What \<open>bpf_xdp_adjust_tail\<close> promises: when it succeeds the packet has the new length and keeps the
  bytes that are in both.
\<close>

definition tail_contract :: "(int \<Rightarrow> packet \<Rightarrow> int \<times> packet) \<Rightarrow> bool" where
  "tail_contract adjust_tail \<longleftrightarrow> (\<forall>d p q. adjust_tail d p = (0, q) \<longrightarrow>
     int (length q) = int (length p) + d \<and> (\<forall>k. k < length p \<and> k < length q \<longrightarrow> q ! k = p ! k))"

lemma update_udp_payload:
  assumes tail: "tail_contract adj" and u: "u = \<lparr>u_eth = 0, u_ip = 14, u_udp = 34\<rparr>"
    and ihl: "p ! 14 AND 0xf = 5" and len: "42 \<le> length p" and small: "42 + length val < 2 ^ 16"
  shows "case update_udp_pkt_with_payload adj p u val of (r, q, u') \<Rightarrow>
    if fst (adj (42 + int (length val) - int (length p)) p) \<noteq> 0 then r = 1
    else r = 0 \<and> length q = 42 + length val \<and> drop 42 q = val
      \<and> ld32 q 26 = ld32 p 30 \<and> ld32 q 30 = ld32 p 26 \<and> ld16 q 34 = ld16 p 36 \<and> ld16 q 36 = ld16 p 34
      \<and> unat (ntohs (ld16 q 16)) = 28 + length val \<and> unat (ntohs (ld16 q 38)) = 8 + length val
      \<and> ld16 q 40 = 0 \<and> ipv4_csum_inline q 14 0 = 0"
proof -
  obtain r p1 where a: "adj (42 + int (length val) - int (length p)) p = (r, p1)" by fastforce
  have ih: "unat (p ! 14 AND 0xf) = 5" using ihl by simp
  show ?thesis
  proof (cases "r = 0")
    case False
    with a ih show ?thesis
      by (simp add: update_udp_pkt_with_payload_def hlen_defs u Let_def)
  next
    case True
    with a tail have c: "int (length p1) = int (length p) + (42 + int (length val) - int (length p))"
      "\<forall>k. k < length p \<and> k < length p1 \<longrightarrow> p1 ! k = p ! k"
      unfolding tail_contract_def by blast+
    from c(1) have l1: "length p1 = 42 + length val" by simp
    with c(2) len have same: "p1 ! k = p ! k" if "k < 42" for k using that by simp
    define B where "B = take 42 p1 @ val @ drop (42 + length val) p1"
    define w1 w2 :: u16 where "w1 = of_nat (28 + length val)" and "w2 = of_nat (8 + length val)"
    define S where "S = st16 (st16 B 16 (htons w1)) 38 (htons w2)"
    define q where "q = update_csum (swap_address S u) u"
    have lB: "length B = 42 + length val" using l1 by (simp add: B_def)
    have b: "B ! k = p ! k" if "k < 42" for k using l1 same that by (simp add: B_def nth_append)
    have bv: "B ! (42 + k) = val ! k" if "k < length val" for k
      using l1 that by (simp add: B_def nth_append)
    have lS: "length S = 42 + length val" by (simp add: S_def lB)
    have lsw: "length (swap_address S u) = 42 + length val" by (simp add: u swap_address_eq lS)
    have lq: "length q = 42 + length val" by (simp add: q_def lsw)
    have res: "update_udp_pkt_with_payload adj p u val = (0, q, u)"
      using a True ih l1
      by (simp add: update_udp_pkt_with_payload_def hlen_defs u Let_def q_def S_def B_def w1_def w2_def)
    have q: "q ! k = swapped_mac S ! (if 26 \<le> k \<and> k < 30 then k + 4
      else if 30 \<le> k \<and> k < 34 then k - 4 else if 34 \<le> k \<and> k < 36 then k + 2
      else if 36 \<le> k \<and> k < 38 then k - 2 else k)" if "k \<notin> {24, 25, 40, 41}" for k
    proof -
      have "q ! k = swap_address S u ! k"
        unfolding u q_def by (rule update_csum_nth) (use lsw u that in simp_all)
      also have "\<dots> = swapped_mac S ! (if 26 \<le> k \<and> k < 30 then k + 4
        else if 30 \<le> k \<and> k < 34 then k - 4 else if 34 \<le> k \<and> k < 36 then k + 2
        else if 36 \<le> k \<and> k < 38 then k - 2 else k)"
        unfolding u by (rule swap_address_nth) (simp add: lS)
      finally show ?thesis .
    qed
    have m: "swapped_mac S ! k = S ! k" if "12 \<le> k" for k
      using nth_swapped_mac [of S k] lS that by simp
    have s: "S ! k = B ! k" if "k \<notin> {16, 17, 38, 39}" for k
      using that lB by (simp add: S_def nth_st16)
    have head: "ld32 q 26 = ld32 p 30" "ld32 q 30 = ld32 p 26" "ld16 q 34 = ld16 p 36" "ld16 q 36 = ld16 p 34"
      by (simp_all add: ld32_def ld16_def q m s b)
    have w: "ld16 q k = ld16 S k" if "k \<in> {16, 38}" for k
      using that by (auto simp: ld16_def q m)
    have f1: "ld16 q 16 = htons w1" "ld16 q 38 = htons w2"
      using lB by (simp_all add: w S_def ld16_st16_other)
    have f2: "ld16 q 40 = 0"
      using lsw u by (simp add: q_def update_csum_def Let_def ld16_st16_other)
    have f3: "ipv4_csum_inline q 14 0 = 0"
      unfolding u q_def by (rule update_csum_verifies) (use lsw u in simp)
    have pay: "drop 42 q = val"
      by (rule nth_equalityI) (simp_all add: lq q m s bv)
    have ws: "unat w1 = 28 + length val" "unat w2 = 8 + length val"
      unfolding w1_def w2_def by (rule unat_of_nat_small, use small in simp)+
    show ?thesis
      unfolding res using a True lq pay head f1 f2 f3 ws by simp
  qed
qed

text \<open>A reply with a payload: unless the kernel refuses to change the length, the packet becomes the
  headers and exactly the payload, the length fields fit, the addresses and the ports change sides,
  there is no UDP checksum, and the header checksum verifies.\<close>

theorem update_udp_payload_spec:
  assumes tail: "tail_contract adj" and u: "u = \<lparr>u_eth = 0, u_ip = 14, u_udp = 34\<rparr>"
    and ihl: "p ! 14 AND 0xf = 5" and len: "42 \<le> length p" and small: "42 + length val < 2 ^ 16"
  shows "case update_udp_pkt_with_payload adj p u val of (r, q, u') \<Rightarrow>
    if fst (adj (42 + int (length val) - int (length p)) p) \<noteq> 0 then r = 1
    else r = 0 \<and> length q = 42 + length val \<and> drop 42 q = val
      \<and> ld32 q 26 = ld32 p 30 \<and> ld32 q 30 = ld32 p 26 \<and> ld16 q 34 = ld16 p 36 \<and> ld16 q 36 = ld16 p 34
      \<and> unat (ntohs (ld16 q 16)) = 28 + length val \<and> unat (ntohs (ld16 q 38)) = 8 + length val
      \<and> ld16 q 40 = 0 \<and> ipv4_csum_inline q 14 0 = 0"
  using assms by (rule update_udp_payload)

definition cut_or_pad :: "int \<Rightarrow> packet \<Rightarrow> int \<times> packet" where
  "cut_or_pad d p = (if int (length p) + d < 0 then (-1, p)
     else (0, take (nat (int (length p) + d)) p @ replicate (nat d) 0))"

lemma cut_or_pad_contract: "tail_contract cut_or_pad"
  by (auto simp: tail_contract_def cut_or_pad_def nth_append min_def split: if_splits)

theorem update_udp_payload_spec_witness:
  "case update_udp_pkt_with_payload cut_or_pad udp_ex \<lparr>u_eth = 0, u_ip = 14, u_udp = 34\<rparr> [1, 2] of (r, q, u') \<Rightarrow>
     r = 0 \<and> drop 42 q = [1, 2] \<and> ipv4_csum_inline q 14 0 = 0"
  using update_udp_payload_spec [OF cut_or_pad_contract refl, of udp_ex "[1, 2]"]
  by (simp add: udp_ex_def cut_or_pad_def split: prod.splits)

subsection \<open>The checksum of the segment\<close>

lemma csum_loop_cong:
  assumes "\<forall>k. next \<le> k \<and> k < next + 2 * n \<longrightarrow> p ! k = q ! k" and "length p = length q"
  shows "csum_loop p n (next, c) = csum_loop q n (next, c)"
  using assms
proof (induction n arbitrary: "next" c)
  case (Suc n)
  have "ld16 p next = ld16 q next" using Suc.prems(1) by (simp add: ld16_def)
  moreover have "csum_loop p n (next + 2, c') = csum_loop q n (next + 2, c')" for c'
    by (rule Suc.IH) (use Suc.prems in auto)
  ultimately show ?case using Suc.prems(2) by simp
qed simp

text \<open>The checksum over a UDP segment of odd length does not depend on its last byte: the loop leaves
  the byte out and the code after it adds the first byte of the segment instead.\<close>

theorem l4_csum_ignores_last_byte:
  assumes "odd (length p - l4)" and "iph + 20 \<le> l4" and "l4 + 3 \<le> length p" and "length p - l4 < 2 ^ 16"
  shows "ipv4_l4_csum_inline (p[length p - 1 := b]) l4 iph c = ipv4_l4_csum_inline p l4 iph c"
proof -
  let ?q = "p[length p - 1 := b]" and ?l = "of_nat (length p - l4) :: u16"
  have same: "?q ! k = p ! k" if "k < length p - 1" for k
    using that by simp
  have u: "unat ?l = length p - l4" by (rule unat_of_nat_small) (use assms in simp)
  have two: "2 * ((length p - l4) div 2) = length p - l4 - 1"
    using assms(1) by (simp add: odd_two_times_div_two_nat)
  have "csum_loop ?q (unat ?l div 2) (l4, c') = csum_loop p (unat ?l div 2) (l4, c')" for c'
    by (rule csum_loop_cong) (use assms two same u in auto)
  moreover have "ld32 ?q (iph + 12) = ld32 p (iph + 12)" "ld32 ?q (iph + 16) = ld32 p (iph + 16)"
    using assms by (simp_all add: ld32_def same)
  moreover have "?q ! (iph + 9) = p ! (iph + 9)" "?q ! l4 = p ! l4"
    using assms by (simp_all add: same)
  ultimately show ?thesis
    unfolding ipv4_l4_csum_inline_def Let_def length_list_update by (simp only:)
qed

theorem l4_csum_ignores_last_byte_witness:
  "ipv4_l4_csum_inline (udp_ex @ [1]) 34 14 0 = ipv4_l4_csum_inline (udp_ex @ [2]) 34 14 0"
  using l4_csum_ignores_last_byte [of "udp_ex @ [1]" 34 14 2 0]
  by (simp add: udp_ex_def)

end
