(* ===== verification/Prio_Buffer.thy ===== *)
theory Prio_Buffer
  imports Prelude "HOL-Library.Multiset"
begin

text \<open>
  The buffer of the distinct-elements sketch as an interface: what the sketch relies on in the treap.
  The content of a buffer is a multiset of keys with priorities. \<open>shallow\<close> says that a search
  of the buffer is not cut off by the bound on the height.
\<close>

type_synonym entries = "(u32 \<times> u32) multiset"

definition distinct_keys :: "entries \<Rightarrow> bool" where
  "distinct_keys M \<longleftrightarrow> (\<forall>k. count (image_mset fst M) k \<le> 1)"

definition without :: "u32 \<Rightarrow> entries \<Rightarrow> entries" where
  "without k M = filter_mset (\<lambda>x. fst x \<noteq> k) M"

text \<open>
  One step of the sketch on the abstract buffer: the entry of the key is removed, and the key comes
  back with its random priority unless the priority is above the threshold; a full buffer
  gives up its maximum and lowers the threshold to it, or to the priority of the key if that is larger.
\<close>

inductive sketch_step :: "nat \<Rightarrow> entries \<times> u32 \<Rightarrow> u32 \<Rightarrow> u32 \<Rightarrow> entries \<times> u32 \<Rightarrow> bool" for cap where
  skip: "p < u \<Longrightarrow> sketch_step cap (M, p) k u (without k M, p)"
| add: "u \<le> p \<Longrightarrow> size (without k M) < cap
    \<Longrightarrow> sketch_step cap (M, p) k u (add_mset (k, u) (without k M), p)"
| lower: "u \<le> p \<Longrightarrow> size (without k M) = cap \<Longrightarrow> \<forall>x \<in># without k M. snd x < u
    \<Longrightarrow> sketch_step cap (M, p) k u (without k M, u)"
| replace: "u \<le> p \<Longrightarrow> size (without k M) = cap \<Longrightarrow> (k', m) \<in># without k M
    \<Longrightarrow> \<forall>x \<in># without k M. snd x \<le> m \<Longrightarrow> u \<le> m
    \<Longrightarrow> sketch_step cap (M, p) k u (add_mset (k, u) (without k M - {#(k', m)#}), m)"

lemma distinct_keys_add:
  "distinct_keys (add_mset (k, q) M) \<longleftrightarrow> distinct_keys M \<and> k \<notin># image_mset fst M"
proof
  assume d: "distinct_keys (add_mset (k, q) M)"
  then have c: "count (image_mset fst (add_mset (k, q) M)) j \<le> 1" for j
    unfolding distinct_keys_def by blast
  have "count (image_mset fst M) j \<le> 1" for j
    using c [of j] by (cases "j = k") auto
  moreover have "k \<notin># image_mset fst M" unfolding not_in_iff using c [of k] by simp
  ultimately show "distinct_keys M \<and> k \<notin># image_mset fst M"
    unfolding distinct_keys_def by blast
next
  assume a: "distinct_keys M \<and> k \<notin># image_mset fst M"
  then have "count (image_mset fst M) k = 0" by (simp only: not_in_iff)
  moreover have "count (image_mset fst M) j \<le> 1" for j
    using a by (simp add: distinct_keys_def)
  ultimately show "distinct_keys (add_mset (k, q) M)" by (simp add: distinct_keys_def)
qed

lemma without_absent: "k \<notin># image_mset fst M \<Longrightarrow> without k M = M"
  by (auto simp: without_def filter_mset_eq_conv)

lemma without_add [simp]: "without k (add_mset (k, q) M) = without k M"
  by (simp add: without_def)

lemma without_keys: "k \<notin># image_mset fst (without k M)"
  by (auto simp: without_def)

lemma distinct_keys_mono:
  assumes "distinct_keys M" and "N \<subseteq># M"
  shows "distinct_keys N"
  unfolding distinct_keys_def
proof
  fix k
  have "count (image_mset fst N) k \<le> count (image_mset fst M) k"
    using image_mset_subseteq_mono [OF assms(2)] by (rule mset_subset_eq_count)
  also have "\<dots> \<le> 1" using assms(1) by (simp add: distinct_keys_def)
  finally show "count (image_mset fst N) k \<le> 1" .
qed

text \<open>A step keeps what the estimate rests on: one entry per key, the capacity, and a threshold above
  all priorities that never rises.\<close>

lemma sketch_step_inv:
  assumes "sketch_step cap (M, p) k u (M', p')" and "distinct_keys M"
    and "\<forall>x \<in># M. snd x \<le> p" and "size M \<le> cap"
  shows "distinct_keys M' \<and> (\<forall>x \<in># M'. snd x \<le> p') \<and> size M' \<le> cap \<and> p' \<le> p"
proof -
  have w: "without k M \<subseteq># M" by (simp add: without_def)
  have d: "distinct_keys (without k M)" using assms(2) w by (rule distinct_keys_mono)
  have b: "snd x \<le> p" if "x \<in># without k M" for x
    using assms(3) that by (auto simp: without_def)
  have s: "size (without k M) \<le> cap"
    using size_mset_mono [OF w] assms(4) by linarith
  from assms(1) show ?thesis
  proof (cases rule: sketch_step.cases)
    case skip
    with d b s show ?thesis by auto
  next
    case add
    with d b s without_keys [of k M] show ?thesis by (auto simp: distinct_keys_add)
  next
    case lower
    with d b s show ?thesis by (auto intro: order_less_imp_le)
  next
    case (replace k')
    have sub: "without k M - {#(k', p')#} \<subseteq># without k M" by simp
    have "distinct_keys (without k M - {#(k', p')#})" using d sub by (rule distinct_keys_mono)
    moreover have "k \<notin># image_mset fst (without k M - {#(k', p')#})"
      using without_keys [of k M] image_mset_subseteq_mono [OF sub] by (meson mset_subset_eqD)
    moreover have "size (without k M - {#(k', p')#}) < cap"
      using replace by (metis size_Diff1_less)
    moreover have "p' \<le> p" using b replace by fastforce
    ultimately show ?thesis using replace by (auto simp: distinct_keys_add dest: in_diffD)
  qed
qed

subsection \<open>The interface\<close>

locale prio_buffer =
  fixes holds :: "'s \<Rightarrow> entries \<Rightarrow> bool"
    and shallow :: "'s \<Rightarrow> bool"
    and del :: "'s \<Rightarrow> u32 \<Rightarrow> int \<times> 's"
    and ins :: "'s \<Rightarrow> u32 \<Rightarrow> u32 \<Rightarrow> int \<times> 's"
    and top_entry :: "'s \<Rightarrow> (u32 \<times> u32) option"
    and room :: "'s \<Rightarrow> bool"
    and cap :: nat
  assumes del_found: "holds s M \<Longrightarrow> del s k = (0, s') \<Longrightarrow> \<exists>q M'. holds s' M' \<and> M = add_mset (k, q) M'"
    and del_absent: "holds s M \<Longrightarrow> del s k = (-1, s') \<Longrightarrow>
      s' = s \<and> (shallow s \<longrightarrow> k \<notin># image_mset fst M)"
    and ins_done: "holds s M \<Longrightarrow> ins s k u = (0, s') \<Longrightarrow> holds s' (add_mset (k, u) M)"
    and top_max: "holds s M \<Longrightarrow> (case top_entry s of None \<Rightarrow> M = {#}
      | Some x \<Rightarrow> x \<in># M \<and> (\<forall>y \<in># M. snd y \<le> snd x))"
    and room_iff: "holds s M \<Longrightarrow> room s \<longleftrightarrow> size M < cap"
    and size_bound: "holds s M \<Longrightarrow> size M \<le> cap"
begin

lemma del_without:
  assumes "holds s M" and "distinct_keys M" and "shallow s" and "del s k = (r, s')" and "r \<in> {0, -1}"
  shows "holds s' (without k M)"
proof (cases "r = 0")
  case True
  from del_found [OF assms(1) assms(4) [unfolded True]] obtain q M' where
    m: "holds s' M'" "M = add_mset (k, q) M'" by blast
  then have "k \<notin># image_mset fst M'" using assms(2) by (simp add: distinct_keys_add)
  with m show ?thesis by (simp add: without_absent)
next
  case False
  with assms del_absent show ?thesis by (auto simp: without_absent)
qed

lemma del_below:
  assumes "holds s M" and "\<forall>x \<in># M. snd x \<le> p" and "del s k = (r, s')" and "r \<in> {0, -1}"
  shows "\<exists>M'. holds s' M' \<and> (\<forall>x \<in># M'. snd x \<le> p)"
proof (cases "r = 0")
  case True
  from del_found [OF assms(1) assms(3) [unfolded True]] obtain q M' where
    "holds s' M'" "M = add_mset (k, q) M'" by blast
  with assms(2) show ?thesis by (intro exI [of _ M']) simp
next
  case False
  with assms(3,4) have "del s k = (-1, s')" by simp
  from del_absent [OF assms(1) this] have "s' = s" by blast
  with assms(1,2) show ?thesis by (intro exI [of _ M]) simp
qed

lemma full_top:
  assumes "holds s M" and "\<not> room s" and "0 < cap"
  obtains k m where "top_entry s = Some (k, m)" and "(k, m) \<in># M" and "\<forall>x \<in># M. snd x \<le> m"
    and "size M = cap"
proof -
  have n: "size M = cap" using assms room_iff size_bound by (metis nat_less_le)
  with assms(3) have "M \<noteq> {#}" by auto
  with top_max [OF assms(1)] n that show ?thesis by (cases "top_entry s") auto
qed

text \<open>Deleting the key of the maximum and inserting a smaller entry.\<close>

lemma replace_max:
  assumes "holds s M" and "(k', m) \<in># M" and "del s k' = (0, s1)" and "ins s1 k u = (0, s2)"
    and "\<forall>x \<in># M. snd x \<le> m"
  shows "\<exists>q M'. M = add_mset (k', q) M' \<and> holds s2 (add_mset (k, u) M') \<and> (\<forall>x \<in># M'. snd x \<le> m)
    \<and> (distinct_keys M \<longrightarrow> M' = M - {#(k', m)#})"
proof -
  from del_found [OF assms(1,3)] obtain q M' where m: "holds s1 M'" "M = add_mset (k', q) M'" by blast
  have "M' = M - {#(k', m)#}" if "distinct_keys M"
  proof -
    have "k' \<notin># image_mset fst M'" using that m(2) by (simp add: distinct_keys_add)
    then have "(k', m) \<notin># M'" by force
    then have "q = m" using assms(2) m(2) by auto
    with m(2) show ?thesis by simp
  qed
  with m ins_done [OF m(1) assms(4)] assms(5) show ?thesis by (intro exI [of _ q] exI [of _ M']) auto
qed

end

end
