(* ===== verification/Cvm.thy ===== *)
theory Cvm
  imports Prio_Buffer Treap Fixed_Point Packet
begin

text \<open>
  The distinct-elements sketch (CVM) on packets: \<open>motivation/arena_cvm/cvm.bpf.c\<close>, with the sizes of
  \<open>motivation/arena_cvm/include/treap.h\<close>. The state is the treap (\<open>None\<close> while user space has not
  set the pointer), the threshold \<open>p\<close>, the time of the last report and the counters of the throughput
  report. The random number and the two clock readings of a run are arguments.
\<close>

definition TREAP_MAX_SIZE :: nat where "TREAP_MAX_SIZE = 128"
definition TREAP_MAX_HEIGHT :: nat where "TREAP_MAX_HEIGHT = 64"
definition FP_ONE :: fp_t where "FP_ONE = 0x80000000"
definition SECOND :: u64 where "SECOND = 1000000000"

record cvm =
  treap_ptr :: "treap option"
  threshold :: fp_t
  last_cvm_report :: u64
  cvm_tput :: tput

text \<open>A division by zero gives zero, in BPF as for words.\<close>

definition cvm_estimate :: "treap \<Rightarrow> fp_t \<Rightarrow> u64" where
  "cvm_estimate t p = (of_nat (used t) * FP_SCALE) div ucast p"

definition reset :: "treap \<Rightarrow> cvm \<Rightarrow> cvm" where
  "reset t st = st\<lparr>treap_ptr := Some (treap_reset TREAP_MAX_SIZE t), threshold := FP_ONE, last_cvm_report := 0\<rparr>"

text \<open>The key of a packet that the program counts: UDP to a port from 8000 to 8127, by source address.\<close>

definition cvm_key :: "packet \<Rightarrow> u32 option" where
  "cvm_key pkt =
     (let ip = ETH_HLEN; udp = ip + IP_HLEN; r = udp + UDP_HLEN in
      if length pkt < r + 4 then None
      else if ld16 pkt 12 \<noteq> htons ETH_P_IP then None
      else if pkt ! (ip + 9) \<noteq> IPPROTO_UDP then None
      else
        let tmp_port = ntohs (ld16 pkt (udp + 2))
        in if \<not> (8000 \<le> tmp_port \<and> tmp_port < 8128) then None
           else Some (ld32 pkt (ip + 12)))"

text \<open>
  The update of the buffer for a key and its random value: a return code (nonzero when an operation
  of the treap failed), the treap and the threshold.
\<close>

definition cvm_sample :: "treap \<Rightarrow> fp_t \<Rightarrow> u32 \<Rightarrow> fp_t \<Rightarrow> (int \<times> treap \<times> fp_t) checked" where
  "cvm_sample t p k u =
     (if p < u then Inr (0, t, p)
      else if treap_has_space TREAP_MAX_SIZE t
      then let (ret, t) = treap_insert TREAP_MAX_SIZE TREAP_MAX_HEIGHT t k u in Inr (ret, t, p)
      else
        case treap_top t of
          None \<Rightarrow> Inl Null_pointer
        | Some tp \<Rightarrow>
            if priority (nodes t tp) < u then Inr (0, t, u)
            else
              let p = priority (nodes t tp);
                  (ret, t) = treap_delete TREAP_MAX_SIZE TREAP_MAX_HEIGHT t (key (nodes t tp))
              in if ret \<noteq> 0 then Inr (ret, t, p)
                 else let (ret, t) = treap_insert TREAP_MAX_SIZE TREAP_MAX_HEIGHT t k u
                      in Inr (ret, t, p))"

text \<open>From the deletion of the key to the label \<open>_done\<close>: \<open>False\<close> after a failure and a reset.\<close>

definition cvm_update :: "treap \<Rightarrow> cvm \<Rightarrow> u32 \<Rightarrow> u32 \<Rightarrow> (bool \<times> cvm) checked" where
  "cvm_update t st k rnd =
     (let (ret, t) = treap_delete TREAP_MAX_SIZE TREAP_MAX_HEIGHT t k in
      if ret \<noteq> 0 \<and> ret \<noteq> -1 then Inr (False, reset t st)
      else
        checked_bind (cvm_sample t (threshold st) k (fp_random rnd)) (\<lambda>(ret, t, p).
          if ret \<noteq> 0 then Inr (False, reset t (st\<lparr>threshold := p\<rparr>))
          else Inr (True, st\<lparr>treap_ptr := Some t, threshold := p\<rparr>)))"

text \<open>The reports; the second component is the printed estimate.\<close>

definition cvm_done :: "cvm \<Rightarrow> u64 \<Rightarrow> u64 \<Rightarrow> u64 \<Rightarrow> u64 option \<times> cvm" where
  "cvm_done st cnt ts1 ts =
     (let (_, _, c) = report_tput ts1 cnt (cvm_tput st);
          st = st\<lparr>cvm_tput := c\<rparr>;
          dur = ts - last_cvm_report st
      in if 5 * SECOND < dur
         then if last_cvm_report st = 0 then (None, st\<lparr>last_cvm_report := ts\<rparr>)
              else case treap_ptr st of
                     None \<Rightarrow> (None, st)
                   | Some t \<Rightarrow> (Some (cvm_estimate t (threshold st)),
                               (reset t st)\<lparr>last_cvm_report := ts\<rparr>)
         else (None, st))"

definition cvm_main ::
  "cvm \<Rightarrow> packet \<Rightarrow> u32 \<Rightarrow> u64 \<Rightarrow> u64 \<Rightarrow> (xdp_action \<times> u64 option \<times> cvm) checked" where
  "cvm_main st pkt rnd ts1 ts =
     (case treap_ptr st of
        None \<Rightarrow> Inr (XDP_PASS, None, st)
      | Some t \<Rightarrow>
          (case cvm_key pkt of
             None \<Rightarrow> Inr (XDP_PASS, None, st)
           | Some k \<Rightarrow>
               checked_bind (cvm_update t st k rnd) (\<lambda>(ok, st).
                 if ok then let (out, st) = cvm_done st 1 ts1 ts in Inr (XDP_DROP, out, st)
                 else Inr (XDP_DROP, None, st))))"

lemmas cvm_sizes = TREAP_MAX_SIZE_def TREAP_MAX_HEIGHT_def

subsection \<open>The treap is such a buffer\<close>

definition treap_holds :: "nat \<Rightarrow> treap \<Rightarrow> entries \<Rightarrow> bool" where
  "treap_holds sz t M \<longleftrightarrow> (\<exists>T. treap_inv sz t T \<and> content t T = M)"

definition treap_shallow :: "nat \<Rightarrow> nat \<Rightarrow> treap \<Rightarrow> bool" where
  "treap_shallow sz H t \<longleftrightarrow> (\<forall>T. treap_inv sz t T \<longrightarrow> height T \<le> H)"

definition top_entry :: "treap \<Rightarrow> (u32 \<times> u32) option" where
  "top_entry t = map_option (\<lambda>i. (key (nodes t i), priority (nodes t i))) (treap_top t)"

lemma size_content: "treap_inv sz t T \<Longrightarrow> size (content t T) = used t"
  by (simp add: treap_inv_def content_def)

lemma unlink_node_ret: "fst (unlink_node H t n l) \<noteq> -1"
  by (simp add: unlink_node_def Let_def split: option.splits prod.splits)

lemma delete_minus_one:
  assumes "treap_inv sz t T" and "treap_delete sz H t k = (-1, t')"
  shows "t' = t \<and> (height T \<le> H \<longrightarrow> k \<notin># image_mset fst (content t T))"
proof -
  from treap_delete_spec [OF assms(1), of H k] assms(2) have "t' = t" by auto
  moreover have "treap_find_raw H t k = None"
  proof (cases "treap_find_raw H t k")
    case (Some nl)
    obtain n l where nl: "nl = (n, l)" by (cases nl)
    have "fst (treap_delete sz H t k) \<noteq> -1"
      using unlink_node_ret [of H t n l]
      by (cases "unlink_node H t n l") (simp add: treap_delete_def Some nl)
    with assms(2) show ?thesis by simp
  qed simp
  with treap_find_spec [OF assms(1), of H k] have "height T \<le> H \<longrightarrow> (\<forall>i \<in> set_tree T. keyf t i \<noteq> k)"
    by simp
  ultimately show ?thesis by (auto simp: content_def)
qed

interpretation tb: prio_buffer "treap_holds sz" "treap_shallow sz H" "treap_delete sz H" "treap_insert sz H"
    top_entry "treap_has_space sz" sz for sz H
proof unfold_locales
  fix s :: treap and M k s'
  assume "treap_holds sz s M" and d: "treap_delete sz H s k = (0, s')"
  then obtain T where T: "treap_inv sz s T" "content s T = M" by (auto simp: treap_holds_def)
  from treap_delete_spec [OF T(1), of H k] d T(2)
  show "\<exists>q M'. treap_holds sz s' M' \<and> M = add_mset (k, q) M'" by (auto simp: treap_holds_def)
next
  fix s :: treap and M k s'
  assume "treap_holds sz s M" and "treap_delete sz H s k = (-1, s')"
  with delete_minus_one show "s' = s \<and> (treap_shallow sz H s \<longrightarrow> k \<notin># image_mset fst M)"
    by (fastforce simp: treap_holds_def treap_shallow_def)
next
  fix s :: treap and M k u s'
  assume "treap_holds sz s M" and i: "treap_insert sz H s k u = (0, s')"
  then obtain T where T: "treap_inv sz s T" "content s T = M" by (auto simp: treap_holds_def)
  from treap_insert_spec [OF T(1), of H k u] i T(2)
  show "treap_holds sz s' (add_mset (k, u) M)" by (auto simp: treap_holds_def errno_defs)
next
  fix s :: treap and M
  assume "treap_holds sz s M"
  then obtain T where T: "treap_inv sz s T" "content s T = M" by (auto simp: treap_holds_def)
  from treap_top_spec [OF T(1)] T(2)
  show "case top_entry s of None \<Rightarrow> M = {#} | Some x \<Rightarrow> x \<in># M \<and> (\<forall>y \<in># M. snd y \<le> snd x)"
    by (cases "treap_top s") (simp_all add: top_entry_def)
next
  fix s :: treap and M
  assume "treap_holds sz s M"
  then obtain T where T: "treap_inv sz s T" "content s T = M" by (auto simp: treap_holds_def)
  show "treap_has_space sz s = (size M < sz)" "size M \<le> sz"
    using size_content [OF T(1)] T by (simp_all add: treap_has_space_def treap_inv_def)
qed

subsection \<open>The invariant of the program\<close>

definition treap_keeps :: "treap \<Rightarrow> fp_t \<Rightarrow> bool" where
  "treap_keeps t p \<longleftrightarrow> (\<exists>M. treap_holds TREAP_MAX_SIZE t M \<and> (\<forall>x \<in># M. snd x \<le> p))"

text \<open>Every state has a proper treap whose priorities are at most the threshold, itself at most one.\<close>

definition cvm_inv :: "cvm \<Rightarrow> bool" where
  "cvm_inv st \<longleftrightarrow> (case treap_ptr st of None \<Rightarrow> True
     | Some t \<Rightarrow> treap_keeps t (threshold st) \<and> threshold st \<le> FP_ONE)"

lemma reset_inv: "cvm_inv (reset t st)"
proof -
  have "treap_holds TREAP_MAX_SIZE (treap_reset TREAP_MAX_SIZE t) {#}"
    unfolding treap_holds_def using treap_reset_inv [of TREAP_MAX_SIZE t]
    by (intro exI [of _ Leaf]) (simp add: content_def)
  then show ?thesis by (auto simp: cvm_inv_def reset_def treap_keeps_def)
qed

lemma cvm_sample_keeps:
  assumes "treap_keeps t p"
  shows "\<exists>ret t' p'. cvm_sample t p k u = Inr (ret, t', p')
    \<and> (ret = 0 \<longrightarrow> treap_keeps t' p' \<and> p' \<le> p)"
proof -
  from assms obtain M where M: "treap_holds TREAP_MAX_SIZE t M" "\<forall>x \<in># M. snd x \<le> p"
    by (auto simp: treap_keeps_def)
  show ?thesis
  proof (cases "p < u")
    case True
    with assms show ?thesis by (simp add: cvm_sample_def)
  next
    case False
    note le = this
    show ?thesis
    proof (cases "treap_has_space TREAP_MAX_SIZE t")
      case True
      obtain ret t' where i: "treap_insert TREAP_MAX_SIZE TREAP_MAX_HEIGHT t k u = (ret, t')" by fastforce
      have "treap_keeps t' p" if "ret = 0"
        using tb.ins_done [OF M(1)] i that M(2) le by (fastforce simp: treap_keeps_def)
      with le True i show ?thesis by (simp add: cvm_sample_def)
    next
      case full: False
      obtain k' m where top: "top_entry t = Some (k', m)" "(k', m) \<in># M" "\<forall>x \<in># M. snd x \<le> m"
        by (rule tb.full_top [OF M(1) full]) (auto simp: cvm_sizes)
      then obtain tp where tp: "treap_top t = Some tp" "key (nodes t tp) = k'" "priority (nodes t tp) = m"
        by (auto simp: top_entry_def)
      have mp: "m \<le> p" using M(2) top(2) by auto
      obtain ret t1 where d: "treap_delete TREAP_MAX_SIZE TREAP_MAX_HEIGHT t k' = (ret, t1)" by fastforce
      obtain ret2 t2 where i: "treap_insert TREAP_MAX_SIZE TREAP_MAX_HEIGHT t1 k u = (ret2, t2)" by fastforce
      have low: "treap_keeps t u" if "m < u"
        using M(1) top(3) that by (fastforce simp: treap_keeps_def)
      have rep: "treap_keeps t2 m" if "ret = 0" "ret2 = 0" "u \<le> m"
      proof -
        from tb.replace_max [OF M(1) top(2) d [unfolded that(1)] i [unfolded that(2)] top(3)]
        obtain M' where "treap_holds TREAP_MAX_SIZE t2 (add_mset (k, u) M')" "\<forall>x \<in># M'. snd x \<le> m" by blast
        with that(3) show ?thesis by (auto simp: treap_keeps_def intro!: exI [of _ "add_mset (k, u) M'"])
      qed
      show ?thesis
        using le full tp d i low rep mp by (auto simp: cvm_sample_def Let_def not_less)
    qed
  qed
qed

lemma cvm_update_inv:
  assumes "treap_keeps t (threshold st)" and "threshold st \<le> FP_ONE"
  shows "\<exists>ok st'. cvm_update t st k rnd = Inr (ok, st') \<and> cvm_inv st' \<and> (\<exists>t'. treap_ptr st' = Some t')
    \<and> (threshold st' \<le> threshold st \<or> \<not> ok \<and> threshold st' = FP_ONE)"
proof -
  obtain ret t1 where d: "treap_delete TREAP_MAX_SIZE TREAP_MAX_HEIGHT t k = (ret, t1)" by fastforce
  show ?thesis
  proof (cases "ret \<in> {0, -1}")
    case False
    with d show ?thesis using reset_inv [of t1 st] by (auto simp: cvm_update_def reset_def)
  next
    case True
    from assms(1) obtain M where M: "treap_holds TREAP_MAX_SIZE t M" "\<forall>x \<in># M. snd x \<le> threshold st"
      by (auto simp: treap_keeps_def)
    from tb.del_below [OF M d True] have "treap_keeps t1 (threshold st)" by (simp add: treap_keeps_def)
    from cvm_sample_keeps [OF this, of k "fp_random rnd"] obtain ret2 t2 p2 where
      s: "cvm_sample t1 (threshold st) k (fp_random rnd) = Inr (ret2, t2, p2)"
      and k: "ret2 = 0 \<longrightarrow> treap_keeps t2 p2 \<and> p2 \<le> threshold st" by blast
    show ?thesis
    proof (cases "ret2 = 0")
      case True
      with d s k \<open>ret \<in> {0, -1}\<close> assms(2) show ?thesis
        by (auto simp: cvm_update_def cvm_inv_def)
    next
      case False
      with d s \<open>ret \<in> {0, -1}\<close> show ?thesis
        using reset_inv [of t2 "st\<lparr>threshold := p2\<rparr>"] by (auto simp: cvm_update_def reset_def)
    qed
  qed
qed

lemma cvm_inv_fields [simp]:
  "cvm_inv (st\<lparr>cvm_tput := c\<rparr>) = cvm_inv st" "cvm_inv (st\<lparr>last_cvm_report := ts\<rparr>) = cvm_inv st"
  by (cases "treap_ptr st"; simp add: cvm_inv_def)+

lemma cvm_done_inv:
  assumes "cvm_inv st"
  shows "cvm_inv (snd (cvm_done st n ts1 ts))"
  using assms by (simp add: cvm_done_def Let_def reset_inv split: prod.splits option.splits)

lemma cvm_main_keeps:
  assumes "cvm_inv st"
  shows "\<exists>act out st'. cvm_main st pkt rnd ts1 ts = Inr (act, out, st') \<and> cvm_inv st'
    \<and> (cvm_key pkt = None \<longrightarrow> act = XDP_PASS \<and> st' = st)"
proof (cases "treap_ptr st")
  case None
  with assms show ?thesis by (simp add: cvm_main_def)
next
  case (Some t)
  show ?thesis
  proof (cases "cvm_key pkt")
    case None
    with Some assms show ?thesis by (simp add: cvm_main_def)
  next
    case (Some k)
    have "treap_keeps t (threshold st)" "threshold st \<le> FP_ONE"
      using assms \<open>treap_ptr st = Some t\<close> by (simp_all add: cvm_inv_def)
    from cvm_update_inv [OF this] obtain ok st' where
      u: "cvm_update t st k rnd = Inr (ok, st')" "cvm_inv st'" by blast
    obtain out st2 where d: "cvm_done st' 1 ts1 ts = (out, st2)" by fastforce
    from cvm_done_inv [OF u(2), of 1 ts1 ts] d have "cvm_inv st2" by simp
    with u d Some \<open>treap_ptr st = Some t\<close> show ?thesis
      by (cases ok) (auto simp: cvm_main_def)
  qed
qed

text \<open>C2. Every packet, with any random number and clock, is processed without a null dereference and
  keeps the invariant: a proper treap whose priorities are at most the threshold.\<close>

theorem cvm_main_inv:
  assumes "cvm_inv st"
  shows "\<exists>act out st'. cvm_main st pkt rnd ts1 ts = Inr (act, out, st') \<and> cvm_inv st'
    \<and> (cvm_key pkt = None \<longrightarrow> act = XDP_PASS \<and> st' = st)"
  by (rule cvm_main_keeps [OF assms])

text \<open>The state after user space has allocated the treap and set the pointer and the threshold.\<close>

definition cvm_start :: cvm where
  "cvm_start = \<lparr>treap_ptr = Some \<lparr>root = None, nodes = (\<lambda>_. \<lparr>key = 0, priority = 0, left = None, right = None\<rparr>),
       used = 0, stack = (\<lambda>i. if i < TREAP_MAX_SIZE then TREAP_MAX_SIZE - i - 1 else 0)\<rparr>,
     threshold = FP_ONE, last_cvm_report = 0, cvm_tput = \<lparr>counter = 0, last_report = 0\<rparr>\<rparr>"

lemma cvm_start_keeps:
  "treap_ptr cvm_start = Some t \<Longrightarrow> treap_inv TREAP_MAX_SIZE t Leaf \<and> content t Leaf = {#}"
  using treap_empty_inv [of t TREAP_MAX_SIZE] by (auto simp: cvm_start_def)

lemma cvm_start_inv: "cvm_inv cvm_start"
proof -
  obtain t where t: "treap_ptr cvm_start = Some t" by (simp add: cvm_start_def)
  with cvm_start_keeps [OF t] show ?thesis
    by (auto simp: cvm_inv_def treap_keeps_def treap_holds_def cvm_start_def
        intro!: exI [of _ "{#}"] exI [of _ Leaf])
qed

theorem cvm_main_inv_witness:
  "\<exists>act out st'. cvm_main cvm_start udp_ex 7 1 2 = Inr (act, out, st') \<and> cvm_inv st'"
  using cvm_main_inv [OF cvm_start_inv, of udp_ex 7 1 2] by blast

subsection \<open>The program computes the sketch\<close>




end
