(* ===== verification/Cvm_Batch.thy ===== *)
theory Cvm_Batch
  imports Cvm
begin

text \<open>
  The sketch on batches of packets: \<open>motivation/arena_cvm/cvm_prefetch_logic.h\<close> and
  \<open>motivation/arena_cvm/cvm_prefetch.bpf.c\<close>. The two per-CPU map values, the batch and the
  processing state, keep their content from one packet to the next. The index of the loop contexts
  is a number below 17, so it does not wrap. The lookup of the only entry of such a map does not fail.
\<close>

definition BATCH_SIZE :: nat where "BATCH_SIZE = 16"

definition BITMAP_GET :: "u32 \<Rightarrow> nat \<Rightarrow> bool" where
  "BITMAP_GET v index \<longleftrightarrow> v AND push_bit index 1 \<noteq> 0"

definition BITMAP_SET :: "u32 \<Rightarrow> nat \<Rightarrow> u32" where
  "BITMAP_SET v index = v OR push_bit index 1"

definition BITMAP_CLR :: "u32 \<Rightarrow> nat \<Rightarrow> u32" where
  "BITMAP_CLR v index = v AND NOT (push_bit index 1)"

record batch =
  write_off :: u32
  keys :: "nat \<Rightarrow> u32"

record batch_state =
  valid_map :: u32
  nodes_at :: "nat \<Rightarrow> nat option"
  links_at :: "nat \<Rightarrow> link option"
  rnd_u :: "nat \<Rightarrow> fp_t"
  max_remove_prob :: "nat \<Rightarrow> fp_t"
  deleted :: "nat \<Rightarrow> u8"
  lookup_finished :: u8

text \<open>\<open>True\<close>: the batch is full and is processed.\<close>

definition make_batch :: "batch \<Rightarrow> u32 \<Rightarrow> bool \<times> batch" where
  "make_batch b key_data =
     (if of_nat BATCH_SIZE \<le> write_off b then (False, b\<lparr>write_off := 0\<rparr>)
      else
        let b = b\<lparr>keys := (keys b)(unat (write_off b) := key_data), write_off := write_off b + 1\<rparr>
        in (write_off b = of_nat BATCH_SIZE, b))"

subsection \<open>The search\<close>

definition find_inner_loop :: "treap \<Rightarrow> batch \<Rightarrow> nat \<times> batch_state \<Rightarrow> bool \<times> nat \<times> batch_state" where
  "find_inner_loop t b = (\<lambda>(i, st).
     let index = (i + 1) mod BATCH_SIZE;
         check = (\<lambda>st. (unat (lookup_finished st) = BATCH_SIZE, index, st))
     in if BITMAP_GET (valid_map st) i then (False, index, st)
        else
          case nodes_at st i of
            None \<Rightarrow> check (st\<lparr>links_at := (links_at st)(i := None), valid_map := BITMAP_SET (valid_map st) i,
                             lookup_finished := lookup_finished st + 1\<rparr>)
          | Some ptr \<Rightarrow>
              let cmp = treap_key_cmp (keys b i) (key (nodes t ptr)) in
              if cmp = 0
              then check (st\<lparr>valid_map := BITMAP_SET (valid_map st) i, lookup_finished := lookup_finished st + 1\<rparr>)
              else if cmp < 0
              then (False, index, st\<lparr>links_at := (links_at st)(i := Some (LeftL ptr)),
                                    nodes_at := (nodes_at st)(i := left (nodes t ptr))\<rparr>)
              else (False, index, st\<lparr>links_at := (links_at st)(i := Some (RightL ptr)),
                                    nodes_at := (nodes_at st)(i := right (nodes t ptr))\<rparr>))"

definition find_start :: "treap \<Rightarrow> batch_state \<Rightarrow> batch_state" where
  "find_start t st =
     fold (\<lambda>i st. st\<lparr>links_at := (links_at st)(i := Some RootL), nodes_at := (nodes_at st)(i := root t),
                     valid_map := BITMAP_CLR (valid_map st) i\<rparr>)
       [0 ..< BATCH_SIZE] (st\<lparr>lookup_finished := 0\<rparr>)"

text \<open>The loop at the label \<open>done\<close>; the first argument counts the turns that are left.\<close>

fun find_finish :: "nat \<Rightarrow> nat \<Rightarrow> batch_state \<Rightarrow> batch_state" where
  "find_finish 0 i st = st"
| "find_finish (Suc n) i st =
     (if unat (lookup_finished st) = BATCH_SIZE then st
      else if BITMAP_GET (valid_map st) i then find_finish n (i + 1) st
      else find_finish n (i + 1)
             (st\<lparr>nodes_at := (nodes_at st)(i := None), links_at := (links_at st)(i := None),
                 valid_map := BITMAP_SET (valid_map st) i, lookup_finished := lookup_finished st + 1\<rparr>))"

definition treap_find_batch :: "treap \<Rightarrow> batch \<Rightarrow> batch_state \<Rightarrow> batch_state" where
  "treap_find_batch t b st =
     (let st = find_start t st;
          st = (if root t = None then st
                else snd (bpf_loop (BATCH_SIZE * TREAP_MAX_HEIGHT) (find_inner_loop t b) (0, st)))
      in find_finish BATCH_SIZE 0 st)"

subsection \<open>The deletions\<close>

definition delete_inner_loop ::
  "treap \<times> nat \<times> batch_state \<Rightarrow> (bool \<times> treap \<times> nat \<times> batch_state) checked" where
  "delete_inner_loop = (\<lambda>(t, i, st).
     case nodes_at st i of
       None \<Rightarrow> Inr (False, t, i + 1, st)
     | Some n \<Rightarrow>
         (case links_at st i of
            None \<Rightarrow> Inl Null_pointer
          | Some link \<Rightarrow>
              let (ret, t) = unlink_node TREAP_MAX_HEIGHT t n link
              in if ret \<noteq> 0
                 then Inr (False, t, i + 1, st\<lparr>valid_map := BITMAP_CLR (valid_map st) i\<rparr>)
                 else Inr (False, treap_free_node TREAP_MAX_SIZE t n, i + 1, st)))"

text \<open>
  The loops \<open>for (__u32 i = BATCH_SIZE - 2; i > -1; i--)\<close>: in the comparison \<open>-1\<close> is the largest
  \<open>__u32\<close>.
\<close>

function max_remove_loop :: "treap \<Rightarrow> u32 \<Rightarrow> batch_state \<Rightarrow> batch_state" where
  "max_remove_loop t i st =
     (if - 1 < i
      then let nxt = unat i + 1;
               u = (case nodes_at st nxt of None \<Rightarrow> 0 | Some n \<Rightarrow> priority (nodes t n));
               m = max_remove_prob st nxt
           in max_remove_loop t (i - 1)
                (st\<lparr>max_remove_prob := (max_remove_prob st)(unat i := (if u < m then m else u))\<rparr>)
      else st)"
  by auto
termination by (relation "{}") auto

function deleted_loop :: "u32 \<Rightarrow> batch_state \<Rightarrow> batch_state" where
  "deleted_loop i st =
     (if - 1 < i
      then let nxt = unat i + 1; was_deleted = (if nodes_at st nxt = None then 0 else 1)
           in deleted_loop (i - 1) (st\<lparr>deleted := (deleted st)(unat i := deleted st nxt + was_deleted)\<rparr>)
      else st)"
  by auto
termination by (relation "{}") auto

definition treap_delete_batch :: "treap \<Rightarrow> batch \<Rightarrow> batch_state \<Rightarrow> (treap \<times> batch_state) checked" where
  "treap_delete_batch t b st =
     checked_bind (bpf_loop_checked BATCH_SIZE delete_inner_loop (t, 0, treap_find_batch t b st)) (\<lambda>(t, _, st).
       let st = st\<lparr>max_remove_prob := (max_remove_prob st)(BATCH_SIZE - 1 := 0)\<rparr>;
           st = max_remove_loop t (of_nat (BATCH_SIZE - 2)) st;
           st = st\<lparr>deleted := (deleted st)(BATCH_SIZE - 1 := 0)\<rparr>
       in Inr (t, deleted_loop (of_nat (BATCH_SIZE - 2)) st))"

subsection \<open>The insertions\<close>

record update_ctx =
  c_treap :: treap
  c_p :: fp_t
  c_index :: nat
  c_ret :: int

definition update_inner_loop :: "batch \<Rightarrow> batch_state \<Rightarrow> update_ctx \<Rightarrow> (bool \<times> update_ctx) checked" where
  "update_inner_loop b st c =
     (let i = c_index c; c = c\<lparr>c_index := i + 1\<rparr>; t = c_treap c in
      if BATCH_SIZE < i then Inr (True, c)
      else
        let u = rnd_u st i in
        if c_p c < u then Inr (False, c)
        else
          let free_space = sint ((of_nat TREAP_MAX_SIZE - of_nat (used t) - ucast (deleted st i)) :: u32) in
          if 0 < free_space
          then let (ret, t) = treap_insert TREAP_MAX_SIZE TREAP_MAX_HEIGHT t (keys b i) u;
                   c = c\<lparr>c_treap := t\<rparr>
               in if ret \<noteq> 0 then Inr (True, c\<lparr>c_ret := -1\<rparr>) else Inr (False, c)
          else
            case treap_top t of
              None \<Rightarrow> Inl Null_pointer
            | Some tp \<Rightarrow>
                let max_probability = priority (nodes t tp);
                    max_removed = max_remove_prob st i;
                    root_already_removed = max_probability < max_removed;
                    max_probability = (if root_already_removed then max_removed else max_probability)
                in if max_probability < u then Inr (False, c\<lparr>c_p := u\<rparr>)
                   else
                     let c = c\<lparr>c_p := max_probability\<rparr>;
                         (ret, t) = (if root_already_removed then (0, t)
                           else treap_delete TREAP_MAX_SIZE TREAP_MAX_HEIGHT t (key (nodes t tp)));
                         c = c\<lparr>c_treap := t\<rparr>
                     in if ret \<noteq> 0 then Inr (True, c\<lparr>c_ret := -4\<rparr>)
                        else
                          let (ret, t) = treap_insert TREAP_MAX_SIZE TREAP_MAX_HEIGHT t (keys b i) u;
                              c = c\<lparr>c_treap := t\<rparr>
                          in if ret \<noteq> 0 then Inr (True, c\<lparr>c_ret := -5\<rparr>) else Inr (False, c))"

text \<open>The loop that checks the deletions and draws the random values: \<open>False\<close> at a failed deletion.\<close>

fun draw_loop :: "nat \<Rightarrow> nat \<Rightarrow> (nat \<Rightarrow> u32) \<Rightarrow> batch_state \<Rightarrow> bool \<times> batch_state" where
  "draw_loop 0 i rnd st = (True, st)"
| "draw_loop (Suc n) i rnd st =
     (if \<not> BITMAP_GET (valid_map st) i then (False, st)
      else draw_loop n (i + 1) rnd (st\<lparr>rnd_u := (rnd_u st)(i := fp_random (rnd i))\<rparr>))"

definition treap_batch_update ::
  "treap \<Rightarrow> fp_t \<Rightarrow> batch \<Rightarrow> batch_state \<Rightarrow> (nat \<Rightarrow> u32) \<Rightarrow> (int \<times> treap \<times> fp_t \<times> batch_state) checked" where
  "treap_batch_update t p b st rnd =
     checked_bind (treap_delete_batch t b st) (\<lambda>(t, st).
       let (ok, st) = draw_loop BATCH_SIZE 0 rnd st in
       if \<not> ok then Inr (-2, t, p, st)
       else
         checked_bind (bpf_loop_checked BATCH_SIZE (update_inner_loop b st)
             \<lparr>c_treap = t, c_p = p, c_index = 0, c_ret = 0\<rparr>)
           (\<lambda>c. Inr (if c_ret c < 0 then c_ret c else 0, c_treap c, c_p c, st)))"

subsection \<open>The program\<close>

text \<open>The key is the first word of the payload here.\<close>

definition payload_key :: "packet \<Rightarrow> u32 option" where
  "payload_key pkt = (case cvm_key pkt of None \<Rightarrow> None
     | Some _ \<Rightarrow> Some (ld32 pkt (ETH_HLEN + IP_HLEN + UDP_HLEN)))"

definition cvm_prefetch_main ::
  "cvm \<Rightarrow> batch \<Rightarrow> batch_state \<Rightarrow> packet \<Rightarrow> (nat \<Rightarrow> u32) \<Rightarrow> u64 \<Rightarrow> u64 \<Rightarrow>
     (xdp_action \<times> u64 option \<times> cvm \<times> batch \<times> batch_state) checked" where
  "cvm_prefetch_main cs b bs pkt rnd ts1 ts =
     (case treap_ptr cs of
        None \<Rightarrow> Inr (XDP_PASS, None, cs, b, bs)
      | Some t \<Rightarrow>
          (case payload_key pkt of
             None \<Rightarrow> Inr (XDP_PASS, None, cs, b, bs)
           | Some k \<Rightarrow>
               let (full, b) = make_batch b k in
               if \<not> full then Inr (XDP_DROP, None, cs, b, bs)
               else
                 checked_bind (treap_batch_update t (threshold cs) b bs rnd) (\<lambda>(ret, t, p, bs).
                   let cs = cs\<lparr>treap_ptr := Some t, threshold := p\<rparr> in
                   if ret < 0 then Inr (XDP_DROP, None, reset t cs, b, bs)
                   else let (out, cs) = cvm_done cs (of_nat BATCH_SIZE) ts1 ts
                        in Inr (XDP_DROP, out, cs, b, bs))))"

subsection \<open>The bitmap\<close>

lemma BITMAP_GET_bit: "i < 32 \<Longrightarrow> BITMAP_GET v i = bit v i"
  by (simp add: BITMAP_GET_def bit_iff_and_push_bit_not_eq_0)

lemma BITMAP_bits [simp]:
  assumes "i < 32" and "j < 32"
  shows "BITMAP_GET (BITMAP_SET v i) j = (i = j \<or> BITMAP_GET v j)"
    and "BITMAP_GET (BITMAP_CLR v i) j = (i \<noteq> j \<and> BITMAP_GET v j)"
  using assms by (auto simp: BITMAP_GET_bit BITMAP_SET_def BITMAP_CLR_def bit_simps)

subsection \<open>The search works lane by lane\<close>

text \<open>
  A lane is what the state holds for one key: node, link and whether the search has ended. The loop
  advances the lanes in turn; \<open>lane_at\<close> is a lane after a number of steps.
\<close>

definition lane :: "batch_state \<Rightarrow> nat \<Rightarrow> nat option \<times> link option \<times> bool" where
  "lane st i = (nodes_at st i, links_at st i, BITMAP_GET (valid_map st) i)"

fun lane_step :: "treap \<Rightarrow> u32 \<Rightarrow> nat option \<times> link option \<times> bool \<Rightarrow> nat option \<times> link option \<times> bool" where
  "lane_step t k (n, l, True) = (n, l, True)"
| "lane_step t k (None, l, False) = (None, None, True)"
| "lane_step t k (Some p, l, False) =
     (let cmp = treap_key_cmp k (key (nodes t p)) in
      if cmp = 0 then (Some p, l, True)
      else if cmp < 0 then (left (nodes t p), Some (LeftL p), False)
      else (right (nodes t p), Some (RightL p), False))"

definition lane_at :: "treap \<Rightarrow> u32 \<Rightarrow> nat \<Rightarrow> nat option \<times> link option \<times> bool" where
  "lane_at t k m = (lane_step t k ^^ m) (root t, Some RootL, False)"

definition ended :: "batch_state \<Rightarrow> nat" where
  "ended st = card {i \<in> {..<BATCH_SIZE}. BITMAP_GET (valid_map st) i}"

definition same_rest_state :: "batch_state \<Rightarrow> batch_state \<Rightarrow> bool" where
  "same_rest_state st st' \<longleftrightarrow> rnd_u st' = rnd_u st \<and> max_remove_prob st' = max_remove_prob st
     \<and> deleted st' = deleted st"

lemma ended_set:
  assumes "i < BATCH_SIZE" and "\<not> BITMAP_GET (valid_map st) i" and "valid_map st' = BITMAP_SET (valid_map st) i"
  shows "ended st' = Suc (ended st)" and "ended st < BATCH_SIZE"
proof -
  have "{j \<in> {..<BATCH_SIZE}. BITMAP_GET (valid_map st') j}
      = insert i {j \<in> {..<BATCH_SIZE}. BITMAP_GET (valid_map st) j}"
    using assms(1,3) by (auto simp: BATCH_SIZE_def)
  with assms(2) show "ended st' = Suc (ended st)" by (simp add: ended_def)
  have "{j \<in> {..<BATCH_SIZE}. BITMAP_GET (valid_map st) j} \<subseteq> {..<BATCH_SIZE} - {i}"
    using assms(2) by auto
  from card_mono [OF _ this] assms(1) show "ended st < BATCH_SIZE" by (simp add: ended_def BATCH_SIZE_def)
qed

lemma all_ended: "ended st = BATCH_SIZE \<longleftrightarrow> (\<forall>i < BATCH_SIZE. BITMAP_GET (valid_map st) i)"
proof -
  have "{i \<in> {..<BATCH_SIZE}. BITMAP_GET (valid_map st) i} = {..<BATCH_SIZE}"
    if "ended st = BATCH_SIZE"
    by (rule card_subset_eq) (use that in \<open>auto simp: ended_def\<close>)
  moreover have "ended st = BATCH_SIZE" if "\<forall>i < BATCH_SIZE. BITMAP_GET (valid_map st) i"
  proof -
    have "{i \<in> {..<BATCH_SIZE}. BITMAP_GET (valid_map st) i} = {..<BATCH_SIZE}" using that by auto
    then show ?thesis by (simp add: ended_def)
  qed
  ultimately show ?thesis by auto
qed

lemma count_ended:
  assumes "unat (c :: u8) = ended st" and "ended st < BATCH_SIZE"
  shows "unat (c + 1) = Suc (ended st)"
  using assms by (simp add: unat_word_ariths BATCH_SIZE_def)

text \<open>One turn of the loop, for the lanes and for the count.\<close>

lemma end_lane:
  assumes "i < BATCH_SIZE" and "unat (lookup_finished st) = ended st" and "\<not> BITMAP_GET (valid_map st) i"
    and st': "st' = st\<lparr>links_at := (links_at st)(i := l), valid_map := BITMAP_SET (valid_map st) i,
      lookup_finished := lookup_finished st + 1\<rparr>"
  shows "\<forall>j < BATCH_SIZE. lane st' j = (if j = i then (nodes_at st i, l, True) else lane st j)"
    and "unat (lookup_finished st') = ended st'" and "same_rest_state st st'"
proof -
  have "valid_map st' = BITMAP_SET (valid_map st) i" by (simp add: st')
  note e = ended_set [OF assms(1,3) this]
  show "unat (lookup_finished st') = ended st'"
    using count_ended [OF assms(2) e(2)] e(1) by (simp add: st')
qed (use assms(1) in \<open>simp_all add: st' lane_def same_rest_state_def BATCH_SIZE_def\<close>)

lemma move_lane:
  assumes "unat (lookup_finished st) = ended st" and "\<not> BITMAP_GET (valid_map st) i"
    and st': "st' = st\<lparr>links_at := (links_at st)(i := l), nodes_at := (nodes_at st)(i := n)\<rparr>"
  shows "\<forall>j < BATCH_SIZE. lane st' j = (if j = i then (n, l, False) else lane st j)"
    and "unat (lookup_finished st') = ended st'" and "same_rest_state st st'"
  using assms(1,2) by (simp_all add: st' lane_def ended_def same_rest_state_def)

lemma inner_step:
  assumes "i < BATCH_SIZE" and "unat (lookup_finished st) = ended st"
  shows "\<exists>stop st'. find_inner_loop t b (i, st) = (stop, (i + 1) mod BATCH_SIZE, st')
    \<and> (\<forall>j < BATCH_SIZE. lane st' j = (if j = i then lane_step t (keys b i) (lane st i) else lane st j))
    \<and> unat (lookup_finished st') = ended st' \<and> (stop \<longrightarrow> ended st' = BATCH_SIZE) \<and> same_rest_state st st'"
proof (cases "BITMAP_GET (valid_map st) i")
  case True
  with assms show ?thesis by (auto simp: find_inner_loop_def lane_def same_rest_state_def)
next
  case False
  note e = end_lane [OF assms False refl] and m = move_lane [OF assms(2) False refl]
  have l: "lane st i = (nodes_at st i, links_at st i, False)" using False by (simp add: lane_def)
  show ?thesis
  proof (cases "nodes_at st i")
    case None
    with False l e [of None] show ?thesis by (simp add: find_inner_loop_def)
  next
    case (Some p)
    let ?cmp = "treap_key_cmp (keys b i) (key (nodes t p))"
    consider "?cmp = 0" | "?cmp < 0" | "0 < ?cmp" by linarith
    then show ?thesis
    proof cases
      case 1
      with False l e [of "links_at st i"] Some show ?thesis by (simp add: find_inner_loop_def)
    next
      case 2
      with False l m [where l = "Some (LeftL p)" and n = "left (nodes t p)"] Some show ?thesis
        by (auto simp: find_inner_loop_def Let_def intro!: exI [of _ False])
    next
      case 3
      with False l m [where l = "Some (RightL p)" and n = "right (nodes t p)"] Some show ?thesis
        by (auto simp: find_inner_loop_def Let_def intro!: exI [of _ False])
    qed
  qed
qed

subsection \<open>All turns of the search\<close>

text \<open>After \<open>m\<close> turns lane \<open>j\<close> has made this many steps.\<close>

definition steps_of :: "nat \<Rightarrow> nat \<Rightarrow> nat" where
  "steps_of m j = m div BATCH_SIZE + (if j < m mod BATCH_SIZE then 1 else 0)"

definition after_turns :: "treap \<Rightarrow> batch \<Rightarrow> nat \<Rightarrow> batch_state \<Rightarrow> bool" where
  "after_turns t b m st \<longleftrightarrow> unat (lookup_finished st) = ended st
     \<and> (\<forall>j < BATCH_SIZE. lane st j = lane_at t (keys b j) (steps_of m j))"

lemma steps_of_Suc:
  "j < BATCH_SIZE \<Longrightarrow> steps_of (Suc m) j = (if j = m mod BATCH_SIZE then Suc (steps_of m j) else steps_of m j)"
  by (auto simp: steps_of_def div_Suc mod_Suc BATCH_SIZE_def)

lemma steps_of_mono: "m \<le> m' \<Longrightarrow> steps_of m j \<le> steps_of m' j"
proof (induction m' rule: dec_induct)
  case (step n)
  have "steps_of n j \<le> steps_of (Suc n) j" by (auto simp: steps_of_def div_Suc mod_Suc)
  with step show ?case by simp
qed simp

lemma lane_at_Suc: "lane_at t k (Suc m) = lane_step t k (lane_at t k m)"
  by (simp add: lane_at_def)

lemma lane_at_ended:
  assumes "lane_at t k m = (n, l, True)" and "m \<le> m'"
  shows "lane_at t k m' = (n, l, True)"
  using assms(2,1) by (induction m' rule: dec_induct) (simp_all add: lane_at_Suc)

lemma find_turns:
  assumes "after_turns t b m st"
  shows "\<exists>st'. snd (bpf_loop n (find_inner_loop t b) (m mod BATCH_SIZE, st)) = st'
    \<and> after_turns t b (m + n) st' \<and> same_rest_state st st'"
  using assms
proof (induction n arbitrary: m st)
  case 0
  then show ?case by (simp add: same_rest_state_def)
next
  case (Suc n)
  let ?i = "m mod BATCH_SIZE"
  have i: "?i < BATCH_SIZE" by (simp add: BATCH_SIZE_def)
  have c: "unat (lookup_finished st) = ended st" using Suc.prems by (simp add: after_turns_def)
  from inner_step [OF i c, of t b] obtain stop st' where
    f: "find_inner_loop t b (?i, st) = (stop, Suc m mod BATCH_SIZE, st')" and
    s: "\<forall>j < BATCH_SIZE. lane st' j = (if j = ?i then lane_step t (keys b ?i) (lane st ?i) else lane st j)"
      "unat (lookup_finished st') = ended st'" "stop \<longrightarrow> ended st' = BATCH_SIZE" "same_rest_state st st'"
    by (auto simp: mod_Suc_eq)
  have a: "after_turns t b (Suc m) st'"
    using s(1,2) Suc.prems i by (auto simp: after_turns_def steps_of_Suc lane_at_Suc)
  show ?case
  proof (cases stop)
    case False
    with Suc.IH [OF a] f s(4) show ?thesis by (auto simp: same_rest_state_def)
  next
    case True
    have "lane st' j = lane_at t (keys b j) (steps_of (m + Suc n) j)" if "j < BATCH_SIZE" for j
    proof -
      have "lane st' j = (nodes_at st' j, links_at st' j, True)"
        using True s(3) that by (simp add: all_ended lane_def)
      with a that have "lane_at t (keys b j) (steps_of (Suc m) j) = (nodes_at st' j, links_at st' j, True)"
        by (simp add: after_turns_def)
      from lane_at_ended [OF this steps_of_mono] \<open>lane st' j = _\<close> show ?thesis by simp
    qed
    with True f s(2,4) show ?thesis by (simp add: after_turns_def)
  qed
qed


lemma find_start_spec:
  shows "after_turns t b 0 (find_start t st)" and "same_rest_state st (find_start t st)"
proof -
  define g where "g = (\<lambda>i (st :: batch_state). st\<lparr>links_at := (links_at st)(i := Some RootL),
    nodes_at := (nodes_at st)(i := root t), valid_map := BITMAP_CLR (valid_map st) i\<rparr>)"
  have g: "lane (g i st) j = (if j = i then (root t, Some RootL, False) else lane st j)"
    if "i < 32" "j < 32" for i j st using that by (simp add: g_def lane_def)
  have r: "lookup_finished (g i st) = lookup_finished st" "same_rest_state st' (g i st) = same_rest_state st' st"
    for i st st' by (simp_all add: g_def same_rest_state_def)
  have f: "(\<forall>j < 32. lane (fold g xs st) j = (if j \<in> set xs then (root t, Some RootL, False) else lane st j))
    \<and> lookup_finished (fold g xs st) = lookup_finished st \<and> same_rest_state st' (fold g xs st) = same_rest_state st' st"
    if "\<forall>i \<in> set xs. i < 32" for xs st st'
    using that by (induction xs arbitrary: st) (simp_all add: g r)
  have "\<forall>i \<in> set [0 ..< BATCH_SIZE]. i < 32" by (simp add: BATCH_SIZE_def)
  note f = f [OF this, of "st\<lparr>lookup_finished := 0\<rparr>" st, unfolded g_def, folded find_start_def]
  then have l: "lane (find_start t st) j = (root t, Some RootL, False)" if "j < BATCH_SIZE" for j
    using that by (simp add: BATCH_SIZE_def)
  then have "ended (find_start t st) = 0" by (auto simp: ended_def lane_def)
  with f l show "after_turns t b 0 (find_start t st)" by (simp add: after_turns_def steps_of_def lane_at_def)
  from f show "same_rest_state st (find_start t st)" by (simp add: same_rest_state_def)
qed

lemma find_finish_spec:
  assumes "unat (lookup_finished st) = ended st" and "i + n = BATCH_SIZE"
    and "\<forall>j < i. BITMAP_GET (valid_map st) j"
  shows "let st' = find_finish n i st in same_rest_state st st' \<and> unat (lookup_finished st') = BATCH_SIZE
    \<and> (\<forall>j < BATCH_SIZE. lane st' j = (if BITMAP_GET (valid_map st) j then lane st j else (None, None, True)))"
  using assms
proof (induction n arbitrary: i st)
  case 0
  then have "ended st = BATCH_SIZE" by (simp add: all_ended)
  with 0 show ?case by (simp add: same_rest_state_def)
next
  case (Suc n)
  show ?case
  proof (cases "unat (lookup_finished st) = BATCH_SIZE")
    case True
    with Suc.prems(1) have "ended st = BATCH_SIZE" by simp
    then have "\<forall>j < BATCH_SIZE. BITMAP_GET (valid_map st) j" unfolding all_ended .
    with True show ?thesis by (simp add: same_rest_state_def)
  next
    case False
    have i: "i < BATCH_SIZE" using Suc.prems(2) by simp
    show ?thesis
    proof (cases "BITMAP_GET (valid_map st) i")
      case True
      with Suc.prems have "\<forall>j < i + 1. BITMAP_GET (valid_map st) j" by (auto simp: less_Suc_eq)
      from Suc.IH [OF Suc.prems(1) _ this] Suc.prems(2) False True show ?thesis by simp
    next
      case nv: False
      let ?st = "st\<lparr>nodes_at := (nodes_at st)(i := None), links_at := (links_at st)(i := None),
                 valid_map := BITMAP_SET (valid_map st) i, lookup_finished := lookup_finished st + 1\<rparr>"
      have v: "valid_map ?st = BITMAP_SET (valid_map st) i" by simp
      note e = ended_set [OF i nv v]
      have c: "unat (lookup_finished ?st) = ended ?st"
        using count_ended [OF Suc.prems(1) e(2)] e(1) by simp
      have b: "BITMAP_GET (valid_map ?st) j = (j = i \<or> BITMAP_GET (valid_map st) j)" if "j < BATCH_SIZE" for j
        using that i by (auto simp: BATCH_SIZE_def)
      with Suc.prems(3) i have "\<forall>j < i + 1. BITMAP_GET (valid_map ?st) j" by (auto simp: less_Suc_eq)
      from Suc.IH [OF c _ this] Suc.prems(2) False nv b show ?thesis
        by (auto simp: Let_def same_rest_state_def lane_def)
    qed
  qed
qed

lemma find_loop_None: "find_loop t k n None l = None"
  by (cases n) simp_all

text \<open>A lane that has made \<open>n\<close> steps, against the plain search with \<open>n\<close> turns.\<close>

lemma lane_find:
  "case (lane_step t k ^^ n) (p, Some l, False) of (p', l', v) \<Rightarrow>
     if v then p' = map_option fst (find_loop t k n p l) \<and> l' = map_option snd (find_loop t k n p l)
     else find_loop t k n p l = None"
proof (induction n arbitrary: p l)
  case (Suc n)
  have fixed: "(lane_step t k ^^ m) (p, l, True) = (p, l, True)" for m p l by (induction m) simp_all
  show ?case
  proof (cases p)
    case None
    then show ?thesis by (simp add: funpow_Suc_right fixed del: funpow.simps)
  next
    case (Some i)
    let ?cmp = "treap_key_cmp k (key (nodes t i))"
    consider "?cmp = 0" | "?cmp < 0" | "0 < ?cmp" by linarith
    then show ?thesis
    proof cases
      case 1
      with Some show ?thesis by (simp add: funpow_Suc_right fixed del: funpow.simps)
    next
      case 2
      with Some Suc.IH [of "left (nodes t i)" "LeftL i"] show ?thesis
        by (simp add: funpow_Suc_right Let_def case_prod_beta del: funpow.simps)
    next
      case 3
      with Some Suc.IH [of "right (nodes t i)" "RightL i"] show ?thesis
        by (simp add: funpow_Suc_right Let_def case_prod_beta del: funpow.simps)
    qed
  qed
qed simp

lemma find_batch_lanes:
  assumes "i < BATCH_SIZE"
  shows "let st' = treap_find_batch t b st in
    nodes_at st' i = treap_find TREAP_MAX_HEIGHT t (keys b i)
    \<and> links_at st' i = map_option snd (treap_find_raw TREAP_MAX_HEIGHT t (keys b i))
    \<and> BITMAP_GET (valid_map st') i \<and> unat (lookup_finished st') = BATCH_SIZE
    \<and> same_rest_state st st'"
proof -
  let ?n = "BATCH_SIZE * TREAP_MAX_HEIGHT"
  note s = find_start_spec(1) [of t b st] find_start_spec(2) [of st t]
  obtain st1 where st1: "st1 = (if root t = None then find_start t st
      else snd (bpf_loop ?n (find_inner_loop t b) (0, find_start t st)))" by simp
  have "unat (lookup_finished st1) = ended st1 \<and> same_rest_state st st1 \<and>
    (\<forall>j < BATCH_SIZE. lane st1 j = lane_at t (keys b j) (if root t = None then 0 else TREAP_MAX_HEIGHT))"
  proof (cases "root t = None")
    case True
    with s show ?thesis by (simp add: st1 after_turns_def steps_of_def)
  next
    case False
    from find_turns [OF s(1), of ?n] s(2) False show ?thesis
      by (auto simp: st1 after_turns_def steps_of_def same_rest_state_def BATCH_SIZE_def)
  qed
  then have c: "unat (lookup_finished st1) = ended st1" and r: "same_rest_state st st1"
    and l: "lane st1 i = lane_at t (keys b i) (if root t = None then 0 else TREAP_MAX_HEIGHT)"
    using assms by auto
  let ?f = "find_loop t (keys b i) TREAP_MAX_HEIGHT (root t) RootL"
  have f: "let st' = find_finish BATCH_SIZE 0 st1 in same_rest_state st1 st'
    \<and> unat (lookup_finished st') = BATCH_SIZE
    \<and> lane st' i = (if BITMAP_GET (valid_map st1) i then lane st1 i else (None, None, True))"
    using find_finish_spec [OF c, of 0 BATCH_SIZE] assms by (simp add: Let_def)
  have n: "?f = None" if "root t = None" using that by (simp add: find_loop_None)
  have "lane (find_finish BATCH_SIZE 0 st1) i = (map_option fst ?f, map_option snd ?f, True)"
    using lane_find [where t = t and k = "keys b i" and n = TREAP_MAX_HEIGHT and p = "root t" and l = RootL] f l n
    by (cases "root t"; cases ?f) (auto simp: lane_at_def lane_def Let_def split: if_splits)
  with f r show ?thesis
    unfolding treap_find_batch_def treap_find_def treap_find_raw_def
    by (simp add: Let_def st1 lane_def same_rest_state_def)
qed

text \<open>C8. The search of a batch leaves every key with the node and the link that the plain search of
  the treap gives for it, all marked as valid and counted, and touches nothing else of the state.\<close>

theorem find_batch_spec:
  assumes "i < BATCH_SIZE"
  shows "let st' = treap_find_batch t b st in
    nodes_at st' i = treap_find TREAP_MAX_HEIGHT t (keys b i)
    \<and> links_at st' i = map_option snd (treap_find_raw TREAP_MAX_HEIGHT t (keys b i))
    \<and> BITMAP_GET (valid_map st') i \<and> unat (lookup_finished st') = BATCH_SIZE
    \<and> same_rest_state st st'"
  using assms by (rule find_batch_lanes)

subsection \<open>The deletions of a batch\<close>

lemma below_minus_one: "\<not> (- 1 < (i :: u32))"
  by (metis leD word_order.extremum)

lemma counter_loops: "max_remove_loop t i st = st" "deleted_loop i st = st"
  by (simp_all add: below_minus_one max_remove_loop.simps deleted_loop.simps)

lemma delete_loop_none:
  assumes "\<forall>j. i \<le> j \<and> j < i + n \<longrightarrow> nodes_at st j = None"
  shows "bpf_loop_checked n delete_inner_loop (t, i, st) = Inr (t, i + n, st)"
  using assms by (induction n arbitrary: i) (simp_all add: delete_inner_loop_def)

lemma delete_step:
  obtains (fault) "delete_inner_loop (t, i, st) = Inl Null_pointer"
  | (step) t' st' where "delete_inner_loop (t, i, st) = Inr (False, t', i + 1, st')" "same_rest_state st st'"
proof -
  have "delete_inner_loop (t, i, st) = Inl Null_pointer
    \<or> (\<exists>t' st'. delete_inner_loop (t, i, st) = Inr (False, t', i + 1, st') \<and> same_rest_state st st')"
    by (simp add: delete_inner_loop_def same_rest_state_def split: option.split prod.split)
  with that show ?thesis by blast
qed

lemma delete_loop_split:
  "bpf_loop_checked (m + n) delete_inner_loop (t, i, st)
    = checked_bind (bpf_loop_checked m delete_inner_loop (t, i, st)) (bpf_loop_checked n delete_inner_loop)"
proof (induction m arbitrary: t i st)
  case (Suc m)
  show ?case by (rule delete_step [of t i st]) (simp_all add: Suc.IH)
qed simp

lemma delete_loop_rest:
  "bpf_loop_checked n delete_inner_loop (t, i, st) = Inr (t', i', st') \<Longrightarrow> same_rest_state st st'"
proof (induction n arbitrary: t i st)
  case (Suc n)
  show ?case
  proof (rule delete_step [of t i st])
    fix t1 st1
    assume "delete_inner_loop (t, i, st) = Inr (False, t1, i + 1, st1)" "same_rest_state st st1"
    with Suc.IH [of t1 "i + 1" st1] Suc.prems show ?thesis by (simp add: same_rest_state_def)
  qed (use Suc.prems in simp)
qed (simp add: same_rest_state_def)

text \<open>The counts of a batch are not computed: both loops that fill them compare an unsigned index
  with \<open>-1\<close>, so that every entry but the last keeps what an earlier batch left there.\<close>

theorem batch_counters_stale:
  assumes "treap_delete_batch t b st = Inr (t', st')" and "i < BATCH_SIZE - 1"
  shows "deleted st' i = deleted st i \<and> max_remove_prob st' i = max_remove_prob st i
    \<and> deleted st' (BATCH_SIZE - 1) = 0 \<and> max_remove_prob st' (BATCH_SIZE - 1) = 0"
proof -
  from assms(1) obtain t1 i1 st1 where
    d: "bpf_loop_checked BATCH_SIZE delete_inner_loop (t, 0, treap_find_batch t b st) = Inr (t1, i1, st1)"
    and st': "st' = st1\<lparr>max_remove_prob := (max_remove_prob st1)(BATCH_SIZE - 1 := 0),
      deleted := (deleted st1)(BATCH_SIZE - 1 := 0)\<rparr>"
    unfolding treap_delete_batch_def counter_loops
    by (auto simp: checked_bind_Inr)
  have "0 < BATCH_SIZE" by (simp add: BATCH_SIZE_def)
  from find_batch_lanes [OF this, of t b st] delete_loop_rest [OF d]
  have "same_rest_state st st1" by (simp add: same_rest_state_def Let_def)
  with st' assms(2) show ?thesis
    by (simp_all add: same_rest_state_def)
qed


text \<open>With at most one hit the deletions are the plain deletion.\<close>

lemma nodes_found:
  "j < BATCH_SIZE \<Longrightarrow> nodes_at (treap_find_batch t b st) j = treap_find TREAP_MAX_HEIGHT t (keys b j)"
  "j < BATCH_SIZE \<Longrightarrow> links_at (treap_find_batch t b st) j
     = map_option snd (treap_find_raw TREAP_MAX_HEIGHT t (keys b j))"
  using find_batch_lanes [of j t b st] by (simp_all add: Let_def)

lemma delete_inner_found:
  assumes "nodes_at st i = map_option fst (treap_find_raw TREAP_MAX_HEIGHT t k)"
    and "links_at st i = map_option snd (treap_find_raw TREAP_MAX_HEIGHT t k)"
  shows "\<exists>st'. delete_inner_loop (t, i, st)
      = Inr (False, snd (treap_delete TREAP_MAX_SIZE TREAP_MAX_HEIGHT t k), i + 1, st') \<and> nodes_at st' = nodes_at st
        \<and> st' = (if fst (treap_delete TREAP_MAX_SIZE TREAP_MAX_HEIGHT t k) \<in> {0, -1} then st
                 else st\<lparr>valid_map := BITMAP_CLR (valid_map st) i\<rparr>)"
  using assms unlink_node_ret [of TREAP_MAX_HEIGHT t]
  by (auto simp: delete_inner_loop_def treap_delete_def split: prod.splits option.splits) (metis fst_conv)+

text \<open>C12. When at most one key of a batch is in the treap, the deletions of the batch change the treap
  exactly as the plain deletion of that key does, and the key's bit stays set unless that fails.\<close>

theorem batch_delete_single:
  assumes "i < BATCH_SIZE" and "\<forall>j < BATCH_SIZE. j \<noteq> i \<longrightarrow> treap_find TREAP_MAX_HEIGHT t (keys b j) = None"
  shows "\<exists>st'. treap_delete_batch t b st
      = Inr (snd (treap_delete TREAP_MAX_SIZE TREAP_MAX_HEIGHT t (keys b i)), st')
    \<and> (BITMAP_GET (valid_map st') i \<longleftrightarrow>
        fst (treap_delete TREAP_MAX_SIZE TREAP_MAX_HEIGHT t (keys b i)) \<in> {0, -1})"
proof -
  let ?st = "treap_find_batch t b st" and ?k = "keys b i"
  let ?d = "treap_delete TREAP_MAX_SIZE TREAP_MAX_HEIGHT t ?k"
  have 1: "bpf_loop_checked i delete_inner_loop (t, 0, ?st) = Inr (t, i, ?st)"
    using delete_loop_none [of 0 i ?st t] assms by (simp add: nodes_found)
  from delete_inner_found [where st = ?st and i = i and t = t and k = ?k] assms(1) obtain st1 where
    d: "delete_inner_loop (t, i, ?st) = Inr (False, snd ?d, i + 1, st1)" "nodes_at st1 = nodes_at ?st"
    and st1: "st1 = (if fst ?d \<in> {0, -1} then ?st else ?st\<lparr>valid_map := BITMAP_CLR (valid_map ?st) i\<rparr>)"
    by (auto simp: nodes_found treap_find_def)
  have 2: "bpf_loop_checked (BATCH_SIZE - Suc i) delete_inner_loop (snd ?d, Suc i, st1) = Inr (snd ?d, BATCH_SIZE, st1)"
    using delete_loop_none [of "Suc i" "BATCH_SIZE - Suc i" st1 "snd ?d"] assms d(2) by (simp add: nodes_found)
  have "bpf_loop_checked BATCH_SIZE delete_inner_loop (t, 0, ?st) = Inr (snd ?d, BATCH_SIZE, st1)"
    using delete_loop_split [of i "Suc (BATCH_SIZE - Suc i)" t 0 ?st] 1 2 d(1) assms(1) by simp
  moreover have "BITMAP_GET (valid_map st1) i \<longleftrightarrow> fst ?d \<in> {0, -1}"
    using find_batch_lanes [OF assms(1), of t b st] assms(1) by (simp add: st1 Let_def BATCH_SIZE_def)
  ultimately show ?thesis by (simp add: treap_delete_batch_def counter_loops)
qed

text \<open>C13. A batch that holds the keys of a node and of its only child frees both nodes but leaves the
  freed child as the root: the link to the child was found before its parent was taken out.\<close>

theorem batch_delete_dangling:
  assumes "root t = Some x" "left (nodes t x) = Some y" "right (nodes t x) = None"
    and "left (nodes t y) = None" "right (nodes t y) = None" "used t = 2"
    and "keys b 0 = key (nodes t x)" "keys b 1 = key (nodes t y)" "key (nodes t y) < key (nodes t x)"
    and "\<forall>j < BATCH_SIZE. 2 \<le> j \<longrightarrow> keys b j \<notin> {key (nodes t x), key (nodes t y)}"
  shows "\<exists>t' st'. treap_delete_batch t b st = Inr (t', st') \<and> used t' = 0 \<and> root t' = Some y"
proof -
  let ?st = "treap_find_batch t b st"
  have xy: "x \<noteq> y" using assms(2,4) by auto
  have find: "treap_find_raw TREAP_MAX_HEIGHT t k = (if k = key (nodes t x) then Some (x, RootL)
      else if k = key (nodes t y) then Some (y, LeftL x) else None)" for k
  proof -
    have H: "TREAP_MAX_HEIGHT = Suc (Suc (Suc 61))" by (simp add: TREAP_MAX_HEIGHT_def)
    show ?thesis unfolding treap_find_raw_def H find_loop.simps
      using assms(1-5,9)
      by (auto simp: Let_def treap_key_cmp_def find_loop_None word_less_def word_uint_eq_iff)
  qed
  have n: "nodes_at ?st 0 = Some x" "links_at ?st 0 = Some RootL" "nodes_at ?st 1 = Some y"
    "links_at ?st 1 = Some (LeftL x)" "\<forall>j < BATCH_SIZE. 2 \<le> j \<longrightarrow> nodes_at ?st j = None"
    using assms(7-10) by (auto simp: nodes_found treap_find_def find BATCH_SIZE_def)
  define t1 where "t1 = treap_free_node TREAP_MAX_SIZE (wr t RootL (Some y)) x"
  have t1: "nodes t1 = nodes t" "root t1 = Some y" "used t1 = 1"
    using assms(6) by (simp_all add: t1_def treap_free_node_def)
  have 1: "delete_inner_loop (t, 0, ?st) = Inr (False, t1, 1, ?st)"
    using n assms(2,3) by (simp add: delete_inner_loop_def unlink_node_def t1_def)
  define t2 where "t2 = treap_free_node TREAP_MAX_SIZE (wr t1 (LeftL x) None) y"
  have t2: "used t2 = 0" "root t2 = Some y" using t1 by (simp_all add: t2_def treap_free_node_def)
  have 2: "delete_inner_loop (t1, 1, ?st) = Inr (False, t2, 2, ?st)"
    using n assms(4,5) t1 by (simp add: delete_inner_loop_def unlink_node_def t2_def)
  have 3: "bpf_loop_checked 14 delete_inner_loop (t2, 2, ?st) = Inr (t2, 16, ?st)"
    using delete_loop_none [of 2 14 ?st t2] n(5) by (simp add: BATCH_SIZE_def)
  have two: "bpf_loop_checked (Suc (Suc m)) f s = z"
    if "f s = Inr (False, s1)" "f s1 = Inr (False, s2)" "bpf_loop_checked m f s2 = z" for m s s1 s2 z
    and f :: "treap \<times> nat \<times> batch_state \<Rightarrow> _"
    using that by simp
  from two [OF 1 2 3] have "bpf_loop_checked BATCH_SIZE delete_inner_loop (t, 0, ?st) = Inr (t2, 16, ?st)"
    by (simp add: BATCH_SIZE_def)
  with t2 show ?thesis by (simp add: treap_delete_batch_def counter_loops)
qed

subsection \<open>The batches of a run\<close>

text \<open>The batches that a sequence of keys fills, and what they are: every 17th key is lost.\<close>

fun batches :: "batch \<Rightarrow> u32 list \<Rightarrow> u32 list list" where
  "batches b [] = []"
| "batches b (k # ks) =
     (let (full, b) = make_batch b k
      in if full then map (keys b) [0 ..< BATCH_SIZE] # batches b ks else batches b ks)"

function chunks :: "u32 list \<Rightarrow> u32 list list" where
  "chunks ks = (if length ks < BATCH_SIZE then [] else take BATCH_SIZE ks # chunks (drop (BATCH_SIZE + 1) ks))"
  by auto
termination by (relation "measure length") (auto simp: BATCH_SIZE_def)

declare chunks.simps [simp del]

lemma unat_eq_15: "w = 15 \<longleftrightarrow> unat (w :: u32) = 15"
  by (simp add: word_unat_eq_iff)

lemma batches_from:
  assumes "write_off b = of_nat w" and "w \<le> BATCH_SIZE"
  shows "batches b ks =
    (if w = BATCH_SIZE then chunks (drop 1 ks)
     else if length ks < BATCH_SIZE - w then []
     else (map (keys b) [0 ..< w] @ take (BATCH_SIZE - w) ks) # chunks (drop (BATCH_SIZE - w + 1) ks))"
  using assms
proof (induction ks arbitrary: b w)
  case Nil
  then show ?case by (auto simp: chunks.simps [of "[]"] BATCH_SIZE_def)
next
  case (Cons k ks)
  have u: "unat (write_off b) = w" using Cons.prems by (simp add: BATCH_SIZE_def unat_of_nat)
  show ?case
  proof (cases "w = BATCH_SIZE")
    case True
    then have "make_batch b k = (False, b\<lparr>write_off := 0\<rparr>)"
      using Cons.prems by (simp add: make_batch_def)
    with Cons.IH [of "b\<lparr>write_off := 0\<rparr>" 0] True show ?thesis
      by (simp add: chunks.simps [of ks] BATCH_SIZE_def)
  next
    case False
    then have w: "w < BATCH_SIZE" using Cons.prems by simp
    let ?b = "b\<lparr>keys := (keys b)(w := k), write_off := write_off b + 1\<rparr>"
    have nle: "\<not> of_nat BATCH_SIZE \<le> write_off b" "write_off b + 1 = of_nat BATCH_SIZE \<longleftrightarrow> Suc w = BATCH_SIZE"
      using u w by (auto simp: word_le_nat_alt BATCH_SIZE_def unat_eq_15 eq_diff_eq [symmetric])
    have m: "make_batch b k = (Suc w = BATCH_SIZE, ?b)"
      using nle u by (simp add: make_batch_def Let_def)
    have "write_off ?b = of_nat (Suc w)" "Suc w \<le> BATCH_SIZE" using Cons.prems(1) w by simp_all
    note ih = Cons.IH [OF this]
    have d: "BATCH_SIZE - w = Suc (BATCH_SIZE - Suc w)" using w by simp
    show ?thesis
    proof (cases "Suc w = BATCH_SIZE")
      case True
      then have "map (keys ?b) [0 ..< BATCH_SIZE] = map (keys b) [0 ..< w] @ [k]" by (simp flip: True)
      with ih m True d False show ?thesis by simp
    next
      case no: False
      with ih m d False show ?thesis by simp
    qed
  qed
qed

text \<open>C14. Of a run of keys the batches take sixteen and lose the next one: the write offset of a full
  batch is reset only when the following key arrives, and that key is dropped.\<close>

theorem batches_lose_keys:
  assumes "write_off b = 0"
  shows "batches b ks = chunks ks"
  using batches_from [of b 0 ks] assms by (simp add: chunks.simps [of ks] BATCH_SIZE_def)

subsection \<open>Examples\<close>

definition batch_ex_treap :: treap where
  "batch_ex_treap = \<lparr>root = Some 0,
     nodes = (\<lambda>i. if i = 0 then \<lparr>key = 7, priority = 9, left = Some 1, right = None\<rparr>
       else \<lparr>key = 5, priority = 3, left = None, right = None\<rparr>),
     used = 2, stack = (\<lambda>i. TREAP_MAX_SIZE - i - 1)\<rparr>"

definition batch_ex :: batch where
  "batch_ex = \<lparr>write_off = 16, keys = (\<lambda>i. if i = 0 then 7 else if i = 1 then 5 else 9)\<rparr>"

definition batch_ex_state :: batch_state where
  "batch_ex_state = \<lparr>valid_map = 0, nodes_at = (\<lambda>_. None), links_at = (\<lambda>_. None), rnd_u = (\<lambda>_. 0),
     max_remove_prob = (\<lambda>_. 4), deleted = (\<lambda>_. 3), lookup_finished = 0\<rparr>"

lemma ex_find:
  "treap_find_raw TREAP_MAX_HEIGHT batch_ex_treap k
    = (if k = 7 then Some (0, RootL) else if k = 5 then Some (1, LeftL 0) else None)"
proof -
  have H: "TREAP_MAX_HEIGHT = Suc (Suc (Suc 61))" by (simp add: TREAP_MAX_HEIGHT_def)
  show ?thesis
    unfolding treap_find_raw_def H find_loop.simps
    by (auto simp: batch_ex_treap_def treap_key_cmp_def find_loop_None word_uint_eq_iff)
qed

theorem find_batch_spec_witness:
  "nodes_at (treap_find_batch batch_ex_treap batch_ex batch_ex_state) 1 = Some 1
   \<and> links_at (treap_find_batch batch_ex_treap batch_ex batch_ex_state) 1 = Some (LeftL 0)"
proof -
  have "1 < BATCH_SIZE" by (simp add: BATCH_SIZE_def)
  from find_batch_spec [OF this, of batch_ex_treap batch_ex batch_ex_state] show ?thesis
    by (simp add: treap_find_def ex_find batch_ex_def Let_def)
qed

theorem batch_delete_dangling_witness:
  "\<exists>t' st'. treap_delete_batch batch_ex_treap batch_ex batch_ex_state = Inr (t', st')
     \<and> used t' = 0 \<and> root t' = Some 1"
  by (rule batch_delete_dangling [where x = 0]) (simp_all add: batch_ex_treap_def batch_ex_def)

theorem batch_counters_stale_witness:
  "\<exists>t' st'. treap_delete_batch batch_ex_treap (batch_ex\<lparr>keys := (\<lambda>_. 9)\<rparr>) batch_ex_state = Inr (t', st')
     \<and> deleted st' 0 = 3 \<and> max_remove_prob st' 14 = 4 \<and> deleted st' 15 = 0"
proof -
  let ?b = "batch_ex\<lparr>keys := (\<lambda>_. 9)\<rparr>"
  have "bpf_loop_checked BATCH_SIZE delete_inner_loop
      (batch_ex_treap, 0, treap_find_batch batch_ex_treap ?b batch_ex_state)
    = Inr (batch_ex_treap, 0 + BATCH_SIZE, treap_find_batch batch_ex_treap ?b batch_ex_state)"
    by (rule delete_loop_none) (simp add: nodes_found treap_find_def ex_find)
  then obtain t' st' where d: "treap_delete_batch batch_ex_treap ?b batch_ex_state = Inr (t', st')"
    by (simp add: treap_delete_batch_def)
  have "deleted st' 0 = 3 \<and> deleted st' (BATCH_SIZE - 1) = 0"
    using batch_counters_stale [OF d, of 0] by (simp add: BATCH_SIZE_def batch_ex_state_def)
  moreover have "max_remove_prob st' 14 = 4"
    using batch_counters_stale [OF d, of 14] by (simp add: BATCH_SIZE_def batch_ex_state_def)
  ultimately show ?thesis using d by (simp add: BATCH_SIZE_def)
qed

theorem batch_delete_single_witness:
  "\<exists>t' st'. treap_delete_batch batch_ex_treap (batch_ex\<lparr>keys := (\<lambda>i. if i = 3 then 5 else 9)\<rparr>) batch_ex_state
      = Inr (t', st') \<and> used t' = 1 \<and> BITMAP_GET (valid_map st') 3"
proof -
  let ?b = "batch_ex\<lparr>keys := (\<lambda>i. if i = 3 then 5 else 9)\<rparr>"
  let ?t = "treap_free_node TREAP_MAX_SIZE (wr batch_ex_treap (LeftL 0) None) 1"
  have d: "treap_delete TREAP_MAX_SIZE TREAP_MAX_HEIGHT batch_ex_treap 5 = (0, ?t)"
    by (simp add: treap_delete_def ex_find unlink_node_def) (simp add: batch_ex_treap_def)
  have 3: "3 < BATCH_SIZE" by (simp add: BATCH_SIZE_def)
  have "\<exists>st'. treap_delete_batch batch_ex_treap ?b batch_ex_state = Inr (?t, st') \<and> BITMAP_GET (valid_map st') 3"
    using batch_delete_single [OF 3, of batch_ex_treap ?b batch_ex_state]
    by (simp add: d treap_find_def ex_find)
  moreover have "used ?t = 1" by (simp add: treap_free_node_def batch_ex_treap_def)
  ultimately show ?thesis by blast
qed

theorem batches_lose_keys_witness:
  "batches (batch_ex\<lparr>write_off := 0\<rparr>) (map of_nat [0 ..< 33])
     = [map of_nat [0 ..< 16], map of_nat [17 ..< 33]]"
proof -
  have "batches (batch_ex\<lparr>write_off := 0\<rparr>) (map of_nat [0 ..< 33]) = chunks (map of_nat [0 ..< 33])"
    by (rule batches_lose_keys) simp
  also have "\<dots> = [map of_nat [0 ..< 16], map of_nat [17 ..< 33]]"
    by (simp add: chunks.simps BATCH_SIZE_def take_map drop_map)
  finally show ?thesis .
qed

end
