(* ===== verification/Bax_Treap.thy ===== *)
theory Bax_Treap
  imports Treap Phased
begin





subsection \<open>Lookups in steps\<close>









end
