(* ===== verification/Request.thy ===== *)
theory Request
  imports Packet
begin

text \<open>
  What the table lookup programs of \<open>motivation/arena_htab\<close>, \<open>motivation/arena_router\<close>,
  \<open>motivation/arena_bloom_filter\<close> and \<open>motivation/bax_lpm\<close> share: a request is a UDP packet to a
  port from 8000 to 8127 with the number of keys and the keys; the reply carries the values. The values
  wait in a per-CPU scratch area, which keeps its content from packet to packet; the lookup of
  the only entry of such a map does not fail. \<open>bpf_xdp_adjust_tail\<close> is an argument, as in
  \<open>Packet\<close>. The sizes of a key in the request and of a value in the reply are arguments.
\<close>

definition PAYLOAD :: nat where "PAYLOAD = ETH_HLEN + IP_HLEN + UDP_HLEN"
definition REQ_HDR :: nat where "REQ_HDR = 4"
definition MAX_REQ :: nat where "MAX_REQ = 32"

lemmas request_consts = PAYLOAD_def REQ_HDR_def MAX_REQ_def hlen_defs

type_synonym scratch = "nat \<Rightarrow> u8 list"

text \<open>The port check that every program makes.\<close>

definition our_port :: "packet \<Rightarrow> bool" where
  "our_port p = (let tmp_port = ntohs (ld16 p (ETH_HLEN + IP_HLEN + 2)) in 8000 \<le> tmp_port \<and> tmp_port < 8128)"

text \<open>The checks up to the number of keys, which is cut to 16 bits: an action, or the number.\<close>

definition request_count :: "packet \<Rightarrow> xdp_action + nat" where
  "request_count p =
     (if length p < PAYLOAD + REQ_HDR then Inl XDP_PASS
      else if \<not> our_port p then Inl XDP_PASS
      else let count_req = (ucast (ld32 p PAYLOAD) :: u16)
           in if of_nat MAX_REQ < count_req then Inl XDP_DROP else Inr (unat count_req))"

text \<open>
  The loop over the keys: \<open>n\<close> keys are left, the next one is number \<open>i\<close>; \<open>look\<close> is the lookup of
  the key at an offset of the packet. \<open>False\<close> is the early end with \<open>XDP_DROP\<close>.
\<close>

definition key_off :: "nat \<Rightarrow> nat \<Rightarrow> nat" where "key_off ksz i = PAYLOAD + REQ_HDR + ksz * i"

fun gather ::
  "nat \<Rightarrow> (packet \<Rightarrow> nat \<Rightarrow> u8 list option checked) \<Rightarrow> packet \<Rightarrow> nat \<Rightarrow> nat \<Rightarrow> scratch \<Rightarrow> (bool \<times> scratch) checked"
where
  "gather ksz look p 0 i s = Inr (True, s)"
| "gather ksz look p (Suc n) i s =
     (if length p < key_off ksz (i + 1) then Inr (False, s)
      else checked_bind (look p (key_off ksz i)) (\<lambda>v.
             case v of
               None \<Rightarrow> Inr (False, s)
             | Some val \<Rightarrow> gather ksz look p n (i + 1) (s(i := val))))"

text \<open>The change of the packet's size: \<open>__u16\<close> lengths and a \<open>short\<close> difference.\<close>

definition resize_reply ::
  "(int \<Rightarrow> packet \<Rightarrow> int \<times> packet) \<Rightarrow> nat \<Rightarrow> packet \<Rightarrow> bool \<times> packet" where
  "resize_reply adjust_tail size_of_reply p =
     (let target_size = (of_nat size_of_reply :: u16);
          payload_len = (of_nat (length p - PAYLOAD) :: u16);
          delta = target_size - payload_len
      in if delta \<noteq> 0 then let (ret, p) = adjust_tail (sint delta) p in (ret = 0, p) else (True, p))"

definition st_bytes :: "packet \<Rightarrow> nat \<Rightarrow> u8 list \<Rightarrow> packet" where
  "st_bytes p i b = take i p @ b @ drop (i + length b) p"

fun write_values :: "nat \<Rightarrow> scratch \<Rightarrow> nat \<Rightarrow> nat \<Rightarrow> nat \<Rightarrow> packet \<Rightarrow> bool \<times> packet" where
  "write_values vsz s 0 i off p = (True, p)"
| "write_values vsz s (Suc n) i off p =
     (if length p < off + vsz then (False, p)
      else write_values vsz s n (i + 1) (off + vsz) (st_bytes p off (s i)))"

text \<open>\<open>fail\<close> is the action of the program when the size cannot be changed.\<close>

definition send_reply ::
  "xdp_action \<Rightarrow> (int \<Rightarrow> packet \<Rightarrow> int \<times> packet) \<Rightarrow> nat \<Rightarrow> nat \<Rightarrow> scratch \<Rightarrow> packet \<Rightarrow> xdp_action \<times> packet" where
  "send_reply fail adjust_tail vsz count_req s p =
     (let (ok, p) = resize_reply adjust_tail (vsz * count_req) p in
      if \<not> ok then (fail, p)
      else
        let (ok, p) = write_values vsz s count_req 0 PAYLOAD p in
        if \<not> ok then (XDP_DROP, p)
        else let (_, p) = prepare_headers_before_send p in (XDP_TX, p))"

text \<open>A program: the checks, its own stage that fills the scratch area, and the reply.\<close>

definition serve ::
  "xdp_action \<Rightarrow> (int \<Rightarrow> packet \<Rightarrow> int \<times> packet) \<Rightarrow> nat \<Rightarrow> (packet \<Rightarrow> nat \<Rightarrow> scratch \<Rightarrow> (bool \<times> scratch) checked)
     \<Rightarrow> packet \<Rightarrow> scratch \<Rightarrow> (xdp_action \<times> packet \<times> scratch) checked" where
  "serve fail adjust_tail vsz stage p s =
     (case request_count p of
        Inl a \<Rightarrow> Inr (a, p, s)
      | Inr count_req \<Rightarrow>
          checked_bind (stage p count_req s) (\<lambda>(ok, s).
            if \<not> ok then Inr (XDP_DROP, p, s)
            else let (a, p) = send_reply fail adjust_tail vsz count_req s p in Inr (a, p, s)))"

text \<open>The bytes from an offset of the packet on, and the size of the values of all programs but one.\<close>

definition packet_key :: "packet \<Rightarrow> nat \<Rightarrow> nat \<Rightarrow> u8" where "packet_key p off = (\<lambda>j. p ! (off + j))"

definition VAL_SZ :: nat where "VAL_SZ = 32"

subsection \<open>The stage of the plain programs\<close>

text \<open>The values of the requested keys, when the packet has all keys and all of them are found.\<close>

fun values_from :: "nat \<Rightarrow> (packet \<Rightarrow> nat \<Rightarrow> u8 list option) \<Rightarrow> packet \<Rightarrow> nat \<Rightarrow> nat \<Rightarrow> u8 list list option" where
  "values_from ksz val_at p 0 i = Some []"
| "values_from ksz val_at p (Suc n) i =
     (if length p < key_off ksz (i + 1) then None
      else case val_at p (key_off ksz i) of
             None \<Rightarrow> None
           | Some v \<Rightarrow> map_option (Cons v) (values_from ksz val_at p n (i + 1)))"

lemma values_from_nth:
  "values_from ksz val_at p n i = Some vs \<Longrightarrow>
     length vs = n \<and> (\<forall>j < n. key_off ksz (i + j + 1) \<le> length p \<and> val_at p (key_off ksz (i + j)) = Some (vs ! j))"
proof (induction n arbitrary: i vs)
  case (Suc n)
  then obtain v ws where v: "\<not> length p < key_off ksz (i + 1)" "val_at p (key_off ksz i) = Some v"
    "values_from ksz val_at p n (i + 1) = Some ws" "vs = v # ws"
    by (auto split: if_splits option.splits)
  from Suc.IH [OF v(3)] v(1,2,4) show ?case by (auto simp: less_Suc_eq_0_disj)
qed simp

lemma all_upto_Suc:
  "(\<forall>j. i \<le> j \<and> j < i + Suc n \<longrightarrow> P j) = (P i \<and> (\<forall>j. i + 1 \<le> j \<and> j < i + 1 + n \<longrightarrow> P j))"
proof (intro iffI conjI allI impI)
  fix j assume "P i \<and> (\<forall>j. i + 1 \<le> j \<and> j < i + 1 + n \<longrightarrow> P j)" and "i \<le> j \<and> j < i + Suc n"
  then show "P j" by (cases "j = i") auto
qed auto

lemma values_from_all:
  "values_from ksz val_at p n i =
     (if (n = 0 \<or> key_off ksz (i + n) \<le> length p) \<and> (\<forall>j. i \<le> j \<and> j < i + n \<longrightarrow> val_at p (key_off ksz j) \<noteq> None)
      then Some (map (\<lambda>j. the (val_at p (key_off ksz j))) [i ..< i + n]) else None)"
proof (induction n arbitrary: i)
  case (Suc n)
  let ?ok = "\<lambda>i n. \<forall>j. i \<le> j \<and> j < i + n \<longrightarrow> val_at p (key_off ksz j) \<noteq> None"
  have mono: "key_off ksz (i + 1) \<le> key_off ksz (i + Suc n)" by (simp add: key_off_def)
  have split: "?ok i (Suc n) \<longleftrightarrow> val_at p (key_off ksz i) \<noteq> None \<and> ?ok (i + 1) n"
    by (rule all_upto_Suc)
  have up: "[i ..< i + Suc n] = i # [i + 1 ..< i + 1 + n]" by (simp add: upt_conv_Cons del: upt_Suc)
  show ?case
  proof (cases "key_off ksz (i + 1) \<le> length p \<and> val_at p (key_off ksz i) \<noteq> None")
    case True
    then have "values_from ksz val_at p (Suc n) i
        = map_option (Cons (the (val_at p (key_off ksz i)))) (values_from ksz val_at p n (i + 1))" by auto
    with Suc.IH [of "i + 1"] True mono split up show ?thesis by (auto simp del: upt_Suc)
  next
    case False
    with mono split show ?thesis by (auto split: option.splits)
  qed
qed simp

lemma gather_values:
  assumes "\<And>off. look p off = Inr (val_at p off)"
  shows "case values_from ksz val_at p n i of
      None \<Rightarrow> \<exists>s'. gather ksz look p n i s = Inr (False, s')
    | Some vs \<Rightarrow> \<exists>s'. gather ksz look p n i s = Inr (True, s') \<and> (\<forall>j < n. s' (i + j) = vs ! j)
        \<and> (\<forall>j < i. s' j = s j)"
proof (induction n arbitrary: i s)
  case (Suc n)
  show ?case
  proof (cases "length p < key_off ksz (i + 1)")
    case False
    note inside = this
    show ?thesis
    proof (cases "val_at p (key_off ksz i)")
      case (Some v)
      note ih = Suc.IH [of "i + 1" "s(i := v)"]
      show ?thesis
      proof (cases "values_from ksz val_at p n (i + 1)")
        case None
        with ih inside Some show ?thesis by (simp add: assms)
      next
        case (Some vs)
        with ih obtain s' where s': "gather ksz look p n (i + 1) (s(i := v)) = Inr (True, s')"
          "\<forall>j < n. s' (i + 1 + j) = vs ! j" "\<forall>j < i + 1. s' j = (s(i := v)) j" by auto
        have "\<forall>j < Suc n. s' (i + j) = (v # vs) ! j"
          using s'(2) spec [OF s'(3), of i] by (auto simp: less_Suc_eq_0_disj)
        moreover have "\<forall>j < i. s' j = s j" using s'(3) by simp
        ultimately show ?thesis using s'(1) inside Some \<open>val_at p (key_off ksz i) = Some v\<close> by (simp add: assms)
      qed
    qed (use inside in \<open>simp add: assms\<close>)
  qed simp
qed simp

subsection \<open>The reply\<close>

lemma length_st_bytes [simp]: "i + length b \<le> length p \<Longrightarrow> length (st_bytes p i b) = length p"
  by (simp add: st_bytes_def)

lemma write_values_ok:
  assumes "off + vsz * n = length p" and "\<forall>j < n. length (s (i + j)) = vsz"
  shows "write_values vsz s n i off p = (True, take off p @ concat (map s [i ..< i + n]))"
  using assms
proof (induction n arbitrary: i off p)
  case (Suc n)
  have l: "length (s i) = vsz" using Suc.prems(2) by force
  have o: "off + vsz \<le> length p" using Suc.prems(1) by simp
  have "write_values vsz s n (i + 1) (off + vsz) (st_bytes p off (s i))
      = (True, take (off + vsz) (st_bytes p off (s i)) @ concat (map s [i + 1 ..< i + 1 + n]))"
    by (rule Suc.IH) (use Suc.prems l o in \<open>auto simp: algebra_simps dest: spec [where x = "Suc _"]\<close>)
  moreover have "take (off + vsz) (st_bytes p off (s i)) = take off p @ s i"
    using o l by (simp add: st_bytes_def)
  moreover have "[i ..< i + Suc n] = i # [i + 1 ..< i + 1 + n]" by (simp add: upt_conv_Cons del: upt_Suc)
  ultimately show ?case using o by (simp del: upt_Suc)
qed simp

lemma write_values_cong:
  "\<forall>j. i \<le> j \<and> j < i + n \<longrightarrow> s j = s' j \<Longrightarrow> write_values vsz s n i off p = write_values vsz s' n i off p"
  by (induction n arbitrary: i off p) auto

lemma send_reply_cong:
  assumes "\<forall>j < n. s j = s' j"
  shows "send_reply fail adj vsz n s p = send_reply fail adj vsz n s' p"
proof -
  have "write_values vsz s n 0 off q = write_values vsz s' n 0 off q" for off q
    using assms by (intro write_values_cong) simp
  then show ?thesis by (simp add: send_reply_def split: prod.split)
qed

text \<open>A packet that answers \<open>p\<close> with a payload.\<close>

definition reply_to :: "packet \<Rightarrow> u8 list \<Rightarrow> packet \<Rightarrow> bool" where
  "reply_to p payload q \<longleftrightarrow> length q = PAYLOAD + length payload \<and> drop PAYLOAD q = payload
     \<and> take 6 q = take 6 (drop 6 p) \<and> take 6 (drop 6 q) = take 6 p
     \<and> ld32 q 26 = ld32 p 30 \<and> ld32 q 30 = ld32 p 26 \<and> ld16 q 34 = ld16 p 36 \<and> ld16 q 36 = ld16 p 34
     \<and> unat (ntohs (ld16 q 16)) = 28 + length payload \<and> unat (ntohs (ld16 q 38)) = 8 + length payload
     \<and> ipv4_csum_inline q 14 0 = 0"

text \<open>The bytes to add for a reply, and whether the kernel agrees.\<close>

definition reply_delta :: "nat \<Rightarrow> packet \<Rightarrow> int" where
  "reply_delta size_of_reply p = int (PAYLOAD + size_of_reply) - int (length p)"

definition resizable :: "(int \<Rightarrow> packet \<Rightarrow> int \<times> packet) \<Rightarrow> nat \<Rightarrow> packet \<Rightarrow> bool" where
  "resizable adj size_of_reply p \<longleftrightarrow>
     reply_delta size_of_reply p = 0 \<or> fst (adj (reply_delta size_of_reply p) p) = 0"

lemma resizable_cut: "resizable cut_or_pad n p"
  by (simp add: resizable_def cut_or_pad_def reply_delta_def)

lemma short_delta:
  assumes "size_of_reply < 2 ^ 15" and "length p < 2 ^ 15" and "PAYLOAD \<le> length p"
  shows "sint (of_nat size_of_reply - of_nat (length p - PAYLOAD) :: u16) = reply_delta size_of_reply p"
proof -
  have "(of_nat size_of_reply - of_nat (length p - PAYLOAD) :: u16) = of_int (reply_delta size_of_reply p)"
    using assms(3) by (simp add: reply_delta_def of_nat_diff)
  moreover have "- (2 ^ 15) \<le> reply_delta size_of_reply p" "reply_delta size_of_reply p < 2 ^ 15"
    using assms by (simp_all add: reply_delta_def)
  ultimately show ?thesis by (simp add: signed_of_int signed_take_bit_int_eq_self)
qed

lemma resize_reply_spec:
  assumes "tail_contract adj" and "size_of_reply < 2 ^ 15" and "length p < 2 ^ 15" and "PAYLOAD \<le> length p"
  shows "\<exists>q. resize_reply adj size_of_reply p = (resizable adj size_of_reply p, q)
    \<and> (resizable adj size_of_reply p \<longrightarrow> length q = PAYLOAD + size_of_reply \<and> take PAYLOAD q = take PAYLOAD p
        \<and> (\<forall>k. k < length p \<and> k < length q \<longrightarrow> q ! k = p ! k))"
proof -
  let ?d = "of_nat size_of_reply - of_nat (length p - PAYLOAD) :: u16"
  note sd = short_delta [OF assms(2-4)]
  have z: "?d = 0 \<longleftrightarrow> reply_delta size_of_reply p = 0"
    by (metis sd signed_eq_0_iff)
  show ?thesis
  proof (cases "reply_delta size_of_reply p = 0")
    case True
    with z assms(4) show ?thesis
      by (simp add: resize_reply_def resizable_def) (simp add: reply_delta_def)
  next
    case False
    obtain r q where a: "adj (reply_delta size_of_reply p) p = (r, q)" by fastforce
    have "length q = PAYLOAD + size_of_reply \<and> take PAYLOAD q = take PAYLOAD p
        \<and> (\<forall>k. k < length p \<and> k < length q \<longrightarrow> q ! k = p ! k)" if "r = 0"
    proof -
      from a that assms(1) have c: "int (length q) = int (length p) + reply_delta size_of_reply p"
        "\<forall>k. k < length p \<and> k < length q \<longrightarrow> q ! k = p ! k"
        unfolding tail_contract_def by blast+
      from c(1) have l: "length q = PAYLOAD + size_of_reply" by (simp add: reply_delta_def)
      with c(2) assms(4) show ?thesis by (simp add: list_eq_iff_nth_eq)
    qed
    with False z a sd show ?thesis by (simp add: resize_reply_def resizable_def Let_def)
  qed
qed

lemma header_of_take:
  assumes "take PAYLOAD q = take PAYLOAD p" and "PAYLOAD \<le> length p" and "PAYLOAD \<le> length q" and "k < PAYLOAD"
  shows "q ! k = p ! k"
  using assms by (metis nth_take)

lemma send_reply_spec:
  assumes tail: "tail_contract adj" and vsz: "vsz * n < 2 ^ 15" and len: "length p < 2 ^ 15" "PAYLOAD \<le> length p"
    and vals: "\<forall>j < n. length (s j) = vsz"
  shows "if resizable adj (vsz * n) p
    then \<exists>q. send_reply fail adj vsz n s p = (XDP_TX, q) \<and> reply_to p (concat (map s [0 ..< n])) q
    else fst (send_reply fail adj vsz n s p) = fail"
proof -
  from resize_reply_spec [OF tail vsz len] obtain q where
    r: "resize_reply adj (vsz * n) p = (resizable adj (vsz * n) p, q)" and
    q: "resizable adj (vsz * n) p \<longrightarrow> length q = PAYLOAD + vsz * n \<and> take PAYLOAD q = take PAYLOAD p"
    by auto
  show ?thesis
  proof (cases "resizable adj (vsz * n) p")
    case False
    with r show ?thesis by (simp add: send_reply_def)
  next
    case True
    with q have lq: "length q = PAYLOAD + vsz * n" and h: "take PAYLOAD q = take PAYLOAD p" by blast+
    define w where "w = take PAYLOAD q @ concat (map s [0 ..< n])"
    have wr: "write_values vsz s n 0 PAYLOAD q = (True, w)"
      using write_values_ok [of PAYLOAD vsz n q s 0] lq vals by (simp add: w_def)
    have lc: "length (concat (map s [0 ..< n])) = vsz * n"
      using vals by (induction n) simp_all
    have lw: "length w = PAYLOAD + vsz * n" using lq lc by (simp add: w_def)
    have "length w < 2 ^ 16" using lw vsz by (simp add: request_consts)
    from prepare_headers_spec [OF this] lw obtain u where u: "prepare_headers_before_send w = (0, u)"
      "length u = length w" "drop 42 u = drop 42 w" "take 6 u = take 6 (drop 6 w)" "take 6 (drop 6 u) = take 6 w"
      "ld32 u 26 = ld32 w 30 \<and> ld32 u 30 = ld32 w 26" "ld16 u 34 = ld16 w 36 \<and> ld16 u 36 = ld16 w 34"
      "unat (ntohs (ld16 u 16)) = length w - 14" "unat (ntohs (ld16 u 38)) = length w - 34"
      "ipv4_csum_inline u 14 0 = 0"
      by (auto simp: request_consts split: if_splits)
    have hw: "take PAYLOAD w = take PAYLOAD p" using h lq len(2) by (simp add: w_def)
    have nth: "w ! k = p ! k" if "k < 42" for k
      using header_of_take [OF hw len(2), of k] lw that by (simp add: request_consts)
    have "take 6 w = take 6 p" "take 6 (drop 6 w) = take 6 (drop 6 p)"
      using lw len(2) by (auto simp: list_eq_iff_nth_eq nth request_consts)
    moreover have "ld32 w 26 = ld32 p 26" "ld32 w 30 = ld32 p 30" "ld16 w 34 = ld16 p 34" "ld16 w 36 = ld16 p 36"
      by (simp_all add: ld32_def ld16_def nth)
    moreover have "drop 42 w = concat (map s [0 ..< n])"
      using lq by (simp add: w_def request_consts)
    ultimately have "reply_to p (concat (map s [0 ..< n])) u"
      using u lw lc by (simp add: reply_to_def request_consts)
    with True r wr u(1) show ?thesis by (simp add: send_reply_def)
  qed
qed

subsection \<open>The programs as servers of a table\<close>

text \<open>
  What a program relies on in its table: on proper states the lookup does not fault and gives
  \<open>val_at\<close>, and values have the size of the reply's slots. Then a request is answered with the
  values of its keys, in order.
\<close>

definition request_values :: "nat \<Rightarrow> (packet \<Rightarrow> nat \<Rightarrow> u8 list option) \<Rightarrow> packet \<Rightarrow> nat \<Rightarrow> u8 list list option" where
  "request_values ksz val_at p n = values_from ksz val_at p n 0"

definition served ::
  "xdp_action \<Rightarrow> (int \<Rightarrow> packet \<Rightarrow> int \<times> packet) \<Rightarrow> nat \<Rightarrow> u8 list list option \<Rightarrow> packet
     \<Rightarrow> (xdp_action \<times> packet \<times> scratch) checked \<Rightarrow> bool" where
  "served fail adj vsz vals p r \<longleftrightarrow> (case vals of
     None \<Rightarrow> \<exists>s. r = Inr (XDP_DROP, p, s)
   | Some vs \<Rightarrow> if resizable adj (vsz * length vs) p
       then \<exists>q s. r = Inr (XDP_TX, q, s) \<and> reply_to p (concat vs) q
       else \<exists>q s. r = Inr (fail, q, s))"

text \<open>A stage that does its work: it fills the first entries of the scratch area, or ends early.\<close>

definition fills :: "u8 list list option \<Rightarrow> nat \<Rightarrow> (bool \<times> scratch) checked \<Rightarrow> bool" where
  "fills vals n r \<longleftrightarrow> (case vals of
     None \<Rightarrow> \<exists>s. r = Inr (False, s)
   | Some vs \<Rightarrow> \<exists>s. r = Inr (True, s) \<and> (\<forall>j < n. s j = vs ! j))"

lemma serve_served:
  assumes tail: "tail_contract adj" and len: "length p < 2 ^ 15" and n: "request_count p = Inr n"
    and stage: "fills (request_values ksz val_at p n) n (stage p n s)"
    and vsz: "\<And>off v. val_at p off = Some v \<Longrightarrow> length v = vsz" "vsz \<le> 64"
  shows "served fail adj vsz (request_values ksz val_at p n) p (serve fail adj vsz stage p s)"
proof -
  have pl: "PAYLOAD \<le> length p" and n32: "n \<le> 32"
    using n by (auto simp: request_count_def Let_def request_consts word_le_nat_alt not_less split: if_splits)
  have "vsz * n \<le> 64 * 32" by (rule mult_le_mono [OF vsz(2) n32])
  then have v: "vsz * n < 2 ^ 15" by simp
  show ?thesis
  proof (cases "request_values ksz val_at p n")
    case None
    with stage n show ?thesis by (auto simp: serve_def served_def fills_def)
  next
    case (Some vs)
    with stage obtain s' where s': "stage p n s = Inr (True, s')" "\<forall>j < n. s' j = vs ! j"
      by (auto simp: fills_def)
    from values_from_nth [OF Some [unfolded request_values_def]] have lvs: "length vs = n"
      and f: "\<forall>j < n. val_at p (key_off ksz j) = Some (vs ! j)" by auto
    have "\<forall>j < n. length (s' j) = vsz" using f s'(2) vsz(1) by auto
    note r = send_reply_spec [OF tail v len pl this, of fail]
    have "map s' [0 ..< n] = vs" using s'(2) lvs by (simp add: list_eq_iff_nth_eq)
    with r Some s'(1) n lvs show ?thesis
      by (auto simp: serve_def served_def split: if_splits prod.splits)
  qed
qed

locale table_server =
  fixes proper :: "'d \<Rightarrow> bool"
    and look :: "'d \<Rightarrow> packet \<Rightarrow> nat \<Rightarrow> u8 list option checked"
    and val_at :: "'d \<Rightarrow> packet \<Rightarrow> nat \<Rightarrow> u8 list option"
    and ksz vsz :: nat
  assumes look_val_at: "proper d \<Longrightarrow> look d p off = Inr (val_at d p off)"
    and value_size: "proper d \<Longrightarrow> val_at d p off = Some v \<Longrightarrow> length v = vsz"
    and value_small: "vsz \<le> 64"
begin

lemma serves:
  assumes d: "proper d" and tail: "tail_contract adj" and len: "length p < 2 ^ 15" and n: "request_count p = Inr n"
  shows "served fail adj vsz (request_values ksz (val_at d) p n) p
    (serve fail adj vsz (\<lambda>p n. gather ksz (look d) p n 0) p s)"
proof (rule serve_served [OF tail len n _ value_size [OF d] value_small])
  have l: "look d p off = Inr (val_at d p off)" for off by (rule look_val_at [OF d])
  show "fills (request_values ksz (val_at d) p n) n (gather ksz (look d) p n 0 s)"
    using gather_values [where look = "look d" and val_at = "val_at d" and ksz = ksz and n = n and i = 0 and s = s, OF l]
    by (auto simp: fills_def request_values_def split: option.splits)
qed

end

end
