(* ===== verification/Xdp_Kv.thy ===== *)
theory Xdp_Kv
  imports Request Htab
begin

text \<open>
  The key-value programs of \<open>motivation/arena_htab\<close>: \<open>cappuccino.bpf.c\<close> on a hash map of the
  kernel (an argument here), \<open>macchiato.bpf.c\<close> on the hash table in the arena, \<open>lungo.bpf.c\<close>,
  which splits the lookup around prefetches, and \<open>talkh.bpf.c\<close>, which does the same for a batch of
  packets. Keys have four bytes, values 32. The table pointer is \<open>None\<close> until user space has set it.
  The table of that directory, \<open>bpf_arena_htab.h\<close>, is an older copy of the one in \<open>Htab\<close>;
  \<open>htab_lookup_copy_same\<close> of \<open>Htab_Loader\<close> shows that its lookup is the same.
\<close>

definition kv_cfg :: htab_cfg where "kv_cfg = \<lparr>key_sz = 4, val_sz = 32\<rparr>"

text \<open>The value at an address of the arena.\<close>

definition value_at :: "htab_mem \<Rightarrow> addr \<Rightarrow> u8 list" where
  "value_at m a = map (bytes_at m a) [0 ..< VAL_SZ]"

definition cappuccino_main ::
  "(int \<Rightarrow> packet \<Rightarrow> int \<times> packet) \<Rightarrow> (u32 \<Rightarrow> u8 list option) \<Rightarrow> packet \<Rightarrow> scratch
     \<Rightarrow> (xdp_action \<times> packet \<times> scratch) checked" where
  "cappuccino_main adj rules p s =
     serve XDP_PASS adj VAL_SZ (\<lambda>p n. gather 4 (\<lambda>p off. Inr (rules (ld32 p off))) p n 0) p s"

definition htab_value :: "htab \<times> htab_mem \<Rightarrow> packet \<Rightarrow> nat \<Rightarrow> u8 list option" where
  "htab_value = (\<lambda>(t, m) p off.
     let v = htab_lookup_elem kv_cfg t m (packet_key p off)
     in if v = 0 then None else Some (value_at m v))"

definition macchiato_main ::
  "(int \<Rightarrow> packet \<Rightarrow> int \<times> packet) \<Rightarrow> (htab \<times> htab_mem) option \<Rightarrow> packet \<Rightarrow> scratch
     \<Rightarrow> (xdp_action \<times> packet \<times> scratch) checked" where
  "macchiato_main adj rules p s =
     (case rules of
        None \<Rightarrow> Inr (XDP_PASS, p, s)
      | Some tm \<Rightarrow>
          serve XDP_PASS adj VAL_SZ (\<lambda>p n. gather 4 (\<lambda>p off. Inr (htab_value tm p off)) p n 0) p s)"

subsection \<open>The lookup in stages\<close>

text \<open>
  Stage one finds the buckets, the second loop their first elements (the list node is the first field
  of an element), and stage two copies the values. The pointers are in \<open>tmp\<close>; the keys, which
  the programs also keep in the scratch area, are read from the packet.
\<close>

fun find_buckets :: "htab \<Rightarrow> packet \<Rightarrow> nat \<Rightarrow> nat \<Rightarrow> (nat \<Rightarrow> addr) \<Rightarrow> (nat \<Rightarrow> addr) option" where
  "find_buckets t p 0 i tmp = Some tmp"
| "find_buckets t p (Suc n) i tmp =
     (if length p < key_off 4 (i + 1) then None
      else let hash = htab_hash (packet_key p (key_off 4 i)) (key_sz kv_cfg);
               head = select_bucket t hash
           in find_buckets t p n (i + 1) (tmp(i := head)))"

fun first_elements :: "htab_mem \<Rightarrow> nat \<Rightarrow> nat \<Rightarrow> (nat \<Rightarrow> addr) \<Rightarrow> (nat \<Rightarrow> addr)" where
  "first_elements m 0 i tmp = tmp"
| "first_elements m (Suc n) i tmp = first_elements m n (i + 1) (tmp(i := words m (tmp i)))"

fun copy_values :: "htab_mem \<Rightarrow> nat \<Rightarrow> nat \<Rightarrow> (nat \<Rightarrow> addr) \<Rightarrow> scratch \<Rightarrow> bool \<times> scratch" where
  "copy_values m 0 i tmp s = (True, s)"
| "copy_values m (Suc n) i tmp s =
     (let el = tmp i
      in if el = 0 then (False, s)
         else copy_values m n (i + 1) tmp (s(i := value_at m (EXTRACT_VAL kv_cfg el))))"

definition lungo_stage :: "htab \<times> htab_mem \<Rightarrow> packet \<Rightarrow> nat \<Rightarrow> scratch \<Rightarrow> (bool \<times> scratch) checked" where
  "lungo_stage = (\<lambda>(t, m) p n s.
     case find_buckets t p n 0 (\<lambda>_. 0) of
       None \<Rightarrow> Inr (False, s)
     | Some tmp \<Rightarrow> Inr (copy_values m n 0 (first_elements m n 0 tmp) s))"

definition lungo_main ::
  "(int \<Rightarrow> packet \<Rightarrow> int \<times> packet) \<Rightarrow> (htab \<times> htab_mem) option \<Rightarrow> packet \<Rightarrow> scratch
     \<Rightarrow> (xdp_action \<times> packet \<times> scratch) checked" where
  "lungo_main adj rules p s =
     (case rules of
        None \<Rightarrow> Inr (XDP_PASS, p, s)
      | Some tm \<Rightarrow> serve XDP_PASS adj VAL_SZ (lungo_stage tm) p s)"

subsection \<open>A batch of packets\<close>

text \<open>
  The context of a program on a patched kernel: the packets and a place for the action of each. The
  first argument of the loop is the number of turns up to \<open>XDP_MAX_BATCH_SIZE\<close> that are left. The
  program returns 0, or \<open>XDP_PASS\<close>, which is 2, when it does not see the table.
\<close>

record xdp_batch_md =
  buffs :: "packet list"
  actions :: "xdp_action list"

fun talkh_loop ::
  "(int \<Rightarrow> packet \<Rightarrow> int \<times> packet) \<Rightarrow> htab \<times> htab_mem \<Rightarrow> nat \<Rightarrow> nat \<Rightarrow> xdp_batch_md \<Rightarrow> scratch
     \<Rightarrow> (xdp_batch_md \<times> scratch) checked" where
  "talkh_loop adj tm 0 k b s = Inr (b, s)"
| "talkh_loop adj tm (Suc n) k b s =
     (if length (buffs b) \<le> k then Inr (b, s)
      else checked_bind (serve XDP_DROP adj VAL_SZ (lungo_stage tm) (buffs b ! k) s) (\<lambda>(a, p, s).
             talkh_loop adj tm n (k + 1) \<lparr>buffs = (buffs b)[k := p], actions = (actions b)[k := a]\<rparr> s))"

definition bbb_talkh_main ::
  "(int \<Rightarrow> packet \<Rightarrow> int \<times> packet) \<Rightarrow> nat \<Rightarrow> (htab \<times> htab_mem) option \<Rightarrow> xdp_batch_md \<Rightarrow> scratch
     \<Rightarrow> (int \<times> xdp_batch_md \<times> scratch) checked" where
  "bbb_talkh_main adj XDP_MAX_BATCH_SIZE rules b s =
     (case rules of
        None \<Rightarrow> Inr (2, b, s)
      | Some tm \<Rightarrow> checked_bind (talkh_loop adj tm XDP_MAX_BATCH_SIZE 0 b s) (\<lambda>(b, s). Inr (0, b, s)))"

subsection \<open>The plain programs\<close>

lemma length_value_at [simp]: "length (value_at m a) = VAL_SZ"
  by (simp add: value_at_def)

interpretation kernel_map: table_server "\<lambda>rules. \<forall>k v. rules k = Some v \<longrightarrow> length v = VAL_SZ"
    "\<lambda>rules p off. Inr (rules (ld32 p off))" "\<lambda>rules p off. rules (ld32 p off)" 4 VAL_SZ
  by unfold_locales (simp_all add: VAL_SZ_def)

interpretation arena_map: table_server "\<lambda>_. True" "\<lambda>tm p off. Inr (htab_value tm p off)" htab_value 4 VAL_SZ
proof unfold_locales
  fix d :: "htab \<times> htab_mem" and p off v
  assume "htab_value d p off = Some v"
  then show "length v = VAL_SZ" by (cases d) (auto simp: htab_value_def Let_def split: if_splits)
qed (simp_all add: VAL_SZ_def)

text \<open>A request to the program on the arena table is answered with the values that the table has for
  its keys, in the order of the keys, with the headers turned around; a key outside of the
  packet or the table drops the packet unchanged; a packet that the kernel does not resize is passed.\<close>

theorem macchiato_serves:
  assumes "tail_contract adj" and "length p < 2 ^ 15" and "request_count p = Inr n"
  shows "served XDP_PASS adj VAL_SZ (request_values 4 (htab_value tm) p n) p
    (macchiato_main adj (Some tm) p s)"
  using arena_map.serves [OF TrueI assms, of XDP_PASS tm s] by (simp add: macchiato_main_def)

text \<open>The baseline on a map of the kernel and the program on the arena table do the same on every packet,
  when both tables hold the same.\<close>

theorem cappuccino_macchiato:
  assumes "\<forall>p off. rules (ld32 p off) = htab_value tm p off"
  shows "cappuccino_main adj rules p s = macchiato_main adj (Some tm) p s"
  using assms by (simp add: cappuccino_main_def macchiato_main_def)

subsection \<open>The lookup in stages is one without keys\<close>

text \<open>What the stages look up: the first element of the key's bucket, whatever its key is.\<close>

definition bucket_first :: "htab \<times> htab_mem \<Rightarrow> packet \<Rightarrow> nat \<Rightarrow> u8 list option" where
  "bucket_first = (\<lambda>(t, m) p off.
     let el = words m (select_bucket t (htab_hash (packet_key p off) (key_sz kv_cfg)))
     in if el = 0 then None else Some (value_at m (EXTRACT_VAL kv_cfg el)))"

lemma find_buckets_spec:
  "find_buckets t p n i tmp =
     (if n = 0 \<or> key_off 4 (i + n) \<le> length p
      then Some (\<lambda>j. if i \<le> j \<and> j < i + n
             then select_bucket t (htab_hash (packet_key p (key_off 4 j)) (key_sz kv_cfg)) else tmp j)
      else None)"
proof (induction n arbitrary: i tmp)
  case (Suc n)
  have mono: "key_off 4 (i + 1) \<le> key_off 4 (i + Suc n)" by (simp add: key_off_def)
  show ?case
  proof (cases "length p < key_off 4 (i + 1)")
    case True
    with mono show ?thesis by simp
  next
    case False
    with Suc.IH [of "i + 1"] show ?thesis by (auto simp: fun_eq_iff Let_def)
  qed
qed (simp add: fun_eq_iff)

lemma first_elements_spec:
  "first_elements m n i tmp j = (if i \<le> j \<and> j < i + n then words m (tmp j) else tmp j)"
  by (induction n arbitrary: i tmp) auto

lemma copy_values_ok:
  assumes "\<forall>j. i \<le> j \<and> j < i + n \<longrightarrow> tmp j \<noteq> 0"
  shows "copy_values m n i tmp s
     = (True, \<lambda>j. if i \<le> j \<and> j < i + n then value_at m (EXTRACT_VAL kv_cfg (tmp j)) else s j)"
  using assms by (induction n arbitrary: i s) (auto simp: fun_eq_iff Let_def)

lemma copy_values_fail:
  assumes "i \<le> j" and "j < i + n" and "tmp j = 0"
  shows "\<exists>s'. copy_values m n i tmp s = (False, s')"
  using assms
proof (induction n arbitrary: i s)
  case (Suc n)
  show ?case
  proof (cases "i = j")
    case False
    with Suc.prems Suc.IH [of "i + 1"] show ?thesis by (simp add: Let_def)
  qed (use Suc.prems in simp)
qed simp

lemma lungo_fills: "fills (request_values 4 (bucket_first tm) p n) n (lungo_stage tm p n s)"
proof -
  obtain t m where tm: "tm = (t, m)" by (cases tm)
  define h where "h j = select_bucket t (htab_hash (packet_key p (key_off 4 j)) (key_sz kv_cfg))" for j
  have b: "bucket_first tm p (key_off 4 j)
      = (if words m (h j) = 0 then None else Some (value_at m (EXTRACT_VAL kv_cfg (words m (h j)))))" for j
    by (simp add: bucket_first_def tm h_def Let_def)
  show ?thesis
  proof (cases "n = 0 \<or> key_off 4 n \<le> length p")
    case False
    then show ?thesis
      by (simp add: fills_def request_values_def values_from_all lungo_stage_def tm find_buckets_spec)
  next
    case True
    let ?tmp = "\<lambda>j. if j < n then words m (h j) else 0"
    have f: "first_elements m n 0 (\<lambda>j. if j < n then h j else 0) = ?tmp"
      by (simp add: fun_eq_iff first_elements_spec)
    have "find_buckets t p n 0 (\<lambda>_. 0) = Some (\<lambda>j. if j < n then h j else 0)"
      using True by (auto simp: find_buckets_spec h_def fun_eq_iff)
    then have l: "lungo_stage tm p n s = Inr (copy_values m n 0 ?tmp s)"
      by (simp add: lungo_stage_def tm f)
    show ?thesis
    proof (cases "\<exists>j < n. words m (h j) = 0")
      case True
      then obtain j where j: "j < n" "words m (h j) = 0" by blast
      with copy_values_fail [of 0 j n ?tmp m s] l show ?thesis
        by (auto simp: fills_def request_values_def values_from_all b)
    next
      case ne: False
      then have "\<forall>j. 0 \<le> j \<and> j < 0 + n \<longrightarrow> ?tmp j \<noteq> 0" by simp
      from copy_values_ok [OF this, of m s] l ne True show ?thesis
        by (auto simp: fills_def request_values_def values_from_all b)
    qed
  qed
qed

lemma bucket_first_size: "bucket_first tm p off = Some v \<Longrightarrow> length v = VAL_SZ"
  by (cases tm) (auto simp: bucket_first_def Let_def split: if_splits)

text \<open>The program with the split lookup never compares keys. It serves every key with the value of the first
  element in the key's bucket; this is the value of the key when that element is the key's, and
  for a key that is not in the table it is the value of another key unless the bucket is empty.\<close>

theorem lungo_serves_first:
  assumes "tail_contract adj" and "length p < 2 ^ 15" and "request_count p = Inr n"
  shows "served XDP_PASS adj VAL_SZ (request_values 4 (bucket_first (t, m)) p n) p
      (lungo_main adj (Some (t, m)) p s)
    \<and> (\<forall>off. let key = packet_key p off; hash = htab_hash key 4; el = words m (select_bucket t hash)
         in (el \<noteq> 0 \<and> hash_at m el = hash \<and> my_memcmp (bytes_at m (EXTRACT_KEY el)) key 4 = 0
             \<longrightarrow> bucket_first (t, m) p off = htab_value (t, m) p off)
          \<and> (htab_value (t, m) p off = None \<longrightarrow> bucket_first (t, m) p off = None \<longleftrightarrow> el = 0))"
proof (intro conjI allI)
  show "served XDP_PASS adj VAL_SZ (request_values 4 (bucket_first (t, m)) p n) p
      (lungo_main adj (Some (t, m)) p s)"
    unfolding lungo_main_def option.case
    by (rule serve_served [where stage = "lungo_stage (t, m)" and val_at = "bucket_first (t, m)" and ksz = 4,
          OF assms lungo_fills]) (erule bucket_first_size, simp add: VAL_SZ_def)
  fix off
  show "let key = packet_key p off; hash = htab_hash key 4; el = words m (select_bucket t hash)
         in (el \<noteq> 0 \<and> hash_at m el = hash \<and> my_memcmp (bytes_at m (EXTRACT_KEY el)) key 4 = 0
             \<longrightarrow> bucket_first (t, m) p off = htab_value (t, m) p off)
          \<and> (htab_value (t, m) p off = None \<longrightarrow> bucket_first (t, m) p off = None \<longleftrightarrow> el = 0)"
    by (simp add: bucket_first_def htab_value_def Let_def htab_lookup_elem_def lookup_elem_raw_def kv_cfg_def
        MAX_BUCKET_LENGHT_def numeral_eq_Suc EXTRACT_VAL_def)
qed

subsection \<open>The batch\<close>

text \<open>What happens to a packet does not depend on the content of the scratch area.\<close>

lemma serve_lungo:
  "\<exists>a q. \<forall>s. \<exists>s'. serve fail adj VAL_SZ (lungo_stage tm) p s = Inr (a, q, s')"
proof (cases "request_count p")
  case (Inl a)
  then show ?thesis by (simp add: serve_def)
next
  case (Inr n)
  note f = lungo_fills [of tm p n, unfolded fills_def]
  show ?thesis
  proof (cases "request_values 4 (bucket_first tm) p n")
    case None
    have "\<exists>s'. serve fail adj VAL_SZ (lungo_stage tm) p s = Inr (XDP_DROP, p, s')" for s
    proof -
      from f [of s] None obtain s' where "lungo_stage tm p n s = Inr (False, s')" by auto
      with Inr show ?thesis by (simp add: serve_def)
    qed
    then show ?thesis by blast
  next
    case (Some vs)
    let ?r = "send_reply fail adj VAL_SZ n (\<lambda>j. vs ! j) p"
    have "\<exists>s'. serve fail adj VAL_SZ (lungo_stage tm) p s = Inr (fst ?r, snd ?r, s')" for s
    proof -
      from f [of s] Some obtain s' where s': "lungo_stage tm p n s = Inr (True, s')" "\<forall>j < n. s' j = vs ! j"
        by auto
      then have "send_reply fail adj VAL_SZ n s' p = ?r" by (intro send_reply_cong) simp
      with Inr s'(1) show ?thesis by (simp add: serve_def case_prod_beta)
    qed
    then show ?thesis by blast
  qed
qed

lemma talkh_loop_spec:
  assumes "length (actions b) = length (buffs b)" and "k + n \<ge> length (buffs b)"
  shows "\<exists>b' s'. talkh_loop adj tm n k b s = Inr (b', s') \<and> length (buffs b') = length (buffs b)
    \<and> length (actions b') = length (actions b)
    \<and> (\<forall>j < length (buffs b). if j < k then buffs b' ! j = buffs b ! j \<and> actions b' ! j = actions b ! j
         else \<forall>s. \<exists>s1. serve XDP_DROP adj VAL_SZ (lungo_stage tm) (buffs b ! j) s
             = Inr (actions b' ! j, buffs b' ! j, s1))"
  using assms
proof (induction n arbitrary: k b s)
  case (Suc n)
  show ?case
  proof (cases "length (buffs b) \<le> k")
    case False
    obtain a q where aq: "\<forall>s. \<exists>s'. serve XDP_DROP adj VAL_SZ (lungo_stage tm) (buffs b ! k) s = Inr (a, q, s')"
      using serve_lungo by blast
    then obtain s1 where s1: "serve XDP_DROP adj VAL_SZ (lungo_stage tm) (buffs b ! k) s = Inr (a, q, s1)" by blast
    let ?b = "\<lparr>buffs = (buffs b)[k := q], actions = (actions b)[k := a]\<rparr>"
    have "length (actions ?b) = length (buffs ?b)" "k + 1 + n \<ge> length (buffs ?b)"
      using Suc.prems by simp_all
    from Suc.IH [OF this, of s1] obtain b' s' where
      r: "talkh_loop adj tm n (k + 1) ?b s1 = Inr (b', s')" and
      l: "length (buffs b') = length (buffs b)" "length (actions b') = length (actions b)" and
      e: "\<forall>j < length (buffs b). if j < k + 1 then buffs b' ! j = buffs ?b ! j \<and> actions b' ! j = actions ?b ! j
         else \<forall>s. \<exists>s1. serve XDP_DROP adj VAL_SZ (lungo_stage tm) (buffs ?b ! j) s
             = Inr (actions b' ! j, buffs b' ! j, s1)" by auto
    have "if j < k then buffs b' ! j = buffs b ! j \<and> actions b' ! j = actions b ! j
         else \<forall>s. \<exists>s1. serve XDP_DROP adj VAL_SZ (lungo_stage tm) (buffs b ! j) s
             = Inr (actions b' ! j, buffs b' ! j, s1)" if "j < length (buffs b)" for j
    proof -
      consider "j < k" | "j = k" | "k < j" by linarith
      then show ?thesis
        using spec [OF e, of j] that aq Suc.prems(1) False by cases (simp_all split: if_splits)
    qed
    with r l s1 False show ?thesis by (simp add: not_le)
  qed auto
qed auto

text \<open>The program for a batch treats every packet as if it were alone: its action and its new content are
  those of the single-packet program on that packet, whatever the other packets left in the scratch
  area.\<close>

theorem talkh_each_alone:
  assumes "length (actions b) = length (buffs b)" and "length (buffs b) \<le> N"
  shows "\<exists>b' s'. bbb_talkh_main adj N (Some tm) b s = Inr (0, b', s') \<and> length (buffs b') = length (buffs b)
    \<and> (\<forall>k < length (buffs b). \<exists>s1. serve XDP_DROP adj VAL_SZ (lungo_stage tm) (buffs b ! k) s
         = Inr (actions b' ! k, buffs b' ! k, s1))"
proof -
  have "0 + N \<ge> length (buffs b)" using assms(2) by simp
  from talkh_loop_spec [OF assms(1) this, of adj tm s] show ?thesis
    by (auto simp: bbb_talkh_main_def)
qed

subsection \<open>Examples\<close>

text \<open>A table with one bucket that holds one element, with key 7, and a request for the key.\<close>

definition kv_ex :: "htab \<times> htab_mem" where
  "kv_ex = (\<lparr>buckets = 64, n_buckets = 1, elems = 128, elems_sz = 60, elems_used = 60\<rparr>,
     \<lparr>words = (\<lambda>a. if a = 64 then 128 else 0), hash_at = (\<lambda>_. jhash_1word 7 JHASH_INITVAL),
      byte_at = (\<lambda>a. if a = 152 then 7 else if a < 156 then 0 else 9)\<rparr>)"

definition kv_ex_request :: packet where
  "kv_ex_request = take 42 udp_ex @ [1, 0, 0, 0, 7, 0, 0, 0]"

lemma packet_key_load: "load32 (packet_key p off) 0 = ld32 p off"
  by (simp add: load32_def packet_key_def ld32_def)

lemma kv_ex_value: "htab_value kv_ex p off = (if ld32 p off = 7 then Some (replicate 32 9) else None)"
proof -
  have v: "value_at (snd kv_ex) 156 = replicate 32 9"
    by (rule nth_equalityI) (simp_all add: value_at_def kv_ex_def bytes_at_def VAL_SZ_def)
  have k: "load32 (bytes_at (snd kv_ex) 152) 0 = 7"
    by (simp add: load32_def bytes_at_def kv_ex_def le32_def)
  have w: "words (snd kv_ex) = (\<lambda>a. if a = 64 then 128 else 0)" "hash_at (snd kv_ex) a = jhash_1word 7 JHASH_INITVAL"
    "buckets (fst kv_ex) = 64" "n_buckets (fst kv_ex) = 1" for a
    by (simp_all add: kv_ex_def)
  obtain t m where tm: "kv_ex = (t, m)" by (cases kv_ex)
  note all = v [unfolded tm snd_conv] k [unfolded tm snd_conv] w [unfolded tm snd_conv fst_conv]
  have walk: "lookup_elem_raw m head h key k = lookup_walk m h key k (Suc (Suc 6)) (words m head)" for head h key k
    by (simp add: lookup_elem_raw_def MAX_BUCKET_LENGHT_def)
  have "htab_lookup_elem kv_cfg t m (packet_key p off) = (if ld32 p off = 7 then 156 else 0)"
    unfolding htab_lookup_elem_def walk lookup_walk.simps
    by (auto simp: Let_def select_bucket_def all
        kv_cfg_def EXTRACT_KEY_def ELEM_HDR_def EXTRACT_VAL_def my_memcmp_def htab_hash_def packet_key_load)
  with all show ?thesis by (simp add: htab_value_def tm)
qed

lemma kv_ex_request_ok: "request_count kv_ex_request = Inr 1" "length kv_ex_request = 50"
  "ld32 kv_ex_request 46 = 7"
  by (simp_all add: request_count_def our_port_def kv_ex_request_def udp_ex_def request_consts ld16_def ld32_def
      le16_def le32_def bswap16_def)

lemma kv_ex_values: "request_values 4 (htab_value kv_ex) kv_ex_request 1 = Some [replicate 32 9]"
  by (simp add: request_values_def key_off_def request_consts kv_ex_value kv_ex_request_ok)

theorem macchiato_serves_witness:
  "\<exists>q s. macchiato_main cut_or_pad (Some kv_ex) kv_ex_request (\<lambda>_. []) = Inr (XDP_TX, q, s)
     \<and> reply_to kv_ex_request (replicate 32 9) q"
proof -
  have "length kv_ex_request < 2 ^ 15" by (simp add: kv_ex_request_ok)
  from macchiato_serves [OF cut_or_pad_contract this kv_ex_request_ok(1), of kv_ex "\<lambda>_. []"] kv_ex_values
  show ?thesis
    by (auto simp: served_def resizable_cut)
qed

theorem cappuccino_macchiato_witness:
  "cappuccino_main cut_or_pad (\<lambda>k. if k = 7 then Some (replicate 32 9) else None) kv_ex_request (\<lambda>_. [])
     = macchiato_main cut_or_pad (Some kv_ex) kv_ex_request (\<lambda>_. [])"
  by (rule cappuccino_macchiato) (simp add: kv_ex_value)

theorem lungo_serves_first_witness:
  "\<exists>q s. lungo_main cut_or_pad (Some kv_ex) (kv_ex_request[46 := 8]) (\<lambda>_. []) = Inr (XDP_TX, q, s)
     \<and> drop 42 q = replicate 32 9 \<and> htab_value kv_ex (kv_ex_request[46 := 8]) 46 = None"
proof -
  let ?p = "kv_ex_request[46 := 8]"
  have l: "length ?p < 2 ^ 15" by (simp add: kv_ex_request_ok)
  have c: "request_count ?p = Inr 1" "ld32 ?p 46 = 8"
    by (simp_all add: request_count_def our_port_def kv_ex_request_def udp_ex_def request_consts ld16_def ld32_def
      le16_def le32_def bswap16_def)
  have b: "bucket_first kv_ex ?p off = Some (replicate 32 9)" for off
  proof -
    have v: "value_at (snd kv_ex) 156 = replicate 32 9"
      by (rule nth_equalityI) (simp_all add: value_at_def kv_ex_def bytes_at_def VAL_SZ_def)
    then show ?thesis
      by (simp add: bucket_first_def kv_ex_def select_bucket_def EXTRACT_VAL_def ELEM_HDR_def kv_cfg_def)
  qed
  have "request_values 4 (bucket_first kv_ex) ?p 1 = Some [replicate 32 9]"
    by (simp add: request_values_def key_off_def request_consts b kv_ex_request_ok)
  with lungo_serves_first [OF cut_or_pad_contract l c(1), of "fst kv_ex" "snd kv_ex" "\<lambda>_. []"] c(2)
  show ?thesis
    by (auto simp: served_def resizable_cut reply_to_def request_consts kv_ex_value)
qed

theorem talkh_each_alone_witness:
  "\<exists>b' s'. bbb_talkh_main cut_or_pad 32 (Some kv_ex)
       \<lparr>buffs = [kv_ex_request, []], actions = [XDP_ABORTED, XDP_ABORTED]\<rparr> (\<lambda>_. []) = Inr (0, b', s')
     \<and> actions b' ! 1 = XDP_PASS \<and> buffs b' ! 1 = []"
proof -
  let ?b = "\<lparr>buffs = [kv_ex_request, []], actions = [XDP_ABORTED, XDP_ABORTED]\<rparr>"
  have "length (actions ?b) = length (buffs ?b)" "length (buffs ?b) \<le> 32" by simp_all
  from talkh_each_alone [OF this, of cut_or_pad kv_ex "\<lambda>_. []"] obtain b' s' where
    r: "bbb_talkh_main cut_or_pad 32 (Some kv_ex) ?b (\<lambda>_. []) = Inr (0, b', s')" and
    e: "\<forall>k < 2. \<exists>s1. serve XDP_DROP cut_or_pad VAL_SZ (lungo_stage kv_ex) (buffs ?b ! k) (\<lambda>_. [])
         = Inr (actions b' ! k, buffs b' ! k, s1)" by (auto simp: numeral_2_eq_2)
  from spec [OF e, of 1] have "actions b' ! 1 = XDP_PASS \<and> buffs b' ! 1 = []"
    by (auto simp: serve_def request_count_def request_consts)
  with r show ?thesis by blast
qed

end
