(* ===== verification/Xdp_Router.thy ===== *)
theory Xdp_Router
  imports Request Lpm_Dri Lpm_Trie
begin

text \<open>
  The routers of \<open>motivation/arena_router\<close>: \<open>baseline.bpf.c\<close> on a prefix trie of the kernel (an
  argument here), \<open>arena_router.bpf.c\<close> on the trie in the arena, and the two programs of
  \<open>arena_dri_router.bpf.c\<close> on the direct tables, the second of which splits the lookups around
  prefetches. A request holds addresses as the packet has them, a value has 32 bytes.
\<close>

definition baseline_main ::
  "(int \<Rightarrow> packet \<Rightarrow> int \<times> packet) \<Rightarrow> (u32 \<Rightarrow> u8 list option) \<Rightarrow> packet \<Rightarrow> scratch
     \<Rightarrow> (xdp_action \<times> packet \<times> scratch) checked" where
  "baseline_main adj ipv4_lpm_map p s =
     serve XDP_PASS adj VAL_SZ (\<lambda>p n. gather 4 (\<lambda>p off. Inr (ipv4_lpm_map (ld32 p off))) p n 0) p s"

definition trie_value :: "lpm_trie \<Rightarrow> packet \<Rightarrow> nat \<Rightarrow> u8 list option" where
  "trie_value t p off =
     (let v = arena_trie_lookup_elem t \<lparr>k_prefixlen = 32, k_data = packet_key p off\<rparr>
      in if v = 0 then None else Some (map (\<lambda>i. tdata t (v + i)) [0 ..< VAL_SZ]))"

definition arena_router_main ::
  "(int \<Rightarrow> packet \<Rightarrow> int \<times> packet) \<Rightarrow> lpm_trie option \<Rightarrow> packet \<Rightarrow> scratch
     \<Rightarrow> (xdp_action \<times> packet \<times> scratch) checked" where
  "arena_router_main adj lpm p s =
     (case lpm of
        None \<Rightarrow> Inr (XDP_PASS, p, s)
      | Some t \<Rightarrow> serve XDP_PASS adj VAL_SZ (\<lambda>p n. gather 4 (\<lambda>p off. Inr (trie_value t p off)) p n 0) p s)"

definition dri_key :: "packet \<Rightarrow> nat \<Rightarrow> lpm_dri_key_t" where
  "dri_key p off = \<lparr>prefixlen = 32, key_data = ld32 p off\<rparr>"

definition dri_bytes :: "lpm_dri \<Rightarrow> u64 \<Rightarrow> u8 list" where
  "dri_bytes d v = map (\<lambda>i. val_bytes d (unat v + i)) [0 ..< VAL_SZ]"

definition dri_value :: "lpm_dri \<Rightarrow> packet \<Rightarrow> nat \<Rightarrow> u8 list option checked" where
  "dri_value d p off =
     checked_bind (arena_lpm_dri_lookup_elem d (dri_key p off)) (\<lambda>v.
       Inr (if v = 0 then None else Some (dri_bytes d v)))"

definition dri_router_main ::
  "(int \<Rightarrow> packet \<Rightarrow> int \<times> packet) \<Rightarrow> lpm_dri option \<Rightarrow> packet \<Rightarrow> scratch
     \<Rightarrow> (xdp_action \<times> packet \<times> scratch) checked" where
  "dri_router_main adj dri p s =
     (case dri of
        None \<Rightarrow> Inr (XDP_PASS, p, s)
      | Some d \<Rightarrow> serve XDP_PASS adj VAL_SZ (\<lambda>p n. gather 4 (dri_value d) p n 0) p s)"

subsection \<open>The lookups in phases\<close>

text \<open>
  The three loops. \<open>tmp\<close> holds the results of the first phase, then the pointers to the values; the
  two contents have different types here.
\<close>

fun dri_phase1 :: "lpm_dri \<Rightarrow> packet \<Rightarrow> nat \<Rightarrow> nat \<Rightarrow> (nat \<Rightarrow> nat option) \<Rightarrow> (nat \<Rightarrow> nat option) option" where
  "dri_phase1 d p 0 i tmp = Some tmp"
| "dri_phase1 d p (Suc n) i tmp =
     (if length p < key_off 4 (i + 1) then None
      else dri_phase1 d p n (i + 1)
             (tmp(i := arena_lpm_dri_lookup_elem_p1 d (dri_key p (key_off 4 i)))))"

fun dri_phase2 ::
  "lpm_dri \<Rightarrow> packet \<Rightarrow> nat \<Rightarrow> nat \<Rightarrow> (nat \<Rightarrow> nat option) \<Rightarrow> (nat \<Rightarrow> u64) \<Rightarrow> (nat \<Rightarrow> u64) option checked" where
  "dri_phase2 d p 0 i tmp ptrs = Inr (Some ptrs)"
| "dri_phase2 d p (Suc n) i tmp ptrs =
     checked_bind (arena_lpm_dri_lookup_elem_p2 d (dri_key p (key_off 4 i)) (tmp i)) (\<lambda>v.
       if v = 0 then Inr None else dri_phase2 d p n (i + 1) tmp (ptrs(i := v)))"

fun dri_copy :: "lpm_dri \<Rightarrow> nat \<Rightarrow> nat \<Rightarrow> (nat \<Rightarrow> u64) \<Rightarrow> scratch \<Rightarrow> scratch" where
  "dri_copy d 0 i ptrs s = s"
| "dri_copy d (Suc n) i ptrs s = dri_copy d n (i + 1) ptrs (s(i := dri_bytes d (ptrs i)))"

definition dri_prefetch_stage :: "lpm_dri \<Rightarrow> packet \<Rightarrow> nat \<Rightarrow> scratch \<Rightarrow> (bool \<times> scratch) checked" where
  "dri_prefetch_stage d p n s =
     (case dri_phase1 d p n 0 (\<lambda>_. None) of
        None \<Rightarrow> Inr (False, s)
      | Some tmp \<Rightarrow>
          checked_bind (dri_phase2 d p n 0 tmp (\<lambda>_. 0)) (\<lambda>r.
            case r of
              None \<Rightarrow> Inr (False, s)
            | Some ptrs \<Rightarrow> Inr (True, dri_copy d n 0 ptrs s)))"

definition dri_router_prefetch_main ::
  "(int \<Rightarrow> packet \<Rightarrow> int \<times> packet) \<Rightarrow> lpm_dri option \<Rightarrow> packet \<Rightarrow> scratch
     \<Rightarrow> (xdp_action \<times> packet \<times> scratch) checked" where
  "dri_router_prefetch_main adj dri p s =
     (case dri of
        None \<Rightarrow> Inr (XDP_PASS, p, s)
      | Some d \<Rightarrow> serve XDP_PASS adj VAL_SZ (dri_prefetch_stage d) p s)"

subsection \<open>The plain routers\<close>

lemma length_dri_bytes [simp]: "length (dri_bytes d v) = VAL_SZ"
  by (simp add: dri_bytes_def)

interpretation kernel_lpm: table_server "\<lambda>rules. \<forall>k v. rules k = Some v \<longrightarrow> length v = VAL_SZ"
    "\<lambda>rules p off. Inr (rules (ld32 p off))" "\<lambda>rules p off. rules (ld32 p off)" 4 VAL_SZ
  by unfold_locales (simp_all add: VAL_SZ_def)

interpretation arena_trie: table_server "\<lambda>_. True" "\<lambda>t p off. Inr (trie_value t p off)" trie_value 4 VAL_SZ
  by unfold_locales (auto simp: trie_value_def Let_def VAL_SZ_def split: if_splits)

text \<open>
  The direct tables as the table of a server: a proper state is one that holds a list of rules with
  prefixes of at most 24 bits, the newest first, and what it has for an address is the value of the
  best rule.
\<close>

definition holds_rules :: "lpm_dri \<times> rule list \<Rightarrow> bool" where
  "holds_rules = (\<lambda>(d, rs). \<forall>k. \<exists>v. arena_lpm_dri_lookup_elem d \<lparr>prefixlen = 32, key_data = k\<rparr> = Inr v
     \<and> (case best_rule (ntohl k) rs of
          None \<Rightarrow> v = 0
        | Some (key, b) \<Rightarrow> v \<noteq> 0 \<and> (\<forall>i < VAL_SZ. val_bytes d (unat v + i) = b i)))"

definition rule_value :: "rule list \<Rightarrow> packet \<Rightarrow> nat \<Rightarrow> u8 list option" where
  "rule_value rs p off = map_option (\<lambda>(key, b). map b [0 ..< VAL_SZ]) (best_rule (ntohl (ld32 p off)) rs)"

interpretation dri_rules: table_server holds_rules "\<lambda>(d, rs). dri_value d" "\<lambda>(d, rs). rule_value rs" 4 VAL_SZ
proof unfold_locales
  fix drs p off assume h: "holds_rules drs"
  obtain d rs where drs: "drs = (d, rs)" by (cases drs)
  show "(case drs of (d, rs) \<Rightarrow> dri_value d) p off = Inr ((case drs of (d, rs) \<Rightarrow> rule_value rs) p off)"
  proof -
    from h [unfolded drs holds_rules_def prod.case] obtain v where
      v: "arena_lpm_dri_lookup_elem d (dri_key p off) = Inr v" and
      b: "case best_rule (ntohl (ld32 p off)) rs of None \<Rightarrow> v = 0
        | Some (key, b) \<Rightarrow> v \<noteq> 0 \<and> (\<forall>i < VAL_SZ. val_bytes d (unat v + i) = b i)"
      unfolding dri_key_def by blast
    from b show ?thesis
      by (auto simp: drs dri_value_def v rule_value_def dri_bytes_def split: option.splits)
  qed
next
  fix drs p off v
  assume "holds_rules drs" and "(case drs of (d, rs) \<Rightarrow> rule_value rs) p off = Some v"
  then show "length v = VAL_SZ" by (auto simp: rule_value_def split: prod.splits)
qed (simp add: VAL_SZ_def)

lemma dri_router_serves_rules:
  assumes al: "userspace_arena_lpm_dri_alloc area m vb arg = Inr (d0, k)"
    and fits: "area \<le> 2 ^ 63" "(unat (arg_value_size arg) + 32) * unat (max_entries arg) \<le> 2 ^ 31"
    and vs: "unat (arg_value_size arg) = VAL_SZ"
    and short: "\<forall>(key, v) \<in> set us. unat (prefixlen key) \<le> 24"
    and upd: "dri_updates d0 us = Some d"
    and req: "tail_contract adj" "length p < 2 ^ 15" "request_count p = Inr n"
  shows "served XDP_PASS adj VAL_SZ (request_values 4 (rule_value (rev us)) p n) p
    (dri_router_main adj (Some d) p s)"
proof -
  have v0: "0 < unat (arg_value_size arg)" using vs by (simp add: VAL_SZ_def)
  have "\<exists>v. arena_lpm_dri_lookup_elem d \<lparr>prefixlen = 32, key_data = k\<rparr> = Inr v
     \<and> (case best_rule (ntohl k) (rev us) of
          None \<Rightarrow> v = 0
        | Some (key, b) \<Rightarrow> v \<noteq> 0 \<and> (\<forall>i < VAL_SZ. val_bytes d (unat v + i) = b i))" for k
    using dri_updates_lookup [OF al fits v0 short upd, of k] vs
    by (auto split: option.splits)
  then have "holds_rules (d, rev us)" by (simp add: holds_rules_def)
  from dri_rules.serves [OF this req, of XDP_PASS s] show ?thesis
    by (simp add: dri_router_main_def)
qed

text \<open>The router on the direct tables, end to end: after user space has allocated the tables and
  installed routes with prefixes of at most 24 bits, a request for addresses is answered with
  the values of the longest matching routes, in order, with the headers turned around; an address
  without a route drops the packet.\<close>

theorem dri_router_longest_prefix:
  assumes al: "userspace_arena_lpm_dri_alloc area m vb arg = Inr (d0, k)"
    and fits: "area \<le> 2 ^ 63" "(unat (arg_value_size arg) + 32) * unat (max_entries arg) \<le> 2 ^ 31"
    and vs: "unat (arg_value_size arg) = VAL_SZ"
    and short: "\<forall>(key, v) \<in> set us. unat (prefixlen key) \<le> 24"
    and upd: "dri_updates d0 us = Some d"
    and req: "tail_contract adj" "length p < 2 ^ 15" "request_count p = Inr n"
  shows "served XDP_PASS adj VAL_SZ (request_values 4 (rule_value (rev us)) p n) p
    (dri_router_main adj (Some d) p s)"
  using assms by (rule dri_router_serves_rules)

subsection \<open>The prefetching router\<close>

text \<open>Action and new content of the packet, without the scratch area.\<close>

definition outcome :: "(xdp_action \<times> packet \<times> scratch) checked \<Rightarrow> (xdp_action \<times> packet) checked" where
  "outcome r = checked_bind r (\<lambda>(a, p, s). Inr (a, p))"

lemma dri_p12: "arena_lpm_dri_lookup_elem_p2 d (dri_key p off) (arena_lpm_dri_lookup_elem_p1 d (dri_key p off))
    = arena_lpm_dri_lookup_elem d (dri_key p off)"
  unfolding dri_key_def by (rule hd.phases)

lemma dri_phase1_spec:
  "dri_phase1 d p n i tmp =
     (if n = 0 \<or> key_off 4 (i + n) \<le> length p
      then Some (\<lambda>j. if i \<le> j \<and> j < i + n then arena_lpm_dri_lookup_elem_p1 d (dri_key p (key_off 4 j)) else tmp j)
      else None)"
proof (induction n arbitrary: i tmp)
  case 0
  show ?case by (auto simp: fun_eq_iff)
next
  case (Suc n)
  have mono: "key_off 4 (i + 1) \<le> key_off 4 (i + Suc n)" by (simp add: key_off_def)
  show ?case
  proof (cases "length p < key_off 4 (i + 1)")
    case True
    with mono show ?thesis by simp
  next
    case False
    with Suc.IH [of "i + 1"] show ?thesis by (auto simp: fun_eq_iff)
  qed
qed

lemma dri_copy_spec:
  "dri_copy d n i ptrs s j = (if i \<le> j \<and> j < i + n then dri_bytes d (ptrs j) else s j)"
  by (induction n arbitrary: i s) auto

text \<open>The second loop against the loop of the plain program.\<close>

lemma phase2_gather:
  assumes "n = 0 \<or> key_off 4 (i + n) \<le> length p"
    and "\<forall>j. i \<le> j \<and> j < i + n \<longrightarrow> tmp j = arena_lpm_dri_lookup_elem_p1 d (dri_key p (key_off 4 j))"
  shows "case gather 4 (dri_value d) p n i s of
      Inl e \<Rightarrow> dri_phase2 d p n i tmp ptrs = Inl e
    | Inr (False, s') \<Rightarrow> dri_phase2 d p n i tmp ptrs = Inr None
    | Inr (True, s') \<Rightarrow> \<exists>ptrs'. dri_phase2 d p n i tmp ptrs = Inr (Some ptrs')
        \<and> (\<forall>j. i \<le> j \<and> j < i + n \<longrightarrow> s' j = dri_bytes d (ptrs' j))
        \<and> (\<forall>j < i. s' j = s j \<and> ptrs' j = ptrs j)"
  using assms
proof (induction n arbitrary: i s ptrs)
  case (Suc n)
  have inside: "\<not> length p < key_off 4 (i + 1)" "n = 0 \<or> key_off 4 (i + 1 + n) \<le> length p"
    using Suc.prems(1) by (simp_all add: key_off_def)
  have t: "tmp i = arena_lpm_dri_lookup_elem_p1 d (dri_key p (key_off 4 i))" using Suc.prems(2) by simp
  show ?case
  proof (cases "arena_lpm_dri_lookup_elem d (dri_key p (key_off 4 i))")
    case (Inl e)
    with inside(1) show ?thesis by (simp add: dri_value_def t dri_p12)
  next
    case (Inr v)
    show ?thesis
    proof (cases "v = 0")
      case True
      with Inr inside(1) show ?thesis by (simp add: dri_value_def t dri_p12)
    next
      case False
      define s1 ptrs1 where "s1 = s(i := dri_bytes d v)" and "ptrs1 = ptrs(i := v)"
      have new: "s1 i = dri_bytes d v" "ptrs1 i = v" "\<And>j. j < i \<Longrightarrow> s1 j = s j \<and> ptrs1 j = ptrs j"
        by (simp_all add: s1_def ptrs1_def)
      have g: "gather 4 (dri_value d) p (Suc n) i s = gather 4 (dri_value d) p n (i + 1) s1"
        using Inr inside(1) False by (simp add: dri_value_def s1_def)
      have f: "dri_phase2 d p (Suc n) i tmp ptrs = dri_phase2 d p n (i + 1) tmp ptrs1"
        using Inr False by (simp add: t dri_p12 ptrs1_def)
      have "\<forall>j. i + 1 \<le> j \<and> j < i + 1 + n \<longrightarrow> tmp j = arena_lpm_dri_lookup_elem_p1 d (dri_key p (key_off 4 j))"
        using Suc.prems(2) by simp
      note ih = Suc.IH [OF inside(2) this, where s = s1 and ptrs = ptrs1]
      show ?thesis
      proof (cases "gather 4 (dri_value d) p n (i + 1) s1")
        case (Inl e)
        with ih show ?thesis unfolding g f by simp
      next
        case (Inr bs)
        obtain ok s' where bs: "bs = (ok, s')" by (cases bs)
        show ?thesis
        proof (cases ok)
          case True
          with ih Inr bs obtain ptrs' where p: "dri_phase2 d p n (i + 1) tmp ptrs1 = Inr (Some ptrs')"
            "\<forall>j. i + 1 \<le> j \<and> j < i + 1 + n \<longrightarrow> s' j = dri_bytes d (ptrs' j)"
            "\<forall>j < i + 1. s' j = s1 j \<and> ptrs' j = ptrs1 j" by auto
          have "s' j = dri_bytes d (ptrs' j)" if "i \<le> j \<and> j < i + Suc n" for j
            using p(2) spec [OF p(3), of i] new that by (cases "j = i") auto
          moreover have "\<forall>j < i. s' j = s j \<and> ptrs' j = ptrs j" using p(3) new by simp
          ultimately show ?thesis unfolding g f using True Inr bs p(1) by simp
        next
          case False
          with ih Inr bs show ?thesis unfolding g f by simp
        qed
      qed
    qed
  qed
qed auto

text \<open>The result of a stage, as far as the reply depends on it.\<close>

definition stage_eq :: "nat \<Rightarrow> (bool \<times> scratch) checked \<Rightarrow> (bool \<times> scratch) checked \<Rightarrow> bool" where
  "stage_eq n r r' \<longleftrightarrow> (case (r, r') of
     (Inl e, Inl e') \<Rightarrow> e = e'
   | (Inr (ok, s), Inr (ok', s')) \<Rightarrow> ok = ok' \<and> (ok \<longrightarrow> (\<forall>j < n. s j = s' j))
   | _ \<Rightarrow> False)"

lemma dri_stage_eq:
  assumes "n = 0 \<or> key_off 4 n \<le> length p"
  shows "stage_eq n (gather 4 (dri_value d) p n 0 s) (dri_prefetch_stage d p n s')"
proof -
  let ?tmp = "\<lambda>j. if 0 \<le> j \<and> j < 0 + n then arena_lpm_dri_lookup_elem_p1 d (dri_key p (key_off 4 j)) else None"
  have p1: "dri_phase1 d p n 0 (\<lambda>_. None) = Some ?tmp"
    using assms by (subst dri_phase1_spec) simp
  have "n = 0 \<or> key_off 4 (0 + n) \<le> length p"
    "\<forall>j. 0 \<le> j \<and> j < 0 + n \<longrightarrow> ?tmp j = arena_lpm_dri_lookup_elem_p1 d (dri_key p (key_off 4 j))"
    using assms by simp_all
  note g = phase2_gather [OF this, where s = s and ptrs = "\<lambda>_. 0"]
  show ?thesis
  proof (cases "gather 4 (dri_value d) p n 0 s")
    case (Inl e)
    with g p1 show ?thesis by (simp add: stage_eq_def dri_prefetch_stage_def)
  next
    case (Inr bs)
    with g p1 show ?thesis
      by (cases bs) (auto simp: stage_eq_def dri_prefetch_stage_def dri_copy_spec split: bool.splits)
  qed
qed

lemma serve_stage_eq:
  assumes "\<And>n. request_count p = Inr n \<Longrightarrow> stage_eq n (stage p n s) (stage' p n s')"
  shows "outcome (serve fail adj vsz stage p s) = outcome (serve fail adj vsz stage' p s')"
proof (cases "request_count p")
  case (Inl a)
  then show ?thesis by (simp add: serve_def outcome_def)
next
  case (Inr n)
  from assms [OF this] consider (fault) e where "stage p n s = Inl e" "stage' p n s' = Inl e"
    | (result) ok s1 s2 where "stage p n s = Inr (ok, s1)" "stage' p n s' = Inr (ok, s2)"
      "ok \<longrightarrow> (\<forall>j < n. s1 j = s2 j)"
    by (cases "stage p n s"; cases "stage' p n s'") (auto simp: stage_eq_def)
  then show ?thesis
  proof cases
    case fault
    with Inr show ?thesis by (simp add: serve_def outcome_def)
  next
    case result
    have "send_reply fail adj vsz n s1 p = send_reply fail adj vsz n s2 p" if ok
      using result(3) that by (intro send_reply_cong) simp
    with result Inr show ?thesis
      by (cases ok) (simp_all add: serve_def outcome_def case_prod_beta)
  qed
qed

text \<open>The router that splits its lookups around prefetches gives every packet the same action and the same
  new content as the plain one, faults of the tables included, when the packet has all keys that
  it announces; otherwise it drops the packet.\<close>

theorem dri_prefetch_same:
  assumes "request_count p = Inr n"
  shows "if n = 0 \<or> key_off 4 n \<le> length p
    then outcome (dri_router_prefetch_main adj (Some d) p s) = outcome (dri_router_main adj (Some d) p s')
    else dri_router_prefetch_main adj (Some d) p s = Inr (XDP_DROP, p, s)"
proof (cases "n = 0 \<or> key_off 4 n \<le> length p")
  case True
  have "outcome (serve XDP_PASS adj VAL_SZ (\<lambda>p n. gather 4 (dri_value d) p n 0) p s')
      = outcome (serve XDP_PASS adj VAL_SZ (dri_prefetch_stage d) p s)"
    using assms dri_stage_eq [OF True] by (intro serve_stage_eq) simp
  with True show ?thesis by (simp add: dri_router_prefetch_main_def dri_router_main_def)
next
  case False
  with assms show ?thesis
    by (simp add: dri_router_prefetch_main_def serve_def dri_prefetch_stage_def dri_phase1_spec)
qed

subsection \<open>Examples\<close>

text \<open>A request for the address 10.0.0.7, which the rule 10.0.0.0/8 covers.\<close>

definition router_request :: packet where
  "router_request = take 42 udp_ex @ [1, 0, 0, 0, 10, 0, 0, 7]"

lemma router_request_ok: "request_count router_request = Inr 1" "length router_request = 50"
  "ld32 router_request 46 = 0x0700000a"
  by (simp_all add: request_count_def our_port_def router_request_def udp_ex_def request_consts ld16_def ld32_def
      le16_def le32_def bswap16_def)

definition router_args :: dri_alloc_args where
  "router_args = \<lparr>area_size = 0x10000000, key_size = 8, max_entries = 16, arg_value_size = 32\<rparr>"

definition router_ex0 :: lpm_dri where "router_ex0 = dri_ex0\<lparr>value_size := 32\<rparr>"

lemma router_ex0_alloc:
  "userspace_arena_lpm_dri_alloc 4096 mm_blank (\<lambda>_. 0) router_args = Inr (router_ex0, 53313)"
  by (simp add: userspace_arena_lpm_dri_alloc_def router_args_def dri_consts HDR_SZ_def PAGE_SIZE_def
      COUNT_OBJ_def Let_def create_mem_region_obj_def MIN_SIZE_def dri_ex0_def router_ex0_def)

lemma router_ex0_update:
  "\<exists>d. dri_updates router_ex0 [(dri_ex_key, v)] = Some d"
proof -
  have "\<exists>m. just_alloc (pool router_ex0) 4136 32 = Some (218370128, m)"
    by (simp add: router_ex0_def dri_ex0_def create_mem_region_obj_def MIN_SIZE_def HDR_SZ_def just_alloc_def
      find_fit.simps [of _ 32 "First 4136" 218370096] MAX_SIZE_def region_defs Let_def mm_blank_def
      split: prod.splits)
  then obtain m where m: "just_alloc (pool router_ex0) 4136 32 = Some (218370128, m)" by blast
  have e: "mem_handle router_ex0 = 4136" "value_size router_ex0 = 32" "tbl_24_sz router_ex0 = 218103808"
    "tbl_24 router_ex0 i = \<lparr>state = 0, e_prefixlen = 0, union_word = 0\<rparr>" for i
    by (simp_all add: dri_ex0_def router_ex0_def)
  have "bswap32 0xa = 0xa000000"
    by (simp add: bswap32_def le32_def drop_bit_eq_div push_bit_eq_mult)
  with m show ?thesis
    by (simp add: userspace_arena_lpm_dri_update_elem_def e dri_ex_key_def store_value_def
        update_tbl_24_def DRI_ENTRY_SZ_def NOT_SET_def Let_def drop_bit_eq_div)
qed

theorem dri_router_longest_prefix_witness:
  "\<exists>d q s. dri_updates router_ex0 [(dri_ex_key, \<lambda>i. of_nat i)] = Some d
     \<and> dri_router_main cut_or_pad (Some d) (take 42 udp_ex @ [1, 0, 0, 0, 10, 0, 0, 7]) (\<lambda>_. [])
         = Inr (XDP_TX, q, s)
     \<and> drop 42 q = map of_nat [0 ..< 32]"
proof -
  obtain d where d: "dri_updates router_ex0 [(dri_ex_key, \<lambda>i. of_nat i)] = Some d"
    using router_ex0_update by blast
  have l: "length router_request < 2 ^ 15" by (simp add: router_request_ok)
  have c: "covered_by (bswap32 0x0700000a) dri_ex_key"
    by (simp add: covered_by_def dri_ex_key_def bswap32_def le32_def drop_bit_eq_div push_bit_eq_mult Let_def)
  have "request_values 4 (rule_value (rev [(dri_ex_key, \<lambda>i. of_nat i)])) router_request 1
      = Some [map of_nat [0 ..< VAL_SZ]]"
    using c by (simp add: request_values_def key_off_def request_consts rule_value_def router_request_ok)
  with dri_router_longest_prefix [OF router_ex0_alloc _ _ _ _ d cut_or_pad_contract l router_request_ok(1),
      of "\<lambda>_. []"] d
  show ?thesis
    unfolding router_request_def [symmetric]
    by (auto simp: router_args_def VAL_SZ_def dri_ex_key_def served_def resizable_cut reply_to_def request_consts)
qed

theorem dri_prefetch_same_witness:
  "outcome (dri_router_prefetch_main cut_or_pad (Some router_ex0) router_request (\<lambda>_. []))
     = outcome (dri_router_main cut_or_pad (Some router_ex0) router_request (\<lambda>_. []))"
  using dri_prefetch_same [OF router_request_ok(1), of cut_or_pad router_ex0 "\<lambda>_. []" "\<lambda>_. []"]
  by (simp add: key_off_def request_consts router_request_ok)

end
