(* ===== verification/Xdp_Single.thy ===== *)
theory Xdp_Single
  imports Request Dat
begin

text \<open>
  The programs of \<open>motivation/bax_lpm\<close> that look up one address per packet: \<open>dat_test.bpf.c\<close> on the
  double-array trie and \<open>lpm_test.bpf.c\<close> on a prefix trie of the kernel (an argument here); and
  the baseline of \<open>motivation/arena_bloom_filter\<close> on a Bloom filter of the kernel. The
  lookup runs with 32 bits, within the model's bound for the key length. The eight-byte
  stores of a value are one store of its 32 bytes here.
\<close>

definition single_query :: "packet \<Rightarrow> bool" where
  "single_query p \<longleftrightarrow> PAYLOAD + 4 \<le> length p \<and> our_port p"

definition dat_test_main ::
  "(int \<Rightarrow> packet \<Rightarrow> int \<times> packet) \<Rightarrow> dat option \<Rightarrow> packet \<Rightarrow> (xdp_action \<times> packet) checked" where
  "dat_test_main adj dat p =
     (case dat of
        None \<Rightarrow> Inr (XDP_PASS, p)
      | Some d \<Rightarrow>
          if \<not> single_query p then Inr (XDP_PASS, p)
          else checked_bind (dat_lookup d (packet_key p PAYLOAD) 32) (\<lambda>v.
                 case v of
                   None \<Rightarrow> Inr (XDP_DROP, p)
                 | Some index \<Rightarrow> checked_bind (read_at (vals d) (unat index)) (\<lambda>val.
                     Inr (send_reply XDP_PASS adj VAL_SZ 1 (\<lambda>_. map val [0 ..< VAL_SZ]) p))))"

definition lpm_test_main ::
  "(int \<Rightarrow> packet \<Rightarrow> int \<times> packet) \<Rightarrow> (u32 \<Rightarrow> u8 list option) \<Rightarrow> packet \<Rightarrow> xdp_action \<times> packet" where
  "lpm_test_main adj ipv4_lpm_map p =
     (if \<not> single_query p then (XDP_PASS, p)
      else case ipv4_lpm_map (ld32 p PAYLOAD) of
             None \<Rightarrow> (XDP_DROP, p)
           | Some v \<Rightarrow> send_reply XDP_PASS adj VAL_SZ 1 (\<lambda>_. v) p)"

subsection \<open>The Bloom filter\<close>

text \<open>
  \<open>bpf_map_peek_elem\<close> on the filter is the argument \<open>peek\<close>; it gives 0 for a value that may be
  present. A requested value has eight bytes, a slot of the reply has eight bytes, of which six are
  written.
\<close>

definition MAY_PRESENT :: u8 where "MAY_PRESENT = 0"
definition NOT_PRESENT :: u8 where "NOT_PRESENT = 1"

definition resp_text :: "u8 \<Rightarrow> u8 list" where
  "resp_text flag = (if flag = NOT_PRESENT then [78, 79, 84, 95, 80, 10] else [77, 65, 89, 95, 80, 10])"

definition bloom_main ::
  "(int \<Rightarrow> packet \<Rightarrow> int \<times> packet) \<Rightarrow> (u8 list \<Rightarrow> int) \<Rightarrow> packet \<Rightarrow> scratch
     \<Rightarrow> (xdp_action \<times> packet \<times> scratch) checked" where
  "bloom_main adj peek p s =
     (case request_count p of
        Inl a \<Rightarrow> Inr (a, p, s)
      | Inr n \<Rightarrow>
          checked_bind (gather 8 (\<lambda>p off.
              let flag = peek (map (packet_key p off) [0 ..< 8])
              in Inr (Some [if flag = 0 then MAY_PRESENT else NOT_PRESENT])) p n 0 s) (\<lambda>(ok, s).
            if \<not> ok then Inr (XDP_DROP, p, s)
            else let (a, p) = send_reply XDP_DROP adj 8 n (\<lambda>i. resp_text (hd (s i))) p in Inr (a, p, s)))"

subsection \<open>The double-array program\<close>

text \<open>The program on the double-array trie, end to end: on a proper trie no access is out of bounds,
  and a query is answered with the value of the longest entry that is a proper prefix of the
  address, or dropped when there is none.\<close>

theorem dat_test_serves:
  assumes inv: "dat_inv d" and tail: "tail_contract adj" and len: "length p < 2 ^ 15" and q: "single_query p"
  shows "\<exists>a p'. dat_test_main adj (Some d) p = Inr (a, p')
    \<and> (if \<forall>i < 32. dat_entry d (key_bits (packet_key p PAYLOAD) i) = None then a = XDP_DROP \<and> p' = p
       else \<exists>i < 32. \<exists>val. dat_entry d (key_bits (packet_key p PAYLOAD) i) = Some val
         \<and> (\<forall>j. i < j \<and> j < 32 \<longrightarrow> dat_entry d (key_bits (packet_key p PAYLOAD) j) = None)
         \<and> (if resizable adj VAL_SZ p then a = XDP_TX \<and> reply_to p (map val [0 ..< VAL_SZ]) p' else a = XDP_PASS))"
proof -
  let ?k = "packet_key p PAYLOAD"
  have m: "min (unat (32 :: u32)) DAT_KEY_SIZE_BIT = 32" by (simp add: DAT_KEY_SIZE_BIT_def)
  from dat_lookup_spec [OF inv, of ?k 32, unfolded m] obtain r where r: "dat_lookup d ?k 32 = Inr r"
    and e: "case r of None \<Rightarrow> \<forall>i < 32. dat_entry d (key_bits ?k i) = None
       | Some v \<Rightarrow> unat v < length (vals d) \<and> (\<exists>i < 32. dat_entry d (key_bits ?k i) = Some (vals d ! unat v)
           \<and> (\<forall>j. i < j \<and> j < 32 \<longrightarrow> dat_entry d (key_bits ?k j) = None))" by blast
  show ?thesis
  proof (cases r)
    case None
    with r e q show ?thesis by (simp add: dat_test_main_def)
  next
    case (Some v)
    let ?val = "vals d ! unat v"
    have "VAL_SZ * 1 < 2 ^ 15" "PAYLOAD \<le> length p" "\<forall>j < 1. length ((\<lambda>_. map ?val [0 ..< VAL_SZ]) j) = VAL_SZ"
      using q by (simp_all add: VAL_SZ_def single_query_def)
    from send_reply_spec [OF tail this(1) len this(2,3), of XDP_PASS]
    have s: "if resizable adj VAL_SZ p
      then \<exists>q. send_reply XDP_PASS adj VAL_SZ 1 (\<lambda>_. map ?val [0 ..< VAL_SZ]) p = (XDP_TX, q)
        \<and> reply_to p (map ?val [0 ..< VAL_SZ]) q
      else fst (send_reply XDP_PASS adj VAL_SZ 1 (\<lambda>_. map ?val [0 ..< VAL_SZ]) p) = XDP_PASS"
      by (cases "resizable adj VAL_SZ p") simp_all
    obtain a p' where ap: "send_reply XDP_PASS adj VAL_SZ 1 (\<lambda>_. map ?val [0 ..< VAL_SZ]) p = (a, p')" by fastforce
    from e Some obtain i where i: "i < 32" "dat_entry d (key_bits ?k i) = Some ?val"
      "\<forall>j. i < j \<and> j < 32 \<longrightarrow> dat_entry d (key_bits ?k j) = None" and v: "unat v < length (vals d)" by auto
    have "dat_test_main adj (Some d) p = Inr (a, p')"
      using q r Some v ap by (simp add: dat_test_main_def read_at_def)
    moreover have "\<not> (\<forall>i < 32. dat_entry d (key_bits ?k i) = None)" using i(1,2) by force
    moreover have "if resizable adj VAL_SZ p then a = XDP_TX \<and> reply_to p (map ?val [0 ..< VAL_SZ]) p' else a = XDP_PASS"
      using s ap by (auto split: if_splits)
    ultimately show ?thesis using i by (intro exI [of _ a] exI [of _ p'] conjI) (assumption, simp only: if_False, blast)
  qed
qed

subsection \<open>The reply of the Bloom filter program\<close>

lemma nth_st_bytes:
  "i + length b \<le> length p \<Longrightarrow> k < length p \<Longrightarrow>
     st_bytes p i b ! k = (if i \<le> k \<and> k < i + length b then b ! (k - i) else p ! k)"
  by (auto simp: st_bytes_def nth_append)

text \<open>Values that are shorter than their slots leave the rest of the slots as it was.\<close>

lemma write_values_slots:
  assumes "off + vsz * n \<le> length p" and "\<forall>j < n. length (s (i + j)) \<le> vsz"
  shows "\<exists>q. write_values vsz s n i off p = (True, q) \<and> length q = length p
    \<and> (\<forall>k < length p. (k < off \<or> off + vsz * n \<le> k) \<longrightarrow> q ! k = p ! k)
    \<and> (\<forall>j < n. \<forall>k < vsz. q ! (off + vsz * j + k)
          = (if k < length (s (i + j)) then s (i + j) ! k else p ! (off + vsz * j + k)))"
  using assms
proof (induction n arbitrary: i off p)
  case (Suc n)
  let ?p = "st_bytes p off (s i)"
  have l: "length (s i) \<le> vsz" using Suc.prems(2) by force
  have o: "off + vsz \<le> length p" using Suc.prems(1) by simp
  with l have lp: "length ?p = length p" by simp
  have b: "?p ! k = (if off \<le> k \<and> k < off + length (s i) then s i ! (k - off) else p ! k)" if "k < length p" for k
    using that o l by (simp add: nth_st_bytes)
  have "off + vsz + vsz * n \<le> length ?p" "\<forall>j < n. length (s (i + 1 + j)) \<le> vsz"
    using Suc.prems lp by (auto dest: spec [where x = "Suc _"])
  from Suc.IH [OF this] obtain q where q: "write_values vsz s n (i + 1) (off + vsz) ?p = (True, q)" "length q = length p"
    "\<forall>k < length p. (k < off + vsz \<or> off + vsz + vsz * n \<le> k) \<longrightarrow> q ! k = ?p ! k"
    "\<forall>j < n. \<forall>k < vsz. q ! (off + vsz + vsz * j + k)
          = (if k < length (s (i + 1 + j)) then s (i + 1 + j) ! k else ?p ! (off + vsz + vsz * j + k))"
    unfolding lp by blast
  have "q ! k = p ! k" if "k < length p" "k < off \<or> off + vsz * Suc n \<le> k" for k
    using q(3) b [of k] that l by auto
  moreover have "q ! (off + vsz * j + k) = (if k < length (s (i + j)) then s (i + j) ! k else p ! (off + vsz * j + k))"
    if "j < Suc n" "k < vsz" for j k
  proof (cases j)
    case 0
    then show ?thesis using q(3) b [of "off + k"] that o by auto
  next
    case (Suc j')
    have "off + vsz + vsz * j' + k < length p"
    proof -
      have "vsz * Suc j' \<le> vsz * n" using that(1) Suc by (intro mult_le_mono2) simp
      then show ?thesis using Suc.prems(1) that(2) by simp
    qed
    then show ?thesis using q(4) b [of "off + vsz + vsz * j' + k"] that Suc l by (simp add: algebra_simps)
  qed
  ultimately show ?case using q(1,2) o by auto
qed simp

text \<open>The program on the Bloom filter answers every requested value, in order, with one of two texts of
  six bytes; the two bytes that are left in each slot of eight are those that the request had there.\<close>

theorem bloom_serves:
  assumes tail: "tail_contract adj" and len: "length p < 2 ^ 15" and n: "request_count p = Inr n"
    and inside: "n = 0 \<or> key_off 8 n \<le> length p" and rs: "resizable adj (8 * n) p"
  shows "\<exists>q s'. bloom_main adj peek p s = Inr (XDP_TX, q, s') \<and> length q = PAYLOAD + 8 * n
    \<and> (\<forall>i < n. take 6 (drop (PAYLOAD + 8 * i) q)
          = resp_text (if peek (map (packet_key p (key_off 8 i)) [0 ..< 8]) = 0 then MAY_PRESENT else NOT_PRESENT)
        \<and> (\<forall>k \<in> {6, 7}. q ! (PAYLOAD + 8 * i + k) = p ! (PAYLOAD + 8 * i + k)))"
proof -
  define flag where "flag = (\<lambda>p off. if peek (map (packet_key p off) [0 ..< 8]) = 0 then MAY_PRESENT else NOT_PRESENT)"
  let ?look = "\<lambda>p off. let fl = peek (map (packet_key p off) [0 ..< 8])
              in Inr (Some [if fl = 0 then MAY_PRESENT else NOT_PRESENT])"
  let ?val = "\<lambda>p off. Some [flag p off]"
  have pl: "PAYLOAD \<le> length p" and n32: "n \<le> 32"
    using n by (auto simp: request_count_def Let_def request_consts word_le_nat_alt not_less split: if_splits)
  have "?look p off = Inr (?val p off)" for off by (simp add: flag_def)
  note g = gather_values [where look = ?look and val_at = ?val and ksz = 8 and n = n and i = 0 and s = s and p = p,
      OF this]
  have v: "values_from 8 ?val p n 0 = Some (map (\<lambda>j. [flag p (key_off 8 j)]) [0 ..< n])"
    using inside by (simp add: values_from_all)
  from g [unfolded v] obtain s' where s': "gather 8 ?look p n 0 s = Inr (True, s')"
    "\<forall>j < n. s' j = [flag p (key_off 8 j)]" by auto
  define answer where "answer = (\<lambda>i. resp_text (hd (s' i)))"
  have t: "answer j = resp_text (flag p (key_off 8 j))" if "j < n" for j using s'(2) that by (simp add: answer_def)
  have tl: "length (answer j) = 6" for j by (simp add: answer_def resp_text_def)
  have "8 * n < 2 ^ 15" using n32 by simp
  from resize_reply_spec [OF tail this len pl] rs obtain q0 where q0: "resize_reply adj (8 * n) p = (True, q0)"
    "length q0 = PAYLOAD + 8 * n" "\<forall>k. k < length p \<and> k < length q0 \<longrightarrow> q0 ! k = p ! k" by auto
  have "PAYLOAD + 8 * n \<le> length q0" "\<forall>j < n. length (answer (0 + j)) \<le> 8" using q0(2) tl by simp_all
  from write_values_slots [OF this] obtain w where w: "write_values 8 answer n 0 PAYLOAD q0 = (True, w)"
    "length w = length q0"
    "\<forall>j < n. \<forall>k < 8. w ! (PAYLOAD + 8 * j + k) = (if k < 6 then answer j ! k else q0 ! (PAYLOAD + 8 * j + k))"
    unfolding tl by auto
  have "length w < 2 ^ 16" using w(2) q0(2) n32 by (simp add: request_consts)
  from prepare_headers_spec [OF this] w(2) q0(2) obtain q where q: "prepare_headers_before_send w = (0, q)"
    "length q = length w" "drop 42 q = drop 42 w"
    by (auto simp: request_consts split: if_splits)
  have tailq: "q ! (PAYLOAD + k) = w ! (PAYLOAD + k)" if "k < 8 * n" for k
    using arg_cong [OF q(3), of "\<lambda>xs. xs ! k"] q(2) w(2) q0(2) that by (simp add: request_consts)
  have body: "q ! (PAYLOAD + 8 * i + k) = (if k < 6 then answer i ! k else p ! (PAYLOAD + 8 * i + k))"
    if "i < n" "k < 8" for i k
  proof -
    have "8 * Suc i \<le> 8 * n" using that(1) by (intro mult_le_mono2) simp
    then have b: "8 * i + k < 8 * n" using that(2) by simp
    moreover have "key_off 8 n \<le> length p" using inside that(1) by auto
    ultimately have "PAYLOAD + 8 * i + k < length p" by (simp add: key_off_def)
    then have "q0 ! (PAYLOAD + 8 * i + k) = p ! (PAYLOAD + 8 * i + k)" using q0(2,3) b by simp
    with tailq [OF b] w(3) that show ?thesis by (simp add: add.assoc)
  qed
  have "take 6 (drop (PAYLOAD + 8 * i) q) = answer i" if "i < n" for i
  proof (rule nth_equalityI)
    have "8 * Suc i \<le> 8 * n" using that by (intro mult_le_mono2) simp
    then have l: "PAYLOAD + 8 * i + 8 \<le> length q" using q(2) w(2) q0(2) by simp
    then show "length (take 6 (drop (PAYLOAD + 8 * i) q)) = length (answer i)" by (simp add: tl)
    fix k assume "k < length (take 6 (drop (PAYLOAD + 8 * i) q))"
    then have "k < 6" by simp
    with body [OF that, of k] l show "take 6 (drop (PAYLOAD + 8 * i) q) ! k = answer i ! k" by simp
  qed
  moreover have "bloom_main adj peek p s = Inr (XDP_TX, q, s')"
    using s'(1) n q0(1) w(1) q(1) by (simp add: bloom_main_def send_reply_def answer_def)
  moreover have "length q = PAYLOAD + 8 * n" using q(2) w(2) q0(2) by simp
  ultimately show ?thesis using body t unfolding flag_def by auto
qed

subsection \<open>Examples\<close>

definition bloom_request :: packet where
  "bloom_request = take 42 udp_ex @ [1, 0, 0, 0, 3, 0, 0, 0, 0, 0, 0, 0]"

theorem bloom_serves_witness:
  "\<exists>q s. bloom_main cut_or_pad (\<lambda>v. if hd v = 3 then 0 else -2) bloom_request (\<lambda>_. []) = Inr (XDP_TX, q, s)
     \<and> take 6 (drop 42 q) = [77, 65, 89, 95, 80, 10]"
proof -
  have c: "request_count bloom_request = Inr 1" "length bloom_request = 54" "bloom_request ! 46 = 3"
    by (simp_all add: request_count_def our_port_def bloom_request_def udp_ex_def request_consts ld16_def ld32_def
      le16_def le32_def bswap16_def)
  have l: "length bloom_request < 2 ^ 15" "(1 :: nat) = 0 \<or> key_off 8 1 \<le> length bloom_request"
    by (simp_all add: c key_off_def request_consts)
  have h: "hd (map f [0 ..< 8]) = f 0" for f :: "nat \<Rightarrow> u8" by (simp add: upt_conv_Cons)
  show ?thesis
    using bloom_serves [OF cut_or_pad_contract l(1) c(1) l(2) resizable_cut, of "\<lambda>v. if hd v = 3 then 0 else -2" "\<lambda>_. []"]
    by (auto simp: h packet_key_def key_off_def request_consts c resp_text_def MAY_PRESENT_def NOT_PRESENT_def)
qed

theorem dat_test_serves_witness:
  "\<exists>d. dat_test_main cut_or_pad (Some d) udp_ex = Inr (XDP_DROP, udp_ex)"
proof -
  obtain d where d: "dat_inv d" "dat_entry d = Map.empty" using dat_ex by blast
  have "length udp_ex < 2 ^ 15" "single_query udp_ex"
    by (simp_all add: single_query_def our_port_def udp_ex_def request_consts ld16_def le16_def bswap16_def)
  from dat_test_serves [OF d(1) cut_or_pad_contract this] d(2) show ?thesis by auto
qed

end
