(* ===== verification/Kv_Batch.thy ===== *)
theory Kv_Batch
  imports Xdp_Kv
begin

text \<open>
  The batch experiment \<open>motivation/batch_api/htab_example/exp.bpf.c\<close>: a key-value server on the
  hash table, once per packet, for a batch of packets, and for a batch with the lookups split
  around prefetches. The state kept for each packet of a batch stays from one batch to
  the next; the lookup of the only entry of that map does not fail. The loop that only prefetches
  is left out: it reads the bucket heads through arena pointers, which does not change anything. The
  programs for a batch return 0 in any case, \<open>XDP_ABORTED\<close> included.
\<close>

definition SERVER_PORT :: u16 where "SERVER_PORT = 8080"

definition no_headers :: udp_packet where "no_headers = \<lparr>u_eth = 0, u_ip = 0, u_udp = 0\<rparr>"

definition key_val_main ::
  "(int \<Rightarrow> packet \<Rightarrow> int \<times> packet) \<Rightarrow> (htab \<times> htab_mem) option \<Rightarrow> u64 \<Rightarrow> packet \<Rightarrow> tput
     \<Rightarrow> xdp_action \<times> packet \<times> u64 option \<times> tput" where
  "key_val_main adj tab ts p c =
     (case tab of
        None \<Rightarrow> (XDP_ABORTED, p, None, c)
      | Some (t, m) \<Rightarrow>
          let (r, u) = parse_headers SERVER_PORT p no_headers in
          if r \<noteq> 0 then (XDP_PASS, p, None, c)
          else
            let payload = u_udp u + UDP_HLEN in
            if length p < payload + 4 then (XDP_DROP, p, None, c)
            else
              let val = htab_lookup_elem kv_cfg t m (packet_key p payload) in
              if val = 0 then (XDP_DROP, p, None, c)
              else
                let (_, p, _) = update_udp_pkt_with_payload adj p u (value_at m val);
                    (out, c) = report_tput_batch ts 1 c
                in (XDP_TX, p, out, c))"

subsection \<open>The programs for a batch\<close>

record pkt_state =
  phase :: int
  pkt_key :: bytes
  plookup :: partial_lookup_state

type_synonym batch_state = "nat \<Rightarrow> pkt_state"

text \<open>
  The part of a turn that the loops share: the phase is reset, the headers are parsed and the key is
  stored; an action ends the turn.
\<close>

definition start_packet :: "packet \<Rightarrow> pkt_state \<Rightarrow> xdp_action option \<times> udp_packet \<times> pkt_state" where
  "start_packet p e =
     (let e = e\<lparr>phase := 0\<rparr>;
          (r, u) = parse_headers SERVER_PORT p no_headers
      in if r \<noteq> 0 then (Some XDP_PASS, u, e)
         else let payload = u_udp u + UDP_HLEN
              in if length p < payload + 4 then (Some XDP_DROP, u, e)
                 else (None, u, e\<lparr>pkt_key := packet_key p payload\<rparr>))"

definition set_action :: "nat \<Rightarrow> xdp_action \<Rightarrow> xdp_batch_md \<Rightarrow> xdp_batch_md" where
  "set_action k a b = b\<lparr>actions := (actions b)[k := a]\<rparr>"

definition set_packet :: "nat \<Rightarrow> packet \<Rightarrow> xdp_batch_md \<Rightarrow> xdp_batch_md" where
  "set_packet k p b = b\<lparr>buffs := (buffs b)[k := p]\<rparr>"

text \<open>The first argument counts the turns up to \<open>XDP_MAX_BATCH_SIZE\<close> that are left.\<close>

fun key_val_loop ::
  "(int \<Rightarrow> packet \<Rightarrow> int \<times> packet) \<Rightarrow> htab \<Rightarrow> htab_mem \<Rightarrow> nat \<Rightarrow> nat \<Rightarrow> xdp_batch_md \<Rightarrow> batch_state \<Rightarrow> u32
     \<Rightarrow> xdp_batch_md \<times> batch_state \<times> u32" where
  "key_val_loop adj t m 0 k b bs cnt = (b, bs, cnt)"
| "key_val_loop adj t m (Suc n) k b bs cnt =
     (if length (buffs b) \<le> k then (b, bs, cnt)
      else
        let p = buffs b ! k; (act, u, e) = start_packet p (bs k); bs = bs(k := e) in
        case act of
          Some a \<Rightarrow> key_val_loop adj t m n (k + 1) (set_action k a b) bs cnt
        | None \<Rightarrow>
            let val = htab_lookup_elem kv_cfg t m (pkt_key e) in
            if val = 0 then key_val_loop adj t m n (k + 1) (set_action k XDP_DROP b) bs cnt
            else
              let (_, p, _) = update_udp_pkt_with_payload adj p u (value_at m val)
              in key_val_loop adj t m n (k + 1) (set_action k XDP_TX (set_packet k p b)) bs (cnt + 1))"

definition bbb_key_val_main ::
  "(int \<Rightarrow> packet \<Rightarrow> int \<times> packet) \<Rightarrow> nat \<Rightarrow> (htab \<times> htab_mem) option \<Rightarrow> u64 \<Rightarrow> xdp_batch_md \<Rightarrow> batch_state \<Rightarrow> tput
     \<Rightarrow> xdp_batch_md \<times> batch_state \<times> u64 option \<times> tput" where
  "bbb_key_val_main adj XDP_MAX_BATCH_SIZE tab ts b bs c =
     (case tab of
        None \<Rightarrow> (b, bs, None, c)
      | Some (t, m) \<Rightarrow>
          let (b, bs, pkt_cntr) = key_val_loop adj t m XDP_MAX_BATCH_SIZE 0 b bs 0;
              (out, c) = report_tput_batch ts pkt_cntr c
          in (b, bs, out, c))"

fun pf_first_loop :: "htab \<Rightarrow> nat \<Rightarrow> nat \<Rightarrow> xdp_batch_md \<Rightarrow> batch_state \<Rightarrow> xdp_batch_md \<times> batch_state" where
  "pf_first_loop t 0 k b bs = (b, bs)"
| "pf_first_loop t (Suc n) k b bs =
     (if length (buffs b) \<le> k then (b, bs)
      else
        let (act, u, e) = start_packet (buffs b ! k) (bs k) in
        case act of
          Some a \<Rightarrow> pf_first_loop t n (k + 1) (set_action k a b) (bs(k := e))
        | None \<Rightarrow>
            let e = e\<lparr>plookup := htab_lookup_elem_p1 kv_cfg t (pkt_key e), phase := 1\<rparr>
            in pf_first_loop t n (k + 1) b (bs(k := e)))"

text \<open>\<open>False\<close>: the early return that the code says never happens.\<close>

fun pf_last_loop ::
  "(int \<Rightarrow> packet \<Rightarrow> int \<times> packet) \<Rightarrow> htab_mem \<Rightarrow> nat \<Rightarrow> nat \<Rightarrow> xdp_batch_md \<Rightarrow> batch_state \<Rightarrow> u32
     \<Rightarrow> bool \<times> xdp_batch_md \<times> u32" where
  "pf_last_loop adj m 0 k b bs cnt = (True, b, cnt)"
| "pf_last_loop adj m (Suc n) k b bs cnt =
     (if length (buffs b) \<le> k then (True, b, cnt)
      else if phase (bs k) \<noteq> 1 then pf_last_loop adj m n (k + 1) b bs cnt
      else
        let p = buffs b ! k; val = htab_lookup_elem_p2 kv_cfg m (pkt_key (bs k)) (plookup (bs k)) in
        if val = 0 then pf_last_loop adj m n (k + 1) (set_action k XDP_DROP b) bs cnt
        else
          let u = \<lparr>u_eth = 0, u_ip = ETH_HLEN, u_udp = ETH_HLEN + IP_HLEN\<rparr> in
          if length p < u_udp u + UDP_HLEN then (False, b, cnt)
          else
            let (_, p, _) = update_udp_pkt_with_payload adj p u (value_at m val)
            in pf_last_loop adj m n (k + 1) (set_action k XDP_TX (set_packet k p b)) bs (cnt + 1))"

definition bbb_pf_key_val_main ::
  "(int \<Rightarrow> packet \<Rightarrow> int \<times> packet) \<Rightarrow> nat \<Rightarrow> (htab \<times> htab_mem) option \<Rightarrow> u64 \<Rightarrow> xdp_batch_md \<Rightarrow> batch_state \<Rightarrow> tput
     \<Rightarrow> xdp_batch_md \<times> batch_state \<times> u64 option \<times> tput" where
  "bbb_pf_key_val_main adj XDP_MAX_BATCH_SIZE tab ts b bs c =
     (case tab of
        None \<Rightarrow> (b, bs, None, c)
      | Some (t, m) \<Rightarrow>
          let (b, bs) = pf_first_loop t XDP_MAX_BATCH_SIZE 0 b bs;
              (ok, b, pkt_cntr) = pf_last_loop adj m XDP_MAX_BATCH_SIZE 0 b bs 0
          in if \<not> ok then (b, bs, None, c)
             else let (out, c) = report_tput_batch ts pkt_cntr c in (b, bs, out, c))"

subsection \<open>What happens to one packet\<close>

text \<open>The action and the new content of a packet, whatever the state kept for its place is.\<close>

definition kv_result :: "(int \<Rightarrow> packet \<Rightarrow> int \<times> packet) \<Rightarrow> htab \<Rightarrow> htab_mem \<Rightarrow> packet \<Rightarrow> xdp_action \<times> packet" where
  "kv_result adj t m p =
     (let (act, u, e) = start_packet p \<lparr>phase = 0, pkt_key = (\<lambda>_. 0), plookup = \<lparr>pl_head = 0, pl_hash = 0\<rparr>\<rparr> in
      case act of
        Some a \<Rightarrow> (a, p)
      | None \<Rightarrow>
          let val = htab_lookup_elem kv_cfg t m (pkt_key e) in
          if val = 0 then (XDP_DROP, p)
          else (XDP_TX, fst (snd (update_udp_pkt_with_payload adj p u (value_at m val)))))"

lemma start_packet_cases:
  obtains (pass) u where "\<And>e. start_packet p e = (Some XDP_PASS, u, e\<lparr>phase := 0\<rparr>)"
      "\<And>adj t m. kv_result adj t m p = (XDP_PASS, p)" "fst (parse_headers SERVER_PORT p no_headers) \<noteq> 0"
  | (short) u where "\<And>e. start_packet p e = (Some XDP_DROP, u, e\<lparr>phase := 0\<rparr>)"
      "\<And>adj t m. kv_result adj t m p = (XDP_DROP, p)" "parse_headers SERVER_PORT p no_headers = (0, u)"
      "length p < u_udp u + UDP_HLEN + 4"
  | (query) u key where "\<And>e. start_packet p e = (None, u, e\<lparr>phase := 0, pkt_key := key\<rparr>)"
      "\<And>adj t m. kv_result adj t m p = (let val = htab_lookup_elem kv_cfg t m key in
         if val = 0 then (XDP_DROP, p)
         else (XDP_TX, fst (snd (update_udp_pkt_with_payload adj p u (value_at m val)))))"
      "parse_headers SERVER_PORT p no_headers = (0, u)" "u_udp u + UDP_HLEN + 4 \<le> length p"
      "key = packet_key p (u_udp u + UDP_HLEN)"
proof -
  obtain r u where h: "parse_headers SERVER_PORT p no_headers = (r, u)" by fastforce
  show thesis
  proof (cases "r = 0")
    case False
    with h show thesis by (intro pass [of u]) (simp_all add: start_packet_def kv_result_def)
  next
    case True
    show thesis
    proof (cases "length p < u_udp u + UDP_HLEN + 4")
      case short': True
      with h True show thesis by (intro short [of u]) (simp_all add: start_packet_def kv_result_def)
    next
      case False
      with h True show thesis
        by (intro query [of u "packet_key p (u_udp u + UDP_HLEN)"]) (simp_all add: start_packet_def kv_result_def)
    qed
  qed
qed

lemma key_val_main_result:
  "key_val_main adj (Some (t, m)) ts p c
    = (fst (kv_result adj t m p), snd (kv_result adj t m p),
       if fst (kv_result adj t m p) = XDP_TX then report_tput_batch ts 1 c else (None, c))"
  by (rule start_packet_cases [of p]) (auto simp: key_val_main_def Let_def split: prod.splits)

text \<open>The number of packets that are sent back.\<close>

definition sent :: "(packet \<Rightarrow> xdp_action \<times> packet) \<Rightarrow> packet list \<Rightarrow> nat" where
  "sent f ps = length (filter (\<lambda>p. fst (f p) = XDP_TX) ps)"

text \<open>The batch after its packets from number \<open>k\<close> on have been handled by \<open>f\<close>.\<close>

definition handled :: "(packet \<Rightarrow> xdp_action \<times> packet) \<Rightarrow> nat \<Rightarrow> xdp_batch_md \<Rightarrow> xdp_batch_md" where
  "handled f k b = \<lparr>buffs = take k (buffs b) @ map (snd \<circ> f) (drop k (buffs b)),
     actions = take k (actions b) @ map (fst \<circ> f) (drop k (buffs b))\<rparr>"

lemma handled_end: "length (actions b) = length (buffs b) \<Longrightarrow> length (buffs b) \<le> k \<Longrightarrow> handled f k b = b"
  by (simp add: handled_def)

lemma handled_step:
  assumes "length (actions b) = length (buffs b)" and "k < length (buffs b)" and "f (buffs b ! k) = (a, q)"
  shows "handled f (Suc k) (set_action k a (set_packet k q b)) = handled f k b"
    and "sent f (drop k (buffs b)) = (if a = XDP_TX then 1 else 0) + sent f (drop (Suc k) (buffs b))"
proof -
  have "drop k (buffs b) = buffs b ! k # drop (Suc k) (buffs b)" using assms(2) by (simp add: Cons_nth_drop_Suc)
  with assms show "handled f (Suc k) (set_action k a (set_packet k q b)) = handled f k b"
    "sent f (drop k (buffs b)) = (if a = XDP_TX then 1 else 0) + sent f (drop (Suc k) (buffs b))"
    by (simp_all add: handled_def set_action_def set_packet_def take_Suc_conv_app_nth sent_def)
qed

lemma set_same_packet: "set_packet k (buffs b ! k) b = b"
  by (simp add: set_packet_def)

lemma set_fields [simp]:
  "buffs (set_action k a b) = buffs b" "length (actions (set_action k a b)) = length (actions b)"
  "actions (set_packet k p b) = actions b" "length (buffs (set_packet k p b)) = length (buffs b)"
  "drop (Suc k) (buffs (set_packet k p b)) = drop (Suc k) (buffs b)"
  by (simp_all add: set_action_def set_packet_def)

lemma key_val_loop_spec:
  assumes "length (actions b) = length (buffs b)" and "length (buffs b) \<le> k + n"
  shows "\<exists>bs'. key_val_loop adj t m n k b bs cnt
    = (handled (kv_result adj t m) k b, bs', cnt + of_nat (sent (kv_result adj t m) (drop k (buffs b))))"
  using assms
proof (induction n arbitrary: k b bs cnt)
  case 0
  then show ?case by (simp add: handled_end sent_def)
next
  case (Suc n)
  let ?f = "kv_result adj t m" and ?p = "buffs b ! k"
  show ?case
  proof (cases "length (buffs b) \<le> k")
    case True
    with Suc.prems show ?thesis by (simp add: handled_end sent_def)
  next
    case False
    then have k: "k < length (buffs b)" by simp
    have step: "\<exists>bs'. key_val_loop adj t m n (k + 1) (set_action k a (set_packet k q b)) bs1 cnt1
        = (handled ?f k b, bs', cnt1 + of_nat (sent ?f (drop (Suc k) (buffs b))))" if "?f ?p = (a, q)" for a q bs1 cnt1
      using Suc.IH [of "set_action k a (set_packet k q b)" "k + 1" bs1 cnt1] Suc.prems
        handled_step [where f = ?f, OF Suc.prems(1) k that] by simp
    note count = handled_step(2) [where f = ?f, OF Suc.prems(1) k]
    show ?thesis
    proof (rule start_packet_cases [of ?p])
      fix u
      assume a: "\<And>e. start_packet ?p e = (Some XDP_PASS, u, e\<lparr>phase := 0\<rparr>)" "\<And>adj t m. kv_result adj t m ?p = (XDP_PASS, ?p)"
      from step [OF a(2)] count [OF a(2)] k show ?thesis by (simp add: a(1) set_same_packet)
    next
      fix u
      assume a: "\<And>e. start_packet ?p e = (Some XDP_DROP, u, e\<lparr>phase := 0\<rparr>)" "\<And>adj t m. kv_result adj t m ?p = (XDP_DROP, ?p)"
      from step [OF a(2)] count [OF a(2)] k show ?thesis by (simp add: a(1) set_same_packet)
    next
      fix u key
      assume a: "\<And>e. start_packet ?p e = (None, u, e\<lparr>phase := 0, pkt_key := key\<rparr>)"
        "\<And>adj t m. kv_result adj t m ?p = (let val = htab_lookup_elem kv_cfg t m key in
         if val = 0 then (XDP_DROP, ?p)
         else (XDP_TX, fst (snd (update_udp_pkt_with_payload adj ?p u (value_at m val)))))"
      show ?thesis
      proof (cases "htab_lookup_elem kv_cfg t m key = 0")
        case True
        then have r: "?f ?p = (XDP_DROP, ?p)" by (simp add: a(2))
        from step [OF r] count [OF r] k True show ?thesis by (simp add: a(1) set_same_packet)
      next
        case False
        obtain r q u' where q: "update_udp_pkt_with_payload adj ?p u (value_at m (htab_lookup_elem kv_cfg t m key)) = (r, q, u')"
          by (metis prod.exhaust)
        with False have r: "?f ?p = (XDP_TX, q)" by (simp add: a(2))
        from step [OF r, of _ "cnt + 1"] count [OF r] k False q show ?thesis by (simp add: a(1) add.assoc)
      qed
    qed
  qed
qed

text \<open>C32. The program for a batch does to every packet what the program for one packet does, and the counter
  of its throughput report grows by the number of packets that are sent.\<close>

theorem batch_each_packet:
  assumes "length (actions b) = length (buffs b)" and "length (buffs b) \<le> N"
  shows "\<exists>b' bs' out c'. bbb_key_val_main adj N (Some (t, m)) ts b bs c = (b', bs', out, c')
    \<and> length (buffs b') = length (buffs b) \<and> length (actions b') = length (buffs b)
    \<and> (\<forall>k < length (buffs b). \<exists>o1 c1. key_val_main adj (Some (t, m)) ts (buffs b ! k) c
         = (actions b' ! k, buffs b' ! k, o1, c1))
    \<and> (out, c') = report_tput_batch ts (of_nat (length (filter (\<lambda>a. a = XDP_TX) (actions b')))) c"
proof -
  let ?f = "kv_result adj t m"
  from key_val_loop_spec [OF assms(1), of 0 N adj t m bs 0] assms(2) obtain bs' where
    l: "key_val_loop adj t m N 0 b bs 0 = (handled ?f 0 b, bs', of_nat (sent ?f (buffs b)))" by auto
  have h: "buffs (handled ?f 0 b) = map (snd \<circ> ?f) (buffs b)" "actions (handled ?f 0 b) = map (fst \<circ> ?f) (buffs b)"
    by (simp_all add: handled_def)
  have each: "\<exists>o1 c1. key_val_main adj (Some (t, m)) ts p c = (fst (?f p), snd (?f p), o1, c1)" for p
    unfolding key_val_main_result
    by (cases "if fst (?f p) = XDP_TX then report_tput_batch ts 1 c else (None, c)") auto
  have "length (filter (\<lambda>a. a = XDP_TX) (map (fst \<circ> ?f) ps)) = sent ?f ps" for ps
    by (simp add: sent_def filter_map comp_def)
  with l h each show ?thesis
    by (cases "report_tput_batch ts (of_nat (sent ?f (buffs b))) c") (simp add: bbb_key_val_main_def)
qed

subsection \<open>The split lookups\<close>

text \<open>What the first loop leaves for the last one at a place.\<close>

definition prepared :: "htab \<Rightarrow> packet \<Rightarrow> xdp_action \<Rightarrow> pkt_state \<Rightarrow> xdp_action \<Rightarrow> bool" where
  "prepared t p a e a' \<longleftrightarrow> (case fst (start_packet p e) of
     Some x \<Rightarrow> a' = x \<and> phase e = 0
   | None \<Rightarrow> a' = a \<and> phase e = 1
       \<and> pkt_key e = packet_key p (u_udp (fst (snd (start_packet p e))) + UDP_HLEN)
       \<and> plookup e = htab_lookup_elem_p1 kv_cfg t (pkt_key e))"

lemma pf_first_loop_spec:
  assumes "length (actions b) = length (buffs b)" and "length (buffs b) \<le> k + n"
  shows "\<exists>b' bs'. pf_first_loop t n k b bs = (b', bs') \<and> buffs b' = buffs b \<and> length (actions b') = length (buffs b)
    \<and> (\<forall>j < length (buffs b). if j < k then actions b' ! j = actions b ! j \<and> bs' j = bs j
         else prepared t (buffs b ! j) (actions b ! j) (bs' j) (actions b' ! j))"
  using assms
proof (induction n arbitrary: k b bs)
  case (Suc n)
  show ?case
  proof (cases "length (buffs b) \<le> k")
    case False
    let ?p = "buffs b ! k"
    have step: "\<exists>b' bs'. pf_first_loop t n (k + 1) b1 (bs(k := e)) = (b', bs') \<and> buffs b' = buffs b
      \<and> length (actions b') = length (buffs b)
      \<and> (\<forall>j < length (buffs b). if j < k then actions b' ! j = actions b ! j \<and> bs' j = bs j
           else prepared t (buffs b ! j) (actions b ! j) (bs' j) (actions b' ! j))"
      if b1: "buffs b1 = buffs b" "length (actions b1) = length (buffs b)" "\<forall>j. j \<noteq> k \<longrightarrow> actions b1 ! j = actions b ! j"
        and pr: "prepared t ?p (actions b ! k) e (actions b1 ! k)" for b1 e
    proof -
      have "length (actions b1) = length (buffs b1)" "length (buffs b1) \<le> k + 1 + n" using b1 Suc.prems by simp_all
      from Suc.IH [OF this, of "bs(k := e)", unfolded b1(1)] obtain b' bs' where
        r: "pf_first_loop t n (k + 1) b1 (bs(k := e)) = (b', bs')" "buffs b' = buffs b" "length (actions b') = length (buffs b)"
        and f: "\<forall>j < length (buffs b). if j < k + 1 then actions b' ! j = actions b1 ! j \<and> bs' j = (bs(k := e)) j
           else prepared t (buffs b ! j) (actions b1 ! j) (bs' j) (actions b' ! j)" by blast
      have "if j < k then actions b' ! j = actions b ! j \<and> bs' j = bs j
           else prepared t (buffs b ! j) (actions b ! j) (bs' j) (actions b' ! j)" if "j < length (buffs b)" for j
      proof -
        consider "j < k" | "j = k" | "k < j" by linarith
        then show ?thesis using spec [OF f, of j] that b1(3) pr by cases auto
      qed
      with r show ?thesis by blast
    qed
    show ?thesis
    proof (rule start_packet_cases [of ?p])
      fix u
      assume a: "\<And>e. start_packet ?p e = (Some XDP_PASS, u, e\<lparr>phase := 0\<rparr>)"
      have "prepared t ?p (actions b ! k) (bs k\<lparr>phase := 0\<rparr>) (actions (set_action k XDP_PASS b) ! k)"
        using False Suc.prems by (simp add: prepared_def a set_action_def)
      from step [OF _ _ _ this] False a Suc.prems show ?thesis by (simp add: set_action_def)
    next
      fix u
      assume a: "\<And>e. start_packet ?p e = (Some XDP_DROP, u, e\<lparr>phase := 0\<rparr>)"
      have "prepared t ?p (actions b ! k) (bs k\<lparr>phase := 0\<rparr>) (actions (set_action k XDP_DROP b) ! k)"
        using False Suc.prems by (simp add: prepared_def a set_action_def)
      from step [OF _ _ _ this] False a Suc.prems show ?thesis by (simp add: set_action_def)
    next
      fix u key
      assume a: "\<And>e. start_packet ?p e = (None, u, e\<lparr>phase := 0, pkt_key := key\<rparr>)"
        and key: "key = packet_key ?p (u_udp u + UDP_HLEN)"
      let ?e = "bs k\<lparr>pkt_key := key, plookup := htab_lookup_elem_p1 kv_cfg t key, phase := 1\<rparr>"
      have "prepared t ?p (actions b ! k) ?e (actions b ! k)"
        by (simp add: prepared_def a key)
      from step [OF _ _ _ this] False a Suc.prems show ?thesis by (simp split del: if_split)
    qed
  qed (use Suc.prems in auto)
qed auto

lemma pf_last_loop_spec:
  assumes "length (actions b) = length (buffs b)" and "length (buffs b) \<le> k + n"
    and "\<forall>j < length (buffs b). k \<le> j \<longrightarrow> (\<exists>a. prepared t (buffs b ! j) a (bs j) (actions b ! j))"
    and "\<forall>p \<in> set (drop k (buffs b)). p ! 14 AND 0xf = 5"
  shows "pf_last_loop adj m n k b bs cnt
    = (True, handled (kv_result adj t m) k b, cnt + of_nat (sent (kv_result adj t m) (drop k (buffs b))))"
  using assms
proof (induction n arbitrary: k b cnt)
  case 0
  then show ?case by (simp add: handled_end sent_def)
next
  case (Suc n)
  let ?f = "kv_result adj t m" and ?p = "buffs b ! k"
  show ?case
  proof (cases "length (buffs b) \<le> k")
    case True
    with Suc.prems show ?thesis by (simp add: handled_end sent_def)
  next
    case False
    then have k: "k < length (buffs b)" by simp
    have dr: "drop k (buffs b) = ?p # drop (Suc k) (buffs b)" using k by (simp add: Cons_nth_drop_Suc)
    have ihl: "?p ! 14 AND 0xf = 5" using Suc.prems(4) by (simp add: dr)
    have step: "pf_last_loop adj m n (k + 1) (set_action k a (set_packet k q b)) bs cnt1
        = (True, handled ?f k b, cnt1 + of_nat (sent ?f (drop (Suc k) (buffs b))))" if "?f ?p = (a, q)" for a q cnt1
    proof -
      let ?b = "set_action k a (set_packet k q b)"
      have "\<forall>j < length (buffs ?b). k + 1 \<le> j \<longrightarrow> (\<exists>a. prepared t (buffs ?b ! j) a (bs j) (actions ?b ! j))"
        using Suc.prems(3) by (simp add: set_action_def set_packet_def)
      moreover have "\<forall>p \<in> set (drop (k + 1) (buffs ?b)). p ! 14 AND 0xf = 5"
        using Suc.prems(4) by (simp add: dr)
      ultimately show ?thesis
        using Suc.IH [of ?b "k + 1" cnt1] Suc.prems(1,2) handled_step [where f = ?f, OF Suc.prems(1) k that] by simp
    qed
    note count = handled_step(2) [where f = ?f, OF Suc.prems(1) k]
    from Suc.prems(3) k obtain a0 where pr: "prepared t ?p a0 (bs k) (actions b ! k)" by blast
    have same: "set_action k (actions b ! k) b = b" by (simp add: set_action_def)
    show ?thesis
    proof (rule start_packet_cases [of ?p])
      fix u
      assume a: "\<And>e. start_packet ?p e = (Some XDP_PASS, u, e\<lparr>phase := 0\<rparr>)" "\<And>adj t m. kv_result adj t m ?p = (XDP_PASS, ?p)"
      from pr have "actions b ! k = XDP_PASS" "phase (bs k) = 0" by (simp_all add: prepared_def a(1))
      with step [OF a(2), of cnt] count [OF a(2)] k same show ?thesis by (simp add: set_same_packet)
    next
      fix u
      assume a: "\<And>e. start_packet ?p e = (Some XDP_DROP, u, e\<lparr>phase := 0\<rparr>)" "\<And>adj t m. kv_result adj t m ?p = (XDP_DROP, ?p)"
      from pr have "actions b ! k = XDP_DROP" "phase (bs k) = 0" by (simp_all add: prepared_def a(1))
      with step [OF a(2), of cnt] count [OF a(2)] k same show ?thesis by (simp add: set_same_packet)
    next
      fix u key
      assume a: "\<And>e. start_packet ?p e = (None, u, e\<lparr>phase := 0, pkt_key := key\<rparr>)"
        "\<And>adj t m. kv_result adj t m ?p = (let val = htab_lookup_elem kv_cfg t m key in
         if val = 0 then (XDP_DROP, ?p)
         else (XDP_TX, fst (snd (update_udp_pkt_with_payload adj ?p u (value_at m val)))))"
        and u: "parse_headers SERVER_PORT ?p no_headers = (0, u)" "u_udp u + UDP_HLEN + 4 \<le> length ?p"
        and key: "key = packet_key ?p (u_udp u + UDP_HLEN)"
      from pr have e: "phase (bs k) = 1" "pkt_key (bs k) = key" "plookup (bs k) = htab_lookup_elem_p1 kv_cfg t key"
        by (simp_all add: prepared_def a(1) key)
      have u': "u = \<lparr>u_eth = 0, u_ip = ETH_HLEN, u_udp = ETH_HLEN + IP_HLEN\<rparr>"
        using u(1) ihl by (auto simp: parse_headers_def no_headers_def Let_def hlen_defs split: if_splits)
      have p2: "htab_lookup_elem_p2 kv_cfg m (pkt_key (bs k)) (plookup (bs k)) = htab_lookup_elem kv_cfg t m key"
        unfolding e by (rule hb.phases)
      have long: "\<not> length ?p < ETH_HLEN + IP_HLEN + UDP_HLEN" using u(2) u' by simp
      show ?thesis
      proof (cases "htab_lookup_elem kv_cfg t m key = 0")
        case True
        then have r: "?f ?p = (XDP_DROP, ?p)" by (simp add: a(2))
        from step [OF r] count [OF r] k True show ?thesis by (simp add: e(1) p2 set_same_packet)
      next
        case False
        obtain r q w where q: "update_udp_pkt_with_payload adj ?p u (value_at m (htab_lookup_elem kv_cfg t m key)) = (r, q, w)"
          by (metis prod.exhaust)
        with False have r: "?f ?p = (XDP_TX, q)" by (simp add: a(2))
        from step [OF r, of "cnt + 1"] count [OF r] k False q long show ?thesis
          by (simp add: e(1) p2 u' add.assoc)
      qed
    qed
  qed
qed

text \<open>The program that splits the lookups of a batch around prefetches leaves the same packets, the same
  actions and the same throughput counters as the plain program for a batch, when the packets
  have no IP options, and never takes its early return.\<close>

theorem pf_batch_same:
  assumes "length (actions b) = length (buffs b)" and "length (buffs b) \<le> N"
    and "\<forall>p \<in> set (buffs b). p ! 14 AND 0xf = 5"
  shows "\<exists>b' bs1 bs2 out c'. bbb_pf_key_val_main adj N tab ts b bs c = (b', bs1, out, c')
    \<and> bbb_key_val_main adj N tab ts b bs c = (b', bs2, out, c')"
proof (cases tab)
  case None
  then show ?thesis by (simp add: bbb_pf_key_val_main_def bbb_key_val_main_def)
next
  case (Some tm)
  obtain t m where tm: "tm = (t, m)" by (cases tm)
  let ?f = "kv_result adj t m"
  from key_val_loop_spec [OF assms(1), of 0 N adj t m bs 0] assms(2) obtain bs2 where
    l: "key_val_loop adj t m N 0 b bs 0 = (handled ?f 0 b, bs2, of_nat (sent ?f (buffs b)))" by auto
  from pf_first_loop_spec [OF assms(1), of 0 N t bs] assms(2) obtain b1 bs1 where
    f: "pf_first_loop t N 0 b bs = (b1, bs1)" "buffs b1 = buffs b" "length (actions b1) = length (buffs b)"
      "\<forall>j < length (buffs b). prepared t (buffs b ! j) (actions b ! j) (bs1 j) (actions b1 ! j)" by auto
  have "length (actions b1) = length (buffs b1)" "length (buffs b1) \<le> 0 + N"
    "\<forall>j < length (buffs b1). 0 \<le> j \<longrightarrow> (\<exists>a. prepared t (buffs b1 ! j) a (bs1 j) (actions b1 ! j))"
    "\<forall>p \<in> set (drop 0 (buffs b1)). p ! 14 AND 0xf = 5"
    using f assms by auto
  from pf_last_loop_spec [OF this, of adj m 0]
  have "pf_last_loop adj m N 0 b1 bs1 0 = (True, handled ?f 0 b1, of_nat (sent ?f (buffs b1)))" by simp
  moreover have "handled ?f 0 b1 = handled ?f 0 b" by (simp add: handled_def f(2))
  ultimately show ?thesis
    using l f(1,2) unfolding Some tm
    by (cases "report_tput_batch ts (of_nat (sent ?f (buffs b))) c")
      (simp add: bbb_pf_key_val_main_def bbb_key_val_main_def)
qed

subsection \<open>Answers\<close>

text \<open>A query for a key in the table is always sent back: with the value as its payload, fitting lengths
  and a header checksum that verifies when the kernel changes the length; and otherwise as the
  kernel left it, since the result of the update of the packet is ignored.\<close>

theorem key_val_answers:
  assumes tail: "tail_contract adj" and head: "is_relevant SERVER_PORT p" "p ! 14 AND 0xf = 5" and len: "46 \<le> length p"
    and found: "htab_lookup_elem kv_cfg t m (packet_key p 42) = v" "v \<noteq> 0"
  shows "\<exists>q out c'. key_val_main adj (Some (t, m)) ts p c = (XDP_TX, q, out, c')
    \<and> (let (ret, p') = adj (int 74 - int (length p)) p in
       if ret \<noteq> 0 then q = p'
       else length q = 74 \<and> drop 42 q = value_at m v \<and> ld32 q 30 = ld32 p 26 \<and> ld16 q 36 = ld16 p 34
         \<and> unat (ntohs (ld16 q 16)) = 60 \<and> unat (ntohs (ld16 q 38)) = 40 \<and> ipv4_csum_inline q 14 0 = 0)"
proof -
  have h: "parse_headers SERVER_PORT p no_headers = (0, \<lparr>u_eth = 0, u_ip = 14, u_udp = 34\<rparr>)"
    using head len
    by (auto simp: parse_headers_def is_relevant_def no_headers_def hlen_defs Let_def split: if_splits)
  obtain r q u' where u: "update_udp_pkt_with_payload adj p \<lparr>u_eth = 0, u_ip = 14, u_udp = 34\<rparr> (value_at m v) = (r, q, u')"
    by (metis prod.exhaust)
  obtain ret p' where a: "adj (int 74 - int (length p)) p = (ret, p')" by fastforce
  have lv: "length (value_at m v) = 32" by (simp add: VAL_SZ_def)
  have refused: "q = p'" if "ret \<noteq> 0"
    using u a that head(2) by (simp add: update_udp_pkt_with_payload_def hlen_defs VAL_SZ_def Let_def)
  have "42 \<le> length p" using len by simp
  note spec = update_udp_payload [OF tail refl head(2) this, of "value_at m v", unfolded u prod.case lv]
  have done_: "length q = 74 \<and> drop 42 q = value_at m v \<and> ld32 q 30 = ld32 p 26 \<and> ld16 q 36 = ld16 p 34
         \<and> unat (ntohs (ld16 q 16)) = 60 \<and> unat (ntohs (ld16 q 38)) = 40 \<and> ipv4_csum_inline q 14 0 = 0" if "ret = 0"
    using spec a that by simp
  obtain out c' where t: "report_tput_batch ts 1 c = (out, c')" by fastforce
  have "key_val_main adj (Some (t, m)) ts p c = (XDP_TX, q, out, c')"
    using h len found u t by (simp add: key_val_main_def UDP_HLEN_def)
  then show ?thesis using refused done_ a by auto
qed

subsection \<open>Examples\<close>

definition batch_query :: packet where
  "batch_query = take 42 (udp_ex[37 := 0x90]) @ [7, 0, 0, 0]"

lemma batch_query_ok: "is_relevant SERVER_PORT batch_query" "length batch_query = 46" "batch_query ! 14 AND 0xf = 5"
  "ld32 batch_query 42 = 7"
  by (simp_all add: is_relevant_def hlen_defs batch_query_def udp_ex_def ld16_def le16_def ETH_P_IP_def bswap16_def
      IPPROTO_UDP_def SERVER_PORT_def ld32_def le32_def)

lemma kv_ex_found: "\<exists>v. htab_lookup_elem kv_cfg (fst kv_ex) (snd kv_ex) (packet_key batch_query 42) = v \<and> v \<noteq> 0
    \<and> value_at (snd kv_ex) v = replicate 32 9"
proof -
  obtain t m where tm: "kv_ex = (t, m)" by (cases kv_ex)
  from kv_ex_value [of batch_query 42] show ?thesis
    by (auto simp: tm htab_value_def batch_query_ok Let_def split: if_splits)
qed

theorem key_val_answers_witness:
  "\<exists>q out c. key_val_main cut_or_pad (Some kv_ex) 5 batch_query \<lparr>counter = 0, last_report = 0\<rparr> = (XDP_TX, q, out, c)
     \<and> drop 42 q = replicate 32 9"
proof -
  from kv_ex_found obtain v where v: "htab_lookup_elem kv_cfg (fst kv_ex) (snd kv_ex) (packet_key batch_query 42) = v"
    "v \<noteq> 0" "value_at (snd kv_ex) v = replicate 32 9" by blast
  have l: "46 \<le> length batch_query" by (simp add: batch_query_ok)
  from key_val_answers [OF cut_or_pad_contract batch_query_ok(1,3) l v(1,2), of 5 "\<lparr>counter = 0, last_report = 0\<rparr>"] v(3)
  show ?thesis by (auto simp: cut_or_pad_def batch_query_ok)
qed

theorem batch_each_packet_witness:
  "\<exists>b' bs' out c'. bbb_key_val_main cut_or_pad 32 (Some kv_ex) 5
       \<lparr>buffs = [[], batch_query], actions = [XDP_ABORTED, XDP_ABORTED]\<rparr>
       (\<lambda>_. \<lparr>phase = 0, pkt_key = (\<lambda>_. 0), plookup = \<lparr>pl_head = 0, pl_hash = 0\<rparr>\<rparr>) \<lparr>counter = 3, last_report = 0\<rparr>
     = (b', bs', out, c') \<and> actions b' ! 0 = XDP_PASS \<and> buffs b' ! 0 = []"
proof -
  let ?b = "\<lparr>buffs = [[], batch_query], actions = [XDP_ABORTED, XDP_ABORTED]\<rparr>"
  let ?bs = "\<lambda>_ :: nat. \<lparr>phase = 0, pkt_key = (\<lambda>_. 0), plookup = \<lparr>pl_head = 0, pl_hash = 0\<rparr>\<rparr>"
  let ?c = "\<lparr>counter = 3, last_report = 0\<rparr>"
  have "length (actions ?b) = length (buffs ?b)" "length (buffs ?b) \<le> 32" by simp_all
  from batch_each_packet [OF this, of cut_or_pad "fst kv_ex" "snd kv_ex" 5 ?bs ?c] obtain b' bs' out c' where
    r: "bbb_key_val_main cut_or_pad 32 (Some kv_ex) 5 ?b ?bs ?c = (b', bs', out, c')" and
    e: "\<forall>k < 2. \<exists>o1 c1. key_val_main cut_or_pad (Some kv_ex) 5 (buffs ?b ! k) ?c
         = (actions b' ! k, buffs b' ! k, o1, c1)" by (auto simp: numeral_2_eq_2)
  have "key_val_main cut_or_pad (Some kv_ex) 5 [] ?c = (XDP_PASS, [], None, ?c)"
    by (cases kv_ex) (simp add: key_val_main_def parse_headers_def)
  with spec [OF e, of 0] have "actions b' ! 0 = XDP_PASS" "buffs b' ! 0 = []" by auto
  with r show ?thesis by blast
qed

theorem pf_batch_same_witness:
  "\<exists>b' bs1 bs2 out c'. bbb_pf_key_val_main cut_or_pad 32 (Some kv_ex) 5
       \<lparr>buffs = [batch_query], actions = [XDP_ABORTED]\<rparr>
       (\<lambda>_. \<lparr>phase = 0, pkt_key = (\<lambda>_. 0), plookup = \<lparr>pl_head = 0, pl_hash = 0\<rparr>\<rparr>) \<lparr>counter = 3, last_report = 0\<rparr>
     = (b', bs1, out, c')
     \<and> bbb_key_val_main cut_or_pad 32 (Some kv_ex) 5
       \<lparr>buffs = [batch_query], actions = [XDP_ABORTED]\<rparr>
       (\<lambda>_. \<lparr>phase = 0, pkt_key = (\<lambda>_. 0), plookup = \<lparr>pl_head = 0, pl_hash = 0\<rparr>\<rparr>) \<lparr>counter = 3, last_report = 0\<rparr>
     = (b', bs2, out, c')"
  by (rule pf_batch_same) (simp_all add: batch_query_ok)

end
