(* ===== verification/Text.thy ===== *)
theory Text
  imports Bytes
begin

text \<open>
  Text as bytes: literals, C strings, decimal numbers, and the two functions of the C library that
  read numbers and addresses from text, \<open>atoi\<close> and \<open>inet_pton\<close> for \<open>AF_INET\<close>, as the manual has
  them.
\<close>

definition str :: "string \<Rightarrow> u8 list" where
  "str s = map of_char s"

abbreviation SP :: u8 where "SP \<equiv> 0x20"
abbreviation LF :: u8 where "LF \<equiv> 0x0a"
abbreviation CR :: u8 where "CR \<equiv> 0x0d"
abbreviation COLON :: u8 where "COLON \<equiv> 0x3a"
abbreviation SLASH :: u8 where "SLASH \<equiv> 0x2f"
abbreviation QMARK :: u8 where "QMARK \<equiv> 0x3f"
abbreviation HASH :: u8 where "HASH \<equiv> 0x23"
abbreviation DOT :: u8 where "DOT \<equiv> 0x2e"

definition IS_DIGIT :: "u8 \<Rightarrow> bool" where
  "IS_DIGIT c \<longleftrightarrow> 0x30 \<le> c \<and> c \<le> 0x39"

text \<open>The string that a buffer holds: its bytes up to the first zero.\<close>

definition c_string :: "u8 list \<Rightarrow> u8 list" where
  "c_string buf = takeWhile (\<lambda>b. b \<noteq> 0) buf"

lemma str_simps [simp]:
  "str [] = []" "str (c # s) = of_char c # str s"
  by (simp_all add: str_def)

lemma length_str [simp]: "length (str s) = length s"
  by (simp add: str_def)

lemma c_string_take:
  assumes "\<forall>b \<in> set xs. b \<noteq> 0"
  shows "c_string (xs @ 0 # ys) = xs"
  using assms by (simp add: c_string_def takeWhile_append)

subsection \<open>Decimal numbers\<close>

definition atoi :: "u8 list \<Rightarrow> nat" where
  "atoi cs = fold (\<lambda>c n. 10 * n + (unat c - 48)) (takeWhile IS_DIGIT cs) 0"

fun dec :: "nat \<Rightarrow> u8 list" where
  "dec n = (if n < 10 then [0x30 + of_nat n] else dec (n div 10) @ [0x30 + of_nat (n mod 10)])"

declare dec.simps [simp del]

lemma unat_digit: "d < 10 \<Longrightarrow> unat (0x30 + of_nat d :: u8) = 48 + d"
  by (subst unat_add_no_wrap) (simp_all add: unat_of_nat_small)

lemma IS_DIGIT_iff: "IS_DIGIT c \<longleftrightarrow> 48 \<le> unat c \<and> unat c \<le> 57"
  by (simp add: IS_DIGIT_def word_le_nat_alt)

lemma digit_simps [simp]: "d < 10 \<Longrightarrow> IS_DIGIT (0x30 + of_nat d)"
  by (simp add: IS_DIGIT_iff unat_digit)

lemma dec_digits: "\<forall>c \<in> set (dec n). IS_DIGIT c"
proof (induction n rule: dec.induct)
  case (1 n)
  then show ?case by (subst dec.simps) (auto simp: unat_digit IS_DIGIT_iff)
qed

lemma dec_not_empty [simp]: "dec n \<noteq> []"
  by (subst dec.simps) simp

lemma fold_dec: "fold (\<lambda>c n. 10 * n + (unat c - 48)) (dec n) 0 = n"
proof (induction n rule: dec.induct)
  case (1 n)
  then show ?case by (subst dec.simps) (auto simp: unat_digit)
qed

lemma atoi_dec [simp]: "atoi (dec n) = n"
proof -
  have "takeWhile IS_DIGIT (dec n) = dec n" using dec_digits by (simp add: takeWhile_eq_all_conv)
  then show ?thesis by (simp only: atoi_def fold_dec)
qed

lemma length_dec: "n < 10 ^ k \<Longrightarrow> 0 < k \<Longrightarrow> length (dec n) \<le> k"
proof (induction n arbitrary: k rule: dec.induct)
  case (1 n)
  show ?case
  proof (cases "n < 10")
    case True
    then show ?thesis using 1 by (subst dec.simps) simp
  next
    case False
    obtain j where j: "k = Suc j" using 1(3) by (cases k) auto
    have n: "n div 10 < 10 ^ j" using 1(2) by (simp add: j less_mult_imp_div_less mult.commute)
    have "0 < j" using False 1(2) j by (cases j) auto
    with 1(1) [OF False n] False show ?thesis by (subst dec.simps) (simp add: j)
  qed
qed

lemma dec_hd: "10 \<le> n \<Longrightarrow> hd (dec n) \<noteq> 0x30"
proof (induction n rule: dec.induct)
  case (1 n)
  show ?case
  proof (cases "n div 10 < 10")
    case True
    have "unat (0x30 + of_nat (n div 10) :: u8) \<noteq> unat (0x30 :: u8)"
      using True 1(2) by (simp add: unat_digit)
    then have "(0x30 + of_nat (n div 10) :: u8) \<noteq> 0x30" by metis
    with True 1(2) show ?thesis by (subst dec.simps, subst dec.simps) simp
  next
    case False
    with 1 show ?thesis by (subst dec.simps) simp
  qed
qed

lemma length_dec_1: "length (dec n) = 1 \<longleftrightarrow> n < 10"
  by (subst dec.simps) simp

subsection \<open>Scanning\<close>

text \<open>What the functions that scan numbers skip before the digits.\<close>

definition is_space :: "u8 \<Rightarrow> bool" where
  "is_space c \<longleftrightarrow> c = SP \<or> 9 \<le> c \<and> c \<le> 13"

definition scan_sign :: "u8 list \<Rightarrow> bool \<times> u8 list" where
  "scan_sign s = (case s of [] \<Rightarrow> (False, s) | c # cs \<Rightarrow>
     if c = 0x2d then (True, cs) else if c = 0x2b then (False, cs) else (False, s))"

lemma digit_not_space: "IS_DIGIT c \<Longrightarrow> \<not> is_space c \<and> c \<noteq> 0x2d \<and> c \<noteq> 0x2b"
  by (auto simp: IS_DIGIT_def is_space_def word_le_nat_alt)

lemma dec_Cons: obtains c cs where "dec n = c # cs" "IS_DIGIT c"
  using dec_digits [of n] dec_not_empty [of n] by (cases "dec n") auto

lemma atoi_append: "\<not> IS_DIGIT c \<Longrightarrow> atoi (dec n @ c # s) = n"
  using dec_digits [of n] by (simp add: atoi_def takeWhile_append fold_dec)

lemma not_digit [simp]: "\<not> IS_DIGIT SP" "\<not> IS_DIGIT LF" "is_space SP" "is_space LF"
  by (simp_all add: IS_DIGIT_def is_space_def)

subsection \<open>Addresses\<close>

fun split_dots :: "u8 list \<Rightarrow> u8 list list" where
  "split_dots [] = [[]]"
| "split_dots (c # cs) =
     (if c = DOT then [] # split_dots cs
      else case split_dots cs of [] \<Rightarrow> [[c]] | f # fs \<Rightarrow> (c # f) # fs)"

text \<open>A part of an address: a number up to 255 with at most three digits and without extra zeros.\<close>

definition octet :: "u8 list \<Rightarrow> u8 option" where
  "octet f =
     (if f \<noteq> [] \<and> length f \<le> 3 \<and> (\<forall>c \<in> set f. IS_DIGIT c) \<and> atoi f \<le> 255 \<and> (1 < length f \<longrightarrow> hd f \<noteq> 0x30)
      then Some (of_nat (atoi f)) else None)"

text \<open>The bytes in network order, as the word that the program sees.\<close>

definition inet_pton :: "u8 list \<Rightarrow> u32 option" where
  "inet_pton s =
     (case map octet (split_dots s) of
        [Some a, Some b, Some c, Some d] \<Rightarrow> Some (le32 a b c d)
      | _ \<Rightarrow> None)"

definition ip_text :: "u8 \<Rightarrow> u8 \<Rightarrow> u8 \<Rightarrow> u8 \<Rightarrow> u8 list" where
  "ip_text a b c d = dec (unat a) @ [DOT] @ dec (unat b) @ [DOT] @ dec (unat c) @ [DOT] @ dec (unat d)"

lemma split_dots_not_empty: "split_dots s \<noteq> []"
  by (induction s) (auto split: list.splits)

lemma split_dots_no_dot: "DOT \<notin> set f \<Longrightarrow> split_dots f = [f]"
  by (induction f) auto

lemma split_dots_append: "DOT \<notin> set f \<Longrightarrow> split_dots (f @ [DOT] @ s) = f # split_dots s"
  by (induction f) auto

lemma DOT_not_in_dec: "DOT \<notin> set (dec n)"
  using dec_digits [of n] by (auto simp: IS_DIGIT_def)

lemma octet_dec: "octet (dec (unat a)) = Some a"
proof -
  have a: "unat a < 256" using unat_bound [of a] by simp
  have "length (dec (unat a)) \<le> 3" by (rule length_dec) (use a in simp_all)
  moreover have "1 < length (dec (unat a)) \<longrightarrow> hd (dec (unat a)) \<noteq> 0x30"
    using dec_hd [of "unat a"] length_dec_1 [of "unat a"] by (cases "unat a < 10") auto
  ultimately show ?thesis using dec_digits a by (simp add: octet_def)
qed

text \<open>Printing and parsing an address.\<close>

lemma inet_pton_ip_text [simp]: "inet_pton (ip_text a b c d) = Some (le32 a b c d)"
  by (simp only: inet_pton_def ip_text_def split_dots_append [OF DOT_not_in_dec] split_dots_no_dot [OF DOT_not_in_dec]
    list.map octet_dec list.case option.case)

lemma ip_text_chars: "\<forall>x \<in> set (ip_text a b c d). IS_DIGIT x \<or> x = DOT"
  using dec_digits by (auto simp: ip_text_def)

subsection \<open>The values that the loaders put into the tables\<close>

text \<open>The value of entry \<open>i\<close>: \<open>sprintf (v.msg, "hello %d\n", i)\<close> in a zeroed value.\<close>

definition hello :: "nat \<Rightarrow> u8 list" where
  "hello i = str ''hello '' @ dec i @ [LF]"

definition value_text :: "nat \<Rightarrow> bytes" where
  "value_text i = (\<lambda>j. if j < length (hello i) then hello i ! j else 0)"

end
