(* ===== verification/Batch_Tests.thy ===== *)
theory Batch_Tests
  imports Kv_Batch Fixed_Point
begin

text \<open>
  The test programs for batches of packets: \<open>echo.bpf.c\<close>, \<open>random.bpf.c\<close> and \<open>simple.bpf.c\<close> of
  \<open>scripts/test_batch_xdp\<close> and \<open>motivation/batch_api/ubench/drop/xdp.bpf.c\<close>. The kernel hands over
  a batch or \<open>NULL\<close>; the number of loop turns is at most \<open>XDP_MAX_BATCH_SIZE\<close>, a constant of the patched
  kernel and an argument here. The files have their own copies of the checksum functions, the same as
  those of the theory \<open>Packet\<close>. What is printed is not modelled.
\<close>

datatype test_verdict = TEST_PASSES | TEST_FAILED

subsection \<open>Echo\<close>

text \<open>The offset of the UDP header when the packet matches; the other pointers are constants.\<close>

definition match_headers :: "packet \<Rightarrow> nat option" where
  "match_headers p =
     (if length p < ETH_HLEN then None
      else if ld16 p 12 \<noteq> htons ETH_P_IP then None
      else
        let ip = ETH_HLEN in
        if length p < ip + IP_HLEN then None
        else if p ! (ip + 9) \<noteq> IPPROTO_UDP then None
        else
          let size = unat (p ! ip AND 0xf) * 4; udp = ETH_HLEN + size in
          if length p < udp + UDP_HLEN then None
          else if ld16 p (udp + 2) \<noteq> htons SERVER_PORT then None
          else Some udp)"

definition echo_swap_address :: "packet \<Rightarrow> nat \<Rightarrow> nat \<Rightarrow> nat \<Rightarrow> packet" where
  "echo_swap_address p eth ip udp =
     (let tmp32 = ld32 p (eth + 6);
          tmp16 = ld16 p (eth + 6 + 4);
          p = st32 p (eth + 6) (ld32 p eth);
          p = st16 p (eth + 6 + 4) (ld16 p eth);
          p = st32 p eth tmp32;
          p = st16 p (eth + 4) tmp16;
          p = swap32 p (ip + 12) (ip + 16);
          p = swap16 p udp (udp + 2);
          p = st16 p (udp + 6) 0;
          p = st16 p (ip + 10) 0;
          tmp64 = ipv4_csum_inline p ip 0
      in st16 p (ip + 10) (htons (ucast tmp64)))"

text \<open>The reply: \<open>"hello from the other siiiide\n\0"\<close>, of which 30 bytes are copied.\<close>

definition echo_payload :: "u8 list" where
  "echo_payload = map of_char ''hello from the other siiiide'' @ [0x0a, 0]"

text \<open>One turn of the loop: the action and the packet.\<close>

definition echo_packet :: "(int \<Rightarrow> packet \<Rightarrow> int \<times> packet) \<Rightarrow> packet \<Rightarrow> xdp_action \<times> packet" where
  "echo_packet adj p =
     (case match_headers p of
        None \<Rightarrow> (XDP_PASS, p)
      | Some _ \<Rightarrow>
          let ip_hdr_sz = unat (p ! ETH_HLEN AND 0xf) * 4;
              header_size = ETH_HLEN + ip_hdr_sz + UDP_HLEN;
              target_size = header_size + 30;
              (ret, p) = adj (int target_size - int (length p)) p
          in if ret \<noteq> 0 then (XDP_ABORTED, p)
             else
               let eth = 0; ip = eth + ETH_HLEN; udp = ip + ip_hdr_sz; payload = udp + UDP_HLEN in
               if length p < payload + 30 then (XDP_ABORTED, p)
               else
                 let p = take payload p @ echo_payload @ drop (payload + 30) p in
                 if length p < ip + IP_HLEN then (XDP_ABORTED, p)
                 else
                   let p = st16 p (ip + 2) (htons (of_nat (target_size - ETH_HLEN)));
                       p = st16 p (udp + 4) (htons (of_nat (target_size - ETH_HLEN - ip_hdr_sz)))
                   in (XDP_TX, echo_swap_address p eth ip udp))"

fun echo_loop ::
  "(int \<Rightarrow> packet \<Rightarrow> int \<times> packet) \<Rightarrow> nat \<Rightarrow> nat \<Rightarrow> xdp_batch_md \<Rightarrow> u32 \<Rightarrow> xdp_batch_md \<times> u32" where
  "echo_loop adj 0 i b tx_cntr = (b, tx_cntr)"
| "echo_loop adj (Suc n) i b tx_cntr =
     (if length (buffs b) \<le> i then (b, tx_cntr)
      else
        let (a, p) = echo_packet adj (buffs b ! i)
        in echo_loop adj n (i + 1) (set_action i a (set_packet i p b))
             (if a = XDP_TX then tx_cntr + 1 else tx_cntr))"

definition bbb_echo ::
  "(int \<Rightarrow> packet \<Rightarrow> int \<times> packet) \<Rightarrow> nat \<Rightarrow> u64 \<Rightarrow> xdp_batch_md option \<Rightarrow> tput
     \<Rightarrow> test_verdict option \<times> xdp_batch_md option \<times> u64 option \<times> tput" where
  "bbb_echo adj XDP_MAX_BATCH_SIZE ts batch c =
     (case batch of
        None \<Rightarrow> (Some TEST_FAILED, None, None, c)
      | Some b \<Rightarrow>
          if length (buffs b) = 0 then (Some TEST_FAILED, Some b, None, c)
          else
            let (b, tx_cntr) = echo_loop adj XDP_MAX_BATCH_SIZE 0 b 0;
                (out, c) = report_tput_batch ts tx_cntr c
            in (None, Some b, out, c))"

subsection \<open>Random actions\<close>

definition random_swap_address :: "packet \<Rightarrow> nat \<Rightarrow> nat \<Rightarrow> nat \<Rightarrow> packet" where
  "random_swap_address p eth ip udp =
     (let tmp32 = ld32 p (eth + 6);
          tmp16 = ld16 p (eth + 6 + 4);
          p = st32 p (eth + 6) (ld32 p eth);
          p = st16 p (eth + 6 + 4) (ld16 p eth);
          p = st32 p eth tmp32;
          p = st16 p (eth + 4) tmp16;
          p = swap32 p (ip + 12) (ip + 16)
      in swap16 p udp (udp + 2))"

text \<open>The switch on \<open>__rand() % 3\<close>; \<open>None\<close> leaves the action of the entry as it is.\<close>

definition random_switch :: "nat \<Rightarrow> packet \<Rightarrow> nat \<Rightarrow> xdp_action option \<times> packet" where
  "random_switch action p udp =
     (if action = 1 then (Some XDP_PASS, p)
      else if action = 2 then (Some XDP_TX, random_swap_address p 0 ETH_HLEN udp)
      else if action = 3 then (Some XDP_DROP, p)
      else (None, p))"

fun random_loop :: "nat \<Rightarrow> nat \<Rightarrow> u32 \<Rightarrow> xdp_batch_md \<Rightarrow> u32 \<Rightarrow> u32 \<times> xdp_batch_md \<times> u32" where
  "random_loop 0 i seed b pkt_cntr = (seed, b, pkt_cntr)"
| "random_loop (Suc n) i seed b pkt_cntr =
     (if length (buffs b) \<le> i then (seed, b, pkt_cntr)
      else
        let p = buffs b ! i in
        case match_headers p of
          None \<Rightarrow> random_loop n (i + 1) seed (set_action i XDP_PASS b) pkt_cntr
        | Some udp \<Rightarrow>
            let (r, seed) = rand_step seed;
                (a, p) = random_switch (unat (r mod 3)) p udp;
                b = set_packet i p b;
                b = (case a of None \<Rightarrow> b | Some a \<Rightarrow> set_action i a b)
            in random_loop n (i + 1) seed b (pkt_cntr + 1))"

definition bbb_random ::
  "nat \<Rightarrow> u64 \<Rightarrow> xdp_batch_md option \<Rightarrow> u32 \<Rightarrow> tput
     \<Rightarrow> test_verdict option \<times> xdp_batch_md option \<times> u32 \<times> u64 option \<times> tput" where
  "bbb_random XDP_MAX_BATCH_SIZE ts batch seed c =
     (case batch of
        None \<Rightarrow> (Some TEST_FAILED, None, seed, None, c)
      | Some b \<Rightarrow>
          if length (buffs b) = 0 then (Some TEST_FAILED, Some b, seed, None, c)
          else
            let (seed, b, pkt_cntr) = random_loop XDP_MAX_BATCH_SIZE 0 seed b 0;
                (out, c) = report_tput_batch ts pkt_cntr c
            in (None, Some b, seed, out, c))"

subsection \<open>Dropping\<close>

fun simple_loop :: "nat \<Rightarrow> nat \<Rightarrow> xdp_batch_md \<Rightarrow> test_verdict \<times> xdp_batch_md" where
  "simple_loop 0 k b = (TEST_PASSES, b)"
| "simple_loop (Suc n) k b =
     (if length (buffs b) \<le> k then (TEST_PASSES, b)
      else if length (buffs b ! k) < ETH_HLEN then (TEST_FAILED, b)
      else simple_loop n (k + 1) (set_action k XDP_DROP b))"

definition bbb_simple :: "nat \<Rightarrow> xdp_batch_md option \<Rightarrow> test_verdict \<times> xdp_batch_md option" where
  "bbb_simple XDP_MAX_BATCH_SIZE batch =
     (case batch of
        None \<Rightarrow> (TEST_FAILED, None)
      | Some b \<Rightarrow>
          if length (buffs b) = 0 then (TEST_FAILED, Some b)
          else if length (buffs b ! 0) < ETH_HLEN then (TEST_FAILED, Some b)
          else
            let b = set_action 0 XDP_DROP b; (v, b) = simple_loop XDP_MAX_BATCH_SIZE 0 b
            in (v, Some b))"

text \<open>\<open>present k\<close>: the driver has filled in the data pointer of entry \<open>k\<close>.\<close>

fun drop_loop :: "(nat \<Rightarrow> bool) \<Rightarrow> nat \<Rightarrow> nat \<Rightarrow> xdp_batch_md \<Rightarrow> xdp_batch_md" where
  "drop_loop present 0 k b = b"
| "drop_loop present (Suc n) k b =
     (if length (buffs b) \<le> k then b
      else if \<not> present k then drop_loop present n (k + 1) b
      else if length (buffs b ! k) < ETH_HLEN then drop_loop present n (k + 1) b
      else drop_loop present n (k + 1) (set_action k XDP_DROP b))"

definition bbb_xdp_prog :: "(nat \<Rightarrow> bool) \<Rightarrow> nat \<Rightarrow> xdp_batch_md option \<Rightarrow> int \<times> xdp_batch_md option" where
  "bbb_xdp_prog present XDP_MAX_BATCH_SIZE batch =
     (case batch of
        None \<Rightarrow> (-1, None)
      | Some b \<Rightarrow> (0, Some (drop_loop present XDP_MAX_BATCH_SIZE 0 b)))"

subsection \<open>What echo sends\<close>

lemma length_echo_payload: "length echo_payload = 30"
  by (simp add: echo_payload_def)

lemma echo_swap_address_eq:
  "echo_swap_address p 0 14 ud = update_csum (swap_address p \<lparr>u_eth = 0, u_ip = 14, u_udp = ud\<rparr>) \<lparr>u_eth = 0, u_ip = 14, u_udp = ud\<rparr>"
  by (simp add: echo_swap_address_def swap_address_def update_csum_def Let_def)

text \<open>A match without IP options is what the other programs call relevant.\<close>

lemma match_headers_relevant:
  assumes "p ! 14 AND 0xf = 5"
  shows "match_headers p = (if is_relevant SERVER_PORT p then Some 34 else None)"
  using assms by (auto simp: match_headers_def is_relevant_def hlen_defs Let_def)

lemma echo_as_update:
  assumes "match_headers p = Some ud" and "p ! 14 AND 0xf = 5"
  shows "case update_udp_pkt_with_payload adj p \<lparr>u_eth = 0, u_ip = 14, u_udp = 34\<rparr> echo_payload of (r, q, _) \<Rightarrow>
    echo_packet adj p = (if r = 0 then XDP_TX else XDP_ABORTED, q)"
proof -
  obtain r q where a: "adj (int 72 - int (length p)) p = (r, q)" by fastforce
  have "unat (p ! 14 AND 0xf) = 5" using assms(2) by simp
  with a assms(1) show ?thesis
    by (simp add: echo_packet_def update_udp_pkt_with_payload_def hlen_defs Let_def length_echo_payload
      echo_swap_address_eq)
qed

text \<open>
  What one packet of an echo batch without IP options gets: a packet for another port passes unchanged;
  for a request, either the kernel refuses the resize and the packet is aborted, or it is sent with the
  greeting as its payload, fitting lengths, exchanged addresses and ports and a header checksum that verifies.
\<close>

definition echo_answer :: "(int \<Rightarrow> packet \<Rightarrow> int \<times> packet) \<Rightarrow> packet \<Rightarrow> xdp_action \<Rightarrow> packet \<Rightarrow> bool" where
  "echo_answer adj p a q \<longleftrightarrow>
    (if \<not> is_relevant SERVER_PORT p then a = XDP_PASS \<and> q = p
     else if fst (adj (72 - int (length p)) p) \<noteq> 0 then a = XDP_ABORTED
     else a = XDP_TX \<and> length q = 72 \<and> drop 42 q = echo_payload
       \<and> ld32 q 26 = ld32 p 30 \<and> ld32 q 30 = ld32 p 26 \<and> ld16 q 34 = ld16 p 36 \<and> ld16 q 36 = ld16 p 34
       \<and> unat (ntohs (ld16 q 16)) = 58 \<and> unat (ntohs (ld16 q 38)) = 38 \<and> ipv4_csum_inline q 14 0 = 0)"

lemma echo_packet_answer:
  assumes tail: "tail_contract adj" and ihl: "p ! 14 AND 0xf = 5"
  shows "echo_answer adj p (fst (echo_packet adj p)) (snd (echo_packet adj p))"
proof (cases "is_relevant SERVER_PORT p")
  case False
  then show ?thesis using match_headers_relevant [OF ihl] by (simp add: echo_packet_def echo_answer_def)
next
  case True
  then have m: "match_headers p = Some 34" using match_headers_relevant [OF ihl] by simp
  have len: "42 \<le> length p" using True by (auto simp: is_relevant_def hlen_defs Let_def split: if_splits)
  from echo_as_update [OF m ihl, of adj] update_udp_payload [OF tail refl ihl len, of echo_payload] True
  show ?thesis by (auto simp: length_echo_payload echo_answer_def split: prod.splits if_splits)
qed

lemma echo_loop_spec:
  assumes "length (actions b) = length (buffs b)" and "length (buffs b) \<le> i + n"
  shows "echo_loop adj n i b cnt =
    (handled (echo_packet adj) i b, cnt + of_nat (sent (echo_packet adj) (drop i (buffs b))))"
  using assms
proof (induction n arbitrary: i b cnt)
  case 0
  then show ?case by (simp add: handled_end sent_def)
next
  case (Suc n)
  show ?case
  proof (cases "length (buffs b) \<le> i")
    case True
    with Suc.prems show ?thesis by (simp add: handled_end sent_def)
  next
    case False
    obtain a q where aq: "echo_packet adj (buffs b ! i) = (a, q)" by fastforce
    have i: "i < length (buffs b)" using False by simp
    note step = handled_step [where f = "echo_packet adj", OF Suc.prems(1) i aq]
    show ?thesis
      using Suc.IH [of "set_action i a (set_packet i q b)" "i + 1"] Suc.prems False aq step
      by (simp add: add.assoc)
  qed
qed


text \<open>Every packet of a batch is answered for itself, and the sent ones are counted.\<close>

theorem echo_batch:
  assumes "tail_contract adj" and "length (actions b) = length (buffs b)"
    and "buffs b \<noteq> []" "length (buffs b) \<le> N" and "\<forall>p \<in> set (buffs b). p ! 14 AND 0xf = 5"
  shows "\<exists>b' out c'. bbb_echo adj N ts (Some b) c = (None, Some b', out, c')
    \<and> length (buffs b') = length (buffs b) \<and> length (actions b') = length (buffs b)
    \<and> (\<forall>k < length (buffs b). echo_answer adj (buffs b ! k) (actions b' ! k) (buffs b' ! k))
    \<and> (out, c') = report_tput_batch ts (of_nat (length (filter (\<lambda>a. a = XDP_TX) (actions b')))) c"
proof -
  let ?f = "echo_packet adj"
  have l: "echo_loop adj N 0 b 0 = (handled ?f 0 b, of_nat (sent ?f (buffs b)))"
    using echo_loop_spec [of b 0 N adj 0] assms(2,4) by simp
  have h: "buffs (handled ?f 0 b) = map (snd \<circ> ?f) (buffs b)" "actions (handled ?f 0 b) = map (fst \<circ> ?f) (buffs b)"
    by (simp_all add: handled_def)
  have "length (filter (\<lambda>a. a = XDP_TX) (map (fst \<circ> ?f) ps)) = sent ?f ps" for ps
    by (simp add: sent_def filter_map comp_def)
  moreover have "echo_answer adj (buffs b ! k) (fst (?f (buffs b ! k))) (snd (?f (buffs b ! k)))"
    if "k < length (buffs b)" for k
    by (rule echo_packet_answer [OF assms(1)]) (use assms(5) that in simp)
  moreover obtain out c' where "report_tput_batch ts (of_nat (sent ?f (buffs b))) c = (out, c')" by fastforce
  ultimately show ?thesis
    using assms(3) by (simp add: bbb_echo_def l h)
qed

definition echo_request :: packet where
  "echo_request = udp_ex[36 := 0x1f, 37 := 0x90]"

lemma echo_batch_witness:
  "\<exists>b' out c'. bbb_echo cut_or_pad 8 5 (Some \<lparr>buffs = [echo_request], actions = [XDP_ABORTED]\<rparr>)
      \<lparr>counter = 0, last_report = 0\<rparr> = (None, Some b', out, c') \<and> length (buffs b') = 1 \<and>
    echo_answer cut_or_pad echo_request (actions b' ! 0) (buffs b' ! 0)"
proof -
  let ?b = "\<lparr>buffs = [echo_request], actions = [XDP_ABORTED]\<rparr>"
  from echo_batch [OF cut_or_pad_contract, of ?b 8 5 "\<lparr>counter = 0, last_report = 0\<rparr>"] show ?thesis
    by (auto simp: echo_request_def udp_ex_def)
qed

subsection \<open>What random does\<close>

lemma random_swap_address_eq:
  "random_swap_address p 0 14 ud = swap16 (swap32 (swapped_mac p) 26 30) ud (ud + 2)"
  by (simp add: random_swap_address_def swapped_mac_def Let_def)

lemma swap_keeps_checksum:
  assumes "34 \<le> ud" and "ud + 4 \<le> length p" and "42 \<le> length p"
  shows "ipv4_csum_inline (random_swap_address p 0 14 ud) 14 0 = ipv4_csum_inline p 14 0"
proof -
  let ?q = "random_swap_address p 0 14 ud"
  let ?g = "\<lambda>k :: nat. if 26 \<le> k \<and> k < 30 then k + 4 else if 30 \<le> k \<and> k < 34 then k - 4 else k"
  let ?h = "\<lambda>i :: nat. if i = 6 \<or> i = 7 then i + 2 else if i = 8 \<or> i = 9 then i - 2 else i"
  have byte: "?q ! k = p ! ?g k" if "12 \<le> k" "k < 34" for k
    using that assms by (auto simp: random_swap_address_eq nth_swap16 nth_swap32 nth_swapped_mac)
  have word: "hword ?q 14 i = hword p 14 (?h i)" if i: "i < 10" for i
  proof -
    consider "i < 6" | "i = 6" | "i = 7" | "i = 8" | "i = 9" using i by linarith
    then show ?thesis
      by cases (simp_all add: hword_def ld16_def byte)
  qed
  have "(\<Sum>i < 10. hword ?q 14 i) = (\<Sum>i < 10. hword p 14 (?h i))"
    using word by (intro sum.cong) auto
  also have "\<dots> = (\<Sum>i < 10. hword p 14 i)"
    by (simp add: numeral_eq_Suc lessThan_Suc)
  finally have "unat (ipv4_sum ?q 14 0) = unat (ipv4_sum p 14 0)" by (simp add: unat_ipv4_sum)
  then have "ipv4_sum ?q 14 0 = ipv4_sum p 14 0" by (rule unat_eqI)
  then show ?thesis by (simp add: ipv4_csum_inline_def)
qed


text \<open>What one entry of a batch goes through, from its packet and action to the new ones.\<close>

definition random_entry :: "packet \<Rightarrow> xdp_action \<Rightarrow> packet \<Rightarrow> xdp_action \<Rightarrow> bool" where
  "random_entry p a q a' \<longleftrightarrow>
     (case match_headers p of
        None \<Rightarrow> q = p \<and> a' = XDP_PASS
      | Some ud \<Rightarrow> q = p \<and> (a' = a \<or> a' = XDP_PASS) \<or> q = random_swap_address p 0 14 ud \<and> a' = XDP_TX)"

lemma random_loop_spec:
  assumes "length (actions b) = length (buffs b)" and "length (buffs b) \<le> i + n"
  shows "\<exists>seed' b' cnt'. random_loop n i seed b cnt = (seed', b', cnt')
    \<and> length (buffs b') = length (buffs b) \<and> length (actions b') = length (buffs b)
    \<and> (\<forall>k < length (buffs b). if k < i then buffs b' ! k = buffs b ! k \<and> actions b' ! k = actions b ! k
         else random_entry (buffs b ! k) (actions b ! k) (buffs b' ! k) (actions b' ! k))"
  using assms
proof (induction n arbitrary: i b seed cnt)
  case (Suc n)
  show ?case
  proof (cases "length (buffs b) \<le> i")
    case True
    with Suc.prems show ?thesis by simp
  next
    case False
    have step: ?thesis
      if run: "random_loop (Suc n) i seed b cnt = random_loop n (i + 1) seed1 b1 cnt1"
        and b1: "buffs b1 = (buffs b)[i := q]" "actions b1 = (actions b)[i := a]"
        and e: "random_entry (buffs b ! i) (actions b ! i) q a" for seed1 b1 cnt1 q a
    proof -
      from Suc.IH [of b1 "i + 1" seed1 cnt1] Suc.prems b1 obtain seed' b' cnt' where
        r: "random_loop n (i + 1) seed1 b1 cnt1 = (seed', b', cnt')"
        "length (buffs b') = length (buffs b)" "length (actions b') = length (buffs b)"
        and each: "\<forall>k < length (buffs b). if k < i + 1 then buffs b' ! k = buffs b1 ! k \<and> actions b' ! k = actions b1 ! k
           else random_entry (buffs b1 ! k) (actions b1 ! k) (buffs b' ! k) (actions b' ! k)" by auto
      have "if k < i then buffs b' ! k = buffs b ! k \<and> actions b' ! k = actions b ! k
         else random_entry (buffs b ! k) (actions b ! k) (buffs b' ! k) (actions b' ! k)"
        if "k < length (buffs b)" for k
        using each [rule_format, OF that] that e Suc.prems(1) by (cases "k = i") (auto simp: b1)
      with r run show ?thesis by auto
    qed
    show ?thesis
    proof (cases "match_headers (buffs b ! i)")
      case None
      show ?thesis
        by (rule step [of seed "set_action i XDP_PASS b" cnt "buffs b ! i" XDP_PASS])
           (use None False in \<open>simp_all add: random_entry_def set_action_def\<close>)
    next
      case (Some ud)
      define r where "r = unat (fst (rand_step seed) mod 3)"
      have r3: "r < 3" unfolding r_def by (simp add: unat_mod)
      let ?s = "random_switch r (buffs b ! i) ud"
      let ?a = "case fst ?s of None \<Rightarrow> actions b ! i | Some a \<Rightarrow> a"
      show ?thesis
      proof (rule step [of "snd (rand_step seed)" "let b = set_packet i (snd ?s) b in
            (case fst ?s of None \<Rightarrow> b | Some a \<Rightarrow> set_action i a b)" "cnt + 1" "snd ?s" ?a])
        show "random_loop (Suc n) i seed b cnt = random_loop n (i + 1) (snd (rand_step seed))
          (let b = set_packet i (snd ?s) b in (case fst ?s of None \<Rightarrow> b | Some a \<Rightarrow> set_action i a b)) (cnt + 1)"
          using False Some by (simp add: r_def Let_def case_prod_beta)
        show "random_entry (buffs b ! i) (actions b ! i) (snd ?s) ?a"
          using Some r3 by (auto simp: random_entry_def random_switch_def hlen_defs)
      qed (auto simp: set_packet_def set_action_def Let_def split: option.splits)
    qed
  qed
qed simp

text \<open>
  No packet of a batch is dropped that was not marked so before, as the random number modulo three is
  never three; a request may keep the action the kernel handed over. A packet that is sent back
  keeps a valid header checksum, as the exchange of addresses does not change it.
\<close>

theorem random_batch:
  assumes "length (actions b) = length (buffs b)" and "buffs b \<noteq> []" "length (buffs b) \<le> N"
  shows "\<exists>b' seed' out c'. bbb_random N ts (Some b) seed c = (None, Some b', seed', out, c')
    \<and> (\<forall>k < length (buffs b). (actions b' ! k = XDP_DROP \<longrightarrow> actions b ! k = XDP_DROP)
      \<and> (buffs b ! k ! 14 AND 0xf = 5
           \<longrightarrow> ipv4_csum_inline (buffs b' ! k) 14 0 = ipv4_csum_inline (buffs b ! k) 14 0))"
proof -
  obtain seed' b' cnt' where l: "random_loop N 0 seed b 0 = (seed', b', cnt')"
    and e: "\<forall>k < length (buffs b). random_entry (buffs b ! k) (actions b ! k) (buffs b' ! k) (actions b' ! k)"
    using random_loop_spec [of b 0 N seed 0] assms(1,3) by auto
  obtain out c' where rep: "report_tput_batch ts cnt' c = (out, c')" by fastforce
  have "(actions b' ! k = XDP_DROP \<longrightarrow> actions b ! k = XDP_DROP)
      \<and> (buffs b ! k ! 14 AND 0xf = 5
           \<longrightarrow> ipv4_csum_inline (buffs b' ! k) 14 0 = ipv4_csum_inline (buffs b ! k) 14 0)"
    if "k < length (buffs b)" for k
  proof (intro conjI impI)
    note ek = e [rule_format, OF that]
    show "actions b' ! k = XDP_DROP \<Longrightarrow> actions b ! k = XDP_DROP"
      using ek by (auto simp: random_entry_def split: option.splits)
    assume ihl: "buffs b ! k ! 14 AND 0xf = 5"
    show "ipv4_csum_inline (buffs b' ! k) 14 0 = ipv4_csum_inline (buffs b ! k) 14 0"
    proof (cases "is_relevant SERVER_PORT (buffs b ! k)")
      case False
      with ek show ?thesis by (simp add: random_entry_def match_headers_relevant [OF ihl])
    next
      case True
      then have "42 \<le> length (buffs b ! k)" by (auto simp: is_relevant_def hlen_defs Let_def split: if_splits)
      then have "ipv4_csum_inline (random_swap_address (buffs b ! k) 0 14 34) 14 0 = ipv4_csum_inline (buffs b ! k) 14 0"
        by (intro swap_keeps_checksum) simp_all
      with ek True show ?thesis by (auto simp: random_entry_def match_headers_relevant [OF ihl])
    qed
  qed
  then show ?thesis using assms(2) l rep by (simp add: bbb_random_def)
qed

lemma random_batch_witness:
  "\<exists>b' seed' out c'. bbb_random 8 5 (Some \<lparr>buffs = [echo_request], actions = [XDP_ABORTED]\<rparr>) 1
      \<lparr>counter = 0, last_report = 0\<rparr> = (None, Some b', seed', out, c')
    \<and> actions b' ! 0 \<noteq> XDP_DROP"
  using random_batch [of "\<lparr>buffs = [echo_request], actions = [XDP_ABORTED]\<rparr>" 8 5 1 "\<lparr>counter = 0, last_report = 0\<rparr>"]
  by auto

subsection \<open>What simple and drop do\<close>

lemma simple_loop_spec:
  assumes "length (actions b) = length (buffs b)" and "length (buffs b) \<le> k + n"
    and "simple_loop n k b = (v, b')"
  shows "buffs b' = buffs b \<and> length (actions b') = length (buffs b)
    \<and> (v = TEST_PASSES \<longleftrightarrow> (\<forall>j < length (buffs b). k \<le> j \<longrightarrow> ETH_HLEN \<le> length (buffs b ! j)))
    \<and> (\<forall>j < length (buffs b). actions b' ! j =
         (if k \<le> j \<and> (\<forall>i \<le> j. k \<le> i \<longrightarrow> ETH_HLEN \<le> length (buffs b ! i)) then XDP_DROP else actions b ! j))"
  using assms
proof (induction n arbitrary: k b)
  case (Suc n)
  consider "length (buffs b) \<le> k" | "k < length (buffs b)" "length (buffs b ! k) < ETH_HLEN"
    | "k < length (buffs b)" "ETH_HLEN \<le> length (buffs b ! k)" by linarith
  then show ?case
  proof cases
    case 2
    with Suc.prems show ?thesis by (auto simp: not_le)
  next
    case 3
    let ?b = "set_action k XDP_DROP b"
    have split: "(\<forall>i. k \<le> i \<longrightarrow> P i) \<longleftrightarrow> P k \<and> (\<forall>i. Suc k \<le> i \<longrightarrow> P i)" for P :: "nat \<Rightarrow> bool"
      by (metis Suc_le_eq le_eq_less_or_eq)
    have run: "simple_loop n (k + 1) ?b = (v, b')" using Suc.prems(3) 3 by simp
    have "length (actions ?b) = length (buffs ?b)" "length (buffs ?b) \<le> k + 1 + n"
      using Suc.prems by simp_all
    from Suc.IH [OF this run] have ih: "buffs b' = buffs b" "length (actions b') = length (buffs b)"
      "v = TEST_PASSES \<longleftrightarrow> (\<forall>j < length (buffs b). k + 1 \<le> j \<longrightarrow> ETH_HLEN \<le> length (buffs b ! j))"
      and act: "\<forall>j < length (buffs b). actions b' ! j =
         (if k + 1 \<le> j \<and> (\<forall>i \<le> j. k + 1 \<le> i \<longrightarrow> ETH_HLEN \<le> length (buffs b ! i)) then XDP_DROP
          else actions ?b ! j)" by auto
    have "v = TEST_PASSES \<longleftrightarrow> (\<forall>j < length (buffs b). k \<le> j \<longrightarrow> ETH_HLEN \<le> length (buffs b ! j))"
      unfolding ih(3) using 3 by (metis Suc_eq_plus1 Suc_le_eq le_eq_less_or_eq)
    moreover have "actions b' ! j =
         (if k \<le> j \<and> (\<forall>i \<le> j. k \<le> i \<longrightarrow> ETH_HLEN \<le> length (buffs b ! i)) then XDP_DROP else actions b ! j)"
      if "j < length (buffs b)" for j
    proof (cases "j = k")
      case True
      then show ?thesis using act that 3 Suc.prems(1) by (auto simp: set_action_def)
    next
      case False
      have "(\<forall>i \<le> j. k \<le> i \<longrightarrow> ETH_HLEN \<le> length (buffs b ! i)) \<longleftrightarrow>
          (\<forall>i \<le> j. k + 1 \<le> i \<longrightarrow> ETH_HLEN \<le> length (buffs b ! i))"
        using 3(2) by (metis Suc_eq_plus1 Suc_le_eq le_eq_less_or_eq)
      then show ?thesis using act that False by (auto simp: set_action_def)
    qed
    ultimately show ?thesis using ih by blast
  qed (use Suc.prems in auto)
qed auto

lemma simple_batch:
  assumes "length (actions b) = length (buffs b)" "buffs b \<noteq> []" and "length (buffs b) \<le> N"
    and "bbb_simple N (Some b) = (v, Some b')"
  shows "v = TEST_PASSES \<longleftrightarrow> (\<forall>p \<in> set (buffs b). ETH_HLEN \<le> length p)"
    and "v = TEST_PASSES \<Longrightarrow> set (actions b') = {XDP_DROP}"
proof -
  let ?b = "set_action 0 XDP_DROP b"
  have z: "0 < length (buffs b)" using assms(2) by simp
  show "v = TEST_PASSES \<longleftrightarrow> (\<forall>p \<in> set (buffs b). ETH_HLEN \<le> length p)"
  proof (cases "length (buffs b ! 0) < ETH_HLEN")
    case True
    with assms z show ?thesis by (auto simp: bbb_simple_def not_le intro!: bexI [of _ "buffs b ! 0"])
  next
    case False
    with assms have run: "simple_loop N 0 ?b = (v, b')" by (auto simp: bbb_simple_def split: prod.splits)
    from simple_loop_spec [OF _ _ run] assms show ?thesis by (simp add: all_set_conv_all_nth)
  qed
  assume pass: "v = TEST_PASSES"
  then have run: "simple_loop N 0 ?b = (v, b')"
    using assms(2,4) by (auto simp: bbb_simple_def split: prod.splits if_splits)
  from simple_loop_spec [OF _ _ run] assms pass have "length (actions b') = length (buffs b)"
    "\<forall>j < length (buffs b). actions b' ! j = XDP_DROP" by auto
  then show "set (actions b') = {XDP_DROP}" using z by (auto simp: in_set_conv_nth intro!: exI [of _ 0])
qed

end
