(* ===== verification/Http_Parser.thy ===== *)
theory Http_Parser
  imports Packet Text
begin

text \<open>
  The HTTP parser of \<open>motivation/bpf_test_run/include/bpf/http_parser.h\<close>: the request line, the URI
  and one header line, on a packet without copying. The parser writes offsets into a
  \<open>parsing_ctx\<close>. Local offsets start below 4096 and grow by a few hundred, so a natural number is
  what the code's 16-bit variable holds; the fields of the context are words. Every read is checked:
  a read past the end of the packet is the fault \<open>Out_of_bounds\<close>. The callers check \<open>pctx\<close> for
  NULL before they call, so the context is an argument.
\<close>

datatype return_code = OKAY | FAIL | INCOMPLETE | INVALID | UNSUPPORTED

datatype header_opt = OPT_NONE | OPT_HOST | OPT_CACHE_CTL | OPT_AUTHORIZATION | OPT_CONTENT_LENGHT

definition HTTP :: u8 where "HTTP = 100"

record parsing_ctx =
  head_off :: u16
  method_start_off :: u16
  method_end_off :: u16
  uri_start_off :: u16
  uri_end_off :: u16
  http_major_ver :: u8
  http_minor_ver :: u8
  host_start_off :: u16
  host_end_off :: u16
  path_start_off :: u16
  path_end_off :: u16
  has_schema :: bool
  all_header_parsed :: bool
  schema_type :: u8
  port :: u16

text \<open>The limits of the file.\<close>

definition MAX_URI_LEGNTH :: nat where "MAX_URI_LEGNTH = 255"
definition MAX_HOST_LEGNTH :: nat where "MAX_HOST_LEGNTH = 32"
definition MAX_METHOD_LENGTH :: nat where "MAX_METHOD_LENGTH = 8"
definition MAX_HEADER_NAME_LENGTH :: nat where "MAX_HEADER_NAME_LENGTH = 32"
definition MAX_HEADER_VALUE_LENGTH :: nat where "MAX_HEADER_VALUE_LENGTH = 128"
definition MAX_HEADER_OPT_LINES :: nat where "MAX_HEADER_OPT_LINES = 16"

lemmas http_limits =
  MAX_URI_LEGNTH_def MAX_HOST_LEGNTH_def MAX_METHOD_LENGTH_def MAX_HEADER_NAME_LENGTH_def
  MAX_HEADER_VALUE_LENGTH_def MAX_HEADER_OPT_LINES_def

definition masked :: "u16 \<Rightarrow> nat" where
  "masked off = unat (off AND 0x0fff)"

definition CHR_TO_INT :: "u8 \<Rightarrow> u8" where
  "CHR_TO_INT c = c - 0x30"

definition LOWER_CASE :: "u8 \<Rightarrow> u8" where
  "LOWER_CASE c = c OR 0x20"

definition IS_UPPER :: "u8 \<Rightarrow> bool" where
  "IS_UPPER c \<longleftrightarrow> 0x41 \<le> c \<and> c \<le> 0x5a"

subsection \<open>Reads and bounded scans\<close>

definition reads :: "packet \<Rightarrow> nat \<Rightarrow> nat \<Rightarrow> u8 list checked" where
  "reads p base n = (if base + n \<le> length p then Inr (take n (drop base p)) else Inl Out_of_bounds)"

text \<open>
  The loops of the file have one shape: at most \<open>n\<close> times, check that \<open>sz\<close> bytes are left
  (\<open>BOUND_CHECK_INV\<close>), look at \<open>base[i]\<close>, and either go on or leave with what the character
  means. A loop ends because the packet does, because its bound is reached, or at a position.
\<close>

datatype 'r scan_result = Past_end | Not_found | Hit nat 'r

fun scan :: "nat \<Rightarrow> (u8 \<Rightarrow> 'r option) \<Rightarrow> packet \<Rightarrow> nat \<Rightarrow> nat \<Rightarrow> nat \<Rightarrow> 'r scan_result checked" where
  "scan sz f p base 0 i = Inr Not_found"
| "scan sz f p base (Suc n) i =
     (if length p < base + i + sz then Inr Past_end
      else checked_bind (read_at p (base + i)) (\<lambda>c.
             case f c of Some r \<Rightarrow> Inr (Hit i r) | None \<Rightarrow> scan sz f p base n (i + 1)))"

subsection \<open>The request line\<close>

text \<open>What a character means to each loop; \<open>None\<close> goes on. A method starts at its first capital.\<close>

definition method_start_char :: "u8 \<Rightarrow> bool option" where
  "method_start_char c = (if c = LF \<or> c = CR then None else Some (IS_UPPER c))"

definition method_end_char :: "u8 \<Rightarrow> bool option" where
  "method_end_char c = (if IS_UPPER c then None else Some (c = SP))"

definition uri_end_char :: "u8 \<Rightarrow> unit option" where
  "uri_end_char c = (if c = SP then Some () else None)"

text \<open>The part of the function from the label \<open>http_version\<close> on.\<close>

definition http_version :: "packet \<Rightarrow> nat \<Rightarrow> parsing_ctx \<Rightarrow> (return_code \<times> parsing_ctx) checked" where
  "http_version p off c =
     (let off = off + 1; base = off in
      if length p < base + 2 then Inr (INVALID, c)
      else checked_bind (reads p base 2) (\<lambda>b.
        if b = [CR, LF] then
          let c = c\<lparr>http_major_ver := 0, http_minor_ver := 0, head_off := of_nat off\<rparr>
          in Inr (OKAY, c\<lparr>head_off := head_off c + 1\<rparr>)
        else if length p < base + 5 then Inr (INVALID, c)
        else checked_bind (reads p base 5) (\<lambda>b.
          if b \<noteq> str ''HTTP/'' then Inr (INVALID, c)
          else
            let off = off + 5; base = off in
            if length p < base + 5 then Inr (INVALID, c)
            else checked_bind (reads p base 5) (\<lambda>b.
              if b ! 1 \<noteq> DOT \<or> \<not> IS_DIGIT (b ! 0) \<or> \<not> IS_DIGIT (b ! 2) then Inr (INVALID, c)
              else
                let c = c\<lparr>http_major_ver := CHR_TO_INT (b ! 0), http_minor_ver := CHR_TO_INT (b ! 2)\<rparr> in
                if b ! 3 \<noteq> CR \<or> b ! 4 \<noteq> LF then Inr (INVALID, c)
                else
                  let off = (if b ! 3 = LF then off + 4 else off + 5);
                      c = c\<lparr>head_off := of_nat off\<rparr>
                  in Inr (if http_major_ver c \<noteq> 1 \<or> http_minor_ver c \<noteq> 1 then UNSUPPORTED else OKAY, c)))))"

definition request_uri :: "packet \<Rightarrow> nat \<Rightarrow> parsing_ctx \<Rightarrow> (return_code \<times> parsing_ctx) checked" where
  "request_uri p off c =
     (let off = off + 1; base = off in
      if length p < base + 1 then Inr (INVALID, c)
      else checked_bind (read_at p base) (\<lambda>b.
        if b = SP \<or> b = CR \<or> b = LF then Inr (INVALID, c)
        else
          let c = c\<lparr>uri_start_off := of_nat off\<rparr>; off = off + 1; base = off in
          checked_bind (scan 1 uri_end_char p base MAX_URI_LEGNTH 0) (\<lambda>r.
            case r of
              Hit i _ \<Rightarrow> let off = off + i in http_version p off (c\<lparr>uri_end_off := of_nat off\<rparr>)
            | _ \<Rightarrow> Inr (INVALID, c))))"

definition check_method_supported ::
  "packet \<Rightarrow> nat \<Rightarrow> parsing_ctx \<Rightarrow> (return_code \<times> parsing_ctx) checked" where
  "check_method_supported p off c =
     (if method_end_off c - method_start_off c \<noteq> 3 then Inr (UNSUPPORTED, c)
      else
        let base = masked (method_start_off c) in
        if length p < base + 3 then Inr (INVALID, c)
        else checked_bind (reads p base 3) (\<lambda>b.
          if b \<noteq> str ''GET'' then Inr (UNSUPPORTED, c) else request_uri p off c))"

definition read_method :: "packet \<Rightarrow> nat \<Rightarrow> parsing_ctx \<Rightarrow> (return_code \<times> parsing_ctx) checked" where
  "read_method p off c =
     (let off = off + 1; base = off in
      checked_bind (scan 1 method_end_char p base MAX_METHOD_LENGTH 0) (\<lambda>r.
        case r of
          Hit i True \<Rightarrow>
            let off = off + i in check_method_supported p off (c\<lparr>method_end_off := of_nat off\<rparr>)
        | _ \<Rightarrow> Inr (INVALID, c)))"

definition parse_http_request_line ::
  "packet \<Rightarrow> u16 \<Rightarrow> parsing_ctx \<Rightarrow> (return_code \<times> parsing_ctx) checked" where
  "parse_http_request_line p off c =
     (let off = masked off; base = off in
      if length p < base + 1 then Inr (INVALID, c)
      else checked_bind (scan 1 method_start_char p base 8 0) (\<lambda>r.
        case r of
          Hit i True \<Rightarrow> let off = off + i in read_method p off (c\<lparr>method_start_off := of_nat off\<rparr>)
        | _ \<Rightarrow> Inr (INVALID, c)))"

subsection \<open>The URI\<close>

datatype uri_state = Port | Path | Args | Done

definition host_char :: "u8 \<Rightarrow> uri_state option" where
  "host_char c =
     (if c = COLON then Some Port
      else if c = SLASH then Some Path
      else if c = QMARK then Some Args
      else if c = SP then Some Done
      else None)"

definition path_char :: "u8 \<Rightarrow> unit option" where
  "path_char c = (if c = SP \<or> c = QMARK \<or> c = HASH \<or> c = LF \<or> c = CR then Some () else None)"

definition uri_path :: "packet \<Rightarrow> nat \<Rightarrow> parsing_ctx \<Rightarrow> (return_code \<times> parsing_ctx) checked" where
  "uri_path p off c =
     (let off = off + 1; base = masked (of_nat off) in
      checked_bind (scan 1 path_char p base MAX_URI_LEGNTH 0) (\<lambda>r.
        case r of
          Hit i _ \<Rightarrow> Inr (OKAY, c\<lparr>path_end_off := of_nat (off + i)\<rparr>)
        | Past_end \<Rightarrow> Inr (INVALID, c)
        | Not_found \<Rightarrow> Inr (UNSUPPORTED, c)))"

text \<open>The loop over the digits of the port, which adds to the port that the context has.\<close>

fun uri_port ::
  "packet \<Rightarrow> nat \<Rightarrow> nat \<Rightarrow> nat \<Rightarrow> parsing_ctx \<Rightarrow> (return_code \<times> parsing_ctx) checked" where
  "uri_port p off 0 i c = Inr (INVALID, c)"
| "uri_port p off (Suc n) i c =
     (if length p < off + i + 1 then Inr (INVALID, c)
      else checked_bind (read_at p (off + i)) (\<lambda>b.
        if IS_DIGIT b then uri_port p off n (i + 1) (c\<lparr>port := port c * 10 + ucast (CHR_TO_INT b)\<rparr>)
        else if b = SLASH then uri_path p (off + i) (c\<lparr>path_start_off := of_nat (off + i)\<rparr>)
        else if b = QMARK \<or> b = SP then Inr (OKAY, c\<lparr>path_start_off := 0, path_end_off := 0\<rparr>)
        else Inr (INVALID, c)))"

definition uri_host :: "packet \<Rightarrow> nat \<Rightarrow> parsing_ctx \<Rightarrow> (return_code \<times> parsing_ctx) checked" where
  "uri_host p off c =
     (let off = off + 7; base = off; c = c\<lparr>host_start_off := of_nat off\<rparr> in
      checked_bind (scan 1 host_char p base MAX_HOST_LEGNTH 0) (\<lambda>r.
        case r of
          Past_end \<Rightarrow> Inr (INVALID, c)
        | Not_found \<Rightarrow> Inr (UNSUPPORTED, c)
        | Hit i s \<Rightarrow>
            let off = off + i; c = c\<lparr>host_end_off := of_nat off\<rparr> in
            (case s of
               Port \<Rightarrow> uri_port p (off + 1) 6 0 c
             | Path \<Rightarrow> uri_path p off (c\<lparr>path_start_off := of_nat off\<rparr>)
             | _ \<Rightarrow> Inr (OKAY, c\<lparr>path_start_off := 0, path_end_off := 0\<rparr>))))"

definition parse_http_uri :: "packet \<Rightarrow> parsing_ctx \<Rightarrow> (return_code \<times> parsing_ctx) checked" where
  "parse_http_uri p c =
     (let off = masked (uri_start_off c); base = off in
      if length p < base + 1 then Inr (INVALID, c)
      else checked_bind (read_at p base) (\<lambda>b.
        if b = SLASH then
          uri_path p off (c\<lparr>has_schema := False, host_start_off := 0, host_end_off := 0,
                            path_start_off := of_nat off\<rparr>)
        else if length p < base + 7 then Inr (INVALID, c)
        else
          let c = c\<lparr>has_schema := True\<rparr> in
          checked_bind (reads p base 7) (\<lambda>b.
            if map LOWER_CASE (take 4 b) \<noteq> str ''http'' \<or> drop 4 b \<noteq> str ''://'' then Inr (UNSUPPORTED, c)
            else uri_host p off (c\<lparr>schema_type := HTTP\<rparr>))))"

subsection \<open>A header line\<close>

definition name_char :: "u8 \<Rightarrow> bool option" where
  "name_char c = (if c = COLON then Some False else if c = SP then Some True else None)"

definition value_char :: "u8 \<Rightarrow> unit option" where
  "value_char c = (if c = LF then Some () else None)"

text \<open>
  From the character after the colon: the value and the update of the context.
\<close>

definition header_value ::
  "packet \<Rightarrow> nat \<Rightarrow> parsing_ctx \<Rightarrow> header_opt \<Rightarrow> (return_code \<times> parsing_ctx \<times> header_opt) checked" where
  "header_value p off c opt =
     (let off = off + 1; base = masked (of_nat off) in
      if length p < base + 2 then Inr (INVALID, c, opt)
      else checked_bind (reads p base 2) (\<lambda>b.
        if b ! 0 = SP \<and> b ! 1 = SP then Inr (INVALID, c, opt)
        else
          let (off, base) = (if b ! 0 = SP then (off + 1, base + 1) else (off, base));
              start = off
          in checked_bind (scan 1 value_char p base MAX_HEADER_VALUE_LENGTH 0) (\<lambda>r.
               case r of
                 Hit i _ \<Rightarrow>
                   let off = off + i; end' = off; off = off + 1;
                       c = (if opt = OPT_HOST
                            then c\<lparr>host_start_off := of_nat start, host_end_off := of_nat end'\<rparr> else c)
                   in Inr (OKAY, c\<lparr>head_off := of_nat off\<rparr>, opt)
               | _ \<Rightarrow> Inr (INVALID, c, opt))))"

text \<open>
  The option name: \<open>len\<close> characters from \<open>start\<close>, ended by a colon at \<open>off\<close>.
\<close>

definition header_name ::
  "packet \<Rightarrow> nat \<Rightarrow> nat \<Rightarrow> nat \<Rightarrow> parsing_ctx \<Rightarrow> header_opt \<Rightarrow> (return_code \<times> parsing_ctx \<times> header_opt) checked" where
  "header_name p start len off c opt =
     (let base = masked (of_nat start) in
      if len = 4 then
        if length p < base + 4 then Inr (INVALID, c, opt)
        else checked_bind (reads p base 4) (\<lambda>b.
          header_value p off c (if map LOWER_CASE b = str ''host'' then OPT_HOST else opt))
      else header_value p off c opt)"

definition parse_http_header_line ::
  "packet \<Rightarrow> parsing_ctx \<Rightarrow> header_opt \<Rightarrow> (return_code \<times> parsing_ctx \<times> header_opt) checked" where
  "parse_http_header_line p c opt =
     (let off = masked (head_off c); base = off in
      if length p < base + 2 then Inr (INVALID, c, opt)
      else checked_bind (reads p base 2) (\<lambda>b.
        if b ! 0 = LF then Inr (OKAY, c\<lparr>all_header_parsed := True, head_off := head_off c + 1\<rparr>, opt)
        else if b ! 0 = CR then
          if b ! 1 = LF then Inr (OKAY, c\<lparr>all_header_parsed := True, head_off := head_off c + 2\<rparr>, opt)
          else Inr (INVALID, c, opt)
        else
          let start = off in
          checked_bind (scan 2 name_char p base MAX_HEADER_NAME_LENGTH 0) (\<lambda>r.
            case r of
              Past_end \<Rightarrow> Inr (INVALID, c, opt)
            | Not_found \<Rightarrow> Inr (INVALID, c, opt)
            | Hit i space \<Rightarrow>
                let off = off + i; end' = off in
                if \<not> space then
                  (if end' = 0 then Inr (INVALID, c, opt) else header_name p start i off c opt)
                else checked_bind (read_at p (base + i + 1)) (\<lambda>b.
                  if b \<noteq> COLON then Inr (INVALID, c, opt)
                  else if end' = 0 then Inr (INVALID, c, opt)
                  else header_name p start i (off + 1) c opt))))"

subsection \<open>Scans\<close>

lemma length_drop_eq: "drop b p = xs \<Longrightarrow> xs \<noteq> [] \<Longrightarrow> length p = b + length xs"
  by (auto simp: not_less[symmetric])

lemma reads_drop:
  "drop b p = xs \<Longrightarrow> n \<le> length xs \<Longrightarrow> 0 < n \<Longrightarrow> take n xs = ys \<Longrightarrow> reads p b n = Inr ys"
  by (cases "xs = []") (auto simp: reads_def dest!: length_drop_eq)

lemma read_at_drop: "drop b p = x # xs \<Longrightarrow> read_at p b = Inr x"
  by (metis Cons_nth_drop_Suc drop_eq_Nil2 length_drop_eq linorder_not_less list.distinct(1) list.inject read_at_in)

lemma scan_hit_from:
  assumes "drop (base + i) p = xs @ y # ys" and "\<forall>x \<in> set xs. f x = None" and "f y = Some r"
    and "length xs < n" and "0 < sz" and "sz \<le> length (y # ys)"
  shows "scan sz f p base n i = Inr (Hit (i + length xs) r)"
  using assms
proof (induction xs arbitrary: i n)
  case Nil
  then obtain m where n: "n = Suc m" by (cases n) auto
  show ?case using Nil length_drop_eq [OF Nil.prems(1)] read_at_drop [of "base + i" p y ys] by (auto simp: n)
next
  case (Cons x xs)
  then obtain m where n: "n = Suc m" by (cases n) auto
  have d: "drop (base + (i + 1)) p = xs @ y # ys"
    using Cons.prems(1) by (metis append_Cons drop_Suc_Cons drop_drop drop0 One_nat_def add.commute add.left_commute)
  have "scan sz f p base m (i + 1) = Inr (Hit (i + 1 + length xs) r)"
    by (rule Cons.IH [OF d]) (use Cons.prems n in auto)
  moreover have "read_at p (base + i) = Inr x" by (rule read_at_drop) (use Cons.prems(1) in simp)
  ultimately show ?case using Cons.prems length_drop_eq [OF Cons.prems(1)] by (auto simp: n)
qed

lemmas scan_hit = scan_hit_from [where i = 0, simplified]

lemma scan_no_fault: "0 < sz \<Longrightarrow> scan sz f p base n i \<noteq> Inl e"
  by (induction n arbitrary: i) (auto split: option.splits simp: read_at_def)

lemma scan_total: "0 < sz \<Longrightarrow> \<exists>r. scan sz f p base n i = Inr r"
  using scan_no_fault [of sz f p base n i] by (cases "scan sz f p base n i") auto

lemma scan_one_total:
  obtains r where "scan 1 f p base n 0 = Inr r"
  using scan_total [of 1 f p base n 0] by auto

lemma scan_HitD_from:
  assumes "scan sz f p base n i = Inr (Hit k r)" "0 < sz"
  shows "\<exists>xs y ys. drop (base + i) p = xs @ y # ys \<and> k = i + length xs \<and> length xs < n \<and>
    (\<forall>x \<in> set xs. f x = None) \<and> f y = Some r \<and> sz \<le> length (y # ys)"
  using assms
proof (induction n arbitrary: i)
  case (Suc n)
  let ?c = "p ! (base + i)"
  from Suc.prems have len: "base + i + sz \<le> length p"
    and rest: "(case f ?c of Some r \<Rightarrow> Inr (Hit i r) | None \<Rightarrow> scan sz f p base n (i + 1)) = Inr (Hit k r)"
    by (auto split: if_splits)
  have d: "drop (base + i) p = ?c # drop (base + (i + 1)) p"
    using len Suc.prems(2) by (simp add: Cons_nth_drop_Suc)
  show ?case
  proof (cases "f ?c")
    case None
    with rest Suc.IH [of "i + 1"] Suc.prems(2) obtain xs y ys where
      "drop (base + (i + 1)) p = xs @ y # ys" "k = i + 1 + length xs" "length xs < n"
      "\<forall>x \<in> set xs. f x = None" "f y = Some r" "sz \<le> length (y # ys)" by auto
    with d None show ?thesis by (intro exI [of _ "?c # xs"] exI [of _ y] exI [of _ ys]) auto
  next
    case (Some q)
    with rest have "q = r" "k = i" by auto
    moreover have "sz \<le> length (drop (base + i) p)" using len by simp
    ultimately show ?thesis using d Some
      by (intro exI [of _ "[]"] exI [of _ ?c] exI [of _ "drop (base + (i + 1)) p"]) simp
  qed
qed simp

lemmas scan_HitD = scan_HitD_from [where i = 0, simplified]


lemma scan_HitD_one:
  assumes "scan 1 f p base n 0 = Inr (Hit k r)"
  obtains xs y ys where "drop base p = xs @ y # ys" "k = length xs" "length xs < n"
    "\<forall>x \<in> set xs. f x = None" "f y = Some r"
  using scan_HitD [OF assms] by auto

lemma drop_append_tail: "drop b p = xs @ ys \<Longrightarrow> drop (b + length xs) p = ys"
  by (metis add.commute append_eq_conv_conj drop_drop)

lemma drop_append_len: "drop b p = xs @ ys \<Longrightarrow> n = length xs \<Longrightarrow> drop (b + n) p = ys"
  by (simp add: drop_append_tail)

lemma drop_Cons_tail: "drop b p = x # ys \<Longrightarrow> drop (b + 1) p = ys"
  by (metis drop_Suc_Cons drop_drop drop0 One_nat_def plus_1_eq_Suc add.commute)

subsection \<open>The request line\<close>

definition good_uri :: "u8 list \<Rightarrow> bool" where
  "good_uri uri \<longleftrightarrow> uri \<noteq> [] \<and> length uri \<le> MAX_URI_LEGNTH \<and> SP \<notin> set uri \<and> hd uri \<noteq> CR \<and> hd uri \<noteq> LF"

definition version_1_1 :: "u8 list" where
  "version_1_1 = str ''HTTP/1.1'' @ [CR, LF]"

lemma version_1_1_eq: "version_1_1 = [0x48, 0x54, 0x54, 0x50, 0x2f, 0x31, 0x2e, 0x31, CR, LF]"
  by (simp add: version_1_1_def)

lemma http_version_1_1:
  assumes "drop (off + 1) p = version_1_1 @ rest"
  shows "http_version p off c =
    Inr (OKAY, c\<lparr>http_major_ver := 1, http_minor_ver := 1, head_off := of_nat (off + 11)\<rparr>)"
proof -
  have len: "length p = off + 1 + (10 + length rest)"
    using length_drop_eq [OF assms] by (simp add: version_1_1_eq)
  have d: "drop (off + 1 + 5) p = drop 5 version_1_1 @ rest"
    using arg_cong [OF assms, of "drop 5"] by (simp add: version_1_1_eq)
  have r1: "reads p (off + 1) 2 = Inr [0x48, 0x54]"
    by (rule reads_drop [OF assms]) (simp_all add: version_1_1_eq)
  have r2: "reads p (off + 1) 5 = Inr (str ''HTTP/'')"
    by (rule reads_drop [OF assms]) (simp_all add: version_1_1_eq)
  have r3: "reads p (off + 1 + 5) 5 = Inr [0x31, 0x2e, 0x31, CR, LF]"
    by (rule reads_drop [of _ _ "drop 5 version_1_1 @ rest"]) (use d in \<open>simp_all add: version_1_1_eq\<close>)
  show ?thesis
    using r1 r2 r3 by (simp add: http_version_def Let_def len IS_DIGIT_def CHR_TO_INT_def)
qed


lemma http_version_none:
  assumes "drop (off + 1) p = [CR, LF] @ rest"
  shows "http_version p off c =
    Inr (OKAY, c\<lparr>http_major_ver := 0, http_minor_ver := 0, head_off := of_nat (off + 2)\<rparr>)"
proof -
  have "reads p (off + 1) 2 = Inr [CR, LF]" by (rule reads_drop [OF assms]) simp_all
  then show ?thesis using length_drop_eq [OF assms] by (simp add: http_version_def Let_def add_ac)
qed

lemma request_uri_ok:
  assumes d: "drop (off + 1) p = uri @ SP # rst" and g: "good_uri uri"
  shows "request_uri p off c =
    http_version p (off + 1 + length uri)
      (c\<lparr>uri_start_off := of_nat (off + 1), uri_end_off := of_nat (off + 1 + length uri)\<rparr>)"
proof -
  from g obtain x xs where uri: "uri = x # xs" by (cases uri) (auto simp: good_uri_def)
  have xs: "\<forall>y \<in> set xs. uri_end_char y = None" and x: "x \<noteq> SP" "x \<noteq> CR" "x \<noteq> LF"
    and lxs: "length xs < MAX_URI_LEGNTH"
    using g by (auto simp: good_uri_def uri uri_end_char_def)
  have d2: "drop (off + 2) p = xs @ SP # rst"
    using drop_Cons_tail [of "off + 1" p x] d by (simp add: uri)
  have s: "scan 1 uri_end_char p (off + 2) MAX_URI_LEGNTH 0 = Inr (Hit (length xs) ())"
    by (rule scan_hit [OF d2 xs]) (use lxs in \<open>simp_all add: uri_end_char_def\<close>)
  have r: "read_at p (off + 1) = Inr x" using d by (intro read_at_drop) (simp add: uri)
  have len: "\<not> length p < off + 1 + 1" using length_drop_eq [OF d] by (simp add: uri)
  show ?thesis
    using r s x len by (simp add: request_uri_def Let_def uri add_ac)
qed

lemma masked_of_nat: "n < 4096 \<Longrightarrow> masked (of_nat n) = n"
proof -
  assume n: "n < 4096"
  have "(0x0fff :: u16) = mask 12" by (simp add: mask_eq_exp_minus_1)
  then have "masked (of_nat n) = take_bit 12 (unat (of_nat n :: u16))"
    by (simp only: masked_def take_bit_eq_mask [symmetric] unsigned_take_bit_eq)
  then show ?thesis using n by (simp add: unat_of_nat_small take_bit_nat_eq_self)
qed

lemma masked_less: "masked off < 4096"
proof -
  have "(0x0fff :: u16) = mask 12" by (simp add: mask_eq_exp_minus_1)
  then have "masked off = take_bit 12 (unat off)"
    by (simp only: masked_def take_bit_eq_mask [symmetric] unsigned_take_bit_eq)
  then show ?thesis by (simp add: take_bit_nat_less_exp [of 12, simplified])
qed

definition request_line :: "u8 list \<Rightarrow> u8 list" where
  "request_line uri = str ''GET '' @ uri @ SP # version_1_1"

lemma request_line_prefix:
  assumes d: "drop (masked off) p = lead @ str ''GET '' @ uri @ SP # rst"
    and lead: "set lead \<subseteq> {CR, LF}" "length lead < 8"
    and o: "o' = masked off + length lead" "o' < 4096"
    and g: "good_uri uri"
  shows "parse_http_request_line p off c =
    http_version p (o' + 4 + length uri)
      (c\<lparr>method_start_off := of_nat o', method_end_off := of_nat (o' + 3),
         uri_start_off := of_nat (o' + 4), uri_end_off := of_nat (o' + 4 + length uri)\<rparr>)"
proof -
  have d0: "drop (masked off) p = lead @ 0x47 # [0x45, 0x54] @ SP # uri @ SP # rst" using d by simp
  have len: "\<not> length p < masked off + 1" using length_drop_eq [OF d0] by simp
  have s1: "scan 1 method_start_char p (masked off) 8 0 = Inr (Hit (length lead) True)"
    by (rule scan_hit [OF d0]) (use lead in \<open>auto simp: method_start_char_def IS_UPPER_def\<close>)
  have d1: "drop o' p = 0x47 # [0x45, 0x54] @ SP # uri @ SP # rst"
    unfolding o(1) by (rule drop_append_tail [OF d0])
  have d2: "drop (o' + 1) p = [0x45, 0x54] @ SP # uri @ SP # rst" by (rule drop_Cons_tail [OF d1])
  have "scan 1 method_end_char p (o' + 1) MAX_METHOD_LENGTH 0 =
      Inr (Hit (length [0x45, 0x54 :: u8]) True)"
    by (rule scan_hit [OF d2])
       (simp_all add: method_end_char_def IS_UPPER_def MAX_METHOD_LENGTH_def)
  then have s2: "scan 1 method_end_char p (o' + 1) MAX_METHOD_LENGTH 0 = Inr (Hit 2 True)" by simp
  have d3: "drop (o' + 1 + 2 + 1) p = uri @ SP # rst"
    by (rule drop_Cons_tail [OF drop_append_len [OF d2]]) simp
  have m: "masked (of_nat o') = o'" using o(2) by (rule masked_of_nat)
  have r: "reads p o' 3 = Inr (str ''GET'')" by (rule reads_drop [OF d1]) simp_all
  have len3: "\<not> length p < o' + 3" using length_drop_eq [OF d1] by simp
  have eq3: "(of_nat (o' + 3) :: u16) - of_nat o' = 3" by simp
  have o2: "length lead + masked off = o'" using o(1) by simp
  have e: "o' + 1 + 2 + 1 + length uri = o' + 4 + length uri" by simp
  show ?thesis
    using s1 s2 len len3 r m eq3 request_uri_ok [OF d3 g, unfolded e]
    by (simp add: parse_http_request_line_def read_method_def check_method_supported_def o(1) [symmetric] o2
      Let_def add_ac)
qed

lemma http_request_line_ok:
  assumes d: "drop (masked off) p = lead @ request_line uri @ rest"
    and lead: "set lead \<subseteq> {CR, LF}" "length lead < 8"
    and o: "o' = masked off + length lead" "o' < 4096"
    and g: "good_uri uri"
  shows "parse_http_request_line p off c =
    Inr (OKAY, c\<lparr>method_start_off := of_nat o', method_end_off := of_nat (o' + 3),
      uri_start_off := of_nat (o' + 4), uri_end_off := of_nat (o' + 4 + length uri),
      http_major_ver := 1, http_minor_ver := 1,
      head_off := of_nat (o' + length (request_line uri))\<rparr>)"
proof -
  have d': "drop (masked off) p = lead @ str ''GET '' @ uri @ SP # version_1_1 @ rest"
    using d by (simp add: request_line_def)
  have "drop (o' + 4 + length uri + 1) p = version_1_1 @ rest"
    using drop_append_len [of "masked off" p "lead @ str ''GET '' @ uri @ [SP]" "version_1_1 @ rest"
        "length lead + 4 + length uri + 1"] d' by (simp add: o(1) add_ac)
  from http_version_1_1 [OF this] show ?thesis
    by (simp add: request_line_prefix [OF d' lead o g] request_line_def version_1_1_eq add_ac)
qed

lemma http_request_no_version_ok:
  assumes d: "drop (masked off) p = lead @ str ''GET '' @ uri @ SP # [CR, LF] @ rest"
    and lead: "set lead \<subseteq> {CR, LF}" "length lead < 8"
    and o: "o' = masked off + length lead" "o' < 4096"
    and g: "good_uri uri"
  shows "\<exists>c'. parse_http_request_line p off c = Inr (OKAY, c')"
proof -
  have "drop (o' + 4 + length uri + 1) p = [CR, LF] @ rest"
    using drop_append_len [of "masked off" p "lead @ str ''GET '' @ uri @ [SP]" "[CR, LF] @ rest"
        "length lead + 4 + length uri + 1"] d by (simp add: o(1) add_ac)
  from http_version_none [OF this] show ?thesis by (simp add: request_line_prefix [OF d lead o g])
qed

lemma reads_in [simp]: "base + n \<le> length p \<Longrightarrow> reads p base n = Inr (take n (drop base p))"
  by (simp add: reads_def)

lemma drop_take_split: "take n (drop b p) = xs \<Longrightarrow> drop b p = xs @ drop (b + n) p"
  by (metis add.commute append_take_drop_id drop_drop)

definition version_ok :: "u8 list \<Rightarrow> bool" where
  "version_ok v \<longleftrightarrow> v = version_1_1 \<or> v = [CR, LF]"

lemma http_version_OKAY_D:
  assumes "http_version p off c = Inr (OKAY, c')"
  shows "\<exists>v rest. version_ok v \<and> drop (off + 1) p = v @ rest"
proof -
  have l2: "off + 1 + 2 \<le> length p" using assms by (auto simp: http_version_def Let_def split: if_splits)
  show ?thesis
  proof (cases "take 2 (drop (off + 1) p) = [CR, LF]")
    case True
    then show ?thesis using drop_take_split [OF True] by (auto simp: version_ok_def)
  next
    case False
    then have l5: "off + 1 + 5 \<le> length p"
      using assms l2 by (auto simp: http_version_def Let_def split: if_splits)
    with False assms l2 have h: "take 5 (drop (off + 1) p) = str ''HTTP/''"
      by (auto simp: http_version_def Let_def split: if_splits)
    with False assms l2 l5 have l10: "off + 1 + 5 + 5 \<le> length p"
      by (auto simp: http_version_def Let_def split: if_splits)
    define b where "b = take 5 (drop (off + 1 + 5) p)"
    have lb: "length b = 5" using l10 by (simp add: b_def)
    have r: "reads p (off + 1 + 5) 5 = Inr b" using l10 by (simp add: b_def)
    have "b ! 1 = DOT \<and> b ! 0 - 0x30 = 1 \<and> b ! 2 - 0x30 = 1 \<and> b ! 3 = CR \<and> b ! 4 = LF"
      using assms l2 l5 l10 False h r by (auto simp: http_version_def Let_def CHR_TO_INT_def split: if_splits)
    then have "b = [0x31, DOT, 0x31, CR, LF]"
      using lb by (auto simp: list_eq_iff_nth_eq less_Suc_eq numeral_eq_Suc diff_eq_eq)
    then have "drop (off + 1) p = version_1_1 @ drop (off + 1 + 5 + 5) p"
      using drop_take_split [OF h] drop_take_split [of 5 "off + 1 + 5" p b] b_def
      by (simp add: version_1_1_eq)
    then show ?thesis by (auto simp: version_ok_def)
  qed
qed


lemma drop_read_at: "read_at p b = Inr x \<Longrightarrow> drop b p = x # drop (b + 1) p"
  by (auto simp: read_at_def Cons_nth_drop_Suc split: if_splits)

lemma request_uri_OKAY_D:
  assumes "request_uri p off c = Inr (OKAY, c')"
  shows "\<exists>uri v rest. good_uri uri \<and> version_ok v \<and> drop (off + 1) p = uri @ SP # v @ rest"
proof -
  from assms have l: "off + 1 < length p" by (auto simp: request_uri_def Let_def split: if_splits)
  let ?x = "p ! (off + 1)"
  have x: "?x \<noteq> SP" "?x \<noteq> CR" "?x \<noteq> LF"
    using assms l by (auto simp: request_uri_def Let_def split: if_splits)
  obtain r where r: "scan 1 uri_end_char p (off + 2) MAX_URI_LEGNTH 0 = Inr r"
    by (rule scan_one_total)
  with assms l x obtain i where i: "r = Hit i ()"
    and v: "\<exists>c. http_version p (off + 2 + i) c = Inr (OKAY, c')"
    by (auto simp: request_uri_def Let_def split: if_splits scan_result.splits)
  from r [unfolded i] obtain xs y ys where d: "drop (off + 2) p = xs @ y # ys" and xs: "i = length xs"
    "length xs < MAX_URI_LEGNTH" "\<forall>x \<in> set xs. uri_end_char x = None" "uri_end_char y = Some ()"
    by (rule scan_HitD_one)
  from v obtain v rest where v: "version_ok v" "drop (off + 2 + i + 1) p = v @ rest"
    using http_version_OKAY_D by blast
  have "drop (off + 1) p = ?x # drop (off + 2) p" using l by (simp add: Cons_nth_drop_Suc)
  also have "\<dots> = (?x # xs) @ SP # v @ rest"
    using d xs v(2) drop_Cons_tail [OF drop_append_tail [OF d]]
    by (simp add: uri_end_char_def split: if_splits)
  finally have "drop (off + 1) p = (?x # xs) @ SP # v @ rest" .
  moreover have "good_uri (?x # xs)"
    using x xs by (auto simp: good_uri_def uri_end_char_def split: if_splits)
  ultimately show ?thesis using v(1) by blast
qed

lemma of_nat_diff_3:
  assumes "(of_nat (a + 1 + i) :: u16) - of_nat a = 3" "i < 8"
  shows "i = 2"
proof -
  have "(of_nat (i + 1) :: u16) = of_nat 3" using assms(1) by (simp add: algebra_simps)
  then have "unat (of_nat (i + 1) :: u16) = unat (of_nat 3 :: u16)" by simp
  moreover have "unat (of_nat (i + 1) :: u16) = i + 1"
    using assms(2) by (intro unat_of_nat_small) simp
  ultimately show ?thesis by simp
qed

lemma http_request_sound:
  assumes ok: "parse_http_request_line p off c = Inr (OKAY, c')"
    and off: "masked off + 8 \<le> 4096"
  shows "\<exists>lead uri v rest. set lead \<subseteq> {CR, LF} \<and> length lead < 8 \<and> good_uri uri \<and> version_ok v \<and>
    drop (masked off) p = lead @ str ''GET '' @ uri @ SP # v @ rest"
proof -
  let ?s1 = "scan 1 method_start_char p (masked off) 8 0"
  obtain r where r: "?s1 = Inr r" by (rule scan_one_total)
  with ok obtain i c1 where i: "r = Hit i True"
    and m: "read_method p (masked off + i) (c1\<lparr>method_start_off := of_nat (masked off + i)\<rparr>) = Inr (OKAY, c')"
    by (auto simp: parse_http_request_line_def Let_def split: if_splits scan_result.splits bool.splits)
  from r [unfolded i] obtain lead y ys where d: "drop (masked off) p = lead @ y # ys"
    and lead: "i = length lead" "length lead < 8" "\<forall>x \<in> set lead. method_start_char x = None"
    by (rule scan_HitD_one)
  define o' where "o' = masked off + i"
  let ?s2 = "scan 1 method_end_char p (o' + 1) MAX_METHOD_LENGTH 0"
  obtain r2 where r2: "?s2 = Inr r2" by (rule scan_one_total)
  with m obtain j c2 where j: "r2 = Hit j True"
    and cm: "check_method_supported p (o' + 1 + j)
      (c2\<lparr>method_start_off := of_nat o', method_end_off := of_nat (o' + 1 + j)\<rparr>) = Inr (OKAY, c')"
    unfolding o'_def [symmetric]
    by (auto simp: read_method_def Let_def add_ac split: if_splits scan_result.splits bool.splits)
  from r2 [unfolded j] obtain nm z zs where d2: "drop (o' + 1) p = nm @ z # zs"
    and nm: "j = length nm" "length nm < MAX_METHOD_LENGTH" "method_end_char z = Some True"
    by (rule scan_HitD_one)
  have z: "z = SP" using nm by (simp add: method_end_char_def split: if_splits)
  have m': "masked (of_nat o') = o'" using off lead by (intro masked_of_nat) (simp add: o'_def)
  from cm have j2: "j = 2"
    using nm by (intro of_nat_diff_3 [of o' j])
      (auto simp: check_method_supported_def Let_def MAX_METHOD_LENGTH_def split: if_splits)
  from cm have l3: "o' + 3 \<le> length p"
    by (auto simp: check_method_supported_def Let_def m' split: if_splits)
  with cm have g: "take 3 (drop o' p) = str ''GET''"
    and u: "\<exists>c. request_uri p (o' + 1 + j) c = Inr (OKAY, c')"
    by (auto simp: check_method_supported_def Let_def m' split: if_splits)
  from u obtain uri v rest where uri: "good_uri uri" "version_ok v" "drop (o' + 1 + j + 1) p = uri @ SP # v @ rest"
    using request_uri_OKAY_D by blast
  have "drop (o' + 3) p = SP # drop (o' + 1 + j + 1) p"
    using drop_append_tail [OF d2] drop_Cons_tail [OF drop_append_tail [OF d2]] nm(1) j2 z
    by (simp add: numeral_3_eq_3)
  then have "drop (masked off) p = lead @ str ''GET '' @ uri @ SP # v @ rest"
    using d drop_append_tail [OF d] drop_take_split [OF g] uri(3) lead(1) by (simp add: o'_def)
  moreover have "set lead \<subseteq> {CR, LF}"
    using lead(3) by (auto simp: method_start_char_def split: if_splits)
  ultimately show ?thesis using lead(2) uri by blast
qed

subsection \<open>No read leaves the packet\<close>

fun no_fault :: "'a checked \<Rightarrow> bool" where
  "no_fault (Inl e) \<longleftrightarrow> False"
| "no_fault (Inr a) \<longleftrightarrow> True"

lemma no_fault_bind:
  "no_fault m \<Longrightarrow> (\<And>a. m = Inr a \<Longrightarrow> no_fault (f a)) \<Longrightarrow> no_fault (checked_bind m f)"
  by (cases m) auto

lemma no_fault_scan [simp]: "0 < sz \<Longrightarrow> no_fault (scan sz f p base n i)"
  using scan_total [of sz f p base n i] by auto

lemma no_fault_iff: "no_fault m \<longleftrightarrow> (\<exists>a. m = Inr a)"
  by (cases m) auto

lemma http_version_total [simp]: "no_fault (http_version p off c)"
  by (simp add: http_version_def Let_def)

lemma request_uri_total [simp]: "no_fault (request_uri p off c)"
  by (auto simp: request_uri_def Let_def intro!: no_fault_bind split: scan_result.splits)

lemma check_method_total [simp]: "no_fault (check_method_supported p off c)"
  by (simp add: check_method_supported_def Let_def)

lemma method_total [simp]: "no_fault (read_method p off c)"
  by (auto simp: read_method_def Let_def intro!: no_fault_bind split: scan_result.splits bool.splits)

lemma request_line_total [simp]: "no_fault (parse_http_request_line p off c)"
  by (auto simp: parse_http_request_line_def Let_def intro!: no_fault_bind split: scan_result.splits bool.splits)

lemma uri_path_total [simp]: "no_fault (uri_path p off c)"
  by (auto simp: uri_path_def Let_def intro!: no_fault_bind split: scan_result.splits)

lemma uri_port_total [simp]: "no_fault (uri_port p off n i c)"
  by (induction n arbitrary: i c) auto

lemma uri_host_total [simp]: "no_fault (uri_host p off c)"
  by (auto simp: uri_host_def Let_def intro!: no_fault_bind split: scan_result.splits uri_state.splits)

lemma uri_total [simp]: "no_fault (parse_http_uri p c)"
  by (auto simp: parse_http_uri_def Let_def)

lemma header_value_total [simp]: "no_fault (header_value p off c opt)"
  by (auto simp: header_value_def Let_def intro!: no_fault_bind split: scan_result.splits)

lemma header_name_total [simp]: "no_fault (header_name p start len off c opt)"
  by (simp add: header_name_def Let_def)

lemma header_line_total [simp]: "no_fault (parse_http_header_line p c opt)"
proof -
  have in_packet: "no_fault (read_at p (Suc (base + k)))"
    if "scan 2 name_char p base n 0 = Inr (Hit k r)" for base n k r
  proof -
    from scan_HitD [OF that] have "base + k + 1 < length p" by (auto dest!: length_drop_eq)
    then show ?thesis by simp
  qed
  show ?thesis
    by (auto simp: parse_http_header_line_def Let_def intro!: no_fault_bind intro: in_packet
      split: scan_result.splits)
qed

subsection \<open>The URI\<close>

definition path_span :: "u8 list \<Rightarrow> nat" where
  "path_span uri = length (takeWhile (\<lambda>c. path_char c = None) uri)"

lemma uri_path_ok:
  assumes d: "drop (off + 1) p = path @ SP # rest" and len: "length path < MAX_URI_LEGNTH" and off: "off + 1 < 4096"
  shows "uri_path p off c = Inr (OKAY, c\<lparr>path_end_off := of_nat (off + 1 + path_span path)\<rparr>)"
proof -
  let ?P = "\<lambda>c. path_char c = None"
  define xs where "xs = takeWhile ?P path"
  obtain y ys where y: "dropWhile ?P (path @ [SP]) = y # ys" "\<not> ?P y"
    by (cases "dropWhile ?P (path @ [SP])") (auto simp: path_char_def dropWhile_eq_Cons_conv)
  have "path @ SP # rest = (path @ [SP]) @ rest" by simp
  also have "path @ [SP] = takeWhile ?P (path @ [SP]) @ y # ys" by (metis takeWhile_dropWhile_id y(1))
  also have "takeWhile ?P (path @ [SP]) = xs"
    by (cases "\<forall>x \<in> set path. ?P x") (auto simp: xs_def takeWhile_append path_char_def [of SP]
      simp del: takeWhile_eq_all_conv intro: takeWhile_eq_all_conv [THEN iffD2, symmetric])
  finally have d': "drop (off + 1) p = xs @ y # ys @ rest" using d by simp
  have "\<forall>x \<in> set xs. path_char x = None" by (auto simp: xs_def dest: set_takeWhileD)
  moreover have "path_char y = Some ()" using y(2) by auto
  moreover have "length xs < MAX_URI_LEGNTH"
    using len length_takeWhile_le [of ?P path] by (simp add: xs_def)
  ultimately have "scan 1 path_char p (off + 1) MAX_URI_LEGNTH 0 = Inr (Hit (length xs) ())"
    by (intro scan_hit [OF d']) simp_all
  then show ?thesis
    using masked_of_nat [OF off] by (simp add: uri_path_def Let_def path_span_def xs_def [symmetric])
qed

lemma uri_relative:
  assumes d: "drop (masked (uri_start_off c)) p = SLASH # path @ SP # rest"
    and len: "length path < MAX_URI_LEGNTH" and off: "masked (uri_start_off c) + 1 < 4096"
  shows "parse_http_uri p c =
    Inr (OKAY, c\<lparr>has_schema := False, host_start_off := 0, host_end_off := 0,
      path_start_off := of_nat (masked (uri_start_off c)),
      path_end_off := of_nat (masked (uri_start_off c) + 1 + path_span path)\<rparr>)"
proof -
  have "drop (masked (uri_start_off c) + 1) p = path @ SP # rest" by (rule drop_Cons_tail [OF d])
  note path = uri_path_ok [OF this len off]
  have "\<not> length p < masked (uri_start_off c) + 1" using length_drop_eq [OF d] by simp
  then show ?thesis
    using path read_at_drop [OF d] by (simp add: parse_http_uri_def Let_def)
qed

text \<open>Neither a path nor \<open>http://\<close>.\<close>

lemma uri_other_scheme:
  assumes "masked (uri_start_off c) + 7 \<le> length p"
    and "p ! masked (uri_start_off c) \<noteq> SLASH"
    and "map LOWER_CASE (take 4 (drop (masked (uri_start_off c)) p)) \<noteq> str ''http'' \<or>
         take 3 (drop (masked (uri_start_off c) + 4) p) \<noteq> str ''://''"
  shows "parse_http_uri p c = Inr (UNSUPPORTED, c\<lparr>has_schema := True\<rparr>)"
  using assms by (auto simp: parse_http_uri_def Let_def drop_take add.commute)

definition is_digits :: "u8 list \<Rightarrow> bool" where
  "is_digits ds \<longleftrightarrow> (\<forall>d \<in> set ds. IS_DIGIT d)"

definition digits_onto :: "u16 \<Rightarrow> u8 list \<Rightarrow> u16" where
  "digits_onto q ds = fold (\<lambda>d q. q * 10 + ucast (CHR_TO_INT d)) ds q"

lemma digits_onto_old:
  "digits_onto q ds = digits_onto 0 ds + q * 10 ^ length ds"
proof (induction ds arbitrary: q)
  case (Cons d ds)
  show ?case
    using Cons [of "q * 10 + ucast (CHR_TO_INT d)"] Cons [of "ucast (CHR_TO_INT d)"]
    by (simp add: digits_onto_def algebra_simps)
qed (simp add: digits_onto_def)

lemma uri_port_ok:
  assumes "drop (off + i) p = ds @ SLASH # path @ SP # rest" and "is_digits ds" and "length ds < n"
    and "length path < MAX_URI_LEGNTH" and "off + i + length ds + 1 < 4096"
  shows "uri_port p off n i c =
    Inr (OKAY, c\<lparr>port := digits_onto (port c) ds, path_start_off := of_nat (off + i + length ds),
      path_end_off := of_nat (off + i + length ds + 1 + path_span path)\<rparr>)"
  using assms
proof (induction ds arbitrary: i n c)
  case Nil
  then obtain m where n: "n = Suc m" by (cases n) auto
  have d: "drop (off + i) p = SLASH # path @ SP # rest" using Nil.prems(1) by simp
  have path: "uri_path p (off + i) c = Inr (OKAY, c\<lparr>path_end_off := of_nat (off + i + 1 + path_span path)\<rparr>)" for c
    by (rule uri_path_ok [OF drop_Cons_tail [OF d]]) (use Nil.prems in simp_all)
  show ?case
    using path read_at_drop [OF d] length_drop_eq [OF d] by (simp add: n IS_DIGIT_def digits_onto_def)
next
  case (Cons x ds)
  then obtain m where n: "n = Suc m" by (cases n) auto
  have d: "drop (off + i) p = x # ds @ SLASH # path @ SP # rest" using Cons.prems(1) by simp
  have x: "IS_DIGIT x" "is_digits ds" using Cons.prems by (auto simp: is_digits_def)
  have "uri_port p off m (i + 1) (c\<lparr>port := port c * 10 + ucast (CHR_TO_INT x)\<rparr>) =
    Inr (OKAY, c\<lparr>port := digits_onto (port c) (x # ds), path_start_off := of_nat (off + i + length (x # ds)),
      path_end_off := of_nat (off + i + length (x # ds) + 1 + path_span path)\<rparr>)"
    using Cons.IH [of "i + 1" m "c\<lparr>port := port c * 10 + ucast (CHR_TO_INT x)\<rparr>"] Cons.prems x
      drop_Cons_tail [OF d] by (simp add: n digits_onto_def add_ac)
  then show ?case
    using read_at_drop [OF d] length_drop_eq [OF d] x by (simp add: n)
qed

lemma LOWER_CASE_http [simp]:
  "LOWER_CASE 0x68 = 0x68" "LOWER_CASE 0x74 = 0x74" "LOWER_CASE 0x70 = 0x70"
  by (simp_all add: LOWER_CASE_def)

text \<open>
  A URI \<open>http://host:port/path\<close>: the spans are those of the host and the path, and the new port is
  the decimal number in the URI only if the context came with a zero: the old port is kept as its
  leading digits.
\<close>

theorem uri_port_keeps_old:
  assumes d: "drop (masked (uri_start_off c)) p =
      str ''http://'' @ host @ COLON # ds @ SLASH # path @ SP # rest"
    and host: "\<forall>x \<in> set host. host_char x = None" "length host < MAX_HOST_LEGNTH"
    and ds: "is_digits ds" "length ds < 6"
    and path: "length path < MAX_URI_LEGNTH" and off: "masked (uri_start_off c) + 48 \<le> 4096"
  shows "\<exists>c'. parse_http_uri p c = Inr (OKAY, c') \<and>
    host_start_off c' = of_nat (masked (uri_start_off c) + 7) \<and>
    host_end_off c' = of_nat (masked (uri_start_off c) + 7 + length host) \<and>
    port c' = digits_onto 0 ds + port c * 10 ^ length ds"
proof -
  let ?o = "masked (uri_start_off c)"
  have d7: "drop (?o + 7) p = host @ COLON # ds @ SLASH # path @ SP # rest"
    by (rule drop_append_len [OF d]) simp
  have dp: "drop (?o + 7 + length host + 1 + 0) p = ds @ SLASH # path @ SP # rest"
    using drop_Cons_tail [OF drop_append_tail [OF d7]] by simp
  have s: "scan 1 host_char p (?o + 7) MAX_HOST_LEGNTH 0 = Inr (Hit (length host) Port)"
    by (rule scan_hit [OF d7 host(1)]) (use host(2) in \<open>simp_all add: host_char_def\<close>)
  have d0: "drop ?o p = 0x68 # drop 1 (str ''http://'') @ host @ COLON # ds @ SLASH # path @ SP # rest"
    using d by simp
  have len: "\<not> length p < ?o + 1" "\<not> length p < ?o + 7" using length_drop_eq [OF d] by simp_all
  have r: "read_at p ?o = Inr 0x68" by (rule read_at_drop [OF d0])
  have r7: "reads p ?o 7 = Inr (str ''http://'')" by (rule reads_drop [OF d]) simp_all
  have po: "uri_port p (?o + 7 + length host + 1) 6 0 c1 =
    Inr (OKAY, c1\<lparr>port := digits_onto (port c1) ds,
      path_start_off := of_nat (?o + 7 + length host + 1 + 0 + length ds),
      path_end_off := of_nat (?o + 7 + length host + 1 + 0 + length ds + 1 + path_span path)\<rparr>)" for c1
    by (rule uri_port_ok [OF dp ds path]) (use ds host off in \<open>simp add: MAX_HOST_LEGNTH_def\<close>)
  show ?thesis
    using len r r7 s po
    by (simp add: parse_http_uri_def uri_host_def Let_def digits_onto_old [of "port c"])
qed

subsection \<open>Header lines\<close>

definition good_name :: "u8 list \<Rightarrow> bool" where
  "good_name name \<longleftrightarrow> name \<noteq> [] \<and> length name < MAX_HEADER_NAME_LENGTH \<and>
     (\<forall>x \<in> set name. x \<noteq> COLON \<and> x \<noteq> SP) \<and> hd name \<noteq> LF \<and> hd name \<noteq> CR"

definition good_value :: "u8 list \<Rightarrow> bool" where
  "good_value v \<longleftrightarrow> v \<noteq> [] \<and> length v < MAX_HEADER_VALUE_LENGTH \<and> LF \<notin> set v \<and> hd v \<noteq> SP"

definition is_host :: "u8 list \<Rightarrow> bool" where
  "is_host name \<longleftrightarrow> map LOWER_CASE name = str ''host''"

definition header_line :: "u8 list \<Rightarrow> u8 list \<Rightarrow> u8 list" where
  "header_line name v = name @ [COLON, SP] @ v @ [LF]"

text \<open>What a header line does to the context.\<close>

definition after_header :: "nat \<Rightarrow> u8 list \<Rightarrow> u8 list \<Rightarrow> parsing_ctx \<Rightarrow> parsing_ctx" where
  "after_header off name v c =
     (let start = off + length name + 2;
          c = (if is_host name
               then c\<lparr>host_start_off := of_nat start, host_end_off := of_nat (start + length v)\<rparr> else c)
      in c\<lparr>head_off := of_nat (off + length (header_line name v))\<rparr>)"

lemma header_value_ok:
  assumes d: "drop (off + 1) p = SP # v @ LF # rest" and v: "good_value v" and off: "off + 1 < 4096"
  shows "header_value p off c opt =
    Inr (OKAY, (if opt = OPT_HOST
                then c\<lparr>host_start_off := of_nat (off + 2), host_end_off := of_nat (off + 2 + length v)\<rparr>
                else c)\<lparr>head_off := of_nat (off + 3 + length v)\<rparr>, opt)"
proof -
  obtain x xs where vx: "v = x # xs" "x \<noteq> SP" using v by (cases v) (auto simp: good_value_def)
  have r: "reads p (off + 1) 2 = Inr [SP, x]" by (rule reads_drop [OF d]) (simp_all add: vx)
  have d2: "drop (off + 2) p = v @ LF # rest" using drop_Cons_tail [OF d] by simp
  have s: "scan 1 value_char p (off + 2) MAX_HEADER_VALUE_LENGTH 0 = Inr (Hit (length v) ())"
    by (rule scan_hit [OF d2]) (use v in \<open>auto simp: good_value_def value_char_def\<close>)
  have "\<not> length p < off + 1 + 2" using length_drop_eq [OF d] by (simp add: vx)
  moreover have "masked (of_nat (off + 1)) = off + 1" using off by (rule masked_of_nat)
  ultimately show ?thesis
    using r s vx(2) by (simp add: header_value_def Let_def)
qed

lemma http_header_line_ok:
  assumes d: "drop (masked (head_off c)) p = header_line name v @ rest"
    and name: "good_name name" and v: "good_value v" and off: "masked (head_off c) + 36 \<le> 4096"
  shows "parse_http_header_line p c OPT_NONE =
    Inr (OKAY, after_header (masked (head_off c)) name v c, if is_host name then OPT_HOST else OPT_NONE)"
proof -
  let ?o = "masked (head_off c)"
  obtain n ns where n: "name = n # ns" "n \<noteq> LF" "n \<noteq> CR"
    using name by (cases name) (auto simp: good_name_def)
  have dn: "drop ?o p = name @ COLON # SP # v @ LF # rest" using d by (simp add: header_line_def)
  have s: "scan 2 name_char p ?o MAX_HEADER_NAME_LENGTH 0 = Inr (Hit (length name) False)"
    by (rule scan_hit [OF dn]) (use name in \<open>auto simp: good_name_def name_char_def\<close>)
  have len: "length p = ?o + (length name + 3 + length v + length rest)"
    using length_drop_eq [OF dn] by simp
  then obtain n2 where r: "reads p ?o 2 = Inr [n, n2]"
    using n(1) reads_drop [OF dn, of 2] by (cases ns) auto
  have dv: "drop (?o + length name + 1) p = SP # v @ LF # rest"
    by (rule drop_Cons_tail [OF drop_append_tail [OF dn]])
  have hv: "header_value p (?o + length name) c opt =
    Inr (OKAY, (if opt = OPT_HOST
                then c\<lparr>host_start_off := of_nat (?o + length name + 2),
                       host_end_off := of_nat (?o + length name + 2 + length v)\<rparr>
                else c)\<lparr>head_off := of_nat (?o + length name + 3 + length v)\<rparr>, opt)" for opt
    by (rule header_value_ok [OF dv v]) (use name off in \<open>simp add: good_name_def MAX_HEADER_NAME_LENGTH_def\<close>)
  have hn: "header_name p ?o (length name) (?o + length name) c OPT_NONE =
    header_value p (?o + length name) c (if is_host name then OPT_HOST else OPT_NONE)"
  proof (cases "length name = 4")
    case True
    have "reads p ?o 4 = Inr name" by (rule reads_drop [OF dn]) (use True in simp_all)
    then show ?thesis
      using True len masked_of_nat [of ?o] masked_less [of "head_off c"]
      by (simp add: header_name_def Let_def is_host_def)
  next
    case False
    then have "\<not> is_host name" by (auto simp: is_host_def dest: arg_cong [of _ _ length])
    with False show ?thesis by (simp add: header_name_def Let_def)
  qed
  have "\<not> length p < ?o + 2" "?o + length name \<noteq> 0" using len n by simp_all
  then show ?thesis
    using r s n hn hv
    by (simp add: parse_http_header_line_def Let_def after_header_def header_line_def add_ac)
qed

lemma header_end:
  assumes "drop (masked (head_off c)) p = CR # LF # rest"
  shows "parse_http_header_line p c opt =
    Inr (OKAY, c\<lparr>all_header_parsed := True, head_off := head_off c + 2\<rparr>, opt)"
proof -
  have "reads p (masked (head_off c)) 2 = Inr [CR, LF]" by (rule reads_drop [OF assms]) simp_all
  then show ?thesis
    using length_drop_eq [OF assms] by (simp add: parse_http_header_line_def Let_def)
qed

subsection \<open>What the parser accepts\<close>

text \<open>The context as the map has it before the first packet.\<close>

definition zero_ctx :: parsing_ctx where
  "zero_ctx = \<lparr>head_off = 0, method_start_off = 0, method_end_off = 0, uri_start_off = 0, uri_end_off = 0,
     http_major_ver = 0, http_minor_ver = 0, host_start_off = 0, host_end_off = 0, path_start_off = 0,
     path_end_off = 0, has_schema = False, all_header_parsed = False, schema_type = 0, port = 0\<rparr>"

lemma masked_0 [simp]: "masked 0 = 0"
  by (simp add: masked_def)

text \<open>
  C25. A request line is accepted exactly when it is a GET with a URI of at most 255 characters without a
  space, after at most seven bytes of empty lines, that ends with \<open>HTTP/1.1\<close> or with no version.
\<close>

theorem http_request_accepted_iff:
  assumes "masked off + 8 \<le> 4096"
  shows "(\<exists>c'. parse_http_request_line p off c = Inr (OKAY, c')) \<longleftrightarrow>
    (\<exists>lead uri v rest. set lead \<subseteq> {CR, LF} \<and> length lead < 8 \<and> good_uri uri \<and> version_ok v \<and>
      drop (masked off) p = lead @ str ''GET '' @ uri @ SP # v @ rest)"
proof
  assume "\<exists>c'. parse_http_request_line p off c = Inr (OKAY, c')"
  then show "\<exists>lead uri v rest. set lead \<subseteq> {CR, LF} \<and> length lead < 8 \<and> good_uri uri \<and> version_ok v \<and>
      drop (masked off) p = lead @ str ''GET '' @ uri @ SP # v @ rest"
    using http_request_sound [OF _ assms] by blast
next
  assume "\<exists>lead uri v rest. set lead \<subseteq> {CR, LF} \<and> length lead < 8 \<and> good_uri uri \<and> version_ok v \<and>
      drop (masked off) p = lead @ str ''GET '' @ uri @ SP # v @ rest"
  then obtain lead uri v rest where l: "set lead \<subseteq> {CR, LF}" "length lead < 8" and g: "good_uri uri"
    and v: "version_ok v" and d: "drop (masked off) p = lead @ str ''GET '' @ uri @ SP # v @ rest" by blast
  have o: "masked off + length lead < 4096" using assms l(2) by simp
  from v show "\<exists>c'. parse_http_request_line p off c = Inr (OKAY, c')"
    unfolding version_ok_def
  proof
    assume "v = version_1_1"
    then show ?thesis
      using http_request_line_ok [of off p lead uri rest, OF _ l refl o g] d by (auto simp: request_line_def)
  next
    assume "v = [CR, LF]"
    then show ?thesis using http_request_no_version_ok [of off p lead uri rest, OF _ l refl o g] d by auto
  qed
qed

lemma http_request_accepted_iff_witness:
  "(\<exists>c'. parse_http_request_line (str ''GET /a HTTP/1.1'' @ [CR, LF]) 0 zero_ctx = Inr (OKAY, c')) \<longleftrightarrow>
    (\<exists>lead uri v rest. set lead \<subseteq> {CR, LF} \<and> length lead < 8 \<and> good_uri uri \<and> version_ok v \<and>
      drop (masked 0) (str ''GET /a HTTP/1.1'' @ [CR, LF]) = lead @ str ''GET '' @ uri @ SP # v @ rest)"
  by (rule http_request_accepted_iff) simp

text \<open>
  C31. Printing and parsing: the context that an accepted request line leaves holds the offsets of its
  method, of its URI and of the line after it.
\<close>

theorem http_request_roundtrip:
  assumes "drop (masked off) p = lead @ request_line uri @ rest"
    and "set lead \<subseteq> {CR, LF}" "length lead < 8"
    and "o' = masked off + length lead" "o' < 4096"
    and "good_uri uri"
  shows "parse_http_request_line p off c =
    Inr (OKAY, c\<lparr>method_start_off := of_nat o', method_end_off := of_nat (o' + 3),
      uri_start_off := of_nat (o' + 4), uri_end_off := of_nat (o' + 4 + length uri),
      http_major_ver := 1, http_minor_ver := 1,
      head_off := of_nat (o' + length (request_line uri))\<rparr>)"
  using assms by (rule http_request_line_ok)

lemma http_request_roundtrip_witness:
  "parse_http_request_line ([CR, LF] @ request_line (str ''/a'') @ str ''Host'') 0 zero_ctx =
    Inr (OKAY, zero_ctx\<lparr>method_start_off := 2, method_end_off := 5, uri_start_off := 6, uri_end_off := 8,
      http_major_ver := 1, http_minor_ver := 1, head_off := 19\<rparr>)"
proof -
  have l: "length (request_line [SLASH, 0x61]) = 17" by (simp add: request_line_def version_1_1_eq)
  show ?thesis
    using http_request_roundtrip [of 0 "[CR, LF] @ request_line (str ''/a'') @ str ''Host''" "[CR, LF]"
        "str ''/a''" "str ''Host''" 2 zero_ctx]
    by (simp add: l good_uri_def MAX_URI_LEGNTH_def)
qed

text \<open>
  A line \<open>Name: value\<close> is accepted and moves the head past it; only the name \<open>Host\<close>, in any case
  of its letters, sets the host. The value keeps a carriage return at its end.
\<close>

theorem http_header_roundtrip:
  assumes "drop (masked (head_off c)) p = header_line name v @ rest"
    and "good_name name" and "good_value v" and "masked (head_off c) + 36 \<le> 4096"
  shows "parse_http_header_line p c OPT_NONE =
    Inr (OKAY, after_header (masked (head_off c)) name v c, if is_host name then OPT_HOST else OPT_NONE)"
  using assms by (rule http_header_line_ok)

lemma http_header_roundtrip_witness:
  "parse_http_header_line (header_line (str ''hOsT'') (str ''a.b'')) zero_ctx OPT_NONE =
    Inr (OKAY, zero_ctx\<lparr>host_start_off := 6, host_end_off := 9, head_off := 10\<rparr>, OPT_HOST)"
proof -
  have h: "is_host (str ''hOsT'')" by (simp add: is_host_def LOWER_CASE_def)
  have "parse_http_header_line (header_line (str ''hOsT'') (str ''a.b'')) zero_ctx OPT_NONE =
    Inr (OKAY, after_header (masked (head_off zero_ctx)) (str ''hOsT'') (str ''a.b'') zero_ctx,
      if is_host (str ''hOsT'') then OPT_HOST else OPT_NONE)"
    by (rule http_header_roundtrip [where rest = "[]"])
       (simp_all add: zero_ctx_def good_name_def good_value_def http_limits)
  then show ?thesis using h by (simp add: after_header_def Let_def header_line_def zero_ctx_def)
qed

lemma uri_port_keeps_old_witness:
  "\<exists>c'. parse_http_uri (str ''http://a:80/ '') (zero_ctx\<lparr>port := 3\<rparr>) = Inr (OKAY, c') \<and>
    host_start_off c' = 7 \<and> host_end_off c' = 8 \<and> port c' = 380"
proof -
  let ?c = "zero_ctx\<lparr>port := 3\<rparr>"
  have z: "masked (uri_start_off ?c) = 0" "port ?c = 3" by (simp_all add: zero_ctx_def)
  have "digits_onto 0 (str ''80'') = 80" by (simp add: digits_onto_def CHR_TO_INT_def)
  then show ?thesis
    using uri_port_keeps_old [of ?c "str ''http://a:80/ ''" "str ''a''" "str ''80''" "[]" "[]"]
    unfolding z
    by (simp add: host_char_def is_digits_def IS_DIGIT_def http_limits)
qed

end
