(* ===== verification/Http_Prog.thy ===== *)
theory Http_Prog
  imports Http_Parser
begin

text \<open>
  The program \<open>motivation/bpf_test_run/benchmarks/parse_http.c\<close>: it parses the request line, the URI
  and at most 16 header lines of a packet, and drops the packet when it knows its host. The
  parsing context is the only entry of a per-CPU map, so it keeps what the packets before left in it,
  and its lookup does not fail.
\<close>

text \<open>\<open>SK_PASS\<close> of \<open>linux/bpf.h\<close> is 1, which is \<open>XDP_DROP\<close> where an XDP program returns it.\<close>

definition SK_PASS :: nat where "SK_PASS = 1"

definition xdp_action_of :: "nat \<Rightarrow> xdp_action" where
  "xdp_action_of n = (if n = 1 then XDP_DROP else if n = 2 then XDP_PASS else if n = 3 then XDP_TX else XDP_ABORTED)"

definition HEADER_SIZE :: u16 where "HEADER_SIZE = 42"

record header_loop_ctx =
  err :: bool
  pctx :: parsing_ctx
  found :: bool

definition parse_headers_loop :: "packet \<Rightarrow> header_loop_ctx \<Rightarrow> (bool \<times> header_loop_ctx) checked" where
  "parse_headers_loop p s =
     checked_bind (parse_http_header_line p (pctx s) OPT_NONE) (\<lambda>(ret, c, opt).
       let s = s\<lparr>pctx := c\<rparr> in
       Inr (if ret = INVALID then (True, s\<lparr>err := True\<rparr>)
            else if all_header_parsed c then (True, s\<lparr>found := True\<rparr>)
            else if opt = OPT_HOST then (True, s\<lparr>found := True\<rparr>)
            else (False, s)))"

definition prog_parse_header_opt :: "packet \<Rightarrow> parsing_ctx \<Rightarrow> (xdp_action \<times> parsing_ctx) checked" where
  "prog_parse_header_opt p c =
     checked_bind
       (bpf_loop_checked MAX_HEADER_OPT_LINES (parse_headers_loop p)
          \<lparr>err = False, pctx = c, found = False\<rparr>) (\<lambda>s.
       let c = pctx s in
       Inr (if err s then (XDP_PASS, c)
            else if found s then
              if host_start_off c = 0 \<or> host_end_off c = 0 then (XDP_PASS, c) else (XDP_DROP, c)
            else (XDP_PASS, c)))"

definition prog_parse_uri :: "packet \<Rightarrow> parsing_ctx \<Rightarrow> (xdp_action \<times> parsing_ctx) checked" where
  "prog_parse_uri p c =
     checked_bind (parse_http_uri p c) (\<lambda>(ret, c).
       case ret of
         UNSUPPORTED \<Rightarrow> Inr (xdp_action_of SK_PASS, c)
       | INVALID \<Rightarrow> Inr (XDP_PASS, c)
       | _ \<Rightarrow> prog_parse_header_opt p c)"

definition parse_http_prog :: "packet \<Rightarrow> parsing_ctx \<Rightarrow> (xdp_action \<times> parsing_ctx) checked" where
  "parse_http_prog p c =
     checked_bind (parse_http_request_line p HEADER_SIZE c) (\<lambda>(ret, c).
       case ret of
         UNSUPPORTED \<Rightarrow> Inr (XDP_PASS, c)
       | INVALID \<Rightarrow> Inr (XDP_PASS, c)
       | _ \<Rightarrow> prog_parse_uri p c)"

subsection \<open>Safety\<close>

lemma no_fault_loop: "(\<And>s. no_fault (f s)) \<Longrightarrow> no_fault (bpf_loop_checked n f s)"
proof (induction n arbitrary: s)
  case (Suc n)
  from Suc.prems [of s] show ?case using Suc by (cases "f s") auto
qed simp

text \<open>
  C29. Whatever the packet and the context that earlier packets left are: no read leaves the packet, no
  loop exceeds its bound, and the program returns an action.
\<close>

theorem http_prog_in_packet: "\<exists>act c'. parse_http_prog p c = Inr (act, c')"
proof -
  have hl: "no_fault (parse_headers_loop p s)" for p s
    by (auto simp: parse_headers_loop_def Let_def intro!: no_fault_bind)
  have ho: "no_fault (prog_parse_header_opt p c)" for p c
    using hl by (auto simp: prog_parse_header_opt_def Let_def intro!: no_fault_bind no_fault_loop)
  have uri: "no_fault (prog_parse_uri p c)" for p c
    using ho by (auto simp: prog_parse_uri_def intro!: no_fault_bind split: return_code.splits)
  have "no_fault (parse_http_prog p c)"
    using uri by (auto simp: parse_http_prog_def intro!: no_fault_bind split: return_code.splits)
  then show ?thesis by (auto simp: no_fault_iff)
qed

subsection \<open>Requests\<close>

definition good_header :: "u8 list \<times> u8 list \<Rightarrow> bool" where
  "good_header h \<longleftrightarrow> good_name (fst h) \<and> good_value (snd h)"

definition headers :: "(u8 list \<times> u8 list) list \<Rightarrow> u8 list" where
  "headers hs = concat (map (\<lambda>h. header_line (fst h) (snd h)) hs)"

text \<open>A request for a path: the request line and the header lines after the packet's own headers.\<close>

definition http_request :: "u8 list \<Rightarrow> u8 list \<Rightarrow> (u8 list \<times> u8 list) list \<Rightarrow> u8 list" where
  "http_request hdr path hs = hdr @ request_line (SLASH # path) @ headers hs"

lemma after_header_other:
  "\<not> is_host name \<Longrightarrow> after_header off name v c = c\<lparr>head_off := of_nat (off + length (header_line name v))\<rparr>"
  by (simp add: after_header_def)

lemma header_line_masked_next:
  "off + length (header_line name v) < 4096 \<Longrightarrow> masked (head_off (after_header off name v c)) = off + length (header_line name v)"
  by (simp add: after_header_def Let_def masked_of_nat del: of_nat_add)

lemma skip_headers:
  assumes "drop (masked (head_off c)) p = headers hs @ rest"
    and "\<forall>h \<in> set hs. good_header h \<and> \<not> is_host (fst h)" and "length p < 4096 - 36"
    and "\<not> all_header_parsed c"
  shows "\<exists>c'. bpf_loop_checked (length hs + n) (parse_headers_loop p) \<lparr>err = False, pctx = c, found = False\<rparr> =
      bpf_loop_checked n (parse_headers_loop p) \<lparr>err = False, pctx = c', found = False\<rparr> \<and>
    c' = c\<lparr>head_off := head_off c'\<rparr> \<and> masked (head_off c') = masked (head_off c) + length (headers hs)"
  using assms
proof (induction hs arbitrary: c)
  case (Cons h hs)
  let ?o = "masked (head_off c)"
  define c1 where "c1 = c\<lparr>head_off := of_nat (?o + length (header_line (fst h) (snd h)))\<rparr>"
  have d: "drop ?o p = header_line (fst h) (snd h) @ headers hs @ rest"
    using Cons.prems(1) by (simp add: headers_def)
  have h: "good_name (fst h)" "good_value (snd h)" "\<not> is_host (fst h)"
    using Cons.prems(2) by (auto simp: good_header_def)
  have len: "length p = ?o + length (header_line (fst h) (snd h)) + length (headers hs @ rest)"
    using length_drop_eq [OF d] by (simp add: header_line_def)
  have l: "parse_http_header_line p c OPT_NONE = Inr (OKAY, c1, OPT_NONE)"
    using http_header_line_ok [OF d h(1,2)] h(3) Cons.prems(3) len
    by (simp add: after_header_other c1_def)
  have m1: "masked (head_off c1) = ?o + length (header_line (fst h) (snd h))"
    using len Cons.prems(3) by (simp add: c1_def masked_of_nat del: of_nat_add)
  have d1: "drop (masked (head_off c1)) p = headers hs @ rest"
    unfolding m1 by (rule drop_append_tail [OF d])
  have np: "\<not> all_header_parsed c1" using Cons.prems(4) by (simp add: c1_def)
  from Cons.IH [OF d1 _ Cons.prems(3) np] Cons.prems(2) obtain c' where c':
    "bpf_loop_checked (length hs + n) (parse_headers_loop p) \<lparr>err = False, pctx = c1, found = False\<rparr> =
      bpf_loop_checked n (parse_headers_loop p) \<lparr>err = False, pctx = c', found = False\<rparr>"
    "c' = c1\<lparr>head_off := head_off c'\<rparr>" "masked (head_off c') = masked (head_off c1) + length (headers hs)"
    by auto
  have step: "parse_headers_loop p \<lparr>err = False, pctx = c, found = False\<rparr> =
      Inr (False, \<lparr>err = False, pctx = c1, found = False\<rparr>)"
    using l np by (simp add: parse_headers_loop_def)
  have "c' = c\<lparr>head_off := head_off c'\<rparr>" by (subst c'(2)) (simp add: c1_def)
  then show ?case
    using c'(1,3) step by (intro exI [of _ c']) (simp add: m1 headers_def)
next
  case Nil
  then show ?case by (intro exI [of _ c]) (simp add: headers_def)
qed


text \<open>The context after the request line and the URI of a request.\<close>

lemma request_parsed:
  assumes p: "p = http_request hdr path hs @ rest" and hdr: "length hdr = 42"
    and path: "length path < MAX_URI_LEGNTH" "SP \<notin> set path" and len: "length p < 4096 - 36"
  shows "\<exists>c'. parse_http_prog p c = prog_parse_header_opt p c' \<and>
    masked (head_off c') = 42 + length (request_line (SLASH # path)) \<and>
    drop (masked (head_off c')) p = headers hs @ rest \<and>
    all_header_parsed c' = all_header_parsed c \<and> host_start_off c' = 0 \<and> host_end_off c' = 0"
proof -
  have m42: "masked HEADER_SIZE = 42" using masked_of_nat [of 42] by (simp add: HEADER_SIZE_def)
  have lrl: "length (request_line (SLASH # path)) = length path + 16"
    by (simp add: request_line_def version_1_1_eq)
  have d: "drop 42 p = request_line (SLASH # path) @ headers hs @ rest"
    by (simp add: p http_request_def hdr)
  have g: "good_uri (SLASH # path)" using path by (auto simp: good_uri_def MAX_URI_LEGNTH_def)
  define c1 where "c1 = c\<lparr>method_start_off := of_nat 42, method_end_off := of_nat (42 + 3),
      uri_start_off := of_nat (42 + 4), uri_end_off := of_nat (42 + 4 + length (SLASH # path)),
      http_major_ver := 1, http_minor_ver := 1,
      head_off := of_nat (42 + length (request_line (SLASH # path)))\<rparr>"
  have rl: "parse_http_request_line p HEADER_SIZE c = Inr (OKAY, c1)"
    unfolding c1_def by (rule http_request_line_ok [of _ _ "[]"]) (use d g in \<open>simp_all add: m42\<close>)
  have a1: "all_header_parsed c1 = all_header_parsed c" by (simp add: c1_def)
  have u: "masked (uri_start_off c1) = 46" using masked_of_nat [of 46] by (simp add: c1_def)
  have d46: "drop 46 p = SLASH # path @ SP # version_1_1 @ headers hs @ rest"
    using drop_append_len [of 42 p "str ''GET ''" _ 4] d by (simp add: request_line_def)
  have uri: "\<exists>c2. parse_http_uri p c1 = Inr (OKAY, c2) \<and> head_off c2 = head_off c1 \<and>
    all_header_parsed c2 = all_header_parsed c \<and> host_start_off c2 = 0 \<and> host_end_off c2 = 0"
    using uri_relative [of c1 p path "version_1_1 @ headers hs @ rest"] path d46
    by (simp add: u a1)
  have len42: "42 + length (request_line (SLASH # path)) < 4096"
    using len by (simp add: p http_request_def hdr)
  have "masked (head_off c1) = 42 + length (request_line (SLASH # path))"
    using masked_of_nat [OF len42] by (simp add: c1_def del: of_nat_add)
  then show ?thesis
    using uri rl drop_append_tail [OF d] by (auto simp: parse_http_prog_def prog_parse_uri_def)
qed


lemma http_prog_host_found:
  assumes p: "p = http_request hdr path hs @ header_line host_name v @ rest" and hdr: "length hdr = 42"
    and path: "length path < MAX_URI_LEGNTH" "SP \<notin> set path" and len: "length p < 4096 - 36"
    and hs: "\<forall>h \<in> set hs. good_header h \<and> \<not> is_host (fst h)" "length hs < MAX_HEADER_OPT_LINES"
    and h: "good_name host_name" "is_host host_name" "good_value v"
    and fresh: "\<not> all_header_parsed c"
  shows "\<exists>c'. parse_http_prog p c = Inr (XDP_DROP, c') \<and>
    take (unat (host_end_off c') - unat (host_start_off c')) (drop (unat (host_start_off c')) p) = v"
proof -
  obtain c1 where c1: "parse_http_prog p c = prog_parse_header_opt p c1"
    "masked (head_off c1) = 42 + length (request_line (SLASH # path))"
    "drop (masked (head_off c1)) p = headers hs @ header_line host_name v @ rest"
    "\<not> all_header_parsed c1"
    using request_parsed [OF p hdr path len, of c] fresh by auto
  obtain n where n: "MAX_HEADER_OPT_LINES = length hs + Suc n"
    using hs(2) by (metis less_imp_Suc_add add_Suc_right)
  from skip_headers [OF c1(3) hs(1) len c1(4), of "Suc n"] obtain c2 where
    loop: "bpf_loop_checked MAX_HEADER_OPT_LINES (parse_headers_loop p) \<lparr>err = False, pctx = c1, found = False\<rparr> =
      bpf_loop_checked (Suc n) (parse_headers_loop p) \<lparr>err = False, pctx = c2, found = False\<rparr>"
    and c2: "c2 = c1\<lparr>head_off := head_off c2\<rparr>" "masked (head_off c2) = masked (head_off c1) + length (headers hs)"
    by (auto simp: n)
  let ?o = "masked (head_off c2)"
  define c3 where "c3 = after_header ?o host_name v c2"
  have d: "drop ?o p = header_line host_name v @ rest"
    unfolding c2(2) by (rule drop_append_tail [OF c1(3)])
  have lp: "length p = ?o + length (header_line host_name v) + length rest"
    using length_drop_eq [OF d] by (simp add: header_line_def)
  have "parse_http_header_line p c2 OPT_NONE = Inr (OKAY, c3, OPT_HOST)"
    using http_header_line_ok [OF d h(1,3)] h(2) lp len by (simp add: c3_def)
  moreover have "\<not> all_header_parsed c3"
    using c1(4) by (subst c3_def, subst c2(1)) (simp add: after_header_def Let_def)
  ultimately have run: "bpf_loop_checked (Suc n) (parse_headers_loop p) \<lparr>err = False, pctx = c2, found = False\<rparr> =
      Inr \<lparr>err = False, pctx = c3, found = True\<rparr>"
    by (simp add: parse_headers_loop_def)
  define st where "st = ?o + length host_name + 2"
  have lst: "st + length v < 4096" using lp len by (simp add: st_def header_line_def)
  have "host_start_off c3 = of_nat st" "host_end_off c3 = of_nat (st + length v)"
    using h(2) by (simp_all add: c3_def after_header_def Let_def st_def)
  then have offs: "unat (host_start_off c3) = st" "unat (host_end_off c3) = st + length v"
    using lst by (simp_all add: unat_of_nat_small del: of_nat_add)
  have nz: "host_start_off c3 \<noteq> 0" "host_end_off c3 \<noteq> 0"
    using offs by (auto simp: st_def)
  have "drop st p = v @ LF # rest"
    using drop_append_len [of ?o p "host_name @ [COLON, SP]" "v @ LF # rest" "length host_name + 2"] d
    by (simp add: header_line_def st_def add_ac)
  then have "take (unat (host_end_off c3) - unat (host_start_off c3)) (drop (unat (host_start_off c3)) p) = v"
    by (simp add: offs)
  moreover have "parse_http_prog p c = Inr (XDP_DROP, c3)"
    using nz by (simp add: c1(1) prog_parse_header_opt_def trans [OF loop run] Let_def)
  ultimately show ?thesis by blast
qed

text \<open>
  C10. A request with a \<open>Host\<close> among its first 16 header lines is dropped, and the context delimits the
  host.
\<close>

theorem http_prog_finds_host:
  assumes p: "p = http_request hdr path hs @ header_line host_name v @ rest" and hdr: "length hdr = 42"
    and path: "length path < MAX_URI_LEGNTH" "SP \<notin> set path" and len: "length p < 4096 - 36"
    and hs: "\<forall>h \<in> set hs. good_header h \<and> \<not> is_host (fst h)" "length hs < MAX_HEADER_OPT_LINES"
    and h: "good_name host_name" "is_host host_name" "good_value v"
    and fresh: "\<not> all_header_parsed c"
  shows "\<exists>c'. parse_http_prog p c = Inr (XDP_DROP, c') \<and>
    take (unat (host_end_off c') - unat (host_start_off c')) (drop (unat (host_start_off c')) p) = v"
  using assms by (rule http_prog_host_found)


text \<open>
  A request whose context has the flag of an ended header from an earlier packet: only its first
  header line is read, so that a host that follows is not found and the request passes.
\<close>

theorem http_prog_stale_flag:
  assumes p: "p = http_request hdr path (h # hs) @ header_line host_name v @ rest" and hdr: "length hdr = 42"
    and path: "length path < MAX_URI_LEGNTH" "SP \<notin> set path" and len: "length p < 4096 - 36"
    and h: "good_header h" "\<not> is_host (fst h)"
    and stale: "all_header_parsed c"
  shows "\<exists>c'. parse_http_prog p c = Inr (XDP_PASS, c') \<and> all_header_parsed c'"
proof -
  obtain c1 where c1: "parse_http_prog p c = prog_parse_header_opt p c1"
    "drop (masked (head_off c1)) p = header_line (fst h) (snd h) @ headers hs @ header_line host_name v @ rest"
    "all_header_parsed c1" "host_start_off c1 = 0"
    using request_parsed [OF p hdr path len, of c] stale by (auto simp: headers_def)
  define c2 where "c2 = c1\<lparr>head_off := of_nat (masked (head_off c1) + length (header_line (fst h) (snd h)))\<rparr>"
  have "length p = masked (head_off c1) + length (header_line (fst h) (snd h)) + length (headers hs @ header_line host_name v @ rest)"
    using length_drop_eq [OF c1(2)] by (simp add: header_line_def)
  then have "parse_http_header_line p c1 OPT_NONE = Inr (OKAY, c2, OPT_NONE)"
    using http_header_line_ok [OF c1(2)] h len
    by (simp add: good_header_def after_header_other c2_def)
  then have "parse_headers_loop p \<lparr>err = False, pctx = c1, found = False\<rparr> =
      Inr (True, \<lparr>err = False, pctx = c2, found = True\<rparr>)"
    using c1(3) by (simp add: parse_headers_loop_def c2_def)
  then have "bpf_loop_checked MAX_HEADER_OPT_LINES (parse_headers_loop p) \<lparr>err = False, pctx = c1, found = False\<rparr> =
      Inr \<lparr>err = False, pctx = c2, found = True\<rparr>"
    by (simp add: MAX_HEADER_OPT_LINES_def numeral_eq_Suc)
  then have "parse_http_prog p c = Inr (XDP_PASS, c2)"
    using c1(4) by (simp add: c1(1) prog_parse_header_opt_def c2_def)
  then show ?thesis using c1(3) by (simp add: c2_def)
qed

text \<open>A request without a host passes and leaves the flag set.\<close>

lemma http_prog_no_host:
  assumes p: "p = http_request hdr path hs @ [CR, LF] @ rest" and hdr: "length hdr = 42"
    and path: "length path < MAX_URI_LEGNTH" "SP \<notin> set path" and len: "length p < 4096 - 36"
    and hs: "\<forall>h \<in> set hs. good_header h \<and> \<not> is_host (fst h)" "length hs < MAX_HEADER_OPT_LINES"
    and fresh: "\<not> all_header_parsed c"
  shows "\<exists>c'. parse_http_prog p c = Inr (XDP_PASS, c') \<and> all_header_parsed c'"
proof -
  obtain c1 where c1: "parse_http_prog p c = prog_parse_header_opt p c1"
    "drop (masked (head_off c1)) p = headers hs @ CR # LF # rest"
    "\<not> all_header_parsed c1" "host_start_off c1 = 0"
    using request_parsed [OF p hdr path len, of c] fresh by auto
  obtain n where n: "MAX_HEADER_OPT_LINES = length hs + Suc n"
    using hs(2) by (metis less_imp_Suc_add add_Suc_right)
  from skip_headers [OF c1(2) hs(1) len c1(3), of "Suc n"] obtain c2 where
    loop: "bpf_loop_checked MAX_HEADER_OPT_LINES (parse_headers_loop p) \<lparr>err = False, pctx = c1, found = False\<rparr> =
      bpf_loop_checked (Suc n) (parse_headers_loop p) \<lparr>err = False, pctx = c2, found = False\<rparr>"
    and c2: "c2 = c1\<lparr>head_off := head_off c2\<rparr>" "masked (head_off c2) = masked (head_off c1) + length (headers hs)"
    by (auto simp: n)
  have d: "drop (masked (head_off c2)) p = CR # LF # rest"
    unfolding c2(2) by (rule drop_append_tail [OF c1(2)])
  define c3 where "c3 = c2\<lparr>all_header_parsed := True, head_off := head_off c2 + 2\<rparr>"
  have run: "bpf_loop_checked (Suc n) (parse_headers_loop p) \<lparr>err = False, pctx = c2, found = False\<rparr> =
      Inr \<lparr>err = False, pctx = c3, found = True\<rparr>"
    by (simp add: parse_headers_loop_def header_end [OF d] c3_def)
  have "host_start_off c3 = 0" unfolding c3_def by (subst c2(1)) (simp add: c1(4))
  then have "parse_http_prog p c = Inr (XDP_PASS, c3)"
    by (simp add: c1(1) prog_parse_header_opt_def trans [OF loop run] Let_def)
  then show ?thesis by (simp add: c3_def)
qed

text \<open>
  An unsupported URI: the verdict of the socket programs, which is the number of \<open>XDP_DROP\<close>.
\<close>

theorem http_prog_other_scheme_dropped:
  assumes d: "drop 42 p = request_line uri @ rest" and g: "good_uri uri"
    and uri: "hd uri \<noteq> SLASH" "map LOWER_CASE (take 4 uri) \<noteq> str ''http''"
  shows "\<exists>c'. parse_http_prog p c = Inr (XDP_DROP, c')"
proof -
  have m42: "masked HEADER_SIZE = 42" using masked_of_nat [of 42] by (simp add: HEADER_SIZE_def)
  define c1 where "c1 = c\<lparr>method_start_off := of_nat 42, method_end_off := of_nat (42 + 3),
      uri_start_off := of_nat (42 + 4), uri_end_off := of_nat (42 + 4 + length uri),
      http_major_ver := 1, http_minor_ver := 1,
      head_off := of_nat (42 + length (request_line uri))\<rparr>"
  have rl: "parse_http_request_line p HEADER_SIZE c = Inr (OKAY, c1)"
    unfolding c1_def by (rule http_request_line_ok [of _ _ "[]"]) (use d g in \<open>simp_all add: m42\<close>)
  have u: "masked (uri_start_off c1) = 46" using masked_of_nat [of 46] by (simp add: c1_def)
  have d46: "drop 46 p = uri @ SP # version_1_1 @ rest"
    using drop_append_len [of 42 p "str ''GET ''" _ 4] d by (simp add: request_line_def)
  obtain x xs where x: "uri = x # xs" "x \<noteq> SLASH" using g uri(1) by (cases uri) (auto simp: good_uri_def)
  have lp: "length p = 46 + (length uri + 11 + length rest)"
    using length_drop_eq [OF d46] by (simp add: version_1_1_eq)
  have np: "p ! 46 = x" using read_at_drop [of 46 p x] d46 lp by (simp add: x)
  have four: "map LOWER_CASE (take 4 (drop 46 p)) \<noteq> str ''http''"
  proof (cases "4 \<le> length uri")
    case True
    then show ?thesis using uri(2) by (simp add: d46)
  next
    case False
    have "SP \<in> set (take 4 (drop 46 p))"
      using False by (simp add: d46 take_Cons')
    then have "LOWER_CASE SP \<in> set (map LOWER_CASE (take 4 (drop 46 p)))" by (simp only: set_map imageI)
    then show ?thesis by (auto simp: LOWER_CASE_def)
  qed
  have "parse_http_uri p c1 = Inr (UNSUPPORTED, c1\<lparr>has_schema := True\<rparr>)"
    by (rule uri_other_scheme) (use lp np x(2) four in \<open>simp_all add: u\<close>)
  then show ?thesis
    using rl by (simp add: parse_http_prog_def prog_parse_uri_def xdp_action_of_def SK_PASS_def)
qed


subsection \<open>Witnesses\<close>

definition sample_headers :: "(u8 list \<times> u8 list) list" where
  "sample_headers = [(str ''Accept'', str ''text'' @ [CR])]"

definition sample_request :: packet where
  "sample_request =
     http_request (replicate 42 0) (str ''index'') sample_headers @ header_line (str ''Host'') (str ''a.b'') @ [CR, LF]"

lemma sample_good:
  "good_header (str ''Accept'', str ''text'' @ [CR])" "\<not> is_host (str ''Accept'')"
  "good_name (str ''Host'')" "is_host (str ''Host'')" "good_value (str ''a.b'')"
  by (simp_all add: good_header_def good_name_def good_value_def is_host_def LOWER_CASE_def http_limits)

lemma length_sample_request: "length sample_request < 4096 - 36"
  by (simp add: sample_request_def sample_headers_def http_request_def headers_def header_line_def
    request_line_def version_1_1_def)

lemma http_prog_finds_host_witness:
  "\<exists>c'. parse_http_prog sample_request zero_ctx = Inr (XDP_DROP, c') \<and>
    take (unat (host_end_off c') - unat (host_start_off c')) (drop (unat (host_start_off c')) sample_request) =
      str ''a.b''"
proof (rule http_prog_finds_host [OF sample_request_def _ _ _ length_sample_request])
  show "\<forall>h \<in> set sample_headers. good_header h \<and> \<not> is_host (fst h)"
    using sample_good(1,2) by (simp add: sample_headers_def del: str_simps)
qed (simp_all add: sample_good http_limits sample_headers_def zero_ctx_def del: str_simps,
  simp_all)

lemma http_prog_stale_flag_witness:
  "\<exists>c'. parse_http_prog sample_request (zero_ctx\<lparr>all_header_parsed := True\<rparr>) = Inr (XDP_PASS, c') \<and>
    all_header_parsed c'"
proof (rule http_prog_stale_flag [OF _ _ _ _ length_sample_request])
  show "sample_request = http_request (replicate 42 0) (str ''index'')
      ((str ''Accept'', str ''text'' @ [CR]) # []) @ header_line (str ''Host'') (str ''a.b'') @ [CR, LF]"
    by (simp only: sample_request_def sample_headers_def)
qed (simp_all add: sample_good http_limits zero_ctx_def del: str_simps, simp_all)

lemma http_prog_other_scheme_dropped_witness:
  "\<exists>c'. parse_http_prog (replicate 42 0 @ request_line (str ''ftp://a/'')) zero_ctx = Inr (XDP_DROP, c')"
  by (rule http_prog_other_scheme_dropped [where uri = "str ''ftp://a/''" and rest = "[]"])
     (simp_all add: good_uri_def http_limits LOWER_CASE_def)

end
