(* ===== verification/Test_Runner.thy ===== *)
theory Test_Runner
  imports Http_Prog
begin

text \<open>
  The test runner of \<open>motivation/bpf_test_run\<close>: reading the payload from a file (\<open>runner.c\<close>), the
  checksums (\<open>csum.h\<close>) and the packet that is handed to the test-run system call
  (\<open>bpf_loader_helpers.h\<close>). The hardware address of the interface and the IP addresses, in network
  order, are arguments. The stores to the buffer of the packet are checked.
\<close>

definition PAYLOAD_SIZE_MIN :: nat where "PAYLOAD_SIZE_MIN = 16"
definition PAYLOAD_SIZE_LIMIT :: nat where "PAYLOAD_SIZE_LIMIT = 4000"
definition MAX_BUF :: nat where "MAX_BUF = 4096"

text \<open>
  \<open>None\<close>: the program exits. A size above the limit is only reported. \<open>file\<close> is the content of
  the input file.
\<close>

definition read_payload :: "nat \<Rightarrow> u8 list \<Rightarrow> u8 list option checked" where
  "read_payload payload_size file =
     (if payload_size < PAYLOAD_SIZE_MIN then Inr None
      else
        let buf = replicate MAX_BUF 0;
            size = min (length file) MAX_BUF;
            buf = take size file @ drop size buf;
            size = (if MAX_BUF \<le> size then 4095 else size)
        in checked_bind (write_at buf size 0) (\<lambda>buf.
             if size < payload_size then Inr (Some buf)
             else checked_bind (write_at buf payload_size 0) (\<lambda>buf. Inr (Some buf))))"

subsection \<open>Checksums\<close>

text \<open>
  The two checksum functions for the header are those of \<open>Packet\<close>; the one for the segment advances
  its own pointer.
\<close>

definition segment_sum :: "packet \<Rightarrow> nat \<Rightarrow> nat \<Rightarrow> u64 \<Rightarrow> u64" where
  "segment_sum p l4_hdr nr csum =
     fold (\<lambda>i csum. csum + ucast (ntohs (ld16 p (l4_hdr + 2 * i)))) [0 ..< nr] csum"

definition l4_csum :: "packet \<Rightarrow> nat \<Rightarrow> nat \<Rightarrow> u64 \<Rightarrow> u64" where
  "l4_csum p l4_hdr iph csum =
     (let csum = add_addr csum (ntohl (ld32 p (iph + 12)));
          csum = add_addr csum (ntohl (ld32 p (iph + 16)));
          csum = csum + ucast (p ! (iph + 9));
          csum = csum + ucast (of_nat (length p - l4_hdr) :: u16);
          len = unat (of_nat (length p - l4_hdr) :: u16);
          nr = len div 2;
          csum = segment_sum p l4_hdr nr csum;
          last = l4_hdr + 2 * nr;
          csum = (if last < length p then csum + push_bit 8 (ucast (p ! last)) else csum)
      in ucast (csum_fold_helper csum))"

subsection \<open>The packet\<close>

definition headers_of :: "u8 list \<Rightarrow> u32 \<Rightarrow> u32 \<Rightarrow> nat \<Rightarrow> packet" where
  "headers_of mac saddr daddr payload_size =
     (let pkt = replicate MAX_BUF 0;
          p = mac @ drop (length mac) pkt;
          ip = ETH_HLEN; udp = ETH_HLEN + IP_HLEN;
          p = st16 p 12 (htons ETH_P_IP);
          p = p[ip := 0x45];
          p = p[ip + 1 := 0];
          p = st16 p (ip + 2) (htons (of_nat (IP_HLEN + UDP_HLEN + payload_size)));
          p = st16 p (ip + 4) 0;
          p = st16 p (ip + 6) 0;
          p = p[ip + 8 := 64];
          p = p[ip + 9 := IPPROTO_UDP];
          p = st32 p (ip + 12) saddr;
          p = st32 p (ip + 16) daddr;
          p = st16 p (ip + 10) 0;
          csum = ipv4_csum_inline p ip 0;
          p = st16 p (ip + 10) (htons (ucast csum));
          p = st16 p udp (htons 56124);
          p = st16 p (udp + 2) (htons 8080);
          p = st16 p (udp + 4) (htons (of_nat (UDP_HLEN + payload_size)))
      in st16 p (udp + 6) 0)"

definition send_payload :: "u8 list \<Rightarrow> u32 \<Rightarrow> u32 \<Rightarrow> u8 list \<Rightarrow> packet checked" where
  "send_payload mac saddr daddr buf =
     (let input = c_string buf;
          payload_size = length input;
          pkt_size = ETH_HLEN + IP_HLEN + UDP_HLEN + payload_size;
          ip = ETH_HLEN; udp = ETH_HLEN + IP_HLEN; payload = udp + UDP_HLEN;
          p = headers_of mac saddr daddr payload_size
      in if MAX_BUF < payload + payload_size then Inl Out_of_bounds
         else
           let p = take pkt_size (take payload p @ input @ drop (payload + payload_size) p);
               csum = l4_csum p udp ip 0
           in Inr (st16 p (udp + 6) (ntohs (ucast csum))))"

subsection \<open>The checksum of the segment\<close>

lemma unat_add_addr:
  assumes "unat c + 131070 < 2 ^ 64"
  shows "unat (add_addr c a) \<le> unat c + 131070 \<and> unat c \<le> unat (add_addr c a)"
proof -
  let ?x = "drop_bit 16 a + (a AND 0xffff)"
  have m: "(0xffff :: u32) = mask 16" by (simp add: mask_eq_exp_minus_1)
  have l: "unat (a AND 0xffff) < 65536"
    unfolding m by (simp only: take_bit_eq_mask [symmetric] unsigned_take_bit_eq) (simp add: take_bit_nat_less_exp [of 16, simplified])
  have h: "unat (drop_bit 16 a) < 65536"
    using unat_bound [of a] by (simp add: unat_drop_bit less_mult_imp_div_less)
  have x: "unat ?x = unat (drop_bit 16 a) + unat (a AND 0xffff)"
    by (rule unat_add_no_wrap) (use l h in simp)
  have "unat (ucast ?x :: u64) = unat ?x" by (rule unat_ucast_widen) simp
  then have "unat (add_addr c a) = unat c + unat ?x"
    unfolding add_addr_def using assms l h x by (subst unat_add_no_wrap) simp_all
  then show ?thesis using x l h by simp
qed

lemma unat_segment_sum:
  assumes "unat c + 65535 * nr < 2 ^ 64"
  shows "unat (segment_sum p l4 nr c) = unat c + (\<Sum>i < nr. hword p l4 i)"
  unfolding segment_sum_def using assms
  by (subst unat_fold_sum) (simp_all add: sum_list_distinct_conv_sum_set atLeast0LessThan)

text \<open>Filling in the checksum of a segment whose checksum field was zeroed makes it verify.\<close>

lemma l4_checksum_verifies:
  assumes iph: "iph + 20 \<le> l4" and len: "l4 + 8 \<le> length p" "length p - l4 < 2 ^ 16" and z: "ld16 p (l4 + 6) = 0"
  defines "q \<equiv> st16 p (l4 + 6) (ntohs (ucast (l4_csum p l4 iph 0)))"
  shows "l4_csum q l4 iph 0 = 0"
proof -
  let ?len = "of_nat (length p - l4) :: u16"
  define n where "n = length p - l4"
  have un: "unat ?len = n" unfolding n_def using len(2) by (intro unat_of_nat_small) simp
  define c1 where "c1 = add_addr (add_addr 0 (ntohl (ld32 p (iph + 12)))) (ntohl (ld32 p (iph + 16)))
    + ucast (p ! (iph + 9)) + ucast ?len"
  define tail where "tail = (if l4 + 2 * (n div 2) < length p then push_bit 8 (ucast (p ! (l4 + 2 * (n div 2)))) else (0 :: u64))"
  define S where "S = segment_sum p l4 (n div 2) c1 + tail"
  define S' where "S' = segment_sum q l4 (n div 2) c1 + tail"
  let ?c = "csum_fold_helper S"
  have lp: "l4_csum p l4 iph 0 = ucast ?c"
    by (simp add: l4_csum_def Let_def un S_def c1_def tail_def)
  have lq: "length q = length p" by (simp add: q_def)
  have cc: "ucast (l4_csum p l4 iph 0) = ?c"
    unfolding lp by (rule word_eq_bitsI) (simp add: bit_simps)
  have qb: "q ! k = p ! k" if "k < l4 + 6 \<or> l4 + 8 \<le> k" for k
    using that len(1) by (auto simp: q_def nth_st16)
  have q1: "ld32 q (iph + 12) = ld32 p (iph + 12)" "ld32 q (iph + 16) = ld32 p (iph + 16)"
    "q ! (iph + 9) = p ! (iph + 9)"
    using iph by (simp_all add: ld32_def qb)
  have qt: "q ! (l4 + 2 * (n div 2)) = p ! (l4 + 2 * (n div 2))"
    by (rule qb) (use len(1) n_def in auto)
  have lq0: "l4_csum q l4 iph 0 = ucast (csum_fold_helper S')"
    unfolding l4_csum_def Let_def q1 lq un qt by (simp add: S'_def c1_def tail_def)
  have small: "unat c1 + 65535 * (n div 2) + 65280 < 2 ^ 60"
  proof -
    have a1: "unat (add_addr 0 x) \<le> 131070" for x using unat_add_addr [of 0 x] by simp
    have a2: "unat (add_addr (add_addr 0 x) y) \<le> 262140" for x y
      using unat_add_addr [of "add_addr 0 x" y] a1 [of x] by simp
    have b: "unat (ucast (p ! (iph + 9)) :: u64) < 256"
      using unat_bound [of "p ! (iph + 9)"] by (subst unat_ucast_widen) simp_all
    have l: "unat (ucast ?len :: u64) < 65536"
      using unat_bound [of ?len] by (subst unat_ucast_widen) simp_all
    let ?A = "add_addr (add_addr 0 (ntohl (ld32 p (iph + 12)))) (ntohl (ld32 p (iph + 16)))"
    have "unat (?A + ucast (p ! (iph + 9))) = unat ?A + unat (ucast (p ! (iph + 9)) :: u64)"
      by (rule unat_add_no_wrap) (use a2 [of "ntohl (ld32 p (iph + 12))" "ntohl (ld32 p (iph + 16))"] b in simp)
    moreover have "unat c1 = unat (?A + ucast (p ! (iph + 9))) + unat (ucast ?len :: u64)"
      unfolding c1_def by (rule unat_add_no_wrap)
        (use a2 [of "ntohl (ld32 p (iph + 12))" "ntohl (ld32 p (iph + 16))"] b l calculation in simp)
    ultimately have "unat c1 < 400000"
      using a2 [of "ntohl (ld32 p (iph + 12))" "ntohl (ld32 p (iph + 16))"] b l by linarith
    moreover have "n div 2 < 32768" using len(2) by (simp add: n_def)
    ultimately show ?thesis by simp
  qed
  have tl: "unat tail \<le> 65280"
  proof -
    have "unat (push_bit 8 (ucast b) :: u64) \<le> 65280" for b :: u8
    proof -
      have u: "unat (ucast b :: u64) = unat b" by (rule unat_ucast_widen) simp
      have "unat (push_bit 8 (ucast b) :: u64) = take_bit 64 (push_bit 8 (unat b))"
        by (simp add: unsigned_push_bit_eq u)
      also have "\<dots> \<le> push_bit 8 (unat b)" by (rule take_bit_nat_less_eq_self)
      also have "\<dots> \<le> 65280" using unat_bound [of b] by (simp add: push_bit_eq_mult)
      finally show ?thesis .
    qed
    then show ?thesis by (simp add: tail_def)
  qed
  have sums: "unat (segment_sum r l4 (n div 2) c1 + tail) = unat c1 + (\<Sum>i < n div 2. hword r l4 i) + unat tail" for r
  proof -
    have "(\<Sum>i < n div 2. hword r l4 i) \<le> (\<Sum>i < n div 2. 65535)" by (intro sum_mono hword_bound)
    then have s: "(\<Sum>i < n div 2. hword r l4 i) \<le> 65535 * (n div 2)" by simp
    have u: "unat (segment_sum r l4 (n div 2) c1) = unat c1 + (\<Sum>i < n div 2. hword r l4 i)"
      by (rule unat_segment_sum) (use small in simp)
    show ?thesis using s small tl by (subst unat_add_no_wrap) (simp_all add: u)
  qed
  have n3: "3 < n div 2" using len(1) by (simp add: n_def)
  have h3: "hword q l4 3 = unat ?c"
    using len(1) by (simp add: q_def hword_def cc)
  have hi: "hword q l4 i = hword p l4 i" if "i \<noteq> 3" for i
    using that len(1) unfolding q_def hword_def by (subst ld16_st16_other) auto
  have p3: "hword p l4 3 = 0" using z by (simp add: hword_def bswap16_def)
  have split: "(\<Sum>i < n div 2. hword r l4 i) = hword r l4 3 + (\<Sum>i \<in> {..<n div 2} - {3}. hword r l4 i)" for r
    by (rule sum.remove) (use n3 in simp_all)
  have "(\<Sum>i < n div 2. hword q l4 i) = unat ?c + (\<Sum>i < n div 2. hword p l4 i)"
    unfolding split [of q] split [of p] using hi by (simp add: h3 p3)
  then have s: "unat S' = unat S + unat ?c"
    unfolding S'_def S_def sums by simp
  note comp = csum_four [of S]
  have "65535 dvd unat S'" unfolding s by (rule comp(1))
  moreover have "S' \<noteq> 0"
  proof
    assume "S' = 0"
    then have "unat S = 0" "unat ?c = 0" using s by simp_all
    with comp(2) show False by (simp add: unat_eq_0)
  qed
  ultimately have "csum_fold_helper S' = 0" by (simp add: csum_zero_iff)
  then show ?thesis by (simp add: lq0)
qed


subsection \<open>The packet that the runner makes\<close>

lemma length_headers_of [simp]: "length mac = 6 \<Longrightarrow> length (headers_of mac s d n) = 4096"
  by (simp add: headers_of_def Let_def MAX_BUF_def)

text \<open>The headers before the checksum, and the bytes after it.\<close>

lemma headers_of_bytes:
  assumes "length mac = 6"
  shows "ld16 (headers_of mac s d n) 12 = htons ETH_P_IP" "headers_of mac s d n ! 14 = 0x45"
    "ld16 (headers_of mac s d n) 16 = htons (of_nat (28 + n))" "headers_of mac s d n ! 23 = IPPROTO_UDP"
    "ld16 (headers_of mac s d n) 36 = htons 8080" "ld16 (headers_of mac s d n) 38 = htons (of_nat (8 + n))"
    "ld16 (headers_of mac s d n) 40 = 0"
  using assms
  by (simp_all add: headers_of_def Let_def MAX_BUF_def hlen_defs ld16_st16_other nth_st16 nth_st32 nth_list_update
    ld16_def [of "list_update _ _ _"] ld16_def [of "st32 _ _ _"])

lemma ipv4_csum_after_header:
  assumes "\<forall>k < 34. q ! k = p ! k"
  shows "ipv4_csum_inline q 14 0 = ipv4_csum_inline p 14 0"
proof -
  have "hword q 14 i = hword p 14 i" if "i < 10" for i
    using assms that by (simp add: hword_def ld16_def)
  then have "unat (ipv4_sum q 14 0) = unat (ipv4_sum p 14 0)"
    unfolding unat_ipv4_sum by (intro sum.cong) auto
  then have "ipv4_sum q 14 0 = ipv4_sum p 14 0" by (rule unat_eqI)
  then show ?thesis by (simp add: ipv4_csum_inline_def)
qed

lemma headers_of_checksum:
  assumes "length mac = 6"
  shows "ipv4_csum_inline (headers_of mac s d n) 14 0 = 0"
proof -
  obtain P where P: "length P = 4096" "ld16 P 24 = 0"
    and h: "headers_of mac s d n = st16 (st16 (st16 (st16 (st16 P 24 (htons (ucast (ipv4_csum_inline P 14 0))))
      34 (htons 56124)) 36 (htons 8080)) 38 (htons (of_nat (8 + n)))) 40 0"
  proof
    let ?P = "st16 (st32 (st32 ((st16 (st16 (st16 ((st16 (mac @ drop (length mac) (replicate MAX_BUF 0)) 12
      (htons ETH_P_IP))[14 := 0x45, 15 := 0]) 16 (htons (of_nat (20 + 8 + n)))) 18 0) 20 0)[22 := 64, 23 := IPPROTO_UDP])
      26 s) 30 d) 24 0"
    show "length ?P = 4096" using assms by (simp add: MAX_BUF_def)
    show "ld16 ?P 24 = 0" using assms by (simp add: MAX_BUF_def)
    show "headers_of mac s d n = st16 (st16 (st16 (st16 (st16 ?P 24 (htons (ucast (ipv4_csum_inline ?P 14 0))))
      34 (htons 56124)) 36 (htons 8080)) 38 (htons (of_nat (8 + n)))) 40 0"
      by (simp add: headers_of_def Let_def hlen_defs)
  qed
  have "ipv4_csum_inline (st16 P 24 (htons (ucast (ipv4_csum_inline P 14 0)))) 14 0 = 0"
    using checksum_verifies [of 14 P] P by simp
  then show ?thesis
    unfolding h by (subst ipv4_csum_after_header [of _ "st16 P 24 (htons (ucast (ipv4_csum_inline P 14 0)))"])
      (simp_all add: nth_st16 P(1))
qed

text \<open>
  The packet of the test runner: for a payload that fits into the buffer it is a packet for the
  experiment's port without IP options that carries exactly the payload, and its length fields and both
  checksums are right; a longer payload is written past the end of the buffer.
\<close>

lemma send_payload_spec:
  assumes mac: "length mac = 6" and s: "c_string buf = payload"
  shows "if 4054 < length payload then send_payload mac sa da buf = Inl Out_of_bounds
    else \<exists>q. send_payload mac sa da buf = Inr q \<and> length q = 42 + length payload \<and> drop 42 q = payload
      \<and> is_relevant 8080 q \<and> q ! 14 AND 0xf = 5
      \<and> unat (ntohs (ld16 q 16)) = 28 + length payload \<and> unat (ntohs (ld16 q 38)) = 8 + length payload
      \<and> ipv4_csum_inline q 14 0 = 0 \<and> l4_csum q 34 14 0 = 0"
proof (cases "4054 < length payload")
  case True
  then show ?thesis by (simp add: send_payload_def Let_def s hlen_defs MAX_BUF_def)
next
  case False
  define n where "n = length payload"
  define H where "H = headers_of mac sa da n"
  define B where "B = take (42 + n) (take 42 H @ payload @ drop (42 + n) H)"
  define q where "q = st16 B 40 (ntohs (ucast (l4_csum B 34 14 0)))"
  have n: "n \<le> 4054" using False by (simp add: n_def)
  have lH: "length H = 4096" using mac by (simp add: H_def)
  have lB: "length B = 42 + n" using n by (simp add: B_def lH n_def)
  have res: "send_payload mac sa da buf = Inr q"
    using n by (simp add: send_payload_def Let_def s hlen_defs MAX_BUF_def n_def [symmetric] H_def [symmetric] q_def B_def)
  have Bk: "B ! k = H ! k" if "k < 42" for k
    using that n by (simp add: B_def lH nth_append n_def [symmetric])
  have qk: "q ! k = H ! k" if "k < 40" for k using that by (simp add: q_def nth_st16 lB Bk)
  have "drop 42 B = payload" using n by (simp add: B_def lH n_def [symmetric])
  then have "drop 42 q = payload" by (simp add: q_def st16_def)
  moreover have "is_relevant 8080 q"
    using headers_of_bytes [OF mac, of sa da n] n
    by (simp add: is_relevant_def Let_def hlen_defs q_def lB nth_st16 Bk ld16_def H_def [symmetric])
  moreover have "q ! 14 AND 0xf = 5"
    using headers_of_bytes(2) [OF mac, of sa da n] by (simp add: qk H_def)
  moreover have "unat (ntohs (ld16 q 16)) = 28 + n" "unat (ntohs (ld16 q 38)) = 8 + n"
  proof -
    have l: "ld16 q k = ld16 H k" if "k < 39" for k using that by (simp add: ld16_def qk)
    have "unat (of_nat (28 + n) :: u16) = 28 + n" "unat (of_nat (8 + n) :: u16) = 8 + n"
      by (rule unat_of_nat_small, use n in simp)+
    then show "unat (ntohs (ld16 q 16)) = 28 + n" "unat (ntohs (ld16 q 38)) = 8 + n"
      using headers_of_bytes(3,6) [OF mac, of sa da n] by (simp_all add: l H_def del: of_nat_add)
  qed
  moreover have "ipv4_csum_inline q 14 0 = 0"
    using headers_of_checksum [OF mac, of sa da n] by (subst ipv4_csum_after_header [of q H]) (simp_all add: qk H_def)
  moreover have "l4_csum q 34 14 0 = 0"
  proof -
    have "ld16 B 40 = ld16 H 40" by (simp add: ld16_def Bk)
    then have z: "ld16 B (34 + 6) = 0" using headers_of_bytes(7) [OF mac, of sa da n] by (simp add: H_def)
    show ?thesis
      using l4_checksum_verifies [of 14 34 B, OF _ _ _ z] n by (simp add: lB q_def)
  qed
  ultimately show ?thesis
    using n res by (simp add: n_def [symmetric] q_def lB)
qed


lemma read_payload_full:
  assumes "PAYLOAD_SIZE_MIN \<le> n" and "n \<le> length file" and "n < MAX_BUF" and "\<forall>b \<in> set (take n file). b \<noteq> 0"
  shows "\<exists>buf. read_payload n file = Inr (Some buf) \<and> c_string buf = take n file"
proof -
  define size where "size = min (length file) MAX_BUF"
  define s1 where "s1 = (if MAX_BUF \<le> size then 4095 else size)"
  define b0 where "b0 = take size file @ drop size (replicate MAX_BUF (0 :: u8))"
  define b1 where "b1 = b0[s1 := 0]"
  have sz: "size \<le> MAX_BUF" "n \<le> s1" "s1 < MAX_BUF" "n \<le> size"
    using assms by (auto simp: size_def s1_def MAX_BUF_def)
  have l0: "length b0 = MAX_BUF" using sz(1) by (simp add: b0_def size_def)
  have tk: "take n b1 = take n file"
    using sz assms(2) by (simp add: b1_def b0_def size_def)
  have w1: "write_at b0 s1 0 = Inr b1" using sz l0 by (simp add: b1_def)
  have w2: "write_at b1 n 0 = Inr (b1[n := 0])" using assms(3) l0 by (simp add: b1_def)
  have "read_payload n file = Inr (Some (b1[n := 0]))"
    using assms(1) w1 w2 sz(2) unfolding read_payload_def Let_def size_def [symmetric] b0_def [symmetric] s1_def [symmetric]
    by simp
  moreover have "b1[n := 0] = take n file @ 0 # drop (Suc n) b1"
    using l0 assms(3) by (simp add: upd_conv_take_nth_drop b1_def [symmetric] tk [symmetric])
      (simp add: b1_def upd_conv_take_nth_drop)
  then have "c_string (b1[n := 0]) = take n file" using c_string_take [OF assms(4)] by simp
  ultimately show ?thesis by blast
qed

text \<open>
  From the file to the packet: payloads of 16 to 4054 bytes give a proper packet; the sizes from there
  to 4095 pass the check of the size, which only warns, and overflow the buffer of the packet.
\<close>

theorem test_runner_packet:
  assumes "length mac = 6" and "PAYLOAD_SIZE_MIN \<le> n" "n \<le> length file" "n < MAX_BUF"
    and "\<forall>b \<in> set (take n file). b \<noteq> 0"
  shows "\<exists>buf. read_payload n file = Inr (Some buf) \<and>
    (if 4054 < n then send_payload mac sa da buf = Inl Out_of_bounds
     else \<exists>q. send_payload mac sa da buf = Inr q \<and> length q = 42 + n \<and> drop 42 q = take n file
      \<and> is_relevant 8080 q \<and> q ! 14 AND 0xf = 5
      \<and> unat (ntohs (ld16 q 16)) = 28 + n \<and> unat (ntohs (ld16 q 38)) = 8 + n
      \<and> ipv4_csum_inline q 14 0 = 0 \<and> l4_csum q 34 14 0 = 0)"
proof -
  obtain buf where buf: "read_payload n file = Inr (Some buf)" "c_string buf = take n file"
    using read_payload_full [OF assms(2-5)] by blast
  have l: "length (take n file) = n" using assms(3) by simp
  show ?thesis
    using buf send_payload_spec [OF assms(1) buf(2), of sa da] unfolding l by blast
qed

lemma test_runner_packet_witness:
  "\<exists>buf. read_payload 16 (replicate 20 65) = Inr (Some buf) \<and>
    (\<exists>q. send_payload (replicate 6 1) 0x0201a8c0 0x0101a8c0 buf = Inr q \<and> length q = 58 \<and> is_relevant 8080 q
      \<and> l4_csum q 34 14 0 = 0)"
  using test_runner_packet [of "replicate 6 1" 16 "replicate 20 65" "0x0201a8c0" "0x0101a8c0"]
  by (auto simp: PAYLOAD_SIZE_MIN_def MAX_BUF_def)



end
