(* ===== verification/Router_Loader.thy ===== *)
theory Router_Loader
  imports Xdp_Router Text
begin

text \<open>
  The user-space half of the routers, \<open>motivation/arena_router/loader.c\<close>: reading the routing
  dataset, and filling the table on the arena before the program is attached. The content of the file
  and the address of the arena are arguments; the main function is in \<open>Launch\<close>.
\<close>

definition MAX_ENTRIES :: nat where "MAX_ENTRIES = 2000000"
definition ARENA_NUM_PAGES :: nat where "ARENA_NUM_PAGES = 100000"

subsection \<open>The dataset\<close>

datatype reading = READING_IP | READING_PREFIX

text \<open>
  The two text buffers, of 16 and 8 bytes, are the bytes stored so far: their length is the offset
  \<open>ipv4_o\<close> and \<open>pref_o\<close>.
\<close>

record load_state =
  reading :: reading
  ipv4 :: "u8 list"
  pref :: "u8 list"
  key_o :: nat
  keys :: "lpm_dri_key_t list"

definition put_char :: "nat \<Rightarrow> u8 list \<Rightarrow> u8 \<Rightarrow> u8 list checked" where
  "put_char sz buf c = (if length buf < sz then Inr (buf @ [c]) else Inl Out_of_bounds)"

definition put_ip :: "load_state \<Rightarrow> u8 \<Rightarrow> load_state checked" where
  "put_ip s c =
     checked_bind (put_char 16 (ipv4 s) c) (\<lambda>b.
       if length b < 16 then Inr (s\<lparr>ipv4 := b\<rparr>) else Inl Assertion_failed)"

text \<open>The line is complete: the key is stored and the buffers are empty again.\<close>

definition end_line :: "load_state \<Rightarrow> load_state checked" where
  "end_line s =
     (let s = s\<lparr>reading := READING_IP\<rparr> in
      checked_bind (put_char 8 (pref s) 0) (\<lambda>b.
      checked_bind (read_at (keys s) (key_o s)) (\<lambda>k.
        let k = k\<lparr>prefixlen := of_nat (atoi (c_string b))\<rparr>;
            k = (case inet_pton (c_string (ipv4 s)) of None \<Rightarrow> k | Some d \<Rightarrow> k\<lparr>key_data := d\<rparr>)
        in Inr (s\<lparr>keys := (keys s)[key_o s := k], key_o := key_o s + 1, pref := [], ipv4 := []\<rparr>))))"

definition load_char :: "u8 \<Rightarrow> load_state \<Rightarrow> load_state checked" where
  "load_char c s =
     (if c = 0 then Inr s
      else case reading s of
        READING_IP \<Rightarrow>
          if IS_DIGIT c \<or> c = DOT then put_ip s c
          else if c = SLASH then put_ip (s\<lparr>reading := READING_PREFIX\<rparr>) 0
          else Inl Assertion_failed
      | READING_PREFIX \<Rightarrow>
          if IS_DIGIT c then checked_bind (put_char 8 (pref s) c) (\<lambda>b. Inr (s\<lparr>pref := b\<rparr>))
          else if c = LF then end_line s
          else Inl Assertion_failed)"

fun load_chars :: "u8 list \<Rightarrow> load_state \<Rightarrow> load_state checked" where
  "load_chars [] s = Inr s"
| "load_chars (c # cs) s = checked_bind (load_char c s) (load_chars cs)"

definition load_routing_dataset :: "u8 list \<Rightarrow> (lpm_dri_key_t list \<times> nat) checked" where
  "load_routing_dataset file =
     (let num_entries = length (filter (\<lambda>c. c = LF) file);
          s = \<lparr>reading = READING_IP, ipv4 = [], pref = [], key_o = 0,
               keys = replicate num_entries \<lparr>prefixlen = 0, key_data = 0\<rparr>\<rparr>
      in checked_bind (load_chars file s) (\<lambda>s. Inr (keys s, num_entries)))"

text \<open>The second, synthetic dataset.\<close>

definition load_routing_dataset2 :: "lpm_dri_key_t list \<times> nat" where
  "load_routing_dataset2 =
     (map (\<lambda>i. \<lparr>prefixlen = 24, key_data = push_bit 8 (of_nat i)\<rparr>) [0 ..< MAX_ENTRIES], MAX_ENTRIES)"

subsection \<open>Filling the table\<close>

text \<open>\<open>None\<close>: the allocator does not return.\<close>

fun install_rules :: "nat \<Rightarrow> lpm_dri_key_t list \<Rightarrow> lpm_dri \<Rightarrow> lpm_dri checked option" where
  "install_rules i [] d = Some (Inr d)"
| "install_rules i (k # ks) d =
     (case userspace_arena_lpm_dri_update_elem d k (value_text i) of
        None \<Rightarrow> None
      | Some (Inl e) \<Rightarrow> Some (Inl e)
      | Some (Inr (ret, d)) \<Rightarrow>
          if ret \<noteq> 0 then Some (Inl Assertion_failed) else install_rules (i + 1) ks d)"

definition dri_args :: dri_alloc_args where
  "dri_args = \<lparr>area_size = of_nat (ARENA_NUM_PAGES * PAGE_SIZE), key_size = 8,
     max_entries = of_nat MAX_ENTRIES, arg_value_size = of_nat VAL_SZ\<rparr>"

text \<open>The table that is shared with the program, or none when its allocation fails.\<close>

definition launch_arena_dri :: "addr \<Rightarrow> arena_mem \<Rightarrow> bytes \<Rightarrow> u8 list \<Rightarrow> lpm_dri option checked option" where
  "launch_arena_dri area m vb file =
     (if area = 0 then Some (Inl Assertion_failed)
      else case userspace_arena_lpm_dri_alloc area m vb dri_args of
        Inl _ \<Rightarrow> Some (Inr None)
      | Inr (d, alloc_pages) \<Rightarrow>
          (case load_routing_dataset file of
             Inl e \<Rightarrow> Some (Inl e)
           | Inr (ks, n) \<Rightarrow>
               (case install_rules 0 (take (min n MAX_ENTRIES) ks) d of
                  None \<Rightarrow> None
                | Some (Inl e) \<Rightarrow> Some (Inl e)
                | Some (Inr d) \<Rightarrow> Some (Inr (Some d)))))"

text \<open>The same with the trie; a key is the prefix length and the bytes of the address.\<close>

definition trie_key :: "lpm_dri_key_t \<Rightarrow> lpm_key" where
  "trie_key k =
     \<lparr>k_prefixlen = prefixlen k,
      k_data = (\<lambda>i. if i < 4 then ucast (drop_bit (8 * i) (key_data k)) else 0)\<rparr>"

fun install_routes :: "nat \<Rightarrow> lpm_dri_key_t list \<Rightarrow> lpm_trie \<Rightarrow> lpm_trie checked option" where
  "install_routes i [] t = Some (Inr t)"
| "install_routes i (k # ks) t =
     (case userspace_arena_trie_update_elem t (trie_key k) (value_text i) of
        None \<Rightarrow> None
      | Some (ret, t) \<Rightarrow>
          if ret \<noteq> 0 then Some (Inl Assertion_failed) else install_routes (i + 1) ks t)"

definition trie_args :: trie_alloc_args where
  "trie_args = \<lparr>a_key_size = 8, a_value_size = of_nat VAL_SZ, a_max_entries = 2 ^ 21\<rparr>"

definition launch_arena ::
  "addr \<Rightarrow> arena_mem \<Rightarrow> bytes \<Rightarrow> (addr \<Rightarrow> lpm_trie_node) \<Rightarrow> u8 list \<Rightarrow> lpm_trie option checked option" where
  "launch_arena area m vb ns file =
     (case userspace_arena_trie_alloc area m vb ns trie_args of
        Inl _ \<Rightarrow> Some (Inr None)
      | Inr t \<Rightarrow>
          (case load_routing_dataset file of
             Inl e \<Rightarrow> Some (Inl e)
           | Inr (ks, n) \<Rightarrow>
               (case install_routes 0 (take (min n MAX_ENTRIES) ks) t of
                  None \<Rightarrow> None
                | Some (Inl e) \<Rightarrow> Some (Inl e)
                | Some (Inr t) \<Rightarrow> Some (Inr (Some t)))))"

text \<open>The baseline fills the map of the kernel, whose update is an argument.\<close>

fun baseline_rules ::
  "('m \<Rightarrow> lpm_dri_key_t \<Rightarrow> bytes \<Rightarrow> int \<times> 'm) \<Rightarrow> nat \<Rightarrow> lpm_dri_key_t list \<Rightarrow> 'm \<Rightarrow> 'm checked" where
  "baseline_rules update i [] ipv4_lpm_map = Inr ipv4_lpm_map"
| "baseline_rules update i (k # ks) ipv4_lpm_map =
     (case update ipv4_lpm_map k (value_text i) of
        (ret, ipv4_lpm_map) \<Rightarrow>
          if ret \<noteq> 0 then Inl Assertion_failed else baseline_rules update (i + 1) ks ipv4_lpm_map)"

definition launch_baseline ::
  "('m \<Rightarrow> lpm_dri_key_t \<Rightarrow> bytes \<Rightarrow> int \<times> 'm) \<Rightarrow> 'm \<Rightarrow> u8 list \<Rightarrow> 'm checked" where
  "launch_baseline update ipv4_lpm_map file =
     checked_bind (load_routing_dataset file) (\<lambda>(ks, n).
       baseline_rules update 0 (take (min n MAX_ENTRIES) ks) ipv4_lpm_map)"

subsection \<open>The program that runs\<close>

datatype prog_t = BASELINE | ARENA | ARENA_DRI | ARENA_DRI_SW_PREFETCH

text \<open>\<open>strncmp (a, b, n) = 0\<close> for texts without a terminator inside.\<close>

definition strncmp_eq :: "u8 list \<Rightarrow> u8 list \<Rightarrow> nat \<Rightarrow> bool" where
  "strncmp_eq a b n \<longleftrightarrow> take n (a @ [0]) = take n (b @ [0])"

text \<open>The arguments without the name of the program; only the first is looked at.\<close>

definition selected_prog :: "u8 list list \<Rightarrow> prog_t" where
  "selected_prog argv =
     (case argv of
        [] \<Rightarrow> BASELINE
      | a # _ \<Rightarrow>
          if strncmp_eq a (str ''--arena'') 7 then ARENA
          else if strncmp_eq a (str ''--dri'') 5 then
            (if strncmp_eq a (str ''--dri-2'') 7 then ARENA_DRI_SW_PREFETCH else ARENA_DRI)
          else BASELINE)"

subsection \<open>Reading what was printed\<close>

type_synonym route = "u8 \<times> u8 \<times> u8 \<times> u8 \<times> nat"

abbreviation plen :: "route \<Rightarrow> nat" where "plen r \<equiv> snd (snd (snd (snd r)))"

fun route_text :: "route \<Rightarrow> u8 list" where
  "route_text (a, b, c, d, len) = ip_text a b c d @ [SLASH] @ dec len @ [LF]"

fun route_key :: "route \<Rightarrow> lpm_dri_key_t" where
  "route_key (a, b, c, d, len) = \<lparr>prefixlen = of_nat len, key_data = le32 a b c d\<rparr>"

fun short_text :: "route \<Rightarrow> bool" where
  "short_text (a, b, c, d, len) \<longleftrightarrow> length (ip_text a b c d) < 15"

definition dataset :: "route list \<Rightarrow> u8 list" where
  "dataset rs = concat (map route_text rs)"

lemma load_chars_append:
  "load_chars (xs @ ys) s = checked_bind (load_chars xs s) (load_chars ys)"
proof (induction xs arbitrary: s)
  case (Cons x xs)
  then show ?case by (cases "load_char x s") simp_all
qed simp

lemma digit_not_zero: "IS_DIGIT c \<Longrightarrow> c \<noteq> 0"
  by (auto simp: IS_DIGIT_def)

lemma load_ip:
  assumes "reading s = READING_IP" and "\<forall>c \<in> set cs. IS_DIGIT c \<or> c = DOT" and "length (ipv4 s) + length cs < 16"
  shows "load_chars cs s = Inr (s\<lparr>ipv4 := ipv4 s @ cs\<rparr>)"
  using assms
proof (induction cs arbitrary: s)
  case (Cons c cs)
  have "c \<noteq> 0" using Cons.prems(2) digit_not_zero by auto
  with Cons.prems have "load_char c s = Inr (s\<lparr>ipv4 := ipv4 s @ [c]\<rparr>)"
    by (auto simp: load_char_def put_ip_def put_char_def)
  with Cons.IH [of "s\<lparr>ipv4 := ipv4 s @ [c]\<rparr>"] Cons.prems show ?case by simp
qed simp

lemma load_prefix:
  assumes "reading s = READING_PREFIX" and "\<forall>c \<in> set cs. IS_DIGIT c" and "length (pref s) + length cs \<le> 8"
  shows "load_chars cs s = Inr (s\<lparr>pref := pref s @ cs\<rparr>)"
  using assms
proof (induction cs arbitrary: s)
  case (Cons c cs)
  have "c \<noteq> 0" using Cons.prems(2) digit_not_zero by auto
  with Cons.prems have "load_char c s = Inr (s\<lparr>pref := pref s @ [c]\<rparr>)"
    by (auto simp: load_char_def put_char_def)
  with Cons.IH [of "s\<lparr>pref := pref s @ [c]\<rparr>"] Cons.prems show ?case by simp
qed simp

lemma c_string_ip: "c_string (ip_text a b c d @ [0]) = ip_text a b c d"
  by (rule c_string_take) (use ip_text_chars digit_not_zero in fastforce)

lemma c_string_dec: "c_string (dec n @ [0]) = dec n"
  by (rule c_string_take) (use dec_digits digit_not_zero in blast)

text \<open>One line, read from the start of a line with a free key.\<close>

lemma load_route:
  assumes "reading s = READING_IP" "ipv4 s = []" "pref s = []" and "key_o s < length (keys s)"
    and "short_text (a, b, c, d, len)" and "len < 10 ^ 7"
  shows "load_chars (route_text (a, b, c, d, len)) s =
    Inr (s\<lparr>keys := (keys s)[key_o s := route_key (a, b, c, d, len)], key_o := key_o s + 1\<rparr>)"
proof -
  let ?t = "ip_text a b c d"
  define s1 where "s1 = s\<lparr>ipv4 := ?t\<rparr>"
  define s2 where "s2 = s\<lparr>ipv4 := ?t @ [0], reading := READING_PREFIX\<rparr>"
  define s3 where "s3 = s2\<lparr>pref := dec len\<rparr>"
  have l: "length ?t < 15" using assms(5) by simp
  have n: "length (dec len) \<le> 7" by (rule length_dec) (use assms(6) in simp_all)
  have r1: "load_chars ?t s = Inr s1"
    using load_ip [OF assms(1) ip_text_chars] l by (simp add: s1_def assms(2))
  have r2: "load_char SLASH s1 = Inr s2"
    using l by (simp add: load_char_def put_ip_def put_char_def s1_def s2_def assms(1) IS_DIGIT_def)
  have r3: "load_chars (dec len) s2 = Inr s3"
    using load_prefix [of s2 "dec len"] dec_digits n by (simp add: s2_def s3_def assms(3))
  have r4: "load_char LF s3 = Inr (s\<lparr>keys := (keys s)[key_o s := route_key (a, b, c, d, len)], key_o := key_o s + 1\<rparr>)"
    using n assms(1-4)
    by (cases s; cases "keys s ! key_o s")
      (simp add: load_char_def s3_def s2_def IS_DIGIT_def end_line_def put_char_def c_string_dec c_string_ip Let_def)
  show ?thesis
    by (simp only: route_text.simps load_chars_append load_chars.simps checked_bind.simps r1 r2 r3 r4)
qed


lemma load_routes:
  assumes "reading s = READING_IP" "ipv4 s = []" "pref s = []"
    and "\<forall>r \<in> set rs. short_text r \<and> plen r < 10 ^ 7"
    and "keys s = done' @ replicate (length rs + n) z" "key_o s = length done'"
  shows "load_chars (dataset rs) s =
    Inr (s\<lparr>keys := done' @ map route_key rs @ replicate n z, key_o := length done' + length rs\<rparr>)"
  using assms
proof (induction rs arbitrary: s done')
  case Nil
  then show ?case by (cases s) (simp add: dataset_def)
next
  case (Cons r rs)
  obtain a b c d len where r: "r = (a, b, c, d, len)" by (cases r) auto
  define s1 where "s1 = s\<lparr>keys := (done' @ [route_key r]) @ replicate (length rs + n) z, key_o := length (done' @ [route_key r])\<rparr>"
  have "load_chars (route_text r) s = Inr s1"
    using load_route [of s a b c d len] Cons.prems by (simp add: r s1_def)
  moreover have "load_chars (dataset rs) s1 =
      Inr (s1\<lparr>keys := (done' @ [route_key r]) @ map route_key rs @ replicate n z,
              key_o := length (done' @ [route_key r]) + length rs\<rparr>)"
    by (rule Cons.IH) (use Cons.prems in \<open>simp_all add: s1_def\<close>)
  ultimately show ?case
    by (simp add: dataset_def load_chars_append s1_def)
qed

lemma LF_not_in_dec: "LF \<notin> set (dec n)"
  using dec_digits [of n] by (auto simp: IS_DIGIT_def)

lemma LF_count: "length (filter (\<lambda>c. c = LF) (dataset rs)) = length rs"
proof (induction rs)
  case (Cons r rs)
  obtain a b c d len where r: "r = (a, b, c, d, len)" by (cases r) auto
  have "filter (\<lambda>c. c = LF) (dec m) = []" for m
    using LF_not_in_dec [of m] by (simp add: filter_empty_conv) metis
  then show ?case using Cons by (simp add: r dataset_def ip_text_def)
qed (simp add: dataset_def)

lemma load_dataset:
  assumes "\<forall>r \<in> set rs. short_text r \<and> plen r < 10 ^ 7"
  shows "load_routing_dataset (dataset rs) = Inr (map route_key rs, length rs)"
  using load_routes [of "\<lparr>reading = READING_IP, ipv4 = [], pref = [], key_o = 0,
      keys = replicate (length rs) \<lparr>prefixlen = 0, key_data = 0\<rparr>\<rparr>" rs "[]" 0
      "\<lparr>prefixlen = 0, key_data = 0\<rparr>"] assms
  by (simp add: load_routing_dataset_def LF_count Let_def)

text \<open>
  Printing and parsing: a dataset of routes whose addresses are printed with at most 14 characters is
  read back as it was.
\<close>

theorem load_dataset_roundtrip:
  assumes "\<forall>r \<in> set rs. short_text r \<and> plen r < 10 ^ 7"
  shows "load_routing_dataset (dataset rs) = Inr (map route_key rs, length rs)"
  using assms by (rule load_dataset)

text \<open>
  An address of 15 characters, as \<open>192.168.100.200\<close>, fits into the buffer with its terminator, but
  the assertion after the last store fails.
\<close>

theorem load_dataset_long_address:
  assumes "\<forall>r \<in> set rs. short_text r \<and> plen r < 10 ^ 7"
    and "length (ip_text a b c d) = 15"
  shows "load_routing_dataset (dataset (rs @ [(a, b, c, d, len)]) @ rst) = Inl Assertion_failed"
proof -
  let ?file = "dataset (rs @ [(a, b, c, d, len)]) @ rst"
  define n where "n = length (filter (\<lambda>c. c = LF) rst)"
  let ?z = "\<lparr>prefixlen = 0, key_data = 0\<rparr>"
  have split: "?file = dataset rs @ ip_text a b c d @ SLASH # (dec len @ [LF] @ rst)"
    by (simp add: dataset_def)
  have num: "length (filter (\<lambda>c. c = LF) ?file) = length rs + Suc n"
    using LF_count [of "rs @ [(a, b, c, d, len)]"] by (simp add: n_def)
  define s0 where "s0 = \<lparr>reading = READING_IP, ipv4 = [], pref = [], key_o = 0, keys = replicate (length rs + Suc n) ?z\<rparr>"
  obtain s1 where s1: "load_chars (dataset rs) s0 = Inr s1" "reading s1 = READING_IP" "ipv4 s1 = []"
    using load_routes [of s0 rs "[]" "Suc n" ?z] assms(1) by (simp add: s0_def)
  define s2 where "s2 = s1\<lparr>ipv4 := ip_text a b c d\<rparr>"
  have r2: "load_chars (ip_text a b c d) s1 = Inr s2"
    using load_ip [OF s1(2) ip_text_chars] assms(2) by (simp add: s2_def s1(3))
  have r3: "load_char SLASH s2 = Inl Assertion_failed"
    using assms(2) by (simp add: load_char_def put_ip_def put_char_def s2_def s1(2) IS_DIGIT_def)
  have "load_chars ?file s0 = Inl Assertion_failed"
    by (simp only: split load_chars_append load_chars.simps checked_bind.simps s1(1) r2 r3)
  then show ?thesis
    by (simp only: load_routing_dataset_def num s0_def Let_def checked_bind.simps)
qed

text \<open>The rules that a dataset stands for, the oldest first.\<close>

definition rules_of :: "route list \<Rightarrow> rule list" where
  "rules_of rs = map (\<lambda>(i, r). (route_key r, value_text i)) (enumerate 0 (take MAX_ENTRIES rs))"

lemma install_updates:
  assumes "install_rules i ks d = Some (Inr d')"
  shows "dri_updates d (map (\<lambda>(i, k). (k, value_text i)) (enumerate i ks)) = Some d'"
  using assms
  by (induction ks arbitrary: i d) (auto split: option.splits sum.splits if_splits)

lemma updates_install:
  assumes "dri_updates d (map (\<lambda>(i, k). (k, value_text i)) (enumerate i ks)) = Some d'"
  shows "install_rules i ks d = Some (Inr d')"
  using assms
  by (induction ks arbitrary: i d) (auto split: option.splits sum.splits if_splits)

lemma rules_of_keys:
  "rules_of rs = map (\<lambda>(i, k). (k, value_text i)) (enumerate 0 (take MAX_ENTRIES (map route_key rs)))"
proof -
  have "enumerate i (map f xs) = map (\<lambda>(i, x). (i, f x)) (enumerate i xs)" for i :: nat and f :: "route \<Rightarrow> lpm_dri_key_t" and xs
    by (induction xs arbitrary: i) simp_all
  then show ?thesis by (simp add: rules_of_def take_map comp_def case_prod_unfold)
qed

lemma launch_arena_dri_dataset:
  assumes "\<forall>r \<in> set rs. short_text r \<and> plen r < 10 ^ 7"
  shows "launch_arena_dri area m vb (dataset rs) = Some (Inr (Some d)) \<longleftrightarrow>
    area \<noteq> 0 \<and> (\<exists>d0 k. userspace_arena_lpm_dri_alloc area m vb dri_args = Inr (d0, k)
      \<and> dri_updates d0 (rules_of rs) = Some d)"
proof -
  let ?ks = "take MAX_ENTRIES (map route_key rs)"
  have ks: "take (min (length rs) MAX_ENTRIES) (map route_key rs) = ?ks"
    by (cases "length rs \<le> MAX_ENTRIES") (simp_all add: min_def)
  have iff: "install_rules 0 ?ks d0 = Some (Inr d) \<longleftrightarrow> dri_updates d0 (rules_of rs) = Some d" for d0
    using install_updates updates_install unfolding rules_of_keys by metis
  then show ?thesis
    by (auto simp: launch_arena_dri_def load_dataset [OF assms] ks iff [symmetric]
        split: sum.splits option.splits)
qed

text \<open>
  C23. From the text of the dataset to the replies: when user space has filled the direct tables from a
  dataset of routes with prefixes of at most 24 bits, the router answers a request for addresses
  with the texts of the longest matching lines of the dataset (of the later one among equals), in
  order.
\<close>

theorem router_from_dataset:
  assumes txts: "\<forall>r \<in> set rs. short_text r \<and> plen r \<le> 24"
    and launch: "launch_arena_dri area m vb (dataset rs) = Some (Inr (Some d))"
    and area: "area \<le> 2 ^ 63"
    and req: "tail_contract adj" "length p < 2 ^ 15" "request_count p = Inr n"
  shows "served XDP_PASS adj VAL_SZ (request_values 4 (rule_value (rev (rules_of rs))) p n) p
    (dri_router_main adj (Some d) p s)"
proof -
  have "\<forall>r \<in> set rs. short_text r \<and> plen r < 10 ^ 7"
  proof
    fix r assume "r \<in> set rs"
    with txts have "short_text r" "plen r \<le> 24" by blast+
    then show "short_text r \<and> plen r < 10 ^ 7" by simp
  qed
  from launch [unfolded launch_arena_dri_dataset [OF this]] obtain d0 k where
    al: "userspace_arena_lpm_dri_alloc area m vb dri_args = Inr (d0, k)" and
    upd: "dri_updates d0 (rules_of rs) = Some d" by blast
  have short: "\<forall>(key, v) \<in> set (rules_of rs). unat (prefixlen key) \<le> 24"
  proof (clarsimp simp: rules_of_def)
    fix i a b c e len assume "(i, a, b, c, e, len) \<in> set (enumerate 0 (take MAX_ENTRIES rs))"
    then have "(a, b, c, e, len) \<in> set rs"
      unfolding enumerate_eq_zip by (rule in_set_takeD [OF set_zip_rightD])
    from bspec [OF txts this] have "len \<le> 24" by simp
    then show "unat (word_of_nat len :: u32) \<le> 24" by (simp add: unat_of_nat_small)
  qed
  show ?thesis
    by (rule dri_router_serves_rules [OF al area _ _ short upd req])
      (simp_all add: dri_args_def VAL_SZ_def MAX_ENTRIES_def)
qed

subsection \<open>Examples\<close>

lemma text_10: "ip_text 10 0 0 0 = str ''10.0.0.0''" and text_24: "dec 24 = str ''24''"
  by (simp_all add: ip_text_def dec.simps)

definition routes_ex :: "route list" where "routes_ex = [(10, 0, 0, 0, 24)]"

lemma dataset_ex: "dataset routes_ex = str ''10.0.0.0/24'' @ [LF]"
  by (simp add: dataset_def routes_ex_def text_10 text_24)

lemma routes_ex_ok: "\<forall>r \<in> set routes_ex. short_text r \<and> plen r \<le> 24"
  by (simp add: routes_ex_def text_10)

theorem load_dataset_roundtrip_witness:
  "load_routing_dataset (str ''10.0.0.0/24'' @ [LF]) = Inr ([\<lparr>prefixlen = 24, key_data = 0xa\<rparr>], 1)"
  using load_dataset_roundtrip [of routes_ex]
  unfolding dataset_ex by (simp add: routes_ex_def text_10 le32_def)

theorem load_dataset_long_address_witness:
  "load_routing_dataset (dataset [(192, 168, 100, 200, 24)]) = Inl Assertion_failed"
proof -
  have "ip_text 192 168 100 200 = str ''192.168.100.200''" by (simp add: ip_text_def dec.simps)
  with load_dataset_long_address [of "[]" 192 168 100 200 24 "[]"] show ?thesis by simp
qed

definition loader_ex0 :: lpm_dri where
  "loader_ex0 = dri_ex0\<lparr>value_size := 32, pool := snd (create_mem_region_obj mm_blank 218370096 128004048 4136)\<rparr>"

lemma loader_ex0_alloc:
  "\<exists>k. userspace_arena_lpm_dri_alloc 4096 mm_blank (\<lambda>_. 0) dri_args = Inr (loader_ex0, k)"
  by (simp add: userspace_arena_lpm_dri_alloc_def dri_args_def dri_consts HDR_SZ_def PAGE_SIZE_def
      VAL_SZ_def MAX_ENTRIES_def ARENA_NUM_PAGES_def
      COUNT_OBJ_def Let_def create_mem_region_obj_def MIN_SIZE_def dri_ex0_def loader_ex0_def)

lemma loader_ex_launch:
  "\<exists>d. launch_arena_dri 4096 mm_blank (\<lambda>_. 0) (dataset routes_ex) = Some (Inr (Some d))"
proof -
  have "\<exists>m. just_alloc (pool loader_ex0) 4136 32 = Some (218370128, m)"
    by (simp add: loader_ex0_def dri_ex0_def create_mem_region_obj_def MIN_SIZE_def HDR_SZ_def just_alloc_def
      find_fit.simps [of _ 32 "First 4136" 218370096] MAX_SIZE_def region_defs Let_def mm_blank_def
      split: prod.splits)
  then obtain m where m: "just_alloc (pool loader_ex0) 4136 32 = Some (218370128, m)" by blast
  have e: "mem_handle loader_ex0 = 4136" "value_size loader_ex0 = 32" "tbl_24_sz loader_ex0 = 218103808"
    "tbl_24 loader_ex0 i = \<lparr>state = 0, e_prefixlen = 0, union_word = 0\<rparr>" for i
    by (simp_all add: dri_ex0_def loader_ex0_def)
  have "bswap32 0xa = 0xa000000"
    by (simp add: bswap32_def le32_def drop_bit_eq_div push_bit_eq_mult)
  with m have "\<exists>d. dri_updates loader_ex0 [(dri_ex_key, value_text 0)] = Some d"
    by (simp add: userspace_arena_lpm_dri_update_elem_def e dri_ex_key_def store_value_def
        update_tbl_24_def DRI_ENTRY_SZ_def NOT_SET_def Let_def drop_bit_eq_div)
  moreover have "rules_of routes_ex = [(dri_ex_key, value_text 0)]"
    by (simp add: rules_of_def routes_ex_def MAX_ENTRIES_def dri_ex_key_def le32_def)
  moreover have "\<forall>r \<in> set routes_ex. short_text r \<and> plen r < 10 ^ 7"
    by (simp add: routes_ex_def text_10)
  ultimately show ?thesis
    using loader_ex0_alloc launch_arena_dri_dataset [of routes_ex 4096 mm_blank "\<lambda>_. 0"] by auto
qed

theorem router_from_dataset_witness:
  "\<exists>d q s. launch_arena_dri 4096 mm_blank (\<lambda>_. 0) (dataset [(10, 0, 0, 0, 24)]) = Some (Inr (Some d))
     \<and> dri_router_main cut_or_pad (Some d) (take 42 udp_ex @ [1, 0, 0, 0, 10, 0, 0, 7]) (\<lambda>_. [])
         = Inr (XDP_TX, q, s)
     \<and> drop 42 q = str ''hello 0'' @ [LF] @ replicate 24 0"
proof -
  obtain d where d: "launch_arena_dri 4096 mm_blank (\<lambda>_. 0) (dataset routes_ex) = Some (Inr (Some d))"
    using loader_ex_launch by blast
  have l: "length router_request < 2 ^ 15" by (simp add: router_request_ok)
  have c: "covered_by (bswap32 0x0700000a) dri_ex_key"
    by (simp add: covered_by_def dri_ex_key_def bswap32_def le32_def drop_bit_eq_div push_bit_eq_mult Let_def)
  have r: "rules_of routes_ex = [(dri_ex_key, value_text 0)]"
    by (simp add: rules_of_def routes_ex_def MAX_ENTRIES_def dri_ex_key_def le32_def)
  have v: "map (value_text 0) [0 ..< VAL_SZ] = str ''hello 0'' @ [LF] @ replicate 24 0"
    by (simp add: value_text_def hello_def dec.simps VAL_SZ_def upt_rec, simp add: numeral_eq_Suc)
  have "request_values 4 (rule_value (rev (rules_of routes_ex))) router_request 1
      = Some [str ''hello 0'' @ [LF] @ replicate 24 0]"
    using c v by (simp add: r request_values_def key_off_def request_consts rule_value_def router_request_ok)
  with router_from_dataset [OF routes_ex_ok d _ cut_or_pad_contract l router_request_ok(1), of "\<lambda>_. []"] d
  show ?thesis
    unfolding router_request_def [symmetric] routes_ex_def [symmetric]
    by (auto simp: served_def resizable_cut reply_to_def request_consts VAL_SZ_def)
qed

end
