(* ===== verification/Htab_Loader.thy ===== *)
theory Htab_Loader
  imports Xdp_Kv Kv_Batch Text
begin

text \<open>
  The user-space side of the key-value programs: \<open>motivation/arena_htab/loader.c\<close> with its own copy
  of the table, \<open>include/bpf_arena_htab.h\<close>, and \<open>motivation/batch_api/htab_example/loader.c\<close>,
  which uses the table of the library. The main functions, which load and attach the
  programs, are in \<open>Launch\<close>; the address and the content of the arena are arguments.
\<close>

subsection \<open>The copy of the table\<close>

text \<open>
  The lookup is that of the theory \<open>Htab\<close>. The memory for the entries is computed from the size of
  a value only, entries start at a page, and the bucket heads are not cleared: the code
  relies on fresh pages. \<open>int\<close> holds the sizes.
\<close>

definition htab_init_copy :: "htab_cfg \<Rightarrow> htab_mem \<Rightarrow> addr \<Rightarrow> u32 \<Rightarrow> (htab \<times> htab_mem) checked" where
  "htab_init_copy c m area max_entries =
     checked_bind (round_up_pow_two (ucast max_entries)) (\<lambda>n.
       let htab_size_rounded = 64;
           mem_sz_buckets = n * 8 + htab_size_rounded;
           mem_sz_entries = unat max_entries * unat (val_sz c);
           count_bucket_page = (mem_sz_buckets + 4096 - 1) div 4096;
           count_value_page = (mem_sz_entries + 4096 - 1) div 4096;
           count_pages = count_bucket_page + count_value_page;
           m = touch_pages m area count_pages
       in if mem_sz_buckets < 2 ^ 31 \<and> mem_sz_entries < 2 ^ 31 \<and> count_bucket_page * 4096 < 2 ^ 31
            \<and> count_value_page * 4096 < 2 ^ 31
          then Inr (\<lparr>buckets = area + htab_size_rounded, n_buckets = of_nat n,
                     elems = area + count_bucket_page * 4096,
                     elems_sz = of_nat (count_value_page * 4096), elems_used = 0\<rparr>, m)
          else Inl Signed_overflow)"

text \<open>
  The programs on the arena read the table with the lookup of the copy, whose walk jumps to \<open>next_item\<close> when the hash
  differs and falls through to it when the key does. It finds what the walk of the library finds.
\<close>

fun lookup_walk_copy :: "htab_mem \<Rightarrow> u32 \<Rightarrow> bytes \<Rightarrow> u16 \<Rightarrow> nat \<Rightarrow> addr \<Rightarrow> addr" where
  "lookup_walk_copy m hash key ksz 0 l = 0"
| "lookup_walk_copy m hash key ksz (Suc k) l =
     (if l = 0 then 0
      else if hash_at m l = hash \<and> my_memcmp (bytes_at m (EXTRACT_KEY l)) key ksz = 0 then l
      else lookup_walk_copy m hash key ksz k (words m l))"

definition htab_lookup_copy :: "htab_cfg \<Rightarrow> htab \<Rightarrow> htab_mem \<Rightarrow> bytes \<Rightarrow> addr" where
  "htab_lookup_copy c t m key =
     (let hash = htab_hash key (key_sz c);
          head = select_bucket t hash;
          l_old = lookup_walk_copy m hash key (key_sz c) 8 (words m head)
      in if l_old \<noteq> 0 then EXTRACT_VAL c l_old else 0)"

lemma walk_copy_same: "lookup_walk_copy m hash key ksz k l = lookup_walk m hash key ksz k l"
  by (induction k arbitrary: l) auto

lemma htab_lookup_copy_same: "htab_lookup_copy c t m key = htab_lookup_elem c t m key"
  by (simp add: htab_lookup_copy_def htab_lookup_elem_def lookup_elem_raw_def walk_copy_same MAX_BUCKET_LENGHT_def Let_def)

text \<open>An update allocates and links a new element in any case, then deletes the old one from its list.\<close>

definition htab_update_copy ::
  "htab_cfg \<Rightarrow> htab \<Rightarrow> htab_mem \<Rightarrow> bytes \<Rightarrow> bytes \<Rightarrow> (int \<times> htab \<times> htab_mem) checked" where
  "htab_update_copy c t m key value =
     (let hash = htab_hash key (key_sz c);
          head = select_bucket t hash;
          l_old = lookup_elem_raw m head hash key (key_sz c);
          elem_sz = of_nat (HTAB_ENTRY_SZ c);
          (l_new, t) =
            (if elem_sz < elems_sz t - elems_used t
             then (elems t + unat (elems_used t), t\<lparr>elems_used := elems_used t + elem_sz\<rparr>)
             else (0, t))
      in if l_new = 0 then Inr (- ENOMEM, t, m)
         else
           let m = m\<lparr>hash_at := (hash_at m)(l_new := hash)\<rparr>;
               l_key = EXTRACT_KEY l_new;
               m = set_bytes m l_key (unat (key_sz c)) key;
               l_val = l_key + unat (key_sz c);
               m = set_bytes m l_val (unat (val_sz c)) value;
               m = m\<lparr>words := list_add_head_userspace (words m) l_new head\<rparr>;
               m = (if l_old \<noteq> 0 then m\<lparr>words := list_del (words m) l_old\<rparr> else m)
           in Inr (0, t, m))"

subsection \<open>The loaders\<close>

text \<open>The key \<open>{.dport = i}\<close>, or \<open>i\<close> stored into the bytes of a key.\<close>

definition int_key :: "nat \<Rightarrow> bytes" where
  "int_key i = (\<lambda>j. if j < 4 then ucast (drop_bit (8 * j) (of_nat i :: u32)) else 0)"

text \<open>The loop: it ends at the first update that fails, and the table is used as it is.\<close>

fun load_items ::
  "(htab \<Rightarrow> htab_mem \<Rightarrow> bytes \<Rightarrow> bytes \<Rightarrow> (int \<times> htab \<times> htab_mem) checked) \<Rightarrow> (nat \<Rightarrow> bytes)
     \<Rightarrow> nat \<Rightarrow> nat \<Rightarrow> htab \<Rightarrow> htab_mem \<Rightarrow> (htab \<times> htab_mem) checked" where
  "load_items upd val 0 i t m = Inr (t, m)"
| "load_items upd val (Suc n) i t m =
     checked_bind (upd t m (int_key i) (val i)) (\<lambda>(ret, t, m).
       if ret \<noteq> 0 then Inr (t, m) else load_items upd val n (i + 1) t m)"

definition number_of_items :: nat where "number_of_items = 2000000"

definition prepare_arena_htab_for_xdp :: "addr \<Rightarrow> htab_mem \<Rightarrow> (htab \<times> htab_mem) checked" where
  "prepare_arena_htab_for_xdp area m =
     checked_bind (htab_init_copy kv_cfg m area 8000000) (\<lambda>(t, m).
       load_items (htab_update_copy kv_cfg) value_text number_of_items 0 t m)"

text \<open>The baseline fills the map of the kernel and goes on after a failed update.\<close>

fun cappuccino_items :: "('m \<Rightarrow> u32 \<Rightarrow> bytes \<Rightarrow> int \<times> 'm) \<Rightarrow> nat \<Rightarrow> nat \<Rightarrow> 'm \<Rightarrow> 'm" where
  "cappuccino_items update 0 i rules = rules"
| "cappuccino_items update (Suc n) i rules =
     (let (ret, rules) = update rules (of_nat i) (value_text i) in cappuccino_items update n (i + 1) rules)"

text \<open>The batch experiment: the last five bytes of a value are \<open>"END\r\n"\<close>.\<close>

definition HTAB_MAX_ENTRIES :: nat where "HTAB_MAX_ENTRIES = 8000000"

definition end_text :: "nat \<Rightarrow> bytes" where
  "end_text i = (\<lambda>j. if VAL_SZ - 5 \<le> j \<and> j < VAL_SZ then (str ''END'' @ [CR, LF]) ! (j - (VAL_SZ - 5)) else value_text i j)"

definition prepare_batch_htab :: "nat \<Rightarrow> addr \<Rightarrow> htab_mem \<Rightarrow> (htab \<times> htab_mem) checked" where
  "prepare_batch_htab entries area m =
     checked_bind (htab_init_userspace kv_cfg m area (of_nat HTAB_MAX_ENTRIES)) (\<lambda>(t, m).
       load_items (htab_update_elem_userspace kv_cfg) end_text entries 0 t m)"

subsection \<open>A table of numbered keys\<close>

text \<open>Element \<open>j\<close> has the key \<open>ks j\<close> and the value \<open>vs j\<close>, and the newest elements lead the buckets.\<close>

definition in_bucket :: "htab_cfg \<Rightarrow> htab \<Rightarrow> (nat \<Rightarrow> bytes) \<Rightarrow> nat \<Rightarrow> nat \<Rightarrow> nat list" where
  "in_bucket c t ks n b = rev (filter (\<lambda>j. bucket_of c t (ks j) = b) [0 ..< n])"

definition loaded :: "htab_cfg \<Rightarrow> htab \<Rightarrow> htab_mem \<Rightarrow> (nat \<Rightarrow> bytes) \<Rightarrow> (nat \<Rightarrow> bytes) \<Rightarrow> nat \<Rightarrow> bool" where
  "loaded c t m ks vs n \<longleftrightarrow> htab_inv c t m n (in_bucket c t ks n)
     \<and> (\<forall>j < n. same_key c (key_at c t m j) (ks j)
          \<and> (\<forall>i < unat (val_sz c). bytes_at m (EXTRACT_VAL c (slot c t j)) i = vs j i))"

text \<open>How many later keys fall into the bucket of key \<open>i\<close>: eight of them hide it.\<close>

definition hidden_by :: "htab_cfg \<Rightarrow> htab \<Rightarrow> (nat \<Rightarrow> bytes) \<Rightarrow> nat \<Rightarrow> nat \<Rightarrow> nat" where
  "hidden_by c t ks n i = length (filter (\<lambda>j. bucket_of c t (ks j) = bucket_of c t (ks i)) [Suc i ..< n])"

lemma loaded_step:
  assumes l: "loaded c t m ks vs n" and room: "unat (elems_used t) + HTAB_ENTRY_SZ c \<le> unat (elems_sz t)"
  shows "loaded c (t\<lparr>elems_used := elems_used t + of_nat (HTAB_ENTRY_SZ c)\<rparr>)
    (stored c m (slot c t n) (htab_hash (ks n) (key_sz c)) (ks n) (vs n) (buckets t + 8 * bucket_of c t (ks n)))
    ks vs (Suc n)"
proof -
  have inv: "htab_inv c t m n (in_bucket c t ks n)" using l by (simp add: loaded_def)
  then have ksz: "unat (key_sz c) \<le> MEM_LIMIT" by (simp add: htab_inv_def htab_shape_def)
  have I: "insert_index (in_bucket c t ks n) (bucket_of c t (ks n)) n = in_bucket c t ks (Suc n)"
    by (auto simp: in_bucket_def fun_eq_iff)
  have t: "in_bucket c (t\<lparr>elems_used := u\<rparr>) = in_bucket c t" for u by (simp add: in_bucket_def fun_eq_iff)
  show ?thesis
    using l stored_inv [OF inv room, of "ks n" "vs n"] stored_keys [OF ksz]
    by (auto simp: loaded_def I t same_key_def less_Suc_eq)
qed

lemma find_rev_filter:
  assumes "i < n" and "P i" and "\<And>j. j < n \<Longrightarrow> P j \<Longrightarrow> Q j \<longleftrightarrow> j = i"
  shows "find Q (take k (rev (filter P [0 ..< n])))
    = (if length (filter P [Suc i ..< n]) < k then Some i else None)"
proof -
  have split: "[0 ..< n] = [0 ..< i] @ i # [Suc i ..< n]"
    using assms(1) by (metis append.simps(1) less_imp_le_nat upt_add_eq_append upt_conv_Cons zero_le add_0 le_add_diff_inverse)
  let ?a = "rev (filter P [Suc i ..< n])" and ?b = "rev (filter P [0 ..< i])"
  have e: "rev (filter P [0 ..< n]) = ?a @ i # ?b" unfolding split using assms(2) by simp
  have none: "find Q xs = None" if "set xs \<subseteq> {j. j < n \<and> P j \<and> j \<noteq> i}" for xs
    using that assms(3) by (auto simp: find_None_iff)
  have a: "find Q (take j ?a) = None" for j
    by (rule none) (auto dest!: in_set_takeD)
  have fa: "find Q (xs @ ys) = (case find Q xs of None \<Rightarrow> find Q ys | Some x \<Rightarrow> Some x)" for xs ys
    by (induction xs) auto
  show ?thesis
  proof (cases "length (filter P [Suc i ..< n]) < k")
    case True
    then obtain d where "k - length ?a = Suc d" by (metis length_rev Suc_diff_Suc)
    moreover have "find Q ?a = None" using a [of "length ?a"] by simp
    ultimately show ?thesis using True assms by (simp add: e fa)
  next
    case False
    then show ?thesis using a by (simp add: e)
  qed
qed

lemma loaded_find:
  assumes l: "loaded c t m ks vs n"
    and d: "\<And>i j. i < n \<Longrightarrow> j < n \<Longrightarrow> same_key c (ks i) (ks j) \<Longrightarrow> i = j"
  shows "i < n \<Longrightarrow> same_key c (ks i) key \<Longrightarrow> htab_find c t m (in_bucket c t ks n) key
      = (if hidden_by c t ks n i < MAX_BUCKET_LENGHT then Some i else None)"
    and "\<forall>i < n. \<not> same_key c (ks i) key \<Longrightarrow> htab_find c t m (in_bucket c t ks n) key = None"
proof -
  have k: "same_key c (key_at c t m j) k \<longleftrightarrow> same_key c (ks j) k" if "j < n" for j k
    using l that by (auto simp: loaded_def same_key_def)
  show "htab_find c t m (in_bucket c t ks n) key
      = (if hidden_by c t ks n i < MAX_BUCKET_LENGHT then Some i else None)"
    if i: "i < n" "same_key c (ks i) key"
    unfolding htab_find_def in_bucket_def hidden_by_def same_key_bucket [OF i(2)]
  proof (rule find_rev_filter [OF i(1)])
    fix j assume j: "j < n"
    have "same_key c (ks j) key \<longleftrightarrow> same_key c (ks i) (ks j)" using i(2) by (auto simp: same_key_def)
    then show "same_key c (key_at c t m j) key \<longleftrightarrow> j = i" using k [OF j, of key] d [OF i(1) j] by (metis same_key_refl)
  qed (simp add: same_key_bucket [OF i(2)])
  show "htab_find c t m (in_bucket c t ks n) key = None" if "\<forall>i < n. \<not> same_key c (ks i) key"
    using that k by (auto simp: htab_find_def in_bucket_def find_None_iff dest!: in_set_takeD)
qed

subsection \<open>Filling\<close>

text \<open>An update as the loaders use it: it adds a fresh key, or fails without an effect when there is no room.\<close>

locale table_fill =
  fixes c :: htab_cfg
    and room :: "htab \<Rightarrow> bool"
    and upd :: "htab \<Rightarrow> htab_mem \<Rightarrow> bytes \<Rightarrow> bytes \<Rightarrow> (int \<times> htab \<times> htab_mem) checked"
  assumes fits: "\<lbrakk>htab_shape c t cnt; room t\<rbrakk> \<Longrightarrow> unat (elems_used t) + HTAB_ENTRY_SZ c \<le> unat (elems_sz t)"
    and insert: "\<lbrakk>htab_inv c t m cnt I; htab_find c t m I key = None; room t\<rbrakk> \<Longrightarrow>
      upd t m key v = Inr (0, t\<lparr>elems_used := elems_used t + of_nat (HTAB_ENTRY_SZ c)\<rparr>,
        stored c m (slot c t cnt) (htab_hash key (key_sz c)) key v (buckets t + 8 * bucket_of c t key))"
    and full: "\<lbrakk>htab_inv c t m cnt I; htab_find c t m I key = None; \<not> room t\<rbrakk> \<Longrightarrow>
      upd t m key v = Inr (- ENOMEM, t, m)"
begin

lemma fill_step:
  assumes l: "loaded c t m int_key vs n" and r: "room t"
    and d: "\<And>i j. i \<le> n \<Longrightarrow> j \<le> n \<Longrightarrow> same_key c (int_key i) (int_key j) \<Longrightarrow> i = j"
  shows "\<exists>m'. upd t m (int_key n) (vs n) = Inr (0, t\<lparr>elems_used := elems_used t + of_nat (HTAB_ENTRY_SZ c)\<rparr>, m')
    \<and> loaded c (t\<lparr>elems_used := elems_used t + of_nat (HTAB_ENTRY_SZ c)\<rparr>) m' int_key vs (Suc n)"
proof -
  have inv: "htab_inv c t m n (in_bucket c t int_key n)" using l by (simp add: loaded_def)
  have new: "htab_find c t m (in_bucket c t int_key n) (int_key n) = None"
  proof (rule loaded_find(2) [OF l])
    show "i = j" if "i < n" "j < n" "same_key c (int_key i) (int_key j)" for i j
      using d [OF _ _ that(3)] that by simp
    show "\<forall>i < n. \<not> same_key c (int_key i) (int_key n)" using d by (metis le_refl less_imp_le_nat less_irrefl)
  qed
  have "unat (elems_used t) + HTAB_ENTRY_SZ c \<le> unat (elems_sz t)"
    using fits r inv by (auto simp: htab_inv_def)
  from insert [OF inv new r, of "vs n"] loaded_step [OF l this] show ?thesis by blast
qed

text \<open>As long as there is room, the items are stored one after the other.\<close>

lemma load_items_loaded:
  assumes "loaded c t m int_key vs i"
    and "\<And>k. k < n \<Longrightarrow> room (t\<lparr>elems_used := elems_used t + of_nat (k * HTAB_ENTRY_SZ c)\<rparr>)"
    and "\<And>a b. a < i + n \<Longrightarrow> b < i + n \<Longrightarrow> same_key c (int_key a) (int_key b) \<Longrightarrow> a = b"
  shows "\<exists>m'. load_items upd vs n i t m =
      Inr (t\<lparr>elems_used := elems_used t + of_nat (n * HTAB_ENTRY_SZ c)\<rparr>, m')
    \<and> loaded c (t\<lparr>elems_used := elems_used t + of_nat (n * HTAB_ENTRY_SZ c)\<rparr>) m' int_key vs (i + n)"
  using assms
proof (induction n arbitrary: i t m)
  case 0
  then show ?case by simp
next
  case (Suc n)
  let ?t = "t\<lparr>elems_used := elems_used t + of_nat (HTAB_ENTRY_SZ c)\<rparr>"
  have r: "room t" using Suc.prems(2) [of 0] by simp
  obtain m1 where m1: "upd t m (int_key i) (vs i) = Inr (0, ?t, m1)" "loaded c ?t m1 int_key vs (Suc i)"
    using fill_step [OF Suc.prems(1) r] Suc.prems(3) by fastforce
  have "room (?t\<lparr>elems_used := elems_used ?t + of_nat (k * HTAB_ENTRY_SZ c)\<rparr>)" if "k < n" for k
    using Suc.prems(2) [of "Suc k"] that by (simp add: add.assoc)
  from Suc.IH [OF m1(2) this] Suc.prems(3) show ?case
    by (simp add: m1(1) add.assoc)
qed

end

text \<open>The table of the library has room for one more element; the copy wants a byte more.\<close>

definition has_room :: "htab_cfg \<Rightarrow> htab \<Rightarrow> bool" where
  "has_room c t \<longleftrightarrow> unat (elems_used t) + HTAB_ENTRY_SZ c \<le> unat (elems_sz t)"

definition has_room_copy :: "htab_cfg \<Rightarrow> htab \<Rightarrow> bool" where
  "has_room_copy c t \<longleftrightarrow> of_nat (HTAB_ENTRY_SZ c) < elems_sz t - elems_used t"

lemma unat_entry_sz: "unat (of_nat (HTAB_ENTRY_SZ c) :: u64) = HTAB_ENTRY_SZ c"
proof (rule unat_of_nat_small)
  show "HTAB_ENTRY_SZ c < 2 ^ LENGTH(64)"
    using unat_bound [of "key_sz c"] unat_bound [of "val_sz c"]
    by (simp add: HTAB_ENTRY_SZ_def ELEM_HDR_def)
qed

lemma has_room_copy_room:
  assumes "htab_shape c t cnt"
  shows "has_room_copy c t \<longleftrightarrow> unat (elems_used t) + HTAB_ENTRY_SZ c < unat (elems_sz t)"
proof -
  have "elems_used t \<le> elems_sz t" using assms by (simp add: htab_shape_def)
  then have "unat (elems_sz t - elems_used t) = unat (elems_sz t) - unat (elems_used t)"
    and "unat (elems_used t) \<le> unat (elems_sz t)"
    by (simp_all add: unat_sub word_le_nat_alt)
  then show ?thesis by (auto simp: has_room_copy_def word_less_nat_alt unat_entry_sz)
qed

lemma fresh_lookup:
  assumes "htab_inv c t m cnt I" and "htab_find c t m I key = None"
  shows "lookup_elem_raw m (buckets t + 8 * bucket_of c t key) (htab_hash key (key_sz c)) key (key_sz c) = 0"
  using lookup_elem_raw_find [OF assms(1), of key] assms(2)
  by (simp add: found_def select_bucket_def bucket_of_def)

interpretation lib_fill: table_fill c "has_room c" "htab_update_elem_userspace c" for c
proof unfold_locales
  fix t m cnt I key v
  assume inv: "htab_inv c t m cnt I" and new: "htab_find c t m I key = None"
  show "htab_update_elem_userspace c t m key v = Inr (- ENOMEM, t, m)" if "\<not> has_room c t"
  proof -
    have "htab_entry_get c t = (0, t)"
      by (rule entry_get_full [where cnt = cnt])
        (use inv that in \<open>auto simp: htab_inv_def has_room_def\<close>)
    then show ?thesis
      using fresh_lookup [OF inv new]
      by (simp add: htab_update_elem_userspace_def htab_update_elem_def select_bucket_def bucket_of_def Let_def)
  qed
qed (auto simp: has_room_def htab_update_elem_userspace_def htab_update_fresh)

lemma userspace_add [simp]: "list_add_head_userspace = list_add_head"
  by (simp add: fun_eq_iff list_add_head_userspace_def list_add_head_def)

lemma copy_stored:
  assumes "unat (key_sz c) \<le> MEM_LIMIT" and "unat (val_sz c) \<le> MEM_LIMIT"
  shows "set_bytes (set_bytes (m\<lparr>hash_at := h\<rparr>) (EXTRACT_KEY n) (unat (key_sz c)) key)
      (EXTRACT_KEY n + unat (key_sz c)) (unat (val_sz c)) v\<lparr>words := w\<rparr>
    = \<lparr>words = w, hash_at = h,
      byte_at = (\<lambda>a. if n + 24 \<le> a \<and> a < n + 24 + unat (key_sz c) then key (a - (n + 24))
        else if n + 24 + unat (key_sz c) \<le> a \<and> a < n + HTAB_ENTRY_SZ c
             then v (a - (n + 24 + unat (key_sz c))) else byte_at m a)\<rparr>"
  using entry_sz_ge [of c, symmetric]
  by (intro htab_mem.equality) (auto simp: set_bytes_def EXTRACT_KEY_def ELEM_HDR_def fun_eq_iff)

interpretation copy_fill: table_fill c "has_room_copy c" "htab_update_copy c" for c
proof unfold_locales
  fix t cnt assume "htab_shape c t cnt" "has_room_copy c t"
  then show "unat (elems_used t) + HTAB_ENTRY_SZ c \<le> unat (elems_sz t)"
    using has_room_copy_room by fastforce
next
  fix t m cnt I key v
  assume inv: "htab_inv c t m cnt I" and new: "htab_find c t m I key = None"
  have shape: "htab_shape c t cnt" using inv by (simp add: htab_inv_def)
  then have sz: "unat (key_sz c) \<le> MEM_LIMIT" "unat (val_sz c) \<le> MEM_LIMIT" by (simp_all add: htab_shape_def)
  have l0: "lookup_elem_raw m (select_bucket t (htab_hash key (key_sz c))) (htab_hash key (key_sz c)) key (key_sz c) = 0"
    using fresh_lookup [OF inv new] by (simp add: select_bucket_def bucket_of_def)
  have s: "elems t + unat (elems_used t) = slot c t cnt" "slot c t cnt \<noteq> 0"
    using shape slot_nonzero [OF shape] by (simp_all add: slot_def htab_shape_def)
  have head: "select_bucket t (htab_hash key (key_sz c)) = buckets t + 8 * bucket_of c t key"
    by (simp add: select_bucket_def bucket_of_def)
  show "htab_update_copy c t m key v = Inr (- ENOMEM, t, m)" if "\<not> has_room_copy c t"
    using that by (simp add: htab_update_copy_def has_room_copy_def Let_def)
  show "htab_update_copy c t m key v = Inr (0, t\<lparr>elems_used := elems_used t + of_nat (HTAB_ENTRY_SZ c)\<rparr>,
        stored c m (slot c t cnt) (htab_hash key (key_sz c)) key v (buckets t + 8 * bucket_of c t key))"
    if "has_room_copy c t"
  proof -
    have w: "words (set_bytes m' a n b) = words m'" for m' a n b by (simp add: set_bytes_def)
    show ?thesis
      using that s l0 by (simp add: htab_update_copy_def has_room_copy_def Let_def copy_stored [OF sz] head stored_def w)
  qed
qed

subsection \<open>Number keys\<close>

lemma load_int_key: "load32 (int_key i) 0 = of_nat i"
  by (rule word_eq_bitsI) (auto simp: load32_def bit_le32 int_key_def bit_simps)

lemma int_key_same:
  assumes "i < 2 ^ 32" and "j < 2 ^ 32" and "same_key kv_cfg (int_key i) (int_key j)"
  shows "i = j"
proof -
  have "load32 (int_key i) 0 = load32 (int_key j) 0"
    using assms(3) by (simp add: load32_eq_iff same_key_def kv_cfg_def)
  then have "(of_nat i :: u32) = of_nat j" by (simp add: load_int_key)
  from arg_cong [OF this, of unat] show ?thesis using assms(1,2) by (simp add: unat_of_nat_small)
qed

subsection \<open>What the programs serve after loading\<close>

lemma count_bits_8000000: "count_bits 8000000 = 23"
  by (simp add: count_bits.simps)

lemma buckets_8000000: "round_up_pow_two (8000000 :: u64) = Inr (2 ^ 24)"
  by (simp add: round_up_pow_two_def round_down_pow_two_def count_bits_8000000)

lemma fresh_table:
  assumes "buckets t = area + 64" and "n_buckets t = 2 ^ 24" and "area + 64 + 8 * 2 ^ 24 \<le> elems t"
    and "elems_used t = 0" and "\<forall>b < 2 ^ 24. words m (area + 64 + 8 * b) = 0"
  shows "loaded kv_cfg t m ks vs 0"
proof -
  have n: "unat (n_buckets t) = 2 ^ 24" by (simp add: assms(2))
  have "htab_shape kv_cfg t 0"
    using assms n by (auto simp: htab_shape_def kv_cfg_def MEM_LIMIT_def intro: exI [of _ 24])
  moreover have "bucket_ok kv_cfg t m 0 b []" if "b < unat (n_buckets t)" for b
    using that assms n by (simp add: bucket_ok_def)
  ultimately show ?thesis by (simp add: loaded_def htab_inv_def in_bucket_def)
qed

text \<open>
  The specification: number \<open>i\<close> is served when it was inserted and fewer than eight later numbers
  have its bucket.
\<close>

definition bucket_number :: "nat \<Rightarrow> nat" where
  "bucket_number i = unat (jhash_1word (of_nat i) JHASH_INITVAL AND 0xffffff)"

definition served_text :: "(nat \<Rightarrow> bytes) \<Rightarrow> nat \<Rightarrow> packet \<Rightarrow> nat \<Rightarrow> u8 list option" where
  "served_text vs N p off =
     (let i = unat (ld32 p off)
      in if i < N \<and> length (filter (\<lambda>j. bucket_number j = bucket_number i) [Suc i ..< N]) < MAX_BUCKET_LENGHT
         then Some (map (vs i) [0 ..< VAL_SZ]) else None)"

lemma loaded_value:
  assumes l: "loaded kv_cfg t m int_key vs N" and N: "N \<le> 2 ^ 32" and nb: "n_buckets t = 2 ^ 24"
  shows "htab_value (t, m) p off = served_text vs N p off"
proof -
  let ?i = "unat (ld32 p off)" and ?k = "packet_key p off"
  have inv: "htab_inv kv_cfg t m N (in_bucket kv_cfg t int_key N)" using l by (simp add: loaded_def)
  have b: "bucket_of kv_cfg t (int_key i) = bucket_number i" for i
    by (simp add: bucket_of_def nb bucket_number_def kv_cfg_def htab_hash_def load_int_key)
  have h: "hidden_by kv_cfg t int_key N i = length (filter (\<lambda>j. bucket_number j = bucket_number i) [Suc i ..< N])" for i
    by (simp add: hidden_by_def b)
  have same: "same_key kv_cfg (int_key i) ?k \<longleftrightarrow> i = ?i" if "i < 2 ^ 32" for i
  proof -
    have "same_key kv_cfg (int_key i) ?k \<longleftrightarrow> load32 (int_key i) 0 = load32 ?k 0"
      by (simp add: load32_eq_iff same_key_def kv_cfg_def)
    also have "\<dots> \<longleftrightarrow> (of_nat i :: u32) = ld32 p off" by (simp add: load_int_key packet_key_load)
    also have "\<dots> \<longleftrightarrow> i = ?i"
    proof
      assume "of_nat i = ld32 p off"
      from arg_cong [OF this, of unat] show "i = ?i" using that by (simp add: unat_of_nat_small)
    next
      assume "i = ?i"
      then have "(of_nat i :: u32) = of_nat ?i" by (rule arg_cong)
      then show "(of_nat i :: u32) = ld32 p off" by simp
    qed
    finally show ?thesis .
  qed
  note find = loaded_find [OF l]
  have d: "i = j" if "i < N" "j < N" "same_key kv_cfg (int_key i) (int_key j)" for i j
    using int_key_same that N by simp
  show ?thesis
  proof (cases "?i < N")
    case True
    then have "htab_find kv_cfg t m (in_bucket kv_cfg t int_key N) ?k
        = (if hidden_by kv_cfg t int_key N ?i < MAX_BUCKET_LENGHT then Some ?i else None)"
      using find(1) [OF d _ , of ?i ?k] same [of ?i] N by simp
    moreover have "value_at m (EXTRACT_VAL kv_cfg (slot kv_cfg t ?i)) = map (vs ?i) [0 ..< VAL_SZ]"
      using l True by (simp add: value_at_def loaded_def kv_cfg_def VAL_SZ_def)
    ultimately show ?thesis
      using True by (simp add: htab_value_def htab_lookup_find [OF inv] h served_text_def Let_def EXTRACT_VAL_def ELEM_HDR_def)
  next
    case False
    then have "htab_find kv_cfg t m (in_bucket kv_cfg t int_key N) ?k = None"
      using find(2) [OF d] same N by fastforce
    then show ?thesis using False by (simp add: htab_value_def htab_lookup_find [OF inv] served_text_def)
  qed
qed

lemma touch_pages_zero: "words m a = 0 \<Longrightarrow> words (touch_pages m area n) a = 0"
  by (simp add: touch_pages_def)

lemma entry_sz_kv: "HTAB_ENTRY_SZ kv_cfg = 60"
  by (simp add: HTAB_ENTRY_SZ_def ELEM_HDR_def kv_cfg_def)

lemma prepare_arena_htab:
  assumes fresh: "\<forall>a \<ge> area. words m a = 0"
  shows "\<exists>t m'. prepare_arena_htab_for_xdp area m = Inr (t, m') \<and> n_buckets t = 2 ^ 24
    \<and> loaded kv_cfg t m' int_key value_text number_of_items"
proof -
  obtain t m0 where i: "htab_init_copy kv_cfg m area 8000000 = Inr (t, m0)"
    and t: "t = \<lparr>buckets = area + 64, n_buckets = 2 ^ 24, elems = area + 134221824,
                elems_sz = 256000000, elems_used = 0\<rparr>"
    and w: "\<And>a. area \<le> a \<Longrightarrow> words m0 a = 0"
    using fresh touch_pages_zero [of m _ area]
    by (simp add: htab_init_copy_def buckets_8000000 kv_cfg_def Let_def)
  have l0: "loaded kv_cfg t m0 int_key value_text 0"
    by (rule fresh_table [where area = area]) (simp_all add: t w)
  have room: "has_room_copy kv_cfg (t\<lparr>elems_used := elems_used t + of_nat (k * HTAB_ENTRY_SZ kv_cfg)\<rparr>)"
    if "k < number_of_items" for k
  proof -
    have k: "k * 60 \<le> 120000000" using that by (simp add: number_of_items_def)
    then have u: "unat (of_nat (k * 60) :: u64) = k * 60" by (intro unat_of_nat_small) simp
    have "(of_nat (k * 60) :: u64) \<le> 256000000" using k u by (simp add: word_le_nat_alt del: of_nat_mult)
    then have "unat (256000000 - of_nat (k * 60) :: u64) = 256000000 - k * 60"
      by (subst unat_sub) (simp_all add: u del: of_nat_mult)
    then show ?thesis using k by (simp add: has_room_copy_def t entry_sz_kv word_less_nat_alt del: of_nat_mult)
  qed
  have "i = j" if "i < 0 + number_of_items" "j < 0 + number_of_items" "same_key kv_cfg (int_key i) (int_key j)" for i j
    using int_key_same [OF _ _ that(3)] that by (simp add: number_of_items_def)
  from copy_fill.load_items_loaded [of kv_cfg t m0 value_text 0 number_of_items, OF l0 room this]
  obtain t' m' where "load_items (htab_update_copy kv_cfg) value_text number_of_items 0 t m0 = Inr (t', m')"
    and "loaded kv_cfg t' m' int_key value_text number_of_items" and "n_buckets t' = n_buckets t" by auto
  with i show ?thesis by (simp add: prepare_arena_htab_for_xdp_def) (simp add: t)
qed

text \<open>
  From the loader to the replies: on fresh pages the loader returns, and the program on its table
  answers a request for numbers with the texts of the numbers, in order; a request with a number that
  was not inserted, or that eight later ones of its bucket hide, is dropped.
\<close>

theorem kv_from_loader:
  assumes fresh: "\<forall>a \<ge> area. words m a = 0"
    and req: "tail_contract adj" "length p < 2 ^ 15" "request_count p = Inr n"
  shows "\<exists>t m'. prepare_arena_htab_for_xdp area m = Inr (t, m')
    \<and> served XDP_PASS adj VAL_SZ (request_values 4 (served_text value_text number_of_items) p n) p
        (macchiato_main adj (Some (t, m')) p s)"
proof -
  obtain t m' where tm: "prepare_arena_htab_for_xdp area m = Inr (t, m')" "n_buckets t = 2 ^ 24"
    "loaded kv_cfg t m' int_key value_text number_of_items"
    using prepare_arena_htab [OF fresh] by blast
  have "htab_value (t, m') = served_text value_text number_of_items"
    using loaded_value [OF tm(3) _ tm(2)] by (simp add: fun_eq_iff number_of_items_def)
  with arena_map.serves [OF TrueI req, of XDP_PASS "(t, m')" s] tm(1) show ?thesis
    by (simp add: macchiato_main_def)
qed

theorem kv_from_loader_witness:
  "\<exists>t m' q s. prepare_arena_htab_for_xdp 4096 ex_mem = Inr (t, m')
     \<and> macchiato_main cut_or_pad (Some (t, m')) (take 46 kv_ex_request @ [0x7f, 0x84, 0x1e, 0]) (\<lambda>_. []) = Inr (XDP_TX, q, s)
     \<and> drop 42 q = str ''hello 1999999'' @ [LF] @ replicate 18 0"
proof -
  let ?p = "take 46 kv_ex_request @ [0x7f, 0x84, 0x1e, 0]"
  have p: "?p = take 42 udp_ex @ [1, 0, 0, 0, 0x7f, 0x84, 0x1e, 0]" by (simp add: kv_ex_request_def udp_ex_def)
  have l: "length ?p < 2 ^ 15" and r: "request_count ?p = Inr 1" and k: "ld32 ?p 46 = 1999999"
    unfolding p by (simp_all add: request_count_def our_port_def udp_ex_def request_consts ld16_def ld32_def
      le16_def le32_def bswap16_def)
  have v: "map (value_text 1999999) [0 ..< VAL_SZ] = str ''hello 1999999'' @ [LF] @ replicate 18 0"
    by (simp add: value_text_def hello_def dec.simps VAL_SZ_def upt_rec, simp add: numeral_eq_Suc)
  have "request_values 4 (served_text value_text number_of_items) ?p 1
      = Some [str ''hello 1999999'' @ [LF] @ replicate 18 0]"
    using k v by (simp add: request_values_def key_off_def request_consts served_text_def number_of_items_def
      MAX_BUCKET_LENGHT_def p udp_ex_def)
  with kv_from_loader [of 4096 ex_mem cut_or_pad ?p 1 "\<lambda>_. []", OF _ cut_or_pad_contract l r]
  show ?thesis
    by (auto simp: ex_mem_def served_def resizable_cut reply_to_def request_consts VAL_SZ_def)
qed

subsection \<open>The batch experiment\<close>

lemma prepare_batch_table:
  assumes n: "entries \<le> HTAB_MAX_ENTRIES"
  shows "\<exists>t m'. prepare_batch_htab entries area m = Inr (t, m') \<and> n_buckets t = 2 ^ 24
    \<and> loaded kv_cfg t m' int_key end_text entries"
proof -
  have sz: "unat (of_nat HTAB_MAX_ENTRIES :: u32) = 8000000" "ucast (of_nat HTAB_MAX_ENTRIES :: u32) = (8000000 :: u64)"
    by (simp_all add: HTAB_MAX_ENTRIES_def)
  obtain t m0 where i: "htab_init_userspace kv_cfg m area (of_nat HTAB_MAX_ENTRIES) = Inr (t, m0)"
    and t: "t = \<lparr>buckets = area + 64, n_buckets = 2 ^ 24, elems = area + 134217792,
                elems_sz = 480000000, elems_used = 0\<rparr>"
    and w: "\<And>a. area + 64 \<le> a \<Longrightarrow> a < area + 134217856 \<Longrightarrow> words m0 a = 0"
    by (simp add: htab_init_userspace_def htab_init_userspace_2_def sz buckets_8000000 entry_sz_kv Let_def)
  have l0: "loaded kv_cfg t m0 int_key end_text 0"
    by (rule fresh_table [where area = area]) (simp_all add: t w)
  have room: "has_room kv_cfg (t\<lparr>elems_used := elems_used t + of_nat (k * HTAB_ENTRY_SZ kv_cfg)\<rparr>)"
    if "k < entries" for k
  proof -
    have k: "k * 60 + 60 \<le> 480000000" using that n by (simp add: HTAB_MAX_ENTRIES_def)
    then have "unat (of_nat (k * 60) :: u64) = k * 60" by (intro unat_of_nat_small) simp
    with k show ?thesis by (simp add: has_room_def t entry_sz_kv del: of_nat_mult)
  qed
  have "i = j" if "i < 0 + entries" "j < 0 + entries" "same_key kv_cfg (int_key i) (int_key j)" for i j
    using int_key_same [OF _ _ that(3)] that n by (simp add: HTAB_MAX_ENTRIES_def)
  from lib_fill.load_items_loaded [of kv_cfg t m0 end_text 0 entries, OF l0 room this]
  obtain t' m' where "load_items (htab_update_elem_userspace kv_cfg) end_text entries 0 t m0 = Inr (t', m')"
    and "loaded kv_cfg t' m' int_key end_text entries" and "n_buckets t' = n_buckets t" by auto
  with i show ?thesis by (simp add: prepare_batch_htab_def) (simp add: t)
qed

text \<open>
  The batch experiment, from its loader on: any number of entries that the command line admits is
  stored, whatever was in the arena; a query for a number is sent back with the text of the number, unless it
  was not stored or is hidden in its bucket, and then the packet is dropped.
\<close>

theorem batch_from_loader:
  assumes n: "entries \<le> HTAB_MAX_ENTRIES"
    and tail: "tail_contract adj" and head: "is_relevant SERVER_PORT p" "p ! 14 AND 0xf = 5" and len: "46 \<le> length p"
  shows "\<exists>t m'. prepare_batch_htab entries area m = Inr (t, m')
    \<and> (case served_text end_text entries p 42 of
         None \<Rightarrow> key_val_main adj (Some (t, m')) ts p c = (XDP_DROP, p, None, c)
       | Some v \<Rightarrow> \<exists>q out c'. key_val_main adj (Some (t, m')) ts p c = (XDP_TX, q, out, c')
           \<and> (let (ret, p') = adj (int 74 - int (length p)) p in
              if ret \<noteq> 0 then q = p' else drop 42 q = v))"
proof -
  obtain t m' where tm: "prepare_batch_htab entries area m = Inr (t, m')" "n_buckets t = 2 ^ 24"
    "loaded kv_cfg t m' int_key end_text entries"
    using prepare_batch_table [OF n] by blast
  have v: "htab_value (t, m') p 42 = served_text end_text entries p 42"
    by (rule loaded_value [OF tm(3) _ tm(2)]) (use n in \<open>simp add: HTAB_MAX_ENTRIES_def\<close>)
  let ?v = "htab_lookup_elem kv_cfg t m' (packet_key p 42)"
  show ?thesis
  proof (cases "?v = 0")
    case True
    have "parse_headers SERVER_PORT p no_headers = (0, \<lparr>u_eth = 0, u_ip = 14, u_udp = 34\<rparr>)"
      using head len
      by (auto simp: parse_headers_def is_relevant_def no_headers_def hlen_defs Let_def split: if_splits)
    then have "key_val_main adj (Some (t, m')) ts p c = (XDP_DROP, p, None, c)"
      using len True by (simp add: key_val_main_def UDP_HLEN_def)
    with True v tm(1) show ?thesis by (auto simp: htab_value_def)
  next
    case False
    with v have st: "served_text end_text entries p 42 = Some (value_at m' ?v)"
      by (simp add: htab_value_def)
    from key_val_answers [OF tail head len refl False, of ts c] tm(1) show ?thesis
      unfolding st by (cases "adj (int 74 - int (length p)) p") (fastforce split: if_splits)
  qed
qed

theorem batch_from_loader_witness:
  "\<exists>t m' q out c. prepare_batch_htab 8 4096 ex_mem = Inr (t, m')
     \<and> key_val_main cut_or_pad (Some (t, m')) 5 batch_query \<lparr>counter = 0, last_report = 0\<rparr> = (XDP_TX, q, out, c)
     \<and> drop 42 q = str ''hello 7'' @ [LF] @ replicate 19 0 @ str ''END'' @ [CR, LF]"
proof -
  have l: "46 \<le> length batch_query" by (simp add: batch_query_ok)
  have v: "map (end_text 7) [0 ..< VAL_SZ] = str ''hello 7'' @ [LF] @ replicate 19 0 @ str ''END'' @ [CR, LF]"
    by (simp add: end_text_def value_text_def hello_def dec.simps VAL_SZ_def upt_rec, simp add: numeral_eq_Suc)
  have "served_text end_text 8 batch_query 42 = Some (map (end_text 7) [0 ..< VAL_SZ])"
    by (simp add: served_text_def batch_query_ok MAX_BUCKET_LENGHT_def)
  with batch_from_loader [of 8 cut_or_pad batch_query 4096 ex_mem 5 "\<lparr>counter = 0, last_report = 0\<rparr>",
      OF _ cut_or_pad_contract batch_query_ok(1,3) l] v
  show ?thesis by (auto simp: cut_or_pad_def batch_query_ok HTAB_MAX_ENTRIES_def)
qed

end
