(* ===== verification/Flow_Cls.thy ===== *)
theory Flow_Cls
  imports Packet Text
begin

text \<open>
  The flow classification benchmark, \<open>motivation/flow_cls_bench\<close>: the program \<open>flow_cls_bench.bpf.c\<close>
  looks up the flow of a packet in a hash map of the kernel, which the loader \<open>flow_cls_bench.c\<close>
  fills from the file \<open>flows.txt\<close>. The map is an argument with its documented contract; the
  file is an argument, \<open>None\<close> when it cannot be opened. The main function is in \<open>Launch_More\<close>.
\<close>

subsection \<open>The data\<close>

record flow_key =
  src_ip :: u32
  src_port :: u16
  dst_ip :: u32
  dst_port :: u16
  protocol :: u8

record flow_state =
  mapped_ip :: u32
  fs_counter :: u64
  verdict :: u32

definition SRC_IP :: u32 where "SRC_IP = 0xC0A8C865"
definition DST_IP :: u32 where "DST_IP = 0xC0A8C866"
definition MAX_COUNT_FLOWS :: nat where "MAX_COUNT_FLOWS = 100000"
definition POLICY_MAX_ENTRIES :: nat where "POLICY_MAX_ENTRIES = 2 ^ 19"
definition IPPROTO_TCP :: u8 where "IPPROTO_TCP = 6"

subsection \<open>The program\<close>

text \<open>Its own report of the throughput: the clock is read at the first packet and at every 1024th.\<close>

definition report_tput_flow :: "u64 \<Rightarrow> tput \<Rightarrow> u64 option \<times> tput" where
  "report_tput_flow now s =
     (let t = counter s; s = s\<lparr>counter := counter s + 1\<rparr> in
      if last_report s = 0 then (None, s\<lparr>last_report := now\<rparr>)
      else if t mod 1024 \<noteq> 0 then (None, s)
      else if now - last_report s \<ge> 1000000000
        then (Some (counter s), s\<lparr>counter := 0, last_report := now\<rparr>)
        else (None, s))"

definition action_of :: "u32 \<Rightarrow> xdp_action" where
  "action_of v =
     (if v = 0 then XDP_ABORTED else if v = 1 then XDP_DROP else if v = 2 then XDP_PASS
      else if v = 3 then XDP_TX else XDP_ABORTED)"

text \<open>The key of a packet whose transport header starts at \<open>l4\<close>.\<close>

definition flow_key_at :: "packet \<Rightarrow> nat \<Rightarrow> flow_key" where
  "flow_key_at p l4 =
     \<lparr>src_ip = ntohl (ld32 p (14 + 12)), src_port = ntohs (ld16 p l4), dst_ip = ntohl (ld32 p (14 + 16)),
      dst_port = ntohs (ld16 p (l4 + 2)), protocol = p ! (14 + 9)\<rparr>"

definition xdp_prog ::
  "(flow_key \<Rightarrow> flow_state option) \<Rightarrow> u64 \<Rightarrow> packet \<Rightarrow> tput \<Rightarrow> xdp_action \<times> u64 option \<times> tput" where
  "xdp_prog policy_map now p s =
     (if length p < ETH_HLEN then (XDP_PASS, None, s)
      else if ld16 p 12 \<noteq> htons ETH_P_IP then (XDP_PASS, None, s)
      else if length p < ETH_HLEN + IP_HLEN then (XDP_ABORTED, None, s)
      else if p ! (14 + 9) \<noteq> IPPROTO_UDP \<and> p ! (14 + 9) \<noteq> IPPROTO_TCP then (XDP_PASS, None, s)
      else
        let doff = unat (p ! 14 AND 0xf) * 4; l4 = ETH_HLEN + doff in
        if length p < l4 + UDP_HLEN then (XDP_ABORTED, None, s)
        else case policy_map (flow_key_at p l4) of
          None \<Rightarrow> (XDP_ABORTED, None, s)
        | Some flow_state \<Rightarrow>
            let (out, s) = report_tput_flow now s in (action_of (verdict flow_state), out, s))"

subsection \<open>The loader\<close>

text \<open>
  \<open>fscanf (f, "%hu %hu\n", &c, &d)\<close>: a conversion skips white space, takes a sign and digits, and
  stores the low 16 bits of the number, which \<open>strtoul\<close> bounds; the last directive skips white space.
  \<open>None\<close> stands for a result that is not 2.
\<close>

definition scan_hu :: "u8 list \<Rightarrow> (u16 \<times> u8 list) option" where
  "scan_hu s =
     (let (neg, s) = scan_sign (dropWhile is_space s); v = atoi s in
      if s = [] \<or> \<not> IS_DIGIT (hd s) then None
      else Some (if 2 ^ 64 \<le> v then - 1 else if neg then - of_nat v else of_nat v, dropWhile IS_DIGIT s))"

definition scan_flow :: "u8 list \<Rightarrow> ((u16 \<times> u16) \<times> u8 list) option" where
  "scan_flow s =
     (case scan_hu s of None \<Rightarrow> None | Some (c, s) \<Rightarrow>
       (case scan_hu (dropWhile is_space s) of None \<Rightarrow> None | Some (d, s) \<Rightarrow>
         Some ((c, d), dropWhile is_space s)))"

definition drop_state :: flow_state where
  "drop_state = \<lparr>mapped_ip = 0xafafafaf, fs_counter = 0, verdict = 1\<rparr>"

definition udp_flow :: "u16 \<times> u16 \<Rightarrow> flow_key" where
  "udp_flow f = \<lparr>src_ip = SRC_IP, src_port = fst f, dst_ip = DST_IP, dst_port = snd f, protocol = IPPROTO_UDP\<rparr>"

text \<open>\<open>update\<close> is \<open>bpf_map__update_elem\<close> with \<open>BPF_NOEXIST\<close>, with its result and the map after it.\<close>

fun fill_flows ::
  "('m \<Rightarrow> flow_key \<Rightarrow> flow_state \<Rightarrow> int \<times> 'm) \<Rightarrow> nat \<Rightarrow> u8 list \<Rightarrow> 'm \<Rightarrow> int \<times> 'm" where
  "fill_flows update 0 f m = (0, m)"
| "fill_flows update (Suc n) f m =
     (case scan_flow f of
        None \<Rightarrow> (1, m)
      | Some (flow, f) \<Rightarrow>
          (case update m (udp_flow flow) drop_state of
             (ret, m) \<Rightarrow> if ret \<noteq> 0 then (1, m) else fill_flows update n f m))"

definition fill_policy_map ::
  "('m \<Rightarrow> flow_key \<Rightarrow> flow_state \<Rightarrow> int \<times> 'm) \<Rightarrow> u8 list option \<Rightarrow> 'm \<Rightarrow> int \<times> 'm" where
  "fill_policy_map update file m =
     (case file of None \<Rightarrow> (1, m) | Some f \<Rightarrow> fill_flows update MAX_COUNT_FLOWS f m)"

text \<open>The function that prints the counters of the flows of the file; a missing flow ends it.\<close>

fun key_counters :: "(flow_key \<Rightarrow> flow_state option) \<Rightarrow> nat \<Rightarrow> u8 list \<Rightarrow> u64 list" where
  "key_counters lookup 0 f = []"
| "key_counters lookup (Suc n) f =
     (case scan_flow f of
        None \<Rightarrow> []
      | Some (flow, f) \<Rightarrow>
          (case lookup (udp_flow flow) of
             None \<Rightarrow> []
           | Some st \<Rightarrow> fs_counter st # key_counters lookup n f))"

definition check_key_dist :: "(flow_key \<Rightarrow> flow_state option) \<Rightarrow> u8 list option \<Rightarrow> u64 list" where
  "check_key_dist lookup file = (case file of None \<Rightarrow> [] | Some f \<Rightarrow> key_counters lookup MAX_COUNT_FLOWS f)"

text \<open>
  The contract of the kernel's map: an update with \<open>BPF_NOEXIST\<close> adds a new key while there is room
  and fails without a change otherwise.
\<close>

definition noexist_contract :: "nat \<Rightarrow> ('m \<Rightarrow> 'k \<Rightarrow> 'v option) \<Rightarrow> ('m \<Rightarrow> 'k \<Rightarrow> 'v \<Rightarrow> int \<times> 'm) \<Rightarrow> bool" where
  "noexist_contract max_entries lookup update \<longleftrightarrow>
     (\<forall>m k v. if lookup m k = None \<and> card (dom (lookup m)) < max_entries
              then \<exists>m'. update m k v = (0, m') \<and> lookup m' = (lookup m)(k \<mapsto> v)
              else \<exists>ret. ret \<noteq> 0 \<and> update m k v = (ret, m))"

subsection \<open>Reading a printed file\<close>

definition print_flow :: "u16 \<times> u16 \<Rightarrow> u8 list" where
  "print_flow f = dec (unat (fst f)) @ [SP] @ dec (unat (snd f)) @ [LF]"

lemma scan_hu_dec:
  assumes "\<not> IS_DIGIT c"
  shows "scan_hu (dec (unat x) @ c # s) = Some (x, c # s)"
proof -
  obtain d ds where d: "dec (unat x) = d # ds" "IS_DIGIT d" by (rule dec_Cons)
  have drop: "dropWhile is_space (dec (unat x) @ c # s) = dec (unat x) @ c # s"
    using d digit_not_space by simp
  have sign: "scan_sign (dec (unat x) @ c # s) = (False, dec (unat x) @ c # s)"
    using d digit_not_space by (simp add: scan_sign_def)
  have rest: "dropWhile IS_DIGIT (dec (unat x) @ c # s) = c # s"
    using dec_digits [of "unat x"] assms by (simp add: dropWhile_append2)
  have "unat x < 2 ^ 16" using unat_bound [of x] by simp
  then have "\<not> 2 ^ 64 \<le> unat x" by simp
  moreover have "IS_DIGIT (hd (dec (unat x) @ c # s))" using d by simp
  ultimately show ?thesis by (simp add: scan_hu_def drop sign rest atoi_append [OF assms])
qed

lemma scan_hu_space: "is_space c \<Longrightarrow> scan_hu (c # s) = scan_hu s"
  by (simp add: scan_hu_def)

lemma scan_hu_drop: "scan_hu (dropWhile is_space s) = scan_hu s"
  by (simp add: scan_hu_def)

lemma scan_flow_drop: "scan_flow (dropWhile is_space s) = scan_flow s"
  by (simp add: scan_flow_def scan_hu_drop)

lemma scan_print_flow: "scan_flow (print_flow f @ s) = Some (f, dropWhile is_space s)"
  by (simp add: scan_flow_def print_flow_def scan_hu_dec scan_hu_drop scan_hu_space)

lemma scan_flow_empty: "scan_flow [] = None"
  by (simp add: scan_flow_def scan_hu_def scan_sign_def)

lemma fill_flows_drop: "fill_flows update n (dropWhile is_space f) m = fill_flows update n f m"
  by (cases n) (simp_all add: scan_flow_drop)

subsection \<open>The filled map\<close>

definition holds_flows :: "(flow_key \<Rightarrow> flow_state option) \<Rightarrow> (u16 \<times> u16) set \<Rightarrow> bool" where
  "holds_flows l fs \<longleftrightarrow> l = (\<lambda>k. if k \<in> udp_flow ` fs then Some drop_state else None)"

lemma udp_flow_inj: "udp_flow f = udp_flow g \<longleftrightarrow> f = g"
  by (cases f, cases g) (simp add: udp_flow_def)

lemma dom_holds: "holds_flows l fs \<Longrightarrow> dom l = udp_flow ` fs"
  by (auto simp: holds_flows_def split: if_splits)

lemma card_holds: "holds_flows l fs \<Longrightarrow> card (dom l) = card fs"
  by (simp add: dom_holds card_image inj_on_def udp_flow_inj)

lemma fill_flows_spec:
  assumes k: "noexist_contract POLICY_MAX_ENTRIES lookup update"
  shows "holds_flows (lookup m) fs \<Longrightarrow> finite fs \<Longrightarrow> card fs + n < POLICY_MAX_ENTRIES \<Longrightarrow>
    \<exists>r m'. fill_flows update n (concat (map print_flow flows)) m = (r, m')
      \<and> (r = 0 \<longleftrightarrow> n \<le> length flows \<and> distinct (take n flows) \<and> set (take n flows) \<inter> fs = {})
      \<and> (r = 0 \<longrightarrow> holds_flows (lookup m') (fs \<union> set (take n flows)))"
proof (induction n arbitrary: flows m fs)
  case 0
  then show ?case by simp
next
  case (Suc n)
  show ?case
  proof (cases flows)
    case Nil
    then show ?thesis by (simp add: scan_flow_empty)
  next
    case (Cons f fl)
    note up = k [unfolded noexist_contract_def, rule_format, of m "udp_flow f" drop_state]
    have room: "card (dom (lookup m)) < POLICY_MAX_ENTRIES" using Suc.prems card_holds [OF Suc.prems(1)] by simp
    show ?thesis
    proof (cases "f \<in> fs")
      case True
      then have "lookup m (udp_flow f) \<noteq> None" using Suc.prems(1) by (simp add: holds_flows_def)
      with up obtain ret where "ret \<noteq> 0" "update m (udp_flow f) drop_state = (ret, m)" by (auto split: if_splits)
      with True Cons show ?thesis by (simp add: scan_print_flow)
    next
      case False
      then have "lookup m (udp_flow f) = None" using Suc.prems(1) by (auto simp: holds_flows_def udp_flow_inj)
      with up room obtain m1 where m1: "update m (udp_flow f) drop_state = (0, m1)"
        "lookup m1 = (lookup m)(udp_flow f \<mapsto> drop_state)" by auto
      have h: "holds_flows (lookup m1) (insert f fs)"
        using Suc.prems(1) m1(2) by (auto simp: holds_flows_def fun_eq_iff)
      have c: "card (insert f fs) + n < POLICY_MAX_ENTRIES" using Suc.prems(2,3) False by simp
      have step: "fill_flows update (Suc n) (concat (map print_flow flows)) m
        = fill_flows update n (concat (map print_flow fl)) m1"
        using Cons m1(1) by (simp add: scan_print_flow fill_flows_drop)
      from Suc.IH [OF h _ c, of fl] Suc.prems(2) obtain r m' where
        "fill_flows update n (concat (map print_flow fl)) m1 = (r, m')"
        "r = 0 \<longleftrightarrow> n \<le> length fl \<and> distinct (take n fl) \<and> set (take n fl) \<inter> insert f fs = {}"
        "r = 0 \<longrightarrow> holds_flows (lookup m') (insert f fs \<union> set (take n fl))" by blast
      with False Cons step show ?thesis by auto
    qed
  qed
qed

subsection \<open>From the file to the verdict\<close>

text \<open>A packet that the program classifies, and its flow.\<close>

definition classifiable :: "packet \<Rightarrow> bool" where
  "classifiable p \<longleftrightarrow> ETH_HLEN + IP_HLEN \<le> length p \<and> ld16 p 12 = htons ETH_P_IP
     \<and> (p ! 23 = IPPROTO_UDP \<or> p ! 23 = IPPROTO_TCP)
     \<and> ETH_HLEN + unat (p ! 14 AND 0xf) * 4 + UDP_HLEN \<le> length p"

definition packet_flow :: "packet \<Rightarrow> flow_key" where
  "packet_flow p = flow_key_at p (ETH_HLEN + unat (p ! 14 AND 0xf) * 4)"

lemma xdp_prog_classifiable:
  assumes "classifiable p"
  shows "fst (xdp_prog l now p s) = (case l (packet_flow p) of None \<Rightarrow> XDP_ABORTED | Some st \<Rightarrow> action_of (verdict st))"
  using assms
  by (auto simp: xdp_prog_def classifiable_def packet_flow_def hlen_defs Let_def split: option.splits prod.splits)

text \<open>The benchmark end to end: the loader succeeds on a printed file of flows exactly when its first
  100000 flows are there and differ from each other; then the program drops the packets of these
  flows, and aborts on every other packet that it can classify.\<close>

lemma flows_to_verdicts:
  assumes k: "noexist_contract POLICY_MAX_ENTRIES lookup update" and e: "lookup m = Map.empty"
  shows "\<exists>r m'. fill_policy_map update (Some (concat (map print_flow flows))) m = (r, m')
    \<and> (r = 0 \<longleftrightarrow> MAX_COUNT_FLOWS \<le> length flows \<and> distinct (take MAX_COUNT_FLOWS flows))
    \<and> (r = 0 \<longrightarrow> (\<forall>p now s. classifiable p \<longrightarrow> fst (xdp_prog (lookup m') now p s) =
         (if packet_flow p \<in> udp_flow ` set (take MAX_COUNT_FLOWS flows) then XDP_DROP else XDP_ABORTED)))"
proof -
  have h: "holds_flows (lookup m) {}" using e by (simp add: holds_flows_def)
  have c: "card ({} :: (u16 \<times> u16) set) + MAX_COUNT_FLOWS < POLICY_MAX_ENTRIES"
    by (simp add: MAX_COUNT_FLOWS_def POLICY_MAX_ENTRIES_def)
  from fill_flows_spec [OF k h finite.emptyI c, of flows] obtain r m' where
    f: "fill_flows update MAX_COUNT_FLOWS (concat (map print_flow flows)) m = (r, m')"
      "r = 0 \<longleftrightarrow> MAX_COUNT_FLOWS \<le> length flows \<and> distinct (take MAX_COUNT_FLOWS flows)"
      "r = 0 \<longrightarrow> holds_flows (lookup m') (set (take MAX_COUNT_FLOWS flows))" by auto
  have "r = 0 \<longrightarrow> (\<forall>p now s. classifiable p \<longrightarrow> fst (xdp_prog (lookup m') now p s) =
         (if packet_flow p \<in> udp_flow ` set (take MAX_COUNT_FLOWS flows) then XDP_DROP else XDP_ABORTED))"
    using f(3) by (auto simp: xdp_prog_classifiable holds_flows_def drop_state_def action_of_def)
  with f(1,2) show ?thesis by (simp add: fill_policy_map_def)
qed

definition map_update :: "nat \<Rightarrow> ('k \<Rightarrow> 'v option) \<Rightarrow> 'k \<Rightarrow> 'v \<Rightarrow> int \<times> ('k \<Rightarrow> 'v option)" where
  "map_update max_entries m k v = (if m k = None \<and> card (dom m) < max_entries then (0, m(k \<mapsto> v)) else (- 1, m))"

definition ex_flows :: "(u16 \<times> u16) list" where
  "ex_flows = map (\<lambda>i. (of_nat (i div 65536), of_nat (i mod 65536))) [0 ..< MAX_COUNT_FLOWS]"

definition flow_packet :: packet where
  "flow_packet = [1, 1, 1, 1, 1, 1, 2, 2, 2, 2, 2, 2, 8, 0, 0x45, 0, 0, 28, 0, 0, 0, 0, 64, 17, 0, 0,
     192, 168, 200, 101, 192, 168, 200, 102, 0, 1, 0, 2, 0, 8, 0, 0]"

lemma ex_flows_distinct: "distinct ex_flows"
proof -
  have "inj_on (\<lambda>i. (of_nat (i div 65536) :: u16, of_nat (i mod 65536) :: u16)) {0 ..< MAX_COUNT_FLOWS}"
  proof (rule inj_onI)
    fix i j :: nat
    assume "i \<in> {0 ..< MAX_COUNT_FLOWS}" "j \<in> {0 ..< MAX_COUNT_FLOWS}"
      and eq: "(of_nat (i div 65536) :: u16, of_nat (i mod 65536) :: u16) = (of_nat (j div 65536), of_nat (j mod 65536))"
    then have lt: "i div 65536 < 2 ^ LENGTH(16)" "j div 65536 < 2 ^ LENGTH(16)" "i mod 65536 < 2 ^ LENGTH(16)"
      "j mod 65536 < 2 ^ LENGTH(16)" by (simp_all add: MAX_COUNT_FLOWS_def)
    from eq have "unat (of_nat (i div 65536) :: u16) = unat (of_nat (j div 65536) :: u16)"
      "unat (of_nat (i mod 65536) :: u16) = unat (of_nat (j mod 65536) :: u16)" by (simp_all only: prod.inject)
    with lt have "i div 65536 = j div 65536" "i mod 65536 = j mod 65536"
      by (simp_all only: unat_of_nat_small)
    then show "i = j" by (metis div_mult_mod_eq)
  qed
  then show ?thesis by (simp add: ex_flows_def distinct_map)
qed

end
