(* ===== verification/Sock_Monitor.thy ===== *)
theory Sock_Monitor
  imports Packet
begin

text \<open>
  The connection monitor of \<open>motivation/user_def_prefetch/include/mybpf/sockops.h\<close>: a program that
  the kernel calls at the events of a socket, and that keeps the accepted sockets of one port in a
  socket map. The maps are maps from keys; a socket is its cookie. What the kernel decides is part of an event: whether
  there was room for a new context, and the result of the update of the socket map. The
  lookups of the only entry of an array do not fail.
\<close>

definition MAX_CONN :: nat where "MAX_CONN = 65536"
definition AF_INET :: u32 where "AF_INET = 2"
definition BPF_TCP_CLOSE :: u32 where "BPF_TCP_CLOSE = 7"

datatype sock_op = BPF_SOCK_OPS_STATE_CB | BPF_SOCK_OPS_PASSIVE_ESTABLISHED_CB | OTHER_OP

record sock_event =
  op :: sock_op
  has_sk :: bool
  cookie :: u64
  family :: u32
  skb_bytes :: packet
  args1 :: u32
  ctx_made :: bool
  update_ret :: int

text \<open>\<open>'c\<close> is the \<open>struct connection_state\<close> of the program that includes the file.\<close>

record 'c sock_context =
  sock_map_index :: u32
  conn_state :: 'c

record 'c monitor =
  count_value :: u16
  sock_map :: "u32 \<Rightarrow> u64 option"
  sock_ctx_map :: "u64 \<Rightarrow> 'c sock_context option"
  state_cb_flag :: "u64 \<Rightarrow> bool"

text \<open>The context of the event's socket, made with zeros when there is none.\<close>

definition get_context :: "'c \<Rightarrow> sock_event \<Rightarrow> 'c monitor \<Rightarrow> ('c sock_context \<times> 'c monitor) option" where
  "get_context zero e s =
     (case sock_ctx_map s (cookie e) of
        Some ctx \<Rightarrow> Some (ctx, s)
      | None \<Rightarrow>
          if ctx_made e then
            let tmp = \<lparr>sock_map_index = 0, conn_state = zero\<rparr>
            in Some (tmp, s\<lparr>sock_ctx_map := (sock_ctx_map s)(cookie e \<mapsto> tmp)\<rparr>)
          else None)"

definition monitor_connections :: "u16 \<Rightarrow> 'c \<Rightarrow> sock_event \<Rightarrow> 'c monitor \<Rightarrow> 'c monitor" where
  "monitor_connections port zero e s =
     (if \<not> has_sk e then s
      else case get_context zero e s of
        None \<Rightarrow> s
      | Some (ctx, s) \<Rightarrow>
          if op e = BPF_SOCK_OPS_STATE_CB then
            if args1 e = BPF_TCP_CLOSE
            then s\<lparr>sock_map := (sock_map s)(sock_map_index ctx := None),
                   sock_ctx_map := (sock_ctx_map s)(cookie e := None)\<rparr>
            else s
          else if family e \<noteq> AF_INET \<or> length (skb_bytes e) < 20 then s
          else if op e = BPF_SOCK_OPS_PASSIVE_ESTABLISHED_CB then
            if ld16 (skb_bytes e) 2 = port then
              let sk_index = count_value s;
                  s = s\<lparr>count_value := of_nat ((unat (count_value s) + 1) mod MAX_CONN)\<rparr>;
                  ctx = ctx\<lparr>sock_map_index := ucast sk_index\<rparr>;
                  s = s\<lparr>sock_ctx_map := (sock_ctx_map s)(cookie e \<mapsto> ctx)\<rparr>
              in if update_ret e \<noteq> 0 then s
                 else s\<lparr>sock_map := (sock_map s)(ucast sk_index \<mapsto> cookie e),
                        state_cb_flag := (state_cb_flag s)(cookie e := True)\<rparr>
            else s
          else s)"

subsection \<open>The events of the kernel\<close>

text \<open>
  The steps: an event of a socket that is not closed, which the kernel reports as
  established at most once; a change of the state of a socket that asked for these events; and the
  removal of a socket from the socket map by the kernel when its owner closes it. The ghost
  components list the sockets that were given an index, in this order, those that were added to the socket
  map and not removed since, and those that were closed.
\<close>

record 'c world =
  mon :: "'c monitor"
  accepted :: "u64 list"
  live :: "u64 set"
  closed :: "u64 set"

definition accepts :: "u16 \<Rightarrow> sock_event \<Rightarrow> 'c monitor \<Rightarrow> bool" where
  "accepts port e s \<longleftrightarrow> has_sk e \<and> (sock_ctx_map s (cookie e) \<noteq> None \<or> ctx_made e)
     \<and> op e = BPF_SOCK_OPS_PASSIVE_ESTABLISHED_CB \<and> family e = AF_INET \<and> 20 \<le> length (skb_bytes e)
     \<and> ld16 (skb_bytes e) 2 = port"

inductive sock_step :: "u16 \<Rightarrow> 'c \<Rightarrow> 'c world \<Rightarrow> 'c world \<Rightarrow> bool" for port zero where
  accept: "\<lbrakk>accepts port e (mon w); cookie e \<notin> closed w; cookie e \<notin> set (accepted w)\<rbrakk> \<Longrightarrow>
    sock_step port zero w
      \<lparr>mon = monitor_connections port zero e (mon w), accepted = accepted w @ [cookie e],
       live = (if update_ret e = 0 then insert (cookie e) (live w) else live w), closed = closed w\<rparr>"
| other: "\<lbrakk>\<not> accepts port e (mon w); op e \<noteq> BPF_SOCK_OPS_STATE_CB; cookie e \<notin> closed w\<rbrakk> \<Longrightarrow>
    sock_step port zero w (w\<lparr>mon := monitor_connections port zero e (mon w)\<rparr>)"
| state: "\<lbrakk>op e = BPF_SOCK_OPS_STATE_CB; has_sk e; state_cb_flag (mon w) (cookie e); cookie e \<notin> closed w\<rbrakk> \<Longrightarrow>
    sock_step port zero w
      (w\<lparr>mon := monitor_connections port zero e (mon w),
         live := (if args1 e = BPF_TCP_CLOSE then live w - {cookie e} else live w),
         closed := (if args1 e = BPF_TCP_CLOSE then insert (cookie e) (closed w) else closed w)\<rparr>)"
| removed: "c \<in> live w \<Longrightarrow>
    sock_step port zero w
      (w\<lparr>mon := (mon w)\<lparr>sock_map := (\<lambda>j. if sock_map (mon w) j = Some c then None else sock_map (mon w) j)\<rparr>,
         live := live w - {c}\<rparr>)"

definition start :: "'c world" where
  "start = \<lparr>mon = \<lparr>count_value = 0, sock_map = Map.empty, sock_ctx_map = Map.empty, state_cb_flag = (\<lambda>_. False)\<rparr>,
            accepted = [], live = {}, closed = {}\<rparr>"

inductive reachable :: "u16 \<Rightarrow> 'c \<Rightarrow> 'c world \<Rightarrow> bool" for port zero where
  init: "reachable port zero start"
| step: "reachable port zero w \<Longrightarrow> sock_step port zero w w' \<Longrightarrow> reachable port zero w'"

subsection \<open>The invariant\<close>

definition monitor_inv :: "'c world \<Rightarrow> bool" where
  "monitor_inv w \<longleftrightarrow>
     count_value (mon w) = of_nat (length (accepted w)) \<and> distinct (accepted w)
     \<and> (\<forall>i < length (accepted w). accepted w ! i \<notin> closed w \<longrightarrow>
          (\<exists>ctx. sock_ctx_map (mon w) (accepted w ! i) = Some ctx \<and> sock_map_index ctx = of_nat i))
     \<and> sock_map (mon w) = (\<lambda>j. if unat j < length (accepted w) \<and> accepted w ! unat j \<in> live w
                                 then Some (accepted w ! unat j) else None)
     \<and> live w \<subseteq> set (accepted w) - closed w
     \<and> (\<forall>c. state_cb_flag (mon w) c \<longrightarrow> c \<in> set (accepted w))"

lemma index_unat: "i < 65536 \<Longrightarrow> unat (of_nat i :: u32) = i" "i < 65536 \<Longrightarrow> unat (of_nat i :: u16) = i"
  by (simp_all add: unat_of_nat_small)

lemma index_ucast: "i < 65536 \<Longrightarrow> (ucast (of_nat i :: u16) :: u32) = of_nat i"
  by (rule word_unat_eq_iff [THEN iffD2]) (simp add: index_unat unsigned_ucast_eq take_bit_eq_mod)

lemma accept_mon:
  assumes "accepts port e s"
  obtains ctx where "sock_map_index ctx = ucast (count_value s)"
    "monitor_connections port zero e s =
      (let s' = s\<lparr>count_value := count_value s + 1, sock_ctx_map := (sock_ctx_map s)(cookie e \<mapsto> ctx)\<rparr>
       in if update_ret e \<noteq> 0 then s'
          else s'\<lparr>sock_map := (sock_map s)(ucast (count_value s) \<mapsto> cookie e),
                 state_cb_flag := (state_cb_flag s)(cookie e := True)\<rparr>)"
proof -
  have c: "(of_nat (Suc (unat (count_value s)) mod MAX_CONN) :: u16) = count_value s + 1"
    by (rule word_unat_eq_iff [THEN iffD2]) (simp add: MAX_CONN_def unat_of_nat unat_word_ariths)
  define ctx0 where "ctx0 = (case sock_ctx_map s (cookie e) of Some ctx \<Rightarrow> ctx
    | None \<Rightarrow> \<lparr>sock_map_index = 0, conn_state = zero\<rparr>)"
  show ?thesis
    by (rule that [of "ctx0\<lparr>sock_map_index := ucast (count_value s)\<rparr>"])
      (use assms in \<open>auto simp: monitor_connections_def get_context_def accepts_def Let_def c ctx0_def split: option.splits\<close>)
qed

lemma other_mon:
  assumes "\<not> accepts port e s" and "op e \<noteq> BPF_SOCK_OPS_STATE_CB"
  obtains "monitor_connections port zero e s = s"
  | ctx where "sock_ctx_map s (cookie e) = None"
      "monitor_connections port zero e s = s\<lparr>sock_ctx_map := (sock_ctx_map s)(cookie e \<mapsto> ctx)\<rparr>"
  using assms
  by (fastforce simp: monitor_connections_def get_context_def accepts_def Let_def split: option.splits if_splits)

lemma state_mon:
  assumes "op e = BPF_SOCK_OPS_STATE_CB" and "has_sk e" and "sock_ctx_map s (cookie e) = Some ctx"
  shows "monitor_connections port zero e s =
    (if args1 e = BPF_TCP_CLOSE
     then s\<lparr>sock_map := (sock_map s)(sock_map_index ctx := None), sock_ctx_map := (sock_ctx_map s)(cookie e := None)\<rparr>
     else s)"
  using assms by (simp add: monitor_connections_def get_context_def)

lemma monitor_inv_accept:
  assumes inv: "monitor_inv w" and acc: "accepts port e (mon w)" and c: "cookie e \<notin> closed w" "cookie e \<notin> set (accepted w)"
    and n: "length (accepted w) < 65536"
  shows "monitor_inv \<lparr>mon = monitor_connections port zero e (mon w), accepted = accepted w @ [cookie e],
       live = (if update_ret e = 0 then insert (cookie e) (live w) else live w), closed = closed w\<rparr>"
proof -
  let ?n = "length (accepted w)"
  from acc obtain ctx where ctx: "sock_map_index ctx = ucast (count_value (mon w))"
    and m: "monitor_connections port zero e (mon w) =
      (let s' = (mon w)\<lparr>count_value := count_value (mon w) + 1, sock_ctx_map := (sock_ctx_map (mon w))(cookie e \<mapsto> ctx)\<rparr>
       in if update_ret e \<noteq> 0 then s'
          else s'\<lparr>sock_map := (sock_map (mon w))(ucast (count_value (mon w)) \<mapsto> cookie e),
                 state_cb_flag := (state_cb_flag (mon w))(cookie e := True)\<rparr>)"
    by (rule accept_mon)
  have cnt: "count_value (mon w) = of_nat ?n" and i: "(ucast (count_value (mon w)) :: u32) = of_nat ?n"
    using inv n by (simp_all add: monitor_inv_def index_ucast)
  have u: "unat (of_nat ?n :: u32) = ?n" using n by (rule index_unat)
  have j: "unat j = ?n \<longleftrightarrow> j = of_nat ?n" for j :: u32 by (simp only: word_unat_eq_iff u)
  have ne: "k < ?n \<Longrightarrow> accepted w ! k \<noteq> cookie e" for k using c(2) nth_mem by metis
  have d: "cookie e \<notin> live w" using inv c by (auto simp: monitor_inv_def)
  have sm: "(sock_map (mon w))(of_nat ?n \<mapsto> cookie e) =
      (\<lambda>j. if unat j < Suc ?n \<and> (accepted w @ [cookie e]) ! unat j \<in> insert (cookie e) (live w)
           then Some ((accepted w @ [cookie e]) ! unat j) else None)"
    using inv c(2) by (auto simp: monitor_inv_def fun_eq_iff nth_append less_Suc_eq j u ne)
  have sm': "sock_map (mon w) =
      (\<lambda>j. if unat j < Suc ?n \<and> (accepted w @ [cookie e]) ! unat j \<in> live w
           then Some ((accepted w @ [cookie e]) ! unat j) else None)"
    using inv d by (auto simp: monitor_inv_def fun_eq_iff nth_append less_Suc_eq j)
  show ?thesis
    using inv c ctx i cnt sm sm' d
    by (auto simp: monitor_inv_def m Let_def nth_append less_Suc_eq ne)
qed

lemma monitor_inv_other:
  assumes inv: "monitor_inv w" and e: "\<not> accepts port e (mon w)" "op e \<noteq> BPF_SOCK_OPS_STATE_CB"
    and c: "cookie e \<notin> closed w"
  shows "monitor_inv (w\<lparr>mon := monitor_connections port zero e (mon w)\<rparr>)"
  using e
proof (rule other_mon)
  assume "monitor_connections port zero e (mon w) = mon w"
  with inv show ?thesis by simp
next
  fix ctx assume none: "sock_ctx_map (mon w) (cookie e) = None"
    and m: "monitor_connections port zero e (mon w) = (mon w)\<lparr>sock_ctx_map := (sock_ctx_map (mon w))(cookie e \<mapsto> ctx)\<rparr>"
  have "accepted w ! i \<noteq> cookie e" if "i < length (accepted w)" for i
  proof
    assume "accepted w ! i = cookie e"
    with that c inv have "sock_ctx_map (mon w) (cookie e) \<noteq> None" by (auto simp: monitor_inv_def)
    with none show False by simp
  qed
  with inv m show ?thesis by (auto simp: monitor_inv_def)
qed

lemma monitor_inv_state:
  assumes inv: "monitor_inv w" and e: "op e = BPF_SOCK_OPS_STATE_CB" "has_sk e" "state_cb_flag (mon w) (cookie e)"
    and c: "cookie e \<notin> closed w" and n: "length (accepted w) \<le> 65536"
  shows "monitor_inv (w\<lparr>mon := monitor_connections port zero e (mon w),
         live := (if args1 e = BPF_TCP_CLOSE then live w - {cookie e} else live w),
         closed := (if args1 e = BPF_TCP_CLOSE then insert (cookie e) (closed w) else closed w)\<rparr>)"
proof -
  have "cookie e \<in> set (accepted w)" using inv e by (simp add: monitor_inv_def)
  then obtain i where i: "i < length (accepted w)" "accepted w ! i = cookie e" by (auto simp: in_set_conv_nth)
  with inv c obtain ctx where ctx: "sock_ctx_map (mon w) (cookie e) = Some ctx" "sock_map_index ctx = of_nat i"
    by (auto simp: monitor_inv_def)
  have u: "unat (of_nat i :: u32) = i" using i n by (simp add: index_unat)
  have j: "unat j = i \<longleftrightarrow> j = of_nat i" for j :: u32 by (simp only: word_unat_eq_iff u)
  have ne: "k < length (accepted w) \<Longrightarrow> accepted w ! k = cookie e \<longleftrightarrow> k = i" for k
    using inv i nth_eq_iff_index_eq [of "accepted w" k i] by (auto simp: monitor_inv_def)
  have sm: "(sock_map (mon w))(of_nat i := None) =
      (\<lambda>j. if unat j < length (accepted w) \<and> accepted w ! unat j \<in> live w - {cookie e}
           then Some (accepted w ! unat j) else None)"
    using inv i by (auto simp: monitor_inv_def fun_eq_iff u j ne)
  show ?thesis
  proof (cases "args1 e = BPF_TCP_CLOSE")
    case True
    have "monitor_connections port zero e (mon w) =
        (mon w)\<lparr>sock_map := (sock_map (mon w))(of_nat i := None), sock_ctx_map := (sock_ctx_map (mon w))(cookie e := None)\<rparr>"
      using state_mon [where zero = zero, OF e(1,2) ctx(1)] True ctx(2) by simp
    then show ?thesis using inv True sm by (auto simp: monitor_inv_def)
  next
    case False
    then show ?thesis using inv state_mon [where zero = zero, OF e(1,2) ctx(1)] by simp
  qed
qed

lemma monitor_inv_removed:
  assumes inv: "monitor_inv w" and c: "c \<in> live w"
  shows "monitor_inv (w\<lparr>mon := (mon w)\<lparr>sock_map := (\<lambda>j. if sock_map (mon w) j = Some c then None else sock_map (mon w) j)\<rparr>,
         live := live w - {c}\<rparr>)"
  using inv by (auto simp: monitor_inv_def fun_eq_iff)

lemma accepted_grows: "sock_step port zero w w' \<Longrightarrow> length (accepted w) \<le> length (accepted w')"
  by (induction rule: sock_step.induct) simp_all

lemma monitor_inv_step:
  assumes "sock_step port zero w w'" and "monitor_inv w" and "length (accepted w') \<le> 65536"
  shows "monitor_inv w'"
  using assms
proof (cases rule: sock_step.cases)
  case (accept e)
  then show ?thesis using assms by (simp add: monitor_inv_accept)
next
  case (other e)
  then show ?thesis using assms by (simp add: monitor_inv_other)
next
  case (state e)
  then show ?thesis using monitor_inv_state [OF assms(2) state(2-5)] assms(3) by (simp split: if_splits)
next
  case (removed c)
  then show ?thesis using assms by (simp add: monitor_inv_removed)
qed

lemma reachable_inv: "reachable port zero w \<Longrightarrow> length (accepted w) \<le> 65536 \<Longrightarrow> monitor_inv w"
proof (induction rule: reachable.induct)
  case init
  then show ?case by (simp add: monitor_inv_def start_def)
next
  case (step w w')
  from accepted_grows [OF step(2)] step(4) have "length (accepted w) \<le> 65536" by simp
  with step show ?case by (blast intro: monitor_inv_step)
qed

text \<open>C11. The invariant of the monitor: as long as at most 65536 connections were accepted, the socket map
  holds exactly the accepted connections that are still open, each at the index that its context
  names.\<close>

theorem monitor_tracks_connections:
  assumes "reachable port zero w" and "length (accepted w) \<le> MAX_CONN"
  shows "ran (sock_map (mon w)) = live w
    \<and> (\<forall>c \<in> live w. \<exists>ctx. sock_ctx_map (mon w) c = Some ctx
         \<and> (\<forall>j. sock_map (mon w) j = Some c \<longleftrightarrow> j = sock_map_index ctx))"
proof -
  have n: "length (accepted w) \<le> 65536" using assms(2) by (simp add: MAX_CONN_def)
  have inv: "monitor_inv w" using assms(1) n by (rule reachable_inv)
  have ix: "\<exists>i < length (accepted w). accepted w ! i = c \<and> (\<forall>j. sock_map (mon w) j = Some c \<longleftrightarrow> j = of_nat i)
      \<and> (\<exists>ctx. sock_ctx_map (mon w) c = Some ctx \<and> sock_map_index ctx = of_nat i)" if c: "c \<in> live w" for c
  proof -
    from c inv obtain i where i: "i < length (accepted w)" "accepted w ! i = c" "c \<notin> closed w"
      by (auto simp: monitor_inv_def in_set_conv_nth subset_iff)
    have u: "unat (of_nat i :: u32) = i" using i n by (simp add: index_unat)
    have j: "j = of_nat i \<longleftrightarrow> unat j = i" for j :: u32 by (simp only: word_unat_eq_iff u)
    have k: "k < length (accepted w) \<Longrightarrow> accepted w ! k = c \<longleftrightarrow> k = i" for k
      using inv i nth_eq_iff_index_eq [of "accepted w" k i] by (auto simp: monitor_inv_def)
    have "sock_map (mon w) j = Some c \<longleftrightarrow> j = of_nat i" for j
      using inv i c k [of "unat j"] by (auto simp: monitor_inv_def j)
    moreover obtain ctx where "sock_ctx_map (mon w) c = Some ctx" "sock_map_index ctx = of_nat i"
      using inv i by (auto simp: monitor_inv_def)
    ultimately show ?thesis using i by blast
  qed
  have "ran (sock_map (mon w)) \<subseteq> live w" using inv by (auto simp: monitor_inv_def ran_def split: if_splits)
  moreover have "live w \<subseteq> ran (sock_map (mon w))" using ix by (fastforce simp: ran_def)
  ultimately show ?thesis using ix by fastforce
qed

subsection \<open>The wrap-around of the index\<close>

definition accept_event :: "u16 \<Rightarrow> u64 \<Rightarrow> sock_event" where
  "accept_event port c = \<lparr>op = BPF_SOCK_OPS_PASSIVE_ESTABLISHED_CB, has_sk = True, cookie = c, family = AF_INET,
     skb_bytes = st16 (replicate 20 0) 2 port, args1 = 0, ctx_made = True, update_ret = 0\<rparr>"

definition close_event :: "u64 \<Rightarrow> sock_event" where
  "close_event c = \<lparr>op = BPF_SOCK_OPS_STATE_CB, has_sk = True, cookie = c, family = AF_INET,
     skb_bytes = [], args1 = BPF_TCP_CLOSE, ctx_made = True, update_ret = 0\<rparr>"

lemma accept_event_accepts [simp]: "accepts port (accept_event port c) s"
  by (simp add: accepts_def accept_event_def)

lemma accept_event_simps [simp]: "cookie (accept_event port c) = c" "update_ret (accept_event port c) = 0"
  by (simp_all add: accept_event_def)

lemma cookie_inj: "m \<le> 65536 \<Longrightarrow> n \<le> 65536 \<Longrightarrow> (of_nat m :: u64) = of_nat n \<Longrightarrow> m = n"
proof -
  assume n: "m \<le> 65536" "n \<le> 65536" and eq: "(of_nat m :: u64) = of_nat n"
  have "unat (of_nat m :: u64) = m" "unat (of_nat n :: u64) = n"
    by (rule unat_of_nat_small, use n in simp)+
  with eq show "m = n" by metis
qed

lemma reachable_many:
  "n \<le> 65536 \<Longrightarrow> \<exists>w. reachable port zero w \<and> accepted w = map of_nat [0 ..< n] \<and> live w = set (accepted w) \<and> closed w = {}
     \<and> state_cb_flag (mon w) = (\<lambda>c. c \<in> set (accepted w))"
proof (induction n)
  case 0
  show ?case by (rule exI [of _ start]) (simp add: reachable.init, simp add: start_def)
next
  case (Suc n)
  then obtain w where w: "reachable port zero w" "accepted w = map of_nat [0 ..< n]" "live w = set (accepted w)"
    "closed w = {}" "state_cb_flag (mon w) = (\<lambda>c. c \<in> set (accepted w))" by auto
  let ?e = "accept_event port (of_nat n)"
  have fresh: "of_nat n \<notin> set (accepted w)"
  proof
    assume "of_nat n \<in> set (accepted w)"
    then obtain i where "i < n" "(of_nat n :: u64) = of_nat i" by (auto simp: w)
    with cookie_inj [of n i] Suc.prems show False by simp
  qed
  have st: "sock_step port zero w
      \<lparr>mon = monitor_connections port zero ?e (mon w), accepted = accepted w @ [of_nat n],
       live = insert (of_nat n) (live w), closed = closed w\<rparr>"
    using sock_step.accept [of port ?e w zero] fresh w by simp
  obtain ctx where m: "monitor_connections port zero ?e (mon w) =
      (let s' = (mon w)\<lparr>count_value := count_value (mon w) + 1, sock_ctx_map := (sock_ctx_map (mon w))(of_nat n \<mapsto> ctx)\<rparr>
       in s'\<lparr>sock_map := (sock_map (mon w))(ucast (count_value (mon w)) \<mapsto> of_nat n),
                 state_cb_flag := (state_cb_flag (mon w))(of_nat n := True)\<rparr>)"
    using accept_mon [of port ?e "mon w" zero] by (auto simp: Let_def)
  show ?case
    by (rule exI, intro conjI, rule reachable.step [OF w(1) st]) (use w m in \<open>auto simp: Let_def fun_eq_iff\<close>)
qed

text \<open>The index wraps around: the connection after 65536 takes the place of the first one, which is
  still open; and when the first one closes, its context removes the new connection from the
  socket map.\<close>

theorem monitor_index_wraps:
  "\<exists>w w' a b. reachable port zero w \<and> length (accepted w) = MAX_CONN + 1 \<and> a \<in> live w \<and> b \<in> live w \<and> a \<noteq> b
     \<and> a \<notin> ran (sock_map (mon w)) \<and> sock_map (mon w) 0 = Some b
     \<and> sock_step port zero w w' \<and> mon w' = monitor_connections port zero (close_event a) (mon w)
     \<and> b \<in> live w' \<and> b \<notin> ran (sock_map (mon w'))"
proof -
  obtain w where w: "reachable port zero w" "accepted w = map of_nat [0 ..< 65536]" "live w = set (accepted w)"
    "closed w = {}" "state_cb_flag (mon w) = (\<lambda>c. c \<in> set (accepted w))"
    using reachable_many [of 65536 port zero] by auto
  then have inv: "monitor_inv w" using reachable_inv [OF w(1)] by (simp add: w(2))
  let ?b = "65536 :: u64"
  let ?e = "accept_event port ?b"
  have fresh: "?b \<notin> set (accepted w)"
  proof
    assume "?b \<in> set (accepted w)"
    then obtain i where "i < 65536" "?b = of_nat i" by (auto simp: w)
    with cookie_inj [of 65536 i] show False by simp
  qed
  obtain ctx where m: "monitor_connections port zero ?e (mon w) =
      (let s' = (mon w)\<lparr>count_value := count_value (mon w) + 1, sock_ctx_map := (sock_ctx_map (mon w))(?b \<mapsto> ctx)\<rparr>
       in s'\<lparr>sock_map := (sock_map (mon w))(ucast (count_value (mon w)) \<mapsto> ?b),
                 state_cb_flag := (state_cb_flag (mon w))(?b := True)\<rparr>)"
    using accept_mon [of port ?e "mon w" zero] by (auto simp: Let_def)
  have cnt: "count_value (mon w) = 0" using inv by (simp add: monitor_inv_def w(2))
  define w1 where "w1 = \<lparr>mon = monitor_connections port zero ?e (mon w), accepted = accepted w @ [?b],
       live = insert ?b (live w), closed = closed w\<rparr>"
  have "sock_step port zero w w1"
    using sock_step.accept [of port ?e w zero] fresh w by (simp add: w1_def)
  with w(1) have r: "reachable port zero w1" by (rule reachable.step)
  have a0: "accepted w ! 0 = 0" and l: "length (accepted w) = 65536" by (simp_all add: w(2))
  have mem: "0 \<in> set (accepted w)" using a0 l nth_mem [of 0 "accepted w"] by simp
  have only: "sock_map (mon w) j = Some 0 \<longleftrightarrow> j = 0" for j
  proof
    assume "sock_map (mon w) j = Some 0"
    with inv have "unat j < length (accepted w)" "accepted w ! unat j = accepted w ! 0"
      by (auto simp: monitor_inv_def a0 split: if_splits)
    with inv l have "unat j = 0" by (auto simp: monitor_inv_def nth_eq_iff_index_eq)
    then show "j = 0" by (simp add: word_unat_eq_iff)
  qed (use inv mem w(3) in \<open>simp add: monitor_inv_def a0 l\<close>)
  have sm: "sock_map (mon w1) = (sock_map (mon w))(0 \<mapsto> ?b)" by (simp add: w1_def m Let_def cnt)
  have nb: "sock_map (mon w) j \<noteq> Some ?b" for j
    using inv fresh by (auto simp: monitor_inv_def split: if_splits)
  obtain ctxa where ctxa: "sock_ctx_map (mon w) 0 = Some ctxa" "sock_map_index ctxa = 0"
    using inv l a0 w(4) by (auto simp: monitor_inv_def dest!: spec [of _ 0])
  have cm: "sock_ctx_map (mon w1) 0 = Some ctxa" using ctxa by (simp add: w1_def m Let_def)
  have cl: "monitor_connections port zero (close_event 0) (mon w1) =
      (mon w1)\<lparr>sock_map := (sock_map (mon w1))(0 := None), sock_ctx_map := (sock_ctx_map (mon w1))(0 := None)\<rparr>"
    using state_mon [of "close_event 0" "mon w1" ctxa port zero] cm ctxa by (simp add: close_event_def)
  have fl: "state_cb_flag (mon w1) 0" using w(5) mem by (simp add: w1_def m Let_def)
  define w2 where "w2 = w1\<lparr>mon := monitor_connections port zero (close_event 0) (mon w1),
         live := live w1 - {0}, closed := insert 0 (closed w1)\<rparr>"
  have s2: "sock_step port zero w1 w2"
    using sock_step.state [of "close_event 0" w1 port zero] fl w(4)
    by (simp add: w2_def close_event_def w1_def)
  show ?thesis
  proof (intro exI conjI)
    show "reachable port zero w1" by (rule r)
    show "length (accepted w1) = MAX_CONN + 1" by (simp add: w1_def l MAX_CONN_def)
    show "0 \<in> live w1" "?b \<in> live w1" using mem w(3) by (simp_all add: w1_def)
    show "0 \<noteq> ?b" by simp
    show "0 \<notin> ran (sock_map (mon w1))" using only by (auto simp: sm ran_def)
    show "sock_map (mon w1) 0 = Some ?b" by (simp add: sm)
    show "sock_step port zero w1 w2" by (rule s2)
    show "mon w2 = monitor_connections port zero (close_event 0) (mon w1)" by (simp add: w2_def)
    show "?b \<in> live w2" by (simp add: w2_def w1_def)
    show "?b \<notin> ran (sock_map (mon w2))" using nb by (auto simp: w2_def cl sm ran_def)
  qed
qed

theorem monitor_tracks_connections_witness:
  "\<exists>w. reachable 80 () w \<and> live w = {0, 1} \<and> ran (sock_map (mon w)) = {0, 1}"
proof -
  obtain w where w: "reachable 80 () w" "accepted w = map of_nat [0 ..< 2]" "live w = set (accepted w)"
    using reachable_many [of 2 80 "()"] by auto
  then have l: "live w = {0, 1}" by (auto simp: upt_rec)
  with monitor_tracks_connections [OF w(1)] w show ?thesis by (auto simp: MAX_CONN_def)
qed

end
