(* ===== verification/Bench_Touch.thy ===== *)
theory Bench_Touch
  imports Packet
begin

text \<open>
  The prefetch benchmark \<open>motivation/user_def_prefetch/bench.bpf.c\<close>: every packet touches an entry of a
  large array map, \<open>STRIDE\<close> entries after the one before, and in the variant compiled with
  \<open>PREFETCH\<close> an address is prefetched first. The addresses of the entries and the numbers that
  \<open>bpf_for\<close> runs through are arguments, as they are up to the kernel; a prefetch is only recorded.
\<close>

definition VALUE_SIZE :: nat where "VALUE_SIZE = 4"
definition ENTRIES :: nat where "ENTRIES = 512 * 1024 * 1024"
definition STRIDE :: nat where "STRIDE = 1025"
definition BENCH_PORT :: u16 where "BENCH_PORT = 8080"

definition ROUND :: "nat \<Rightarrow> nat \<Rightarrow> nat" where
  "ROUND x y = ((x - 1) OR (y - 1)) + 1"

record touch_state =
  has_init :: u32
  my_seed :: u32
  tab_addr :: u64
  last_addr :: u64
  atable :: "u32 \<Rightarrow> u32"
  t_tput :: tput

text \<open>A lookup in the array map gives the entry for every index below the number of entries.\<close>

definition array_lookup :: "touch_state \<Rightarrow> u32 \<Rightarrow> u32 option" where
  "array_lookup s i = (if unat i < ENTRIES then Some (atable s i) else None)"

definition prefetch_next_pkt_touch :: "touch_state \<Rightarrow> u64" where
  "prefetch_next_pkt_touch s =
     (let p = last_addr s + of_nat (STRIDE * ROUND VALUE_SIZE 8) in p + of_nat (STRIDE * ROUND VALUE_SIZE 8))"

definition touch :: "bool \<Rightarrow> (u32 \<Rightarrow> u64) \<Rightarrow> touch_state \<Rightarrow> u32 \<times> touch_state" where
  "touch prefetch addr s =
     (let index = my_seed s mod of_nat ENTRIES;
          s = s\<lparr>my_seed := my_seed s + of_nat STRIDE\<rparr>
      in case array_lookup s index of
           None \<Rightarrow> (- 1, s)
         | Some v \<Rightarrow> (v, if prefetch then s\<lparr>last_addr := addr index\<rparr> else s))"

fun init_entries :: "nat list \<Rightarrow> touch_state \<Rightarrow> bool \<times> touch_state" where
  "init_entries [] s = (True, s)"
| "init_entries (i # is) s =
     (let ii = of_nat i in
      case array_lookup s ii of
        None \<Rightarrow> (False, s)
      | Some _ \<Rightarrow> init_entries is (s\<lparr>atable := (atable s)(ii := ii)\<rparr>))"

definition init_table :: "bool \<Rightarrow> (u32 \<Rightarrow> u64) \<Rightarrow> nat list \<Rightarrow> touch_state \<Rightarrow> touch_state" where
  "init_table prefetch addr numbers s =
     (case init_entries numbers s of
        (False, s) \<Rightarrow> s
      | (True, s) \<Rightarrow>
          if prefetch then (case array_lookup s 0 of None \<Rightarrow> s | Some _ \<Rightarrow> s\<lparr>tab_addr := addr 0\<rparr>) else s)"

text \<open>The program, with the address that it prefetched.\<close>

definition bench_prog ::
  "bool \<Rightarrow> (u32 \<Rightarrow> u64) \<Rightarrow> (nat \<Rightarrow> nat \<Rightarrow> nat list) \<Rightarrow> u64 \<Rightarrow> packet \<Rightarrow> touch_state
     \<Rightarrow> xdp_action \<times> packet \<times> u64 option \<times> touch_state" where
  "bench_prog prefetch addr bpf_for now p s =
     (let s = (if has_init s = 0 then init_table prefetch addr (bpf_for 0 ENTRIES) (s\<lparr>has_init := 1\<rparr>) else s) in
      if \<not> is_relevant BENCH_PORT p then (XDP_PASS, p, None, s)
      else
        let pf = (if prefetch then Some (prefetch_next_pkt_touch s) else None);
            (v, s) = touch prefetch addr s;
            p = st32 p 0 v;
            (_, t) = report_tput_batch now 1 (t_tput s)
        in (XDP_DROP, p, pf, s\<lparr>t_tput := t\<rparr>))"

text \<open>A run over the packets that arrive, with the readings of the clock.\<close>

fun bench_run ::
  "bool \<Rightarrow> (u32 \<Rightarrow> u64) \<Rightarrow> (nat \<Rightarrow> nat \<Rightarrow> nat list) \<Rightarrow> (u64 \<times> packet) list \<Rightarrow> touch_state
     \<Rightarrow> (xdp_action \<times> packet \<times> u64 option) list" where
  "bench_run prefetch addr bpf_for [] s = []"
| "bench_run prefetch addr bpf_for ((now, p) # ps) s =
     (case bench_prog prefetch addr bpf_for now p s of
        (a, q, pf, s) \<Rightarrow> (a, q, pf) # bench_run prefetch addr bpf_for ps s)"

subsection \<open>The entries that are touched\<close>

definition touched :: "nat \<Rightarrow> u32" where
  "touched k = of_nat (STRIDE * k) mod of_nat ENTRIES"

lemma unat_ENTRIES: "unat (of_nat ENTRIES :: u32) = ENTRIES"
  by (simp add: ENTRIES_def)

lemma unat_touched: "unat (touched k) = (STRIDE * k) mod ENTRIES"
proof -
  have e: "ENTRIES mod 2 ^ 32 = ENTRIES" "ENTRIES dvd 2 ^ 32" by (simp_all add: ENTRIES_def)
  have "unat (touched k) = (STRIDE * k) mod 2 ^ 32 mod (ENTRIES mod 2 ^ 32)"
    by (simp add: touched_def unat_mod unat_of_nat del: of_nat_mult)
  with e show ?thesis by (simp only: mod_mod_cancel)
qed

lemma touched_in: "unat (touched k) < ENTRIES"
  by (simp add: unat_touched ENTRIES_def)

lemma stride_inverse: "(1047553 * ((STRIDE * k) mod ENTRIES)) mod ENTRIES = k mod ENTRIES"
proof -
  have "(1047553 * ((STRIDE * k) mod ENTRIES)) mod ENTRIES = (1047553 * (STRIDE * k)) mod ENTRIES"
    by (simp add: mod_mult_right_eq)
  also have "1047553 * (STRIDE * k) = k + ENTRIES * (2 * k)" by (simp add: STRIDE_def ENTRIES_def)
  finally show ?thesis by simp
qed

text \<open>In 536870912 packets every entry is touched exactly once.\<close>

lemma touched_bij: "bij_betw (\<lambda>k. unat (touched k)) {..< ENTRIES} {..< ENTRIES}"
proof -
  have inj: "inj_on (\<lambda>k. unat (touched k)) {..< ENTRIES}"
  proof (rule inj_onI)
    fix j k assume jk: "j \<in> {..< ENTRIES}" "k \<in> {..< ENTRIES}" and "unat (touched j) = unat (touched k)"
    then have "(STRIDE * j) mod ENTRIES = (STRIDE * k) mod ENTRIES" by (simp only: unat_touched)
    then have "j mod ENTRIES = k mod ENTRIES" by (metis stride_inverse)
    with jk show "j = k" by simp
  qed
  moreover have "(\<lambda>k. unat (touched k)) ` {..< ENTRIES} \<subseteq> {..< ENTRIES}" using touched_in by auto
  ultimately show ?thesis by (simp add: bij_betw_def endo_inj_surj)
qed

subsection \<open>A run\<close>

lemma lookup_in: "unat i < ENTRIES \<Longrightarrow> array_lookup s i = Some (atable s i)"
  by (simp add: array_lookup_def)

lemma touch_seed:
  assumes "my_seed s = of_nat (STRIDE * k)"
  shows "touch prefetch addr s = (atable s (touched k),
    s\<lparr>my_seed := of_nat (STRIDE * Suc k), last_addr := (if prefetch then addr (touched k) else last_addr s)\<rparr>)"
  using touched_in [of k] assms
  by (simp add: touch_def Let_def lookup_in touched_def [symmetric] algebra_simps del: of_nat_mult)

lemma init_entries_all:
  "\<forall>i \<in> set is. i < ENTRIES \<Longrightarrow>
     init_entries is s = (True, s\<lparr>atable := (\<lambda>j. if j \<in> of_nat ` set is then j else atable s j)\<rparr>)"
proof (induction "is" arbitrary: s)
  case (Cons i "is")
  have "unat (of_nat i :: u32) < ENTRIES" using Cons.prems by (simp add: ENTRIES_def unat_of_nat_small)
  with Cons show ?case by (auto simp: lookup_in Let_def fun_eq_iff)
qed simp

definition numbered :: "touch_state \<Rightarrow> bool" where
  "numbered s \<longleftrightarrow> (\<forall>i. unat i < ENTRIES \<longrightarrow> atable s i = i)"

lemma init_table_numbered:
  assumes "set numbers = {0 ..< ENTRIES}"
  shows "numbered (init_table prefetch addr numbers s)
    \<and> my_seed (init_table prefetch addr numbers s) = my_seed s
    \<and> has_init (init_table prefetch addr numbers s) = has_init s
    \<and> last_addr (init_table prefetch addr numbers s) = last_addr s"
proof -
  have "\<forall>i \<in> set numbers. i < ENTRIES" using assms by simp
  note all = init_entries_all [OF this]
  have mem: "j \<in> of_nat ` set numbers \<longleftrightarrow> unat j < ENTRIES" for j :: u32
  proof
    assume "unat j < ENTRIES"
    then show "j \<in> of_nat ` set numbers" using assms by (intro image_eqI [of _ _ "unat j"]) simp_all
  next
    assume "j \<in> of_nat ` set numbers"
    then show "unat j < ENTRIES" using assms by (auto simp: unat_of_nat_small ENTRIES_def)
  qed
  have "unat (0 :: u32) < ENTRIES" by (simp add: ENTRIES_def)
  then show ?thesis by (auto simp: init_table_def all numbered_def lookup_in mem)
qed

text \<open>The state before packet number \<open>k\<close>, and the address that is prefetched for it.\<close>

definition before_packet :: "bool \<Rightarrow> (u32 \<Rightarrow> u64) \<Rightarrow> nat \<Rightarrow> touch_state \<Rightarrow> bool" where
  "before_packet prefetch addr k s \<longleftrightarrow> has_init s \<noteq> 0 \<and> numbered s \<and> my_seed s = of_nat (STRIDE * k)
     \<and> (prefetch \<and> 0 < k \<longrightarrow> last_addr s = addr (touched (k - 1)))"

definition prefetched :: "(u32 \<Rightarrow> u64) \<Rightarrow> nat \<Rightarrow> u64" where
  "prefetched addr k = addr (touched (k - 1)) + 2 * of_nat (STRIDE * 8)"

lemma ROUND_value: "ROUND VALUE_SIZE 8 = 8"
  by (simp add: ROUND_def VALUE_SIZE_def)

lemma bench_prog_step:
  assumes "before_packet prefetch addr k s" and "is_relevant BENCH_PORT p"
  shows "\<exists>pf s'. bench_prog prefetch addr bpf_for now p s = (XDP_DROP, st32 p 0 (touched k), pf, s')
    \<and> before_packet prefetch addr (Suc k) s' \<and> (pf = None \<longleftrightarrow> \<not> prefetch) \<and> (prefetch \<and> 0 < k \<longrightarrow> pf = Some (prefetched addr k))"
proof -
  have seed: "my_seed s = of_nat (STRIDE * k)" and init: "has_init s \<noteq> 0" and val: "atable s (touched k) = touched k"
    using assms(1) touched_in by (auto simp: before_packet_def numbered_def)
  show ?thesis
    using assms
    by (auto simp: bench_prog_def Let_def init touch_seed [OF seed] val before_packet_def numbered_def
        prefetch_next_pkt_touch_def prefetched_def ROUND_value split: prod.splits)
qed

lemma bench_run_before:
  assumes "before_packet prefetch addr k s" and "\<forall>(now, p) \<in> set ps. is_relevant BENCH_PORT p" and "i < length ps"
  shows "\<exists>pf. bench_run prefetch addr bpf_for ps s ! i = (XDP_DROP, st32 (snd (ps ! i)) 0 (touched (k + i)), pf)
    \<and> (pf = None \<longleftrightarrow> \<not> prefetch) \<and> (prefetch \<and> 0 < k + i \<longrightarrow> pf = Some (prefetched addr (k + i)))"
  using assms
proof (induction ps arbitrary: k s i)
  case (Cons np ps)
  obtain now p where np: "np = (now, p)" by (cases np)
  with Cons.prems have rel: "is_relevant BENCH_PORT p" by simp
  from bench_prog_step [OF Cons.prems(1) rel, of bpf_for now] obtain pf s' where
    st: "bench_prog prefetch addr bpf_for now p s = (XDP_DROP, st32 p 0 (touched k), pf, s')"
      "before_packet prefetch addr (Suc k) s'" "pf = None \<longleftrightarrow> \<not> prefetch" "prefetch \<and> 0 < k \<longrightarrow> pf = Some (prefetched addr k)" by blast
  show ?case
  proof (cases i)
    case 0
    with st np show ?thesis by auto
  next
    case (Suc j)
    with Cons.IH [OF st(2), of j] Cons.prems st np show ?thesis by simp
  qed
qed simp

lemma first_packet:
  assumes "has_init s = 0" and "my_seed s = 0" and "set (bpf_for 0 ENTRIES) = {0 ..< ENTRIES}"
  shows "\<exists>s'. before_packet prefetch addr 0 s' \<and> (\<forall>now p. bench_prog prefetch addr bpf_for now p s = bench_prog prefetch addr bpf_for now p s')"
proof -
  let ?s = "init_table prefetch addr (bpf_for 0 ENTRIES) (s\<lparr>has_init := 1\<rparr>)"
  note i = init_table_numbered [OF assms(3), of prefetch addr "s\<lparr>has_init := 1\<rparr>"]
  have "before_packet prefetch addr 0 ?s" using i assms by (simp add: before_packet_def)
  moreover have "bench_prog prefetch addr bpf_for now p s = bench_prog prefetch addr bpf_for now p ?s" for now p
    using i assms(1) by (simp add: bench_prog_def)
  ultimately show ?thesis by blast
qed

text \<open>The benchmark: when the kernel runs the loop that numbers the table to its end, packet \<open>k\<close> gets
  the number of the entry that it touches, \<open>1025 * k\<close> modulo the number of entries; these are all
  different over 536870912 packets. With consecutive entries of eight bytes, the address that is
  prefetched before packet \<open>k\<close> is that of the entry of packet \<open>k + 1\<close>, unless the index wraps around.\<close>

theorem bench_touches:
  assumes start: "has_init s = 0" "my_seed s = 0" and loop: "set (bpf_for 0 ENTRIES) = {0 ..< ENTRIES}"
    and rel: "\<forall>(now, p) \<in> set ps. is_relevant BENCH_PORT p"
    and addr: "addr = (\<lambda>i. base + 8 * ucast i)" and k: "k < length ps"
  shows "\<exists>pf. bench_run prefetch addr bpf_for ps s ! k = (XDP_DROP, st32 (snd (ps ! k)) 0 (touched k), pf)
    \<and> unat (touched k) = (STRIDE * k) mod ENTRIES
    \<and> bij_betw (\<lambda>k. unat (touched k)) {..< ENTRIES} {..< ENTRIES}
    \<and> (prefetch \<and> 0 < k \<and> unat (touched (k - 1)) + 2 * STRIDE < ENTRIES \<longrightarrow> pf = Some (addr (touched (k + 1))))"
proof -
  from first_packet [where bpf_for = bpf_for, OF start loop, of prefetch addr] obtain s' where s': "before_packet prefetch addr 0 s'"
    "\<forall>now p. bench_prog prefetch addr bpf_for now p s = bench_prog prefetch addr bpf_for now p s'" by blast
  have run: "bench_run prefetch addr bpf_for ps s = bench_run prefetch addr bpf_for ps s'"
    using s'(2) by (cases ps) auto
  from bench_run_before [OF s'(1) rel k] obtain pf where
    pf: "bench_run prefetch addr bpf_for ps s ! k = (XDP_DROP, st32 (snd (ps ! k)) 0 (touched k), pf)"
      "prefetch \<and> 0 < k \<longrightarrow> pf = Some (prefetched addr k)" using run by auto
  have "prefetched addr k = addr (touched (k + 1))" if "0 < k" "unat (touched (k - 1)) + 2 * STRIDE < ENTRIES"
  proof -
    have e: "STRIDE * (k + 1) = STRIDE * (k - 1) + 2 * STRIDE" using that(1) by (simp add: algebra_simps)
    have u: "unat (touched (k + 1)) = unat (touched (k - 1)) + 2 * STRIDE"
      using that(2) mod_add_left_eq [of "STRIDE * (k - 1)" ENTRIES "2 * STRIDE"]
      by (simp only: unat_touched e mod_less)
    have c: "(ucast (touched (k + 1)) :: u64) = of_nat (unat (touched (k + 1)))"
      "(ucast (touched (k - 1)) :: u64) = of_nat (unat (touched (k - 1)))" by simp_all
    show ?thesis unfolding prefetched_def addr c u by (simp add: STRIDE_def algebra_simps del: of_nat_unat)
  qed
  with pf have "prefetch \<and> 0 < k \<and> unat (touched (k - 1)) + 2 * STRIDE < ENTRIES \<longrightarrow> pf = Some (addr (touched (k + 1)))"
    by metis
  with pf(1) unat_touched touched_bij show ?thesis by blast
qed

definition bench_packet :: packet where "bench_packet = udp_ex[37 := 0x90]"

definition bench_start :: touch_state where
  "bench_start = \<lparr>has_init = 0, my_seed = 0, tab_addr = 0, last_addr = 0, atable = (\<lambda>_. 0),
     t_tput = \<lparr>counter = 0, last_report = 0\<rparr>\<rparr>"

theorem bench_touches_witness:
  "bench_run True (\<lambda>i. 4096 + 8 * ucast i) (\<lambda>a b. [a ..< b]) (replicate 3 (5, bench_packet)) bench_start ! 1
     = (XDP_DROP, st32 bench_packet 0 1025, Some (4096 + 8 * 2050))"
proof -
  have rel: "is_relevant BENCH_PORT bench_packet"
    by (simp add: is_relevant_def bench_packet_def hlen_defs udp_ex_def ld16_def le16_def ETH_P_IP_def bswap16_def
        IPPROTO_UDP_def BENCH_PORT_def)
  have t: "touched 1 = 1025" "touched (1 + 1) = 2050" by (simp_all add: touched_def STRIDE_def ENTRIES_def)
  have u: "unat (touched (1 - 1)) + 2 * STRIDE < ENTRIES" by (simp add: unat_touched STRIDE_def ENTRIES_def)
  from bench_touches [where bpf_for = "\<lambda>a b. [a ..< b]" and s = bench_start and ps = "replicate 3 (5, bench_packet)"
      and k = 1 and prefetch = True and base = 4096, OF _ _ _ _ refl] rel u t
  show ?thesis by (auto simp: bench_start_def)
qed

end
