(* ===== verification/Skb_Commons.thy ===== *)
theory Skb_Commons
  imports Packet
begin

text \<open>
  The helpers of \<open>motivation/user_def_prefetch/include/mybpf/commons.h\<close>: resizing a socket buffer in at
  most two calls of \<open>bpf_skb_adjust_room\<close>, and setting the headers of a packet that goes up the stack.
  Both \<open>bpf_skb_adjust_room\<close> and the checksum (\<open>my_bpf/csum_helpers.h\<close> is not in the
  repository) are arguments.
\<close>

definition SIGNED :: "int \<Rightarrow> bool \<Rightarrow> int" where "SIGNED val neg = (if neg then - val else val)"
definition CAP :: "int \<Rightarrow> int \<Rightarrow> int" where "CAP val cap = (if val > cap then cap else val)"
definition ABS :: "int \<Rightarrow> int" where "ABS val = (if val < 0 then - val else val)"

definition adjust_skb_size :: "(int \<Rightarrow> packet \<Rightarrow> int \<times> packet) \<Rightarrow> u16 \<Rightarrow> packet \<Rightarrow> int \<times> packet" where
  "adjust_skb_size adjust_room new_size skb =
     (let prev_size = (of_nat (length skb) :: u16);
          shrink = new_size < prev_size;
          total_delta = ABS (uint prev_size - uint new_size);
          delta = CAP total_delta 0x0fff;
          total_delta = total_delta - delta;
          (ret, skb) = adjust_room (SIGNED delta shrink) skb
      in if ret < 0 then (-1, skb)
         else if total_delta \<noteq> 0 then
           let (ret, skb) = adjust_room (SIGNED total_delta shrink) skb in
           if ret < 0 then (-1, skb) else (0, skb)
         else (0, skb))"

text \<open>The second version stores into \<open>*tot_resize\<close> as well.\<close>

definition adjust_skb_size_2 ::
  "(int \<Rightarrow> packet \<Rightarrow> int \<times> packet) \<Rightarrow> u16 \<Rightarrow> u16 \<Rightarrow> packet \<Rightarrow> int \<times> packet \<times> u16" where
  "adjust_skb_size_2 adjust_room new_size tot_resize skb =
     (let prev_size = (of_nat (length skb) :: u16);
          shrink = new_size < prev_size;
          total_delta = ABS (uint prev_size - uint new_size);
          delta = CAP total_delta 0x0fff;
          total_delta = total_delta - delta;
          (ret, skb) = adjust_room (SIGNED delta shrink) skb
      in if ret < 0 then (-1, skb, tot_resize)
         else if total_delta \<noteq> 0 then
           let (ret, skb) = adjust_room (SIGNED total_delta shrink) skb in
           if ret < 0 then (-1, skb, tot_resize) else (0, skb, of_int total_delta)
         else (0, skb, of_int total_delta))"

definition prepare_headers_before_pass :: "(packet \<Rightarrow> nat \<Rightarrow> u64 \<Rightarrow> u64) \<Rightarrow> packet \<Rightarrow> int \<times> packet" where
  "prepare_headers_before_pass csum_inline p =
     (let ip = ETH_HLEN; udp = ETH_HLEN + IP_HLEN in
      if length p < udp + UDP_HLEN then (-1, p)
      else
        let new_packet_len = (of_nat (length p) :: u32);
            new_ip_len = new_packet_len - of_nat ETH_HLEN;
            new_udp_len = new_ip_len - of_nat IP_HLEN;
            p = st16 p (ip + 2) (htons (ucast new_ip_len));
            p = p[ip + 8 := 64];
            p = st16 p (ip + 6) 0;
            p = st16 p (ip + 10) 0;
            csum = csum_inline p ip 0;
            p = st16 p (ip + 10) (htons (ucast csum));
            p = st16 p (udp + 4) (htons (ucast new_udp_len));
            p = st16 p (udp + 6) 0
        in (0, p))"

subsection \<open>Resizing\<close>

text \<open>
  The contract of \<open>bpf_skb_adjust_room\<close>: it changes the length by \<open>d\<close> when \<open>d\<close> has at
  most twelve bits and the new length is within the limits of the device, and fails without a
  change otherwise.
\<close>

definition room_contract :: "nat \<Rightarrow> nat \<Rightarrow> (int \<Rightarrow> packet \<Rightarrow> int \<times> packet) \<Rightarrow> bool" where
  "room_contract lo hi adj \<longleftrightarrow>
     (\<forall>d p. if \<bar>d\<bar> \<le> 0xfff \<and> int lo \<le> int (length p) + d \<and> int (length p) + d \<le> int hi
            then \<exists>q. adj d p = (0, q) \<and> int (length q) = int (length p) + d
            else \<exists>r. r < 0 \<and> adj d p = (r, p))"

lemma room_ok:
  "room_contract lo hi adj \<Longrightarrow> \<bar>d\<bar> \<le> 0xfff \<Longrightarrow> int lo \<le> int (length p) + d \<Longrightarrow> int (length p) + d \<le> int hi \<Longrightarrow>
     \<exists>q. adj d p = (0, q) \<and> int (length q) = int (length p) + d"
  unfolding room_contract_def by metis

lemma room_fails:
  "room_contract lo hi adj \<Longrightarrow> \<not> (\<bar>d\<bar> \<le> 0xfff \<and> int lo \<le> int (length p) + d \<and> int (length p) + d \<le> int hi) \<Longrightarrow>
     \<exists>r. r < 0 \<and> adj d p = (r, p)"
  unfolding room_contract_def by metis

text \<open>The two steps: at most 4095 bytes, then the rest, in the direction of the change.\<close>

definition first_step :: "int \<Rightarrow> int" where "first_step D = SIGNED (CAP (ABS D) 0x0fff) (D < 0)"

lemma steps:
  "\<bar>first_step D\<bar> \<le> 0xfff"
  "SIGNED (ABS D - CAP (ABS D) 0x0fff) (D < 0) = D - first_step D"
  "ABS D - CAP (ABS D) 0x0fff = 0 \<longleftrightarrow> D = first_step D"
  "\<bar>D - first_step D\<bar> \<le> 0xfff \<longleftrightarrow> \<bar>D\<bar> \<le> 2 * 0xfff"
  "min 0 D \<le> first_step D" "first_step D \<le> max 0 D"
  by (auto simp: first_step_def SIGNED_def CAP_def ABS_def)

lemma adjust_unfold:
  assumes "length p < 2 ^ 16" and "int (unat new_size) = int (length p) + D"
  shows "adjust_skb_size_2 adj new_size t p =
     (let (ret, skb) = adj (first_step D) p
      in if ret < 0 then (-1, skb, t)
         else if D \<noteq> first_step D then
           let (ret, skb) = adj (D - first_step D) skb in
           if ret < 0 then (-1, skb, t) else (0, skb, of_int (\<bar>D\<bar> - \<bar>first_step D\<bar>))
         else (0, skb, 0))"
    "adjust_skb_size adj new_size p = (let (ret, q, t) = adjust_skb_size_2 adj new_size t p in (ret, q))"
proof -
  have "unat (of_nat (length p) :: u16) = length p" by (rule unat_of_nat_small) (use assms(1) in simp)
  then have u: "uint (of_nat (length p) :: u16) = int (length p)" by (metis of_nat_unat)
  have n: "uint new_size = int (length p) + D" using assms(2) by simp
  have s: "new_size < of_nat (length p) \<longleftrightarrow> D < 0" by (simp add: word_less_def u n)
  have a: "ABS (uint (of_nat (length p) :: u16) - uint new_size) = ABS D" by (simp add: u n ABS_def)
  have r: "ABS D - CAP (ABS D) 0xfff = \<bar>D\<bar> - \<bar>first_step D\<bar>"
    by (auto simp: first_step_def SIGNED_def CAP_def ABS_def)
  have r2: "SIGNED (\<bar>D\<bar> - \<bar>first_step D\<bar>) (D < 0) = D - first_step D" using steps(2) [of D] by (simp only: r)
  have r3: "\<bar>D\<bar> - \<bar>first_step D\<bar> = 0 \<longleftrightarrow> D = first_step D" using steps(3) [of D] by (simp only: r)
  show "adjust_skb_size_2 adj new_size t p =
     (let (ret, skb) = adj (first_step D) p
      in if ret < 0 then (-1, skb, t)
         else if D \<noteq> first_step D then
           let (ret, skb) = adj (D - first_step D) skb in
           if ret < 0 then (-1, skb, t) else (0, skb, of_int (\<bar>D\<bar> - \<bar>first_step D\<bar>))
         else (0, skb, 0))"
    unfolding adjust_skb_size_2_def s a first_step_def [symmetric] Let_def r r2 r3 by (simp split: prod.split)
  show "adjust_skb_size adj new_size p = (let (ret, q, t) = adjust_skb_size_2 adj new_size t p in (ret, q))"
    by (simp add: adjust_skb_size_def adjust_skb_size_2_def Let_def split: prod.splits)
qed

text \<open>C35. Resizing works for a change of at most 8190 bytes, and gives the length that was asked for;
  beyond that it fails, after the first step was done. What the second version
  reports is what was left for its second step, not the change.\<close>

theorem adjust_skb_bounds:
  assumes adj: "room_contract lo hi adj" and len: "length p < 2 ^ 16" "lo \<le> length p" "length p \<le> hi"
    and D: "D = int (unat new_size) - int (length p)" and fits: "lo \<le> unat new_size" "unat new_size \<le> hi"
  shows "\<exists>q. adjust_skb_size adj new_size p = (if \<bar>D\<bar> \<le> 8190 then 0 else -1, q)
    \<and> adjust_skb_size_2 adj new_size t p
        = (if \<bar>D\<bar> \<le> 8190 then 0 else -1, q, if \<bar>D\<bar> \<le> 8190 then of_int (max 0 (\<bar>D\<bar> - 4095)) else t)
    \<and> int (length q) = (if \<bar>D\<bar> \<le> 8190 then int (unat new_size) else int (length p) + sgn D * 4095)"
proof -
  let ?f = "first_step D"
  have n: "int (unat new_size) = int (length p) + D" using D by simp
  note b = steps(5,6) [of D]
  have fi: "int lo \<le> int (length p) + D" "int (length p) + D \<le> int hi"
    unfolding n [symmetric] using fits by (simp_all only: of_nat_le_iff)
  have "int lo \<le> int (length p) + ?f" "int (length p) + ?f \<le> int hi"
    using b fi len(2,3) by (auto simp: min_def max_def split: if_splits)
  from room_ok [OF adj steps(1) this] obtain q where
    q: "adj ?f p = (0, q)" "int (length q) = int (length p) + ?f" by blast
  have r: "\<bar>D\<bar> - \<bar>?f\<bar> = max 0 (\<bar>D\<bar> - 4095)" "\<not> \<bar>D\<bar> \<le> 8190 \<Longrightarrow> ?f = sgn D * 4095" "\<bar>D\<bar> - \<bar>?f\<bar> = 0 \<longleftrightarrow> D = ?f"
    by (auto simp: first_step_def SIGNED_def CAP_def ABS_def sgn_if)
  have "\<exists>q. adjust_skb_size_2 adj new_size t p
        = (if \<bar>D\<bar> \<le> 8190 then 0 else -1, q, if \<bar>D\<bar> \<le> 8190 then of_int (max 0 (\<bar>D\<bar> - 4095)) else t)
    \<and> int (length q) = (if \<bar>D\<bar> \<le> 8190 then int (unat new_size) else int (length p) + sgn D * 4095)"
  proof (cases "D = ?f")
    case True
    then have "\<bar>D\<bar> \<le> 8190" using steps(4) [of D] by simp
    with True q n r show ?thesis by (simp add: adjust_unfold(1) [OF len(1) n])
  next
    case False
    show ?thesis
    proof (cases "\<bar>D\<bar> \<le> 8190")
      case True
      have "\<bar>D - ?f\<bar> \<le> 0xfff" using True steps(4) [of D] by simp
      moreover have "int lo \<le> int (length q) + (D - ?f)" "int (length q) + (D - ?f) \<le> int hi" using q fi by auto
      ultimately obtain q2 where "adj (D - ?f) q = (0, q2)" "int (length q2) = int (length q) + (D - ?f)"
        using room_ok [OF adj] by blast
      with False True q n r show ?thesis by (simp add: adjust_unfold(1) [OF len(1) n])
    next
      case long: False
      have "\<not> \<bar>D - ?f\<bar> \<le> 0xfff" using long steps(4) [of D] by simp
      with room_fails [OF adj] obtain ret where "ret < 0" "adj (D - ?f) q = (ret, q)" by blast
      with False long q r show ?thesis by (simp add: adjust_unfold(1) [OF len(1) n])
    qed
  qed
  then show ?thesis by (auto simp: adjust_unfold(2) [OF len(1) n, where t = t])
qed

definition room_ex :: "nat \<Rightarrow> nat \<Rightarrow> int \<Rightarrow> packet \<Rightarrow> int \<times> packet" where
  "room_ex lo hi d p =
     (if \<bar>d\<bar> \<le> 0xfff \<and> int lo \<le> int (length p) + d \<and> int (length p) + d \<le> int hi
      then (0, take (nat (int (length p) + d)) p @ replicate (nat d) 0) else (-1, p))"

lemma room_ex_contract: "room_contract lo hi (room_ex lo hi)"
  by (auto simp: room_contract_def room_ex_def min_def)

theorem adjust_skb_bounds_witness:
  "\<exists>q. adjust_skb_size_2 (room_ex 34 9000) 5100 7 (replicate 100 1) = (0, q, 905) \<and> length q = 5100"
  using adjust_skb_bounds [OF room_ex_contract [of 34 9000], of "replicate 100 1" 5000 5100 7] by auto

subsection \<open>Headers\<close>

text \<open>The contract of the checksum: stored into a header whose checksum field is zero, it verifies.\<close>

definition csum_contract :: "(packet \<Rightarrow> nat \<Rightarrow> u64 \<Rightarrow> u64) \<Rightarrow> bool" where
  "csum_contract csum \<longleftrightarrow>
     (\<forall>p ip. ip + 20 \<le> length p \<and> ld16 p (ip + 10) = 0 \<longrightarrow>
        ipv4_csum_inline (st16 p (ip + 10) (htons (ucast (csum p ip 0)))) ip 0 = 0)"

text \<open>A packet for the stack keeps its addresses, ports and payload; its lengths are set and its header
  checksum verifies.\<close>

theorem pass_headers_correct:
  assumes c: "csum_contract csum" and "length p < 2 ^ 16"
  shows "if length p < 42 then prepare_headers_before_pass csum p = (-1, p)
    else \<exists>q. prepare_headers_before_pass csum p = (0, q) \<and> length q = length p \<and> drop 42 q = drop 42 p
      \<and> take 16 q = take 16 p \<and> (\<forall>k. 26 \<le> k \<and> k < 38 \<longrightarrow> q ! k = p ! k)
      \<and> unat (ntohs (ld16 q 16)) = length p - 14 \<and> unat (ntohs (ld16 q 38)) = length p - 34
      \<and> ipv4_csum_inline q 14 0 = 0"
proof (cases "length p < 42")
  case True
  then show ?thesis by (simp add: prepare_headers_before_pass_def hlen_defs)
next
  case False
  then have l: "42 \<le> length p" by simp
  note lens = unat_lengths [OF l assms(2)]
  let ?w = "st16 (st16 ((st16 p 16 (htons (ucast (of_nat (length p) - 14 :: u32))))[22 := 64]) 20 0) 24 0"
  let ?c = "st16 ?w 24 (htons (ucast (csum ?w 14 0)))"
  define q where "q = st16 (st16 ?c 38 (htons (ucast (of_nat (length p) - 14 - 20 :: u32)))) 40 0"
  have qq: "prepare_headers_before_pass csum p = (0, q)"
    using l by (simp add: prepare_headers_before_pass_def hlen_defs Let_def q_def)
  have lq: "length q = length p" by (simp add: q_def)
  have nth: "q ! k = p ! k" if "k \<notin> {16, 17, 20, 21, 22, 24, 25, 38, 39, 40, 41}" for k
    using that l by (auto simp: q_def nth_st16 nth_list_update)
  have d: "drop 42 q = drop 42 p" "take 16 q = take 16 p"
    by (rule nth_equalityI; simp add: lq nth)+
  moreover have "unat (ntohs (ld16 q 16)) = length p - 14"
    using l unfolding q_def by (simp add: ld16_st16_other lens ld16_def [of "list_update _ _ _"] nth_st16)
  moreover have "unat (ntohs (ld16 q 38)) = length p - 34"
  proof -
    have "ld16 q 38 = htons (ucast (of_nat (length p) - 14 - 20 :: u32))"
      unfolding q_def by (subst ld16_st16_other) (use l in \<open>simp_all\<close>)
    then show ?thesis by (simp only: bswap16_bswap16 lens)
  qed
  moreover have "ipv4_csum_inline q 14 0 = 0"
  proof -
    have "ipv4_csum_inline ?c 14 0 = 0"
      using c [unfolded csum_contract_def, rule_format, of 14 ?w] l by simp
    moreover have "hword q 14 i = hword ?c 14 i" if "i < 10" for i
      using l that unfolding q_def hword_def by (simp add: ld16_st16_other)
    then have "unat (ipv4_sum q 14 0) = unat (ipv4_sum ?c 14 0)"
      unfolding unat_ipv4_sum by (intro sum.cong) auto
    then have "ipv4_sum q 14 0 = ipv4_sum ?c 14 0" by (rule unat_eqI)
    ultimately show ?thesis by (simp only: ipv4_csum_inline_def)
  qed
  moreover have "\<forall>k. 26 \<le> k \<and> k < 38 \<longrightarrow> q ! k = p ! k" by (simp add: nth)
  ultimately show ?thesis using qq lq l by auto
qed

theorem pass_headers_correct_witness:
  "\<exists>q. prepare_headers_before_pass ipv4_csum_inline (replicate 46 7) = (0, q) \<and> length q = 46
     \<and> unat (ntohs (ld16 q 16)) = 32 \<and> ipv4_csum_inline q 14 0 = 0"
proof -
  have "csum_contract ipv4_csum_inline" by (auto simp: csum_contract_def intro: checksum_verifies)
  from pass_headers_correct [OF this, of "replicate 46 7"] show ?thesis by auto
qed

end
