(* ===== verification/Dat_Loader.thy ===== *)
theory Dat_Loader
  imports Xdp_Single Router_Loader
begin

text \<open>
  The user-space half of \<open>dat_test\<close>: \<open>motivation/bax_lpm/loader.c\<close>, which allocates a double-array trie
  and fills it from the routing dataset (\<open>load_routing_dataset\<close> is the function of the router's
  loader, copied). \<open>motivation/microbench_bax_stage/loader.c\<close> does the same with more
  nodes. Here a value has the size of a message; a program that exits gives no trie.
  Both main functions are in \<open>Launch\<close>.
\<close>

definition BAX_MAX_NODES :: u32 where "BAX_MAX_NODES = 100 * 1000 * 1000"
definition STAGE_MAX_NODES :: u32 where "STAGE_MAX_NODES = 200 * 1000 * 1000"

definition prepare_dat :: "addr \<Rightarrow> u32 \<Rightarrow> dat option checked" where
  "prepare_dat area max_nod =
     (if area = 0 then Inr None
      else checked_bind (userspace_arena_dat_alloc VAL_SZ (of_nat MAX_ENTRIES) max_nod) (\<lambda>r.
             Inr (case r of Inl err \<Rightarrow> None | Inr (d, allocated_area) \<Rightarrow> Some d)))"

text \<open>The bytes of \<open>k->data\<close>.\<close>

definition ipv4_addr :: "lpm_dri_key_t \<Rightarrow> bytes" where
  "ipv4_addr k = (\<lambda>i. if i < 4 then ucast (drop_bit (8 * i) (key_data k)) else 0)"

fun dat_routes :: "nat \<Rightarrow> lpm_dri_key_t list \<Rightarrow> dat \<Rightarrow> dat checked" where
  "dat_routes i [] d = Inr d"
| "dat_routes i (k # ks) d =
     checked_bind (dat_insert VAL_SZ d (ipv4_addr k) (prefixlen k) (value_text i)) (\<lambda>(ret, d).
       if ret \<noteq> 0 then Inl Assertion_failed else dat_routes (i + 1) ks d)"

definition launch_arena_dat :: "u32 \<Rightarrow> addr \<Rightarrow> u8 list \<Rightarrow> dat option checked" where
  "launch_arena_dat max_nod area file =
     checked_bind (prepare_dat area max_nod) (\<lambda>r.
       case r of
         None \<Rightarrow> Inr None
       | Some d \<Rightarrow>
           checked_bind (load_routing_dataset file) (\<lambda>(ks, n).
             checked_bind (dat_routes 0 (take (min n MAX_ENTRIES) ks) d) (\<lambda>d. Inr (Some d))))"

text \<open>The program that is selected: the last argument that names one.\<close>

datatype dat_prog_t = LPM_TRIE | ARENA_DAT | ARENA_DAT_BAX

fun dat_selected_prog :: "u8 list list \<Rightarrow> dat_prog_t \<Rightarrow> dat_prog_t option" where
  "dat_selected_prog [] prog = Some prog"
| "dat_selected_prog (a # argv) prog =
     (if strncmp_eq a (str ''--lpm'') 5 then dat_selected_prog argv LPM_TRIE
      else if strncmp_eq a (str ''--dat'') 5 then dat_selected_prog argv ARENA_DAT
      else if strncmp_eq a (str ''--bax-dat'') 9 then dat_selected_prog argv ARENA_DAT_BAX
      else if strncmp_eq a (str ''--help'') 6 \<or> strncmp_eq a (str ''-h'') 2 then None
      else dat_selected_prog argv prog)"

subsection \<open>The trie of a dataset\<close>

definition route_bits :: "route \<Rightarrow> bool list" where
  "route_bits r = key_bits (ipv4_addr (route_key r)) (plen r)"

text \<open>The entries are those of the lines \<open>rs\<close>, the later one where two have the same prefix.\<close>

definition holds_routes :: "dat \<Rightarrow> route list \<Rightarrow> bool" where
  "holds_routes d rs \<longleftrightarrow>
     (\<forall>bs. case dat_entry d bs of
        None \<Rightarrow> \<forall>r \<in> set rs. route_bits r \<noteq> bs
      | Some val \<Rightarrow> \<exists>i < length rs. route_bits (rs ! i) = bs \<and> (\<forall>j < length rs. route_bits (rs ! j) = bs \<longrightarrow> j \<le> i)
          \<and> map val [0 ..< VAL_SZ] = map (value_text i) [0 ..< VAL_SZ])"

lemma holds_routes_snoc:
  assumes "holds_routes d rs" and "dat_entry d' = (dat_entry d)(route_bits r \<mapsto> value_copy VAL_SZ w (value_text (length rs)))"
  shows "holds_routes d' (rs @ [r])"
  unfolding holds_routes_def
proof
  fix bs
  show "case dat_entry d' bs of
        None \<Rightarrow> \<forall>r \<in> set (rs @ [r]). route_bits r \<noteq> bs
      | Some val \<Rightarrow> \<exists>i < length (rs @ [r]). route_bits ((rs @ [r]) ! i) = bs
          \<and> (\<forall>j < length (rs @ [r]). route_bits ((rs @ [r]) ! j) = bs \<longrightarrow> j \<le> i)
          \<and> map val [0 ..< VAL_SZ] = map (value_text i) [0 ..< VAL_SZ]"
  proof (cases "route_bits r = bs")
    case True
    have "map (value_copy VAL_SZ w (value_text (length rs))) [0 ..< VAL_SZ] = map (value_text (length rs)) [0 ..< VAL_SZ]"
      by (simp add: value_copy_def)
    then show ?thesis using True assms(2) by (auto intro!: exI [of _ "length rs"])
  next
    case False
    then have e: "dat_entry d' bs = dat_entry d bs" using assms(2) by simp
    note h = assms(1) [unfolded holds_routes_def, rule_format, of bs]
    show ?thesis
    proof (cases "dat_entry d bs")
      case None
      with False e h show ?thesis by auto
    next
      case (Some val)
      with h obtain i where i: "i < length rs" "route_bits (rs ! i) = bs" "\<forall>j < length rs. route_bits (rs ! j) = bs \<longrightarrow> j \<le> i"
        "map val [0 ..< VAL_SZ] = map (value_text i) [0 ..< VAL_SZ]" by auto
      with False Some e show ?thesis by (auto simp: nth_append less_Suc_eq intro!: exI [of _ i])
    qed
  qed
qed

text \<open>Filling: with room for 32 blocks per line the loader succeeds.\<close>

lemma dat_routes_holds:
  assumes "\<forall>r \<in> set rs. plen r \<le> 32" and "dat_inv d" and "holds_routes d done'"
    and "unat (stk_ptr d) + 32 * length rs \<le> unat (stk_size d)"
    and "unat (value_stk_ptr d) + length rs \<le> unat (value_count d)"
  shows "\<exists>d'. dat_routes (length done') (map route_key rs) d = Inr d' \<and> dat_inv d' \<and> holds_routes d' (done' @ rs)"
  using assms
proof (induction rs arbitrary: d done')
  case Nil
  then show ?case by simp
next
  case (Cons r rs)
  let ?k = "prefixlen (route_key r)"
  have k: "unat ?k = plen r" using Cons.prems(1) by (cases r) (simp add: unat_of_nat_small)
  have ks: "unat ?k \<le> DAT_KEY_SIZE_BIT" using Cons.prems(1) k by (simp add: DAT_KEY_SIZE_BIT_def)
  have lt: "unat (value_stk_ptr d) < unat (value_count d)" using Cons.prems(5) by simp
  from dat_insert_spec [OF Cons.prems(2) ks lt, of VAL_SZ "ipv4_addr (route_key r)" "value_text (length done')"]
  obtain ret d1 where ins: "dat_insert VAL_SZ d (ipv4_addr (route_key r)) ?k (value_text (length done')) = Inr (ret, d1)"
    "dat_inv d1" and e: "if ret = 0
       then \<exists>w. dat_entry d1 = (dat_entry d)(key_bits (ipv4_addr (route_key r)) (unat ?k) \<mapsto> value_copy VAL_SZ w (value_text (length done')))
       else ret = - ENOMEM \<and> dat_entry d1 = dat_entry d"
    and sz: "value_count d1 = value_count d" "stk_size d1 = stk_size d"
      "unat (value_stk_ptr d1) \<le> unat (value_stk_ptr d) + 1" "unat (stk_ptr d1) \<le> unat (stk_ptr d) + unat ?k"
      "unat (stk_ptr d) + unat ?k \<le> unat (stk_size d) \<longrightarrow> ret = 0" by blast
  have k32: "unat ?k \<le> 32" using Cons.prems(1) k by simp
  with sz(5) Cons.prems(4) have r0: "ret = 0" by simp
  with e obtain w where
    "dat_entry d1 = (dat_entry d)(route_bits r \<mapsto> value_copy VAL_SZ w (value_text (length done')))"
    by (auto simp: route_bits_def k)
  with Cons.prems(3) have "holds_routes d1 (done' @ [r])" by (rule holds_routes_snoc)
  moreover have "unat (stk_ptr d1) + 32 * length rs \<le> unat (stk_size d1)"
    "unat (value_stk_ptr d1) + length rs \<le> unat (value_count d1)" using sz k32 Cons.prems(4,5) by simp_all
  ultimately obtain d' where "dat_routes (length (done' @ [r])) (map route_key rs) d1 = Inr d'" "dat_inv d'"
    "holds_routes d' ((done' @ [r]) @ rs)"
    using Cons.IH [OF _ ins(2), of "done' @ [r]"] Cons.prems(1) by auto
  then show ?case by (simp add: ins(1) r0)
qed

lemma launch_dat_dataset:
  assumes txts: "\<forall>r \<in> set rs. short_text r \<and> plen r \<le> 32" and area: "area \<noteq> 0"
    and room: "32 * length rs + 2 \<le> unat max_nod div 2" "unat max_nod < 2 ^ 31" "length rs \<le> MAX_ENTRIES"
  shows "\<exists>d. launch_arena_dat max_nod area (dataset rs) = Inr (Some d) \<and> dat_inv d \<and> holds_routes d rs"
proof -
  have e: "(of_nat MAX_ENTRIES :: u32) AND 1 = 0" "unat (of_nat MAX_ENTRIES :: u32) = MAX_ENTRIES" "MAX_ENTRIES < 2 ^ 31"
    by (simp_all add: MAX_ENTRIES_def)
  have n4: "4 \<le> unat max_nod" using room(1) by linarith
  have v31: "unat (of_nat MAX_ENTRIES :: u32) < 2 ^ 31" using e by simp
  from dat_alloc_fresh [OF e(1) v31 n4 room(2), of VAL_SZ] obtain d sz where
    al: "userspace_arena_dat_alloc VAL_SZ (of_nat MAX_ENTRIES) max_nod = Inr (Inr (d, sz))" "dat_inv d"
      "dat_entry d = Map.empty" "value_stk_ptr d = 0" "value_count d = of_nat MAX_ENTRIES"
      "unat (stk_ptr d) = 1" "unat (stk_size d) = unat max_nod div 2 - 1" by blast
  have prep: "prepare_dat area max_nod = Inr (Some d)" using area al(1) by (simp add: prepare_dat_def)
  have t: "\<forall>r \<in> set rs. short_text r \<and> plen r < 10 ^ 7" and l: "\<forall>r \<in> set rs. plen r \<le> 32" using txts by fastforce+
  have h: "holds_routes d []" by (simp add: holds_routes_def al(3))
  have "unat (stk_ptr d) + 32 * length rs \<le> unat (stk_size d)"
    "unat (value_stk_ptr d) + length rs \<le> unat (value_count d)" using room al e by simp_all
  from dat_routes_holds [OF l al(2) h this] obtain d' where
    "dat_routes 0 (map route_key rs) d = Inr d'" "dat_inv d'" "holds_routes d' rs" by auto
  then show ?thesis using room(3) by (simp add: launch_arena_dat_def prep load_dataset [OF t] min_def)
qed

subsection \<open>From the dataset to the replies\<close>

text \<open>
  The line that serves an address: the longest among the lines with less than 32 bits that match it,
  the last of them where several have this length. Lines with all 32 bits are never found.
\<close>

definition line_matches :: "route list \<Rightarrow> bytes \<Rightarrow> nat \<Rightarrow> bool" where
  "line_matches rs key i \<longleftrightarrow> plen (rs ! i) < 32 \<and> route_bits (rs ! i) = key_bits key (plen (rs ! i))"

fun best_line :: "route list \<Rightarrow> bytes \<Rightarrow> nat \<Rightarrow> nat option" where
  "best_line rs key 0 = None"
| "best_line rs key (Suc n) =
     (let best = best_line rs key n in
      if line_matches rs key n \<and> (case best of None \<Rightarrow> True | Some i \<Rightarrow> plen (rs ! i) \<le> plen (rs ! n))
      then Some n else best)"

lemma best_line_spec:
  "case best_line rs key n of
     None \<Rightarrow> \<forall>i < n. \<not> line_matches rs key i
   | Some i \<Rightarrow> i < n \<and> line_matches rs key i
       \<and> (\<forall>j < n. line_matches rs key j \<longrightarrow> plen (rs ! j) < plen (rs ! i) \<or> plen (rs ! j) = plen (rs ! i) \<and> j \<le> i)"
proof (induction n)
  case 0
  show ?case by simp
next
  case (Suc n)
  show ?case
  proof (cases "best_line rs key n")
    case None
    with Suc show ?thesis by (auto simp: Let_def less_Suc_eq)
  next
    case (Some i)
    with Suc have i: "i < n" "line_matches rs key i"
      "\<forall>j < n. line_matches rs key j \<longrightarrow> plen (rs ! j) < plen (rs ! i) \<or> plen (rs ! j) = plen (rs ! i) \<and> j \<le> i" by simp_all
    show ?thesis
    proof (cases "line_matches rs key n \<and> plen (rs ! i) \<le> plen (rs ! n)")
      case True
      then have "best_line rs key (Suc n) = Some n" using Some by simp
      with True i show ?thesis by (auto simp: less_Suc_eq dest: less_le_trans)
    next
      case False
      then have "best_line rs key (Suc n) = Some i" using Some by auto
      with False i show ?thesis by (auto simp: less_Suc_eq)
    qed
  qed
qed

text \<open>C9. The program end to end: from the text of the dataset to the reply. With room for the nodes the
  loader succeeds, and the program answers a query with the text of the line that serves the
  address, or drops it when there is none.\<close>

theorem dat_from_dataset:
  assumes txts: "\<forall>r \<in> set rs. short_text r \<and> plen r \<le> 32" and area: "area \<noteq> 0"
    and room: "32 * length rs + 2 \<le> unat max_nod div 2" "unat max_nod < 2 ^ 31" "length rs \<le> MAX_ENTRIES"
    and tail: "tail_contract adj" and len: "length p < 2 ^ 15" and q: "single_query p"
  shows "\<exists>d a p'. launch_arena_dat max_nod area (dataset rs) = Inr (Some d) \<and> dat_test_main adj (Some d) p = Inr (a, p')
    \<and> (case best_line rs (packet_key p PAYLOAD) (length rs) of
         None \<Rightarrow> a = XDP_DROP \<and> p' = p
       | Some i \<Rightarrow> if resizable adj VAL_SZ p then a = XDP_TX \<and> reply_to p (map (value_text i) [0 ..< VAL_SZ]) p'
                   else a = XDP_PASS)"
proof -
  let ?k = "packet_key p PAYLOAD"
  from launch_dat_dataset [OF txts area room] obtain d where
    d: "launch_arena_dat max_nod area (dataset rs) = Inr (Some d)" "dat_inv d" and h: "holds_routes d rs" by blast
  from dat_test_serves [OF d(2) tail len q] obtain a p' where ap: "dat_test_main adj (Some d) p = Inr (a, p')"
    and v: "if \<forall>i < 32. dat_entry d (key_bits ?k i) = None then a = XDP_DROP \<and> p' = p
       else \<exists>i < 32. \<exists>val. dat_entry d (key_bits ?k i) = Some val
         \<and> (\<forall>j. i < j \<and> j < 32 \<longrightarrow> dat_entry d (key_bits ?k j) = None)
         \<and> (if resizable adj VAL_SZ p then a = XDP_TX \<and> reply_to p (map val [0 ..< VAL_SZ]) p' else a = XDP_PASS)"
    by blast
  have bits: "route_bits r = key_bits ?k n \<Longrightarrow> plen r = n" for r n
    by (metis route_bits_def length_key_bits)
  have entry: "dat_entry d (key_bits ?k (plen (rs ! j))) \<noteq> None" if "j < length rs" "line_matches rs ?k j" for j
  proof
    assume "dat_entry d (key_bits ?k (plen (rs ! j))) = None"
    with h have "\<forall>r \<in> set rs. route_bits r \<noteq> key_bits ?k (plen (rs ! j))"
      by (auto simp: holds_routes_def split: option.splits dest!: spec [of _ "key_bits ?k (plen (rs ! j))"])
    with that show False by (auto simp: line_matches_def)
  qed
  note best = best_line_spec [where rs = rs and key = ?k and n = "length rs"]
  have "case best_line rs ?k (length rs) of
         None \<Rightarrow> a = XDP_DROP \<and> p' = p
       | Some i \<Rightarrow> if resizable adj VAL_SZ p then a = XDP_TX \<and> reply_to p (map (value_text i) [0 ..< VAL_SZ]) p'
                   else a = XDP_PASS"
  proof (cases "\<forall>i < 32. dat_entry d (key_bits ?k i) = None")
    case True
    have "best_line rs ?k (length rs) = None"
    proof (rule ccontr)
      assume "best_line rs ?k (length rs) \<noteq> None"
      then obtain i where "i < length rs" "line_matches rs ?k i" using best by (auto split: option.splits)
      with entry [of i] True show False by (simp add: line_matches_def)
    qed
    with True v show ?thesis by simp
  next
    case False
    with v obtain n val where n: "n < 32" "dat_entry d (key_bits ?k n) = Some val"
      "\<forall>j. n < j \<and> j < 32 \<longrightarrow> dat_entry d (key_bits ?k j) = None"
      "if resizable adj VAL_SZ p then a = XDP_TX \<and> reply_to p (map val [0 ..< VAL_SZ]) p' else a = XDP_PASS" by auto
    from h [unfolded holds_routes_def, rule_format, of "key_bits ?k n"] n(2) obtain i where
      i: "i < length rs" "route_bits (rs ! i) = key_bits ?k n"
        "\<forall>j < length rs. route_bits (rs ! j) = key_bits ?k n \<longrightarrow> j \<le> i"
        "map val [0 ..< VAL_SZ] = map (value_text i) [0 ..< VAL_SZ]" by auto
    have pl: "plen (rs ! i) = n" using i(2) by (rule bits)
    have mi: "line_matches rs ?k i" using i(2) pl n(1) by (simp add: line_matches_def)
    then obtain b where b: "best_line rs ?k (length rs) = Some b" "b < length rs" "line_matches rs ?k b"
      "plen (rs ! i) < plen (rs ! b) \<or> plen (rs ! i) = plen (rs ! b) \<and> i \<le> b"
      using best i(1) by (auto split: option.splits)
    have "\<not> n < plen (rs ! b)" using entry [OF b(2,3)] n(3) b(3) by (auto simp: line_matches_def)
    with b(4) pl have pb: "plen (rs ! b) = n" "i \<le> b" by auto
    then have "b \<le> i" using i(3) b(2,3) by (simp add: line_matches_def)
    with pb have "b = i" by simp
    with b(1) n(4) [unfolded i(4)] show ?thesis by simp
  qed
  with d(1) ap show ?thesis by blast
qed

definition dat_request :: packet where "dat_request = take 42 udp_ex @ [10, 0, 0, 7]"

lemma dat_request_ok: "single_query dat_request" "length dat_request = 46"
  by (simp_all add: dat_request_def single_query_def our_port_def request_consts udp_ex_def ld16_def le16_def
      bswap16_def hlen_defs ETH_P_IP_def IPPROTO_UDP_def Let_def)

lemma routes_ex_matches: "line_matches routes_ex (packet_key dat_request PAYLOAD) 0"
proof -
  have b: "ipv4_addr (route_key (10, 0, 0, 0, 24)) j = packet_key dat_request PAYLOAD j" if "j < 3" for j
  proof -
    from that have "j = 0 \<or> j = 1 \<or> j = 2" by auto
    then show ?thesis by (auto simp: ipv4_addr_def packet_key_def dat_request_def request_consts udp_ex_def le32_def)
  qed
  have "get_bit (ipv4_addr (route_key (10, 0, 0, 0, 24))) i = get_bit (packet_key dat_request PAYLOAD) i" if "i < 24" for i
    using b [of "i div 8"] that unfolding get_bit_def by (simp add: less_mult_imp_div_less del: route_key.simps)
  then show ?thesis
    by (simp add: line_matches_def routes_ex_def route_bits_def key_bits_def del: route_key.simps)
qed

theorem dat_from_dataset_witness:
  "\<exists>d p'. launch_arena_dat BAX_MAX_NODES 4096 (dataset [(10, 0, 0, 0, 24)]) = Inr (Some d)
     \<and> dat_test_main cut_or_pad (Some d) dat_request = Inr (XDP_TX, p') \<and> reply_to dat_request (map (value_text 0) [0 ..< VAL_SZ]) p'"
proof -
  have t: "\<forall>r \<in> set routes_ex. short_text r \<and> plen r \<le> 32" using routes_ex_ok by fastforce
  have n: "length routes_ex = 1" by (simp add: routes_ex_def)
  then have "best_line routes_ex (packet_key dat_request PAYLOAD) (length routes_ex) = Some 0"
    using routes_ex_matches by simp
  with dat_from_dataset [OF t, of 4096 BAX_MAX_NODES cut_or_pad dat_request] n dat_request_ok
  show ?thesis unfolding routes_ex_def [symmetric]
    by (auto simp: BAX_MAX_NODES_def MAX_ENTRIES_def cut_or_pad_contract resizable_cut)
qed

end
