(* ===== verification/Num_List.thy ===== *)
theory Num_List
  imports Text
begin

text \<open>
  Lists of numbers and ranges such as \<open>0-3,7\<close>: \<open>parse_num_list\<close> of
  \<open>motivation/microbench_lpm/testing_helpers.c\<close>, with \<open>strtol\<close> for base 10 as the manual has it. Whether
  the memory for a larger set is there is an argument; \<open>None\<close> is a byte that was not written.
\<close>

definition ERANGE :: int where "ERANGE = 34"
definition LONG_MAX :: int where "LONG_MAX = 2 ^ 63 - 1"
definition INT_MAX :: int where "INT_MAX = 2 ^ 31 - 1"

abbreviation DASH :: u8 where "DASH \<equiv> 0x2d"
abbreviation COMMA :: u8 where "COMMA \<equiv> 0x2c"

text \<open>\<open>errno\<close>, the number and the rest of the text, which is the whole text when there is no number.\<close>

definition strtol :: "u8 list \<Rightarrow> int \<times> int \<times> u8 list" where
  "strtol s =
     (let (neg, t) = scan_sign (dropWhile is_space s); v = int (atoi t) in
      if t = [] \<or> \<not> IS_DIGIT (hd t) then (0, 0, s)
      else if neg then (if LONG_MAX + 1 < v then (ERANGE, - LONG_MAX - 1, dropWhile IS_DIGIT t)
                        else (0, - v, dropWhile IS_DIGIT t))
      else if LONG_MAX < v then (ERANGE, LONG_MAX, dropWhile IS_DIGIT t)
      else (0, v, dropWhile IS_DIGIT t))"

text \<open>The conversion from \<open>long\<close> to \<open>int\<close>.\<close>

definition to_int :: "int \<Rightarrow> int" where
  "to_int v = sint (word_of_int v :: 32 word)"

text \<open>Growing the set, and marking a range in it.\<close>

definition grow :: "bool option list \<Rightarrow> int \<Rightarrow> nat \<Rightarrow> bool option list" where
  "grow nums start new_len =
     map (\<lambda>i. if i < length nums then nums ! i else if int i < start then Some False else None) [0 ..< new_len]"

definition mark :: "bool option list \<Rightarrow> int \<Rightarrow> int \<Rightarrow> bool option list checked" where
  "mark nums start end' =
     (if start < 0 \<or> int (length nums) \<le> end' then Inl Out_of_bounds
      else Inr (map (\<lambda>i. if start \<le> int i \<and> int i \<le> end' then Some True else nums ! i) [0 ..< length nums]))"

definition add_range ::
  "(nat \<Rightarrow> bool) \<Rightarrow> int \<Rightarrow> int \<Rightarrow> bool option list \<Rightarrow> (int + bool option list) checked" where
  "add_range can_alloc start end' nums =
     (if start > end' then Inr (Inl (- EINVAL))
      else if end' = INT_MAX then Inl Signed_overflow
      else if end' + 1 > int (length nums) then
        let new_len = nat (end' + 1) in
        if \<not> can_alloc new_len then Inr (Inl (- ENOMEM))
        else checked_bind (mark (grow nums start new_len) start end') (\<lambda>nums. Inr (Inr nums))
      else checked_bind (mark nums start end') (\<lambda>nums. Inr (Inr nums)))"

lemma length_strtol: "strtol s = (e, n, t) \<Longrightarrow> length t \<le> length s"
proof -
  have "length (snd (scan_sign (dropWhile is_space s))) \<le> length s"
    using length_dropWhile_le [of is_space s] by (auto simp: scan_sign_def split: list.splits)
  then show "strtol s = (e, n, t) \<Longrightarrow> length t \<le> length s"
    using length_dropWhile_le [of IS_DIGIT "snd (scan_sign (dropWhile is_space s))"]
    by (auto simp: strtol_def Let_def split: prod.splits if_splits)
qed

lemma strtol_shorter: "s \<noteq> [] \<Longrightarrow> (e, n, t) = strtol s \<Longrightarrow> length t - Suc 0 < length s"
  using length_strtol [of s e n t] by (cases s) auto

text \<open>The loop; the text has no zero byte, its end is the terminator.\<close>

function parse_items ::
  "(nat \<Rightarrow> bool) \<Rightarrow> u8 list \<Rightarrow> bool \<Rightarrow> int \<Rightarrow> bool option list \<Rightarrow> (int + bool \<times> bool option list) checked" where
  "parse_items can_alloc s parsing_end start nums =
     (if s = [] then Inr (Inr (parsing_end, nums))
      else
        let (errno, num, nxt) = strtol s; num = to_int num in
        if errno \<noteq> 0 then Inr (Inl (- errno))
        else
          let start = (if parsing_end then start else num) in
          if \<not> parsing_end \<and> nxt \<noteq> [] \<and> hd nxt = DASH then parse_items can_alloc (tl nxt) True start nums
          else if nxt = [] \<or> hd nxt = COMMA then
            case add_range can_alloc start num nums of
              Inl f \<Rightarrow> Inl f
            | Inr (Inl err) \<Rightarrow> Inr (Inl err)
            | Inr (Inr nums) \<Rightarrow> parse_items can_alloc (tl nxt) False start nums
          else Inr (Inl (- EINVAL)))"
  by auto
termination
  by (relation "measure (\<lambda>(_, s, _). length s)") (auto dest: strtol_shorter)

declare parse_items.simps [simp del]

definition parse_num_list :: "(nat \<Rightarrow> bool) \<Rightarrow> u8 list \<Rightarrow> (int + bool option list) checked" where
  "parse_num_list can_alloc s =
     checked_bind (parse_items can_alloc s False 0 []) (\<lambda>r.
       Inr (case r of
              Inl err \<Rightarrow> Inl err
            | Inr (parsing_end, nums) \<Rightarrow> if nums = [] \<or> parsing_end then Inl (- EINVAL) else Inr nums))"

subsection \<open>Lists that were printed\<close>

datatype num_item = Single nat | Range nat nat

fun item_text :: "num_item \<Rightarrow> u8 list" where
  "item_text (Single a) = dec a"
| "item_text (Range a b) = dec a @ DASH # dec b"

fun item_bounds :: "num_item \<Rightarrow> nat \<times> nat" where
  "item_bounds (Single a) = (a, a)"
| "item_bounds (Range a b) = (a, b)"

definition item_has :: "num_item \<Rightarrow> nat \<Rightarrow> bool" where
  "item_has x i \<longleftrightarrow> fst (item_bounds x) \<le> i \<and> i \<le> snd (item_bounds x)"

definition item_ok :: "num_item \<Rightarrow> bool" where
  "item_ok x \<longleftrightarrow> fst (item_bounds x) \<le> snd (item_bounds x) \<and> snd (item_bounds x) < 2 ^ 31 - 1"

fun list_text :: "num_item list \<Rightarrow> u8 list" where
  "list_text [] = []"
| "list_text [x] = item_text x"
| "list_text (x # y # xs) = item_text x @ COMMA # list_text (y # xs)"

lemma strtol_dec_long:
  assumes "n < 2 ^ 63" and t: "t = [] \<or> \<not> IS_DIGIT (hd t)"
  shows "strtol (dec n @ t) = (0, int n, t)"
proof -
  obtain d ds where d: "dec n = d # ds" "IS_DIGIT d" by (rule dec_Cons)
  have drop: "dropWhile is_space (dec n @ t) = dec n @ t" and sign: "scan_sign (dec n @ t) = (False, dec n @ t)"
    using d digit_not_space by (simp_all add: scan_sign_def)
  have rest: "dropWhile IS_DIGIT (dec n @ t) = t"
    using dec_digits [of n] t by (cases t) (simp_all add: dropWhile_append2 dropWhile_eq_Nil_conv)
  have v: "atoi (dec n @ t) = n"
    using t by (cases t) (simp_all add: atoi_append)
  have "IS_DIGIT (hd (dec n @ t))" using d by simp
  then show ?thesis using assms(1) by (simp add: strtol_def drop sign rest v LONG_MAX_def)
qed

lemma strtol_dec:
  "n < 2 ^ 31 \<Longrightarrow> t = [] \<or> \<not> IS_DIGIT (hd t) \<Longrightarrow> strtol (dec n @ t) = (0, int n, t)"
  by (simp add: strtol_dec_long)

lemma to_int_nat: "n < 2 ^ 31 \<Longrightarrow> to_int (int n) = int n"
  unfolding to_int_def sint_sbintrunc' by (simp add: signed_take_bit_int_eq_self)

lemma add_range_nat:
  assumes "a \<le> b" and "b < 2 ^ 31 - 1"
  shows "add_range (\<lambda>_. True) (int a) (int b) (map Some bs) =
    Inr (Inr (map (\<lambda>i. Some (i < length bs \<and> bs ! i \<or> a \<le> i \<and> i \<le> b)) [0 ..< max (length bs) (b + 1)]))"
proof -
  have n: "nat (int b + 1) = b + 1" by simp
  show ?thesis
  proof (cases "length bs \<le> b")
    case True
    then have "max (length bs) (b + 1) = b + 1" by simp
    with True assms show ?thesis
      by (auto simp: add_range_def INT_MAX_def Let_def n mark_def grow_def simp del: upt_Suc)
  next
    case False
    then have "max (length bs) (b + 1) = length bs" by simp
    with False assms show ?thesis
      by (auto simp: add_range_def INT_MAX_def mark_def simp del: upt_Suc)
  qed
qed

definition with_item :: "bool list \<Rightarrow> num_item \<Rightarrow> bool list" where
  "with_item bs x = map (\<lambda>i. i < length bs \<and> bs ! i \<or> item_has x i) [0 ..< max (length bs) (snd (item_bounds x) + 1)]"

lemma add_item:
  assumes "item_ok x" and "item_bounds x = (a, b)"
  shows "add_range (\<lambda>_. True) (int a) (int b) (map Some bs) = Inr (Inr (map Some (with_item bs x)))"
  using assms add_range_nat [of a b bs] by (simp add: item_ok_def with_item_def item_has_def comp_def)

lemma not_digits [simp]: "\<not> IS_DIGIT DASH" "\<not> IS_DIGIT COMMA"
  by (simp_all add: IS_DIGIT_def)

lemma parse_number:
  assumes n: "n < 2 ^ 31 - 1" and t: "t = [] \<or> hd t = COMMA"
    and add: "add_range (\<lambda>_. True) (if pe then st else int n) (int n) nums = Inr (Inr nums')"
  shows "parse_items (\<lambda>_. True) (dec n @ t) pe st nums = parse_items (\<lambda>_. True) (tl t) False (if pe then st else int n) nums'"
proof -
  have td: "t = [] \<or> \<not> IS_DIGIT (hd t)" using t by (auto simp: IS_DIGIT_def)
  have "n < 2 ^ 31" using n by simp
  note s = strtol_dec [OF this td] to_int_nat [OF this]
  have "hd t \<noteq> DASH \<or> t = []" using t by auto
  with t have c: "\<not> (\<not> pe \<and> t \<noteq> [] \<and> hd t = DASH)" "t = [] \<or> hd t = COMMA" by auto
  show ?thesis
    unfolding parse_items.simps [of _ "dec n @ t"] s Let_def prod.case
    using c add by auto
qed

lemma parse_item:
  assumes ok: "item_ok x" and t: "t = [] \<or> hd t = COMMA"
  shows "\<exists>st'. parse_items (\<lambda>_. True) (item_text x @ t) False st (map Some bs)
    = parse_items (\<lambda>_. True) (tl t) False st' (map Some (with_item bs x))"
proof (cases x)
  case (Single a)
  with ok have "a < 2 ^ 31 - 1" by (simp add: item_ok_def)
  from parse_number [OF this t, of False] add_item [OF ok, of a a] Single show ?thesis by auto
next
  case (Range a b)
  with ok have b: "b < 2 ^ 31 - 1" and a: "a < 2 ^ 31" by (simp_all add: item_ok_def)
  note s = strtol_dec [OF a, of "DASH # dec b @ t"] to_int_nat [OF a]
  have "parse_items (\<lambda>_. True) (item_text x @ t) False st (map Some bs)
      = parse_items (\<lambda>_. True) (dec b @ t) True (int a) (map Some bs)"
    by (subst parse_items.simps) (simp add: Range s)
  with parse_number [OF b t, of True] add_item [OF ok, of a b] Range show ?thesis by auto
qed

lemma parse_list:
  assumes "\<forall>x \<in> set xs. item_ok x"
  shows "parse_items (\<lambda>_. True) (list_text xs) False st (map Some bs)
    = Inr (Inr (False, map Some (fold (\<lambda>x bs. with_item bs x) xs bs)))"
  using assms
proof (induction xs arbitrary: st bs rule: list_text.induct)
  case 1
  then show ?case by (simp add: parse_items.simps)
next
  case (2 x)
  then obtain st' where "parse_items (\<lambda>_. True) (item_text x @ []) False st (map Some bs)
    = parse_items (\<lambda>_. True) (tl []) False st' (map Some (with_item bs x))" using parse_item [of x "[]"] by auto
  then show ?case by (simp add: parse_items.simps [of _ "[]"])
next
  case (3 x y xs)
  then obtain st' where "parse_items (\<lambda>_. True) (list_text (x # y # xs)) False st (map Some bs)
    = parse_items (\<lambda>_. True) (list_text (y # xs)) False st' (map Some (with_item bs x))"
    using parse_item [of x "COMMA # list_text (y # xs)"] by auto
  with 3 show ?case by simp
qed

lemma with_items_nth:
  defines "f \<equiv> fold (\<lambda>x bs. with_item bs x)"
  shows "length (f xs bs) = Max (insert (length bs) ((\<lambda>x. snd (item_bounds x) + 1) ` set xs))"
    and "\<forall>i < length (f xs bs). f xs bs ! i \<longleftrightarrow> i < length bs \<and> bs ! i \<or> (\<exists>x \<in> set xs. item_has x i)"
proof (induction xs arbitrary: bs)
  case Nil
  {
    case 1
    then show ?case by (simp add: f_def)
  next
    case 2
    then show ?case by (simp add: f_def)
  }
next
  case (Cons x xs)
  have l: "length (with_item bs x) = max (length bs) (snd (item_bounds x) + 1)" for bs by (simp add: with_item_def)
  have fx: "f (x # xs) bs = f xs (with_item bs x)" for bs by (simp add: f_def)
  {
    case 1
    show ?case unfolding fx Cons.IH(1) [of "with_item bs x"] l by (cases "set xs = {}") (simp_all add: max.assoc)
  next
    case 2
    have "item_has x i \<Longrightarrow> i < length (with_item bs x)" for i bs by (auto simp: item_has_def with_item_def)
    then have w: "i < length (with_item bs x) \<and> with_item bs x ! i \<longleftrightarrow> i < length bs \<and> bs ! i \<or> item_has x i" for i bs
      by (auto simp: with_item_def)
    show ?case unfolding fx using Cons.IH(2) [of "with_item bs x"] w by auto
  }
qed

lemma num_list_parses:
  assumes ok: "\<forall>x \<in> set xs. item_ok x" and ne: "xs \<noteq> []"
  shows "\<exists>bs. parse_num_list (\<lambda>_. True) (list_text xs) = Inr (Inr (map Some bs))
    \<and> length bs = Max ((\<lambda>x. snd (item_bounds x)) ` set xs) + 1
    \<and> (\<forall>i < length bs. bs ! i \<longleftrightarrow> (\<exists>x \<in> set xs. item_has x i))"
proof -
  let ?bs = "fold (\<lambda>x bs. with_item bs x) xs []"
  have m: "(\<lambda>x. snd (item_bounds x) + 1) ` set xs = (\<lambda>n. n + 1) ` (\<lambda>x. snd (item_bounds x)) ` set xs"
    by (simp add: image_image)
  have "mono (\<lambda>n :: nat. n + 1)" by (simp add: mono_def)
  from mono_Max_commute [OF this, of "(\<lambda>x. snd (item_bounds x)) ` set xs"] ne
  have mx: "Max ((\<lambda>n. n + 1) ` (\<lambda>x. snd (item_bounds x)) ` set xs) = Max ((\<lambda>x. snd (item_bounds x)) ` set xs) + 1"
    by simp
  have "length ?bs = Max (insert 0 ((\<lambda>n. n + 1) ` (\<lambda>x. snd (item_bounds x)) ` set xs))"
    by (simp only: with_items_nth(1) m list.size)
  also have "\<dots> = Max ((\<lambda>n. n + 1) ` (\<lambda>x. snd (item_bounds x)) ` set xs)"
    by (subst Max_insert) (use ne in auto)
  finally have l: "length ?bs = Max ((\<lambda>x. snd (item_bounds x)) ` set xs) + 1"
    using mx ne by simp
  then have "?bs \<noteq> []" by auto
  then have "parse_num_list (\<lambda>_. True) (list_text xs) = Inr (Inr (map Some ?bs))"
    using parse_list [OF ok, of 0 "[]"] by (simp add: parse_num_list_def)
  with l with_items_nth(2) [of xs "[]"] show ?thesis by auto
qed

text \<open>A printed list of numbers and ranges is parsed to the set that it stands for: the array ends at
  the largest number, all of it is written, and the numbers in the set are those of the items.\<close>

theorem num_list_roundtrip:
  assumes ok: "\<forall>x \<in> set xs. item_ok x" and ne: "xs \<noteq> []"
  shows "\<exists>bs. parse_num_list (\<lambda>_. True) (list_text xs) = Inr (Inr (map Some bs))
    \<and> length bs = Max ((\<lambda>x. snd (item_bounds x)) ` set xs) + 1
    \<and> (\<forall>i < length bs. bs ! i \<longleftrightarrow> (\<exists>x \<in> set xs. item_has x i))"
  by (rule num_list_parses [OF ok ne])

text \<open>A number below zero is written to memory before the array.\<close>

theorem num_list_negative:
  assumes "0 < n" and "n < 2 ^ 31"
  shows "parse_num_list can_alloc (DASH # dec n) = Inl Out_of_bounds"
proof -
  obtain d ds where d: "dec n = d # ds" "IS_DIGIT d" by (rule dec_Cons)
  have nd: "\<not> is_space DASH" by (simp add: is_space_def)
  have drop: "dropWhile is_space (DASH # dec n) = DASH # dec n" and sign: "scan_sign (DASH # dec n) = (True, dec n)"
    by (simp_all add: scan_sign_def is_space_def)
  have rest: "dropWhile IS_DIGIT (dec n) = []"
    using dec_digits [of n] by (simp add: dropWhile_eq_Nil_conv)
  have "IS_DIGIT (hd (dec n))" using d by simp
  then have s: "strtol (DASH # dec n) = (0, - int n, [])"
    using assms(2) by (simp add: strtol_def drop nd sign rest LONG_MAX_def)
  have i: "to_int (- int n) = - int n"
    using assms(2) unfolding to_int_def sint_sbintrunc' by (simp add: signed_take_bit_int_eq_self)
  show ?thesis
    using assms by (simp add: parse_num_list_def parse_items.simps [of _ "DASH # dec n"] s i add_range_def mark_def INT_MAX_def)
qed

theorem num_list_roundtrip_witness:
  "\<exists>bs. parse_num_list (\<lambda>_. True) (str ''0-1,3'') = Inr (Inr (map Some bs)) \<and> length bs = 4 \<and> \<not> bs ! 2 \<and> bs ! 3"
proof -
  have "list_text [Range 0 1, Single 3] = str ''0-1,3''" by (simp add: dec.simps)
  with num_list_roundtrip [of "[Range 0 1, Single 3]"] show ?thesis
    by (fastforce simp: item_ok_def item_has_def)
qed

theorem num_list_negative_witness: "parse_num_list (\<lambda>_. True) (str ''-1'') = Inl Out_of_bounds"
  using num_list_negative [of 1 "\<lambda>_. True"] by (simp add: dec.simps)

end
