(* ===== verification/Lpm_Bench.thy ===== *)
theory Lpm_Bench
  imports Num_List Dat
begin

text \<open>
  The micro-benchmarks of \<open>motivation/microbench_lpm\<close>: the double-array trie
  (\<open>bench_arena_dat.c\<close> in user space, \<open>arena_dat_bench.c\<close> in the kernel) and the prefix trie of the
  kernel (\<open>bench_lpm_trie_map.c\<close>, \<open>lpm_trie_bench.c\<close>), whose operations are arguments. The random
  numbers and the readings of the clock are arguments; a program that exits gives \<open>None\<close>.
\<close>

subsection \<open>Arguments\<close>

record bench_args =
  nr_entries :: u32
  prefix_len :: u32

definition default_args :: bench_args where
  "default_args = \<lparr>nr_entries = 10000, prefix_len = 32\<rparr>"

datatype arg_key = ARG_NR_ENTRIES | ARG_PREFIX_LEN | OTHER_KEY

definition ARGP_ERR_UNKNOWN :: int where "ARGP_ERR_UNKNOWN = 7"
definition UINT_MAX :: int where "UINT_MAX = 2 ^ 32 - 1"

definition lpm_parse_arg :: "arg_key \<Rightarrow> u8 list \<Rightarrow> bench_args \<Rightarrow> (int \<times> bench_args) option" where
  "lpm_parse_arg key arg a =
     (case key of
        ARG_NR_ENTRIES \<Rightarrow>
          let (_, ret, _) = strtol arg in
          if ret < 1 \<or> ret > UINT_MAX then None else Some (0, a\<lparr>nr_entries := of_int ret\<rparr>)
      | ARG_PREFIX_LEN \<Rightarrow>
          let (_, ret, _) = strtol arg in
          if ret < 1 \<or> ret > UINT_MAX then None else Some (0, a\<lparr>prefix_len := of_int ret\<rparr>)
      | OTHER_KEY \<Rightarrow> Some (ARGP_ERR_UNKNOWN, a))"

definition lpm_validate :: "int \<Rightarrow> bench_args \<Rightarrow> unit option checked" where
  "lpm_validate consumer_cnt a =
     (if consumer_cnt \<noteq> 0 then Inr None
      else if 64 \<le> unat (prefix_len a) then Inl Bad_shift
      else if (push_bit (unat (prefix_len a)) 1 :: u64) < ucast (nr_entries a) then Inr None
      else Inr (Some ()))"

definition lpm_delete_validate :: "int \<Rightarrow> int \<Rightarrow> bench_args \<Rightarrow> unit option checked" where
  "lpm_delete_validate consumer_cnt producer_cnt a =
     checked_bind (lpm_validate consumer_cnt a) (\<lambda>r.
       case r of None \<Rightarrow> Inr None | Some _ \<Rightarrow> if producer_cnt \<noteq> 1 then Inr None else Inr (Some ()))"

subsection \<open>The double-array trie\<close>

definition DAT_MAX_ENTRIES :: u32 where "DAT_MAX_ENTRIES = 100 * 1000 * 1000"
definition DAT_NR_LOOPS :: nat where "DAT_NR_LOOPS = 100000"

text \<open>The bytes of a \<open>__u32\<close> in memory.\<close>

definition word_bytes :: "u32 \<Rightarrow> bytes" where
  "word_bytes w = (\<lambda>j. if j < 4 then ucast (drop_bit (8 * j) w) else 0)"

text \<open>\<open>fill_map\<close>: key number \<open>i\<close> and value number \<open>i\<close> are the number \<open>i\<close>.\<close>

fun dat_fill_map :: "u32 \<Rightarrow> nat \<Rightarrow> nat \<Rightarrow> dat \<Rightarrow> dat option checked" where
  "dat_fill_map plen 0 i d = Inr (Some d)"
| "dat_fill_map plen (Suc n) i d =
     checked_bind (dat_insert DAT_VAL_SIZE_BYTE d (word_bytes (of_nat i)) plen (word_bytes (of_nat i))) (\<lambda>(err, d).
       if err \<noteq> 0 then Inr None else dat_fill_map plen n (i + 1) d)"

definition dat_lpm_setup :: "bench_args \<Rightarrow> dat option checked" where
  "dat_lpm_setup a =
     checked_bind (userspace_arena_dat_alloc DAT_VAL_SIZE_BYTE DAT_MAX_ENTRIES DAT_MAX_ENTRIES) (\<lambda>r.
       case r of
         Inl err \<Rightarrow> Inr None
       | Inr (d, allocated_area) \<Rightarrow> dat_fill_map (prefix_len a) (unat (nr_entries a)) 0 d)"

record dat_bench =
  bench_dat :: "dat option"
  bench_nr :: u32
  bench_prefixlen :: u32
  bench_op :: u8
  bench_hits :: u64
  bench_duration :: u64
  bench_tmp :: u32

text \<open>One lookup of a random key; a key that is not found is counted in \<open>tmp\<close>, a wrong value is only printed.\<close>

definition dat_bench_lookup :: "dat \<Rightarrow> u32 \<Rightarrow> u32 \<Rightarrow> u32 \<Rightarrow> u32 \<Rightarrow> u32 checked" where
  "dat_bench_lookup d nr plen random tmp =
     (let key = random mod nr in
      checked_bind (dat_lookup d (word_bytes key) plen) (\<lambda>v.
        case v of
          None \<Rightarrow> Inr (tmp + 1)
        | Some index \<Rightarrow> checked_bind (read_at (vals d) (unat index)) (\<lambda>val. Inr tmp)))"

text \<open>\<open>run_bench\<close>; for the operations 2 and 3 the number of loops is not set.\<close>

definition dat_run_bench :: "(nat \<Rightarrow> u32) \<Rightarrow> u64 \<Rightarrow> u64 \<Rightarrow> dat_bench \<Rightarrow> (int \<times> dat_bench) checked" where
  "dat_run_bench random start now b =
     (case bench_dat b of
        None \<Rightarrow> Inr (-2, b)
      | Some d \<Rightarrow>
          if bench_op b = 1 then
            checked_bind (bpf_loop_checked DAT_NR_LOOPS (\<lambda>(i, tmp).
                checked_bind (dat_bench_lookup d (bench_nr b) (bench_prefixlen b) (random i) tmp) (\<lambda>tmp.
                  Inr (False, i + 1, tmp))) (0, bench_tmp b)) (\<lambda>(_, tmp).
              Inr (0, b\<lparr>bench_tmp := tmp, bench_duration := bench_duration b + (now - start),
                        bench_hits := bench_hits b + of_nat DAT_NR_LOOPS\<rparr>))
          else if bench_op b = 2 \<or> bench_op b = 3 then Inl Uninitialised
          else Inr (-1, b))"

subsection \<open>The prefix trie of the kernel\<close>





record 'm trie_bench =
  trie_map :: 'm
  tb_nr :: u32
  tb_prefixlen :: u32
  tb_op :: u8
  deleted_entries :: u32
  tb_hits :: u64
  tb_duration :: u64











text \<open>\<open>lpm_measure\<close> takes the counters and clears them.\<close>

definition lpm_measure :: "'m trie_bench \<Rightarrow> (u64 \<times> u64) \<times> 'm trie_bench" where
  "lpm_measure b = ((tb_hits b, tb_duration b), b\<lparr>tb_hits := 0, tb_duration := 0\<rparr>)"

subsection \<open>What the double-array benchmark measures\<close>

text \<open>All entries have the same number of bits.\<close>

definition full_length :: "nat \<Rightarrow> dat \<Rightarrow> bool" where
  "full_length n d \<longleftrightarrow> (\<forall>bs. dat_entry d bs \<noteq> None \<longrightarrow> length bs = n)"

lemma dat_fill_map_spec:
  assumes "unat plen \<le> 32" and "dat_inv d" and "full_length (unat plen) d"
    and "unat (stk_ptr d) + 32 * n \<le> unat (stk_size d)"
    and "unat (value_stk_ptr d) + n \<le> unat (value_count d)"
  shows "\<exists>d'. dat_fill_map plen n i d = Inr (Some d') \<and> dat_inv d' \<and> full_length (unat plen) d'"
  using assms
proof (induction n arbitrary: d i)
  case 0
  then show ?case by simp
next
  case (Suc n)
  let ?k = "word_bytes (of_nat i)"
  have ks: "unat plen \<le> DAT_KEY_SIZE_BIT" using Suc.prems(1) by (simp add: DAT_KEY_SIZE_BIT_def)
  have lt: "unat (value_stk_ptr d) < unat (value_count d)" using Suc.prems(5) by simp
  from dat_insert_spec [OF Suc.prems(2) ks lt, of DAT_VAL_SIZE_BYTE ?k ?k]
  obtain ret d1 where ins: "dat_insert DAT_VAL_SIZE_BYTE d ?k plen ?k = Inr (ret, d1)" "dat_inv d1"
    and e: "if ret = 0
       then \<exists>w. dat_entry d1 = (dat_entry d)(key_bits ?k (unat plen) \<mapsto> value_copy DAT_VAL_SIZE_BYTE w ?k)
       else ret = - ENOMEM \<and> dat_entry d1 = dat_entry d"
    and sz: "value_count d1 = value_count d" "stk_size d1 = stk_size d"
      "unat (value_stk_ptr d1) \<le> unat (value_stk_ptr d) + 1" "unat (stk_ptr d1) \<le> unat (stk_ptr d) + unat plen"
      "unat (stk_ptr d) + unat plen \<le> unat (stk_size d) \<longrightarrow> ret = 0" by blast
  have r0: "ret = 0" using sz(5) Suc.prems(1,4) by simp
  with e Suc.prems(3) have "full_length (unat plen) d1" by (auto simp: full_length_def split: if_splits)
  moreover have "unat (stk_ptr d1) + 32 * n \<le> unat (stk_size d1)"
    "unat (value_stk_ptr d1) + n \<le> unat (value_count d1)" using sz Suc.prems by simp_all
  ultimately obtain d' where "dat_fill_map plen n (i + 1) d1 = Inr (Some d')" "dat_inv d'" "full_length (unat plen) d'"
    using Suc.IH [OF Suc.prems(1) ins(2)] by blast
  then show ?case by (simp add: ins(1) r0)
qed

lemma dat_lpm_setup_spec:
  assumes p: "unat (prefix_len a) \<le> 32" and n: "32 * unat (nr_entries a) + 2 \<le> unat DAT_MAX_ENTRIES div 2"
  shows "\<exists>d. dat_lpm_setup a = Inr (Some d) \<and> dat_inv d \<and> full_length (unat (prefix_len a)) d"
proof -
  have e: "DAT_MAX_ENTRIES AND 1 = 0" "unat DAT_MAX_ENTRIES < 2 ^ 31" "4 \<le> unat DAT_MAX_ENTRIES"
    by (simp_all add: DAT_MAX_ENTRIES_def)
  from dat_alloc_fresh [OF e(1,2,3,2), of DAT_VAL_SIZE_BYTE] obtain d sz where
    al: "userspace_arena_dat_alloc DAT_VAL_SIZE_BYTE DAT_MAX_ENTRIES DAT_MAX_ENTRIES = Inr (Inr (d, sz))" "dat_inv d"
      "dat_entry d = Map.empty" "value_stk_ptr d = 0" "value_count d = DAT_MAX_ENTRIES"
      "unat (stk_ptr d) = 1" "unat (stk_size d) = unat DAT_MAX_ENTRIES div 2 - 1" by blast
  have "full_length (unat (prefix_len a)) d" by (simp add: full_length_def al(3))
  moreover have "unat (stk_ptr d) + 32 * unat (nr_entries a) \<le> unat (stk_size d)"
    "unat (value_stk_ptr d) + unat (nr_entries a) \<le> unat (value_count d)" using n by (simp_all add: al)
  ultimately show ?thesis using dat_fill_map_spec [OF p al(2)] by (simp add: dat_lpm_setup_def al(1))
qed

lemma full_length_misses:
  assumes "dat_inv d" and "full_length (unat plen) d" and "unat plen \<le> 32"
  shows "dat_lookup d k plen = Inr None"
proof -
  have m: "min (unat plen) DAT_KEY_SIZE_BIT = unat plen" using assms(3) by (simp add: DAT_KEY_SIZE_BIT_def)
  from dat_lookup_spec [OF assms(1), of k plen, unfolded m] obtain r where r: "dat_lookup d k plen = Inr r"
    and e: "case r of None \<Rightarrow> \<forall>i < unat plen. dat_entry d (key_bits k i) = None
       | Some v \<Rightarrow> unat v < length (vals d) \<and> (\<exists>i < unat plen. dat_entry d (key_bits k i) = Some (vals d ! unat v)
           \<and> (\<forall>j. i < j \<and> j < unat plen \<longrightarrow> dat_entry d (key_bits k j) = None))" by blast
  have "r = None"
  proof (rule ccontr)
    assume "r \<noteq> None"
    with e obtain i where "i < unat plen" "dat_entry d (key_bits k i) \<noteq> None" by auto
    with assms(2) have "length (key_bits k i) = unat plen" unfolding full_length_def by blast
    with \<open>i < unat plen\<close> show False by simp
  qed
  with r show ?thesis by simp
qed

lemma bench_loop_misses:
  assumes "\<And>k. dat_lookup d k plen = Inr None"
  shows "bpf_loop_checked n (\<lambda>(i, tmp).
      checked_bind (dat_bench_lookup d nr plen (random i) tmp) (\<lambda>tmp. Inr (False, Suc i, tmp))) (i, tmp)
    = Inr (i + n, tmp + of_nat n)"
  using assms by (induction n arbitrary: i tmp) (simp_all add: dat_bench_lookup_def Let_def algebra_simps)

text \<open>The benchmark of the double-array trie finds nothing: its keys have as many bits as its entries, and a
  lookup finds only entries with fewer bits. Whatever the random numbers, each of the 100000 lookups
  of a run counts as a miss, and the run reports 100000 hits.\<close>

theorem dat_bench_never_finds:
  assumes p: "unat (prefix_len a) \<le> 32" and n: "32 * unat (nr_entries a) + 2 \<le> unat DAT_MAX_ENTRIES div 2"
    and b: "bench_nr b = nr_entries a" "bench_prefixlen b = prefix_len a" "bench_op b = 1"
  shows "\<exists>d. dat_lpm_setup a = Inr (Some d)
    \<and> (bench_dat b = Some d \<longrightarrow>
        dat_run_bench random start now b =
          Inr (0, b\<lparr>bench_tmp := bench_tmp b + 100000, bench_duration := bench_duration b + (now - start),
                    bench_hits := bench_hits b + 100000\<rparr>))"
proof -
  from dat_lpm_setup_spec [OF p n] obtain d where
    d: "dat_lpm_setup a = Inr (Some d)" "dat_inv d" "full_length (unat (prefix_len a)) d" by blast
  note miss = full_length_misses [OF d(2,3) p]
  show ?thesis
    by (intro exI [of _ d] conjI impI, rule d(1), simp add: dat_run_bench_def b bench_loop_misses [OF miss])
      (simp add: DAT_NR_LOOPS_def)
qed

theorem dat_bench_never_finds_witness:
  "\<exists>d b. dat_lpm_setup default_args = Inr (Some d)
     \<and> dat_run_bench (\<lambda>_. 7) 3 5 \<lparr>bench_dat = Some d, bench_nr = 10000, bench_prefixlen = 32, bench_op = 1,
          bench_hits = 0, bench_duration = 0, bench_tmp = 0\<rparr> = Inr (0, b)
     \<and> bench_tmp b = 100000 \<and> bench_hits b = 100000"
proof -
  have p: "unat (prefix_len default_args) \<le> 32" "32 * unat (nr_entries default_args) + 2 \<le> unat DAT_MAX_ENTRIES div 2"
    by (simp_all add: default_args_def DAT_MAX_ENTRIES_def)
  obtain d where d: "dat_lpm_setup default_args = Inr (Some d)" using dat_lpm_setup_spec [OF p] by blast
  let ?b = "\<lparr>bench_dat = Some d, bench_nr = 10000, bench_prefixlen = 32, bench_op = 1,
          bench_hits = 0, bench_duration = 0, bench_tmp = 0\<rparr>"
  have b: "bench_nr ?b = nr_entries default_args" "bench_prefixlen ?b = prefix_len default_args" "bench_op ?b = 1"
    by (simp_all add: default_args_def)
  from dat_bench_never_finds [OF p b, of "\<lambda>_. 7" 3 5] d show ?thesis by auto
qed

subsection \<open>The deletion benchmark\<close>













end
