(* ===== verification/Sketch_Loader.thy ===== *)
theory Sketch_Loader
  imports Cvm_Batch Xdp_Single Router_Loader
begin

text \<open>
  The user-space side of the sketch and of the Bloom filter: \<open>motivation/arena_cvm/loader.c\<close> and
  \<open>motivation/bax_cvm/loader.c\<close> put a treap (and, for the latter, the histogram of
  \<open>libs/arena-ds/hist.h\<close>) into the arena, and \<open>motivation/arena_bloom_filter/loader.c\<close> fills the filter.
  Whether the programs load and what attaching returns are arguments; the main functions are in
  \<open>Launch_More\<close>. A run of a program is the list of the packets it is given.
\<close>

subsection \<open>The histogram\<close>

text \<open>
  The three numbers are set by the including file: 0, 33 and 1 in \<open>motivation/bax_cvm/hist.h\<close>. The
  numbers are small, so that the comparisons are those of the unsigned value.
\<close>

definition HIST_START_NUMBER :: nat where "HIST_START_NUMBER = 0"
definition HIST_NUM_BUCKETS :: nat where "HIST_NUM_BUCKETS = 33"
definition HIST_BUCKET_WIDTH :: nat where "HIST_BUCKET_WIDTH = 1"

type_synonym hist = "u64 list"

definition hist_upper_bound :: "nat \<Rightarrow> nat \<Rightarrow> nat \<Rightarrow> nat" where
  "hist_upper_bound start num width = start + num * width"

definition hist_record :: "nat \<Rightarrow> nat \<Rightarrow> nat \<Rightarrow> hist \<Rightarrow> u32 \<Rightarrow> hist checked" where
  "hist_record start num width h val =
     (if unat val > hist_upper_bound start num width \<or> unat val < start then Inr h
      else let index = (unat val - start) div width
           in checked_bind (read_at h index) (\<lambda>n. write_at h index (n + 1)))"

definition hist_reset :: "nat \<Rightarrow> hist" where
  "hist_reset num = replicate (num + 1) 0"

text \<open>The printed lines: the lower end of a bucket and its counter.\<close>

definition hist_report :: "nat \<Rightarrow> nat \<Rightarrow> nat \<Rightarrow> hist \<Rightarrow> (nat \<times> u64) list" where
  "hist_report start num width h = map (\<lambda>i. (start + i * width, h ! i)) [0 ..< num]"

text \<open>Allocation at an address of the arena, the result with the histogram and the area that it takes.\<close>

definition userspace_arena_hist_alloc :: "nat \<Rightarrow> addr \<Rightarrow> int + addr \<times> hist \<times> u32" where
  "userspace_arena_hist_alloc num area =
     (if area = 0 then Inl (- EINVAL) else Inr (area, replicate (num + 1) 0, of_nat (8 * (num + 1))))"

fun hist_record_all :: "nat \<Rightarrow> nat \<Rightarrow> nat \<Rightarrow> hist \<Rightarrow> u32 list \<Rightarrow> hist checked" where
  "hist_record_all start num width h [] = Inr h"
| "hist_record_all start num width h (v # vs) =
     checked_bind (hist_record start num width h v) (\<lambda>h. hist_record_all start num width h vs)"

definition in_bucket_range :: "nat \<Rightarrow> nat \<Rightarrow> nat \<Rightarrow> u32 \<Rightarrow> bool" where
  "in_bucket_range start width i v \<longleftrightarrow> start + i * width \<le> unat v \<and> unat v < start + (i + 1) * width"

lemma bucket_index:
  assumes "0 < width" and "start \<le> unat v"
  shows "in_bucket_range start width i v \<longleftrightarrow> (unat v - start) div width = i"
proof -
  have "(unat v - start) div width = i \<longleftrightarrow> i * width \<le> unat v - start \<and> unat v - start < (i + 1) * width"
    using assms(1) by (auto simp: div_nat_eqI dividend_less_times_div mult.commute
        intro: div_times_less_eq_dividend)
  moreover have "start + i * width \<le> unat v \<longleftrightarrow> i * width \<le> unat v - start"
    "unat v < start + (i + 1) * width \<longleftrightarrow> unat v - start < (i + 1) * width" using assms(2) by linarith+
  ultimately show ?thesis by (simp only: in_bucket_range_def)
qed

lemma hist_record_step:
  assumes w: "0 < width" and h: "length h = num + 1"
  shows "\<exists>h'. hist_record start num width h v = Inr h' \<and> length h' = num + 1
    \<and> (\<forall>i < num. h' ! i = h ! i + (if in_bucket_range start width i v then 1 else 0))
    \<and> h' ! num = h ! num + (if unat v = hist_upper_bound start num width then 1 else 0)"
proof (cases "unat v > hist_upper_bound start num width \<or> unat v < start")
  case True
  have "\<not> in_bucket_range start width i v" if "i < num" for i
  proof -
    from that have "(i + 1) * width \<le> num * width" by (intro mult_le_mono1) simp
    with True show ?thesis by (auto simp: in_bucket_range_def hist_upper_bound_def)
  qed
  with True h show ?thesis by (auto simp: hist_record_def hist_upper_bound_def)
next
  case False
  let ?i = "(unat v - start) div width"
  have le: "unat v - start \<le> num * width" "start \<le> unat v" using False by (auto simp: hist_upper_bound_def)
  have i: "?i \<le> num" using div_le_mono [OF le(1), of width] w by simp
  have top: "?i = num \<longleftrightarrow> unat v = hist_upper_bound start num width"
    using le w bucket_index [OF w le(2), of num] by (auto simp: in_bucket_range_def hist_upper_bound_def)
  have "hist_record start num width h v = Inr (h[?i := h ! ?i + 1])"
    using False h i by (simp add: hist_record_def Let_def)
  then show ?thesis
    using h i top by (auto simp: bucket_index [OF w le(2)] nth_list_update)
qed

lemma hist_record_all_counts:
  assumes w: "0 < width"
  shows "length h = num + 1 \<Longrightarrow> \<exists>h'. hist_record_all start num width h vs = Inr h' \<and> length h' = num + 1
    \<and> (\<forall>i < num. h' ! i = h ! i + of_nat (length (filter (in_bucket_range start width i) vs)))
    \<and> h' ! num = h ! num + of_nat (length (filter (\<lambda>v. unat v = hist_upper_bound start num width) vs))"
proof (induction vs arbitrary: h)
  case (Cons v vs)
  from hist_record_step [OF w Cons.prems] obtain h1 where
    h1: "hist_record start num width h v = Inr h1" "length h1 = num + 1"
      "\<forall>i < num. h1 ! i = h ! i + (if in_bucket_range start width i v then 1 else 0)"
      "h1 ! num = h ! num + (if unat v = hist_upper_bound start num width then 1 else 0)" by blast
  from Cons.IH [OF h1(2)] h1 show ?case by (auto simp: algebra_simps)
qed simp

text \<open>Recording any values keeps the accesses inside the array. The report then lists every bucket with the
  number of the recorded values in its range, in order. A value equal to the upper bound passes the guard
  and is counted in the extra element, which no report shows.\<close>

theorem hist_counts:
  assumes "0 < width" and "userspace_arena_hist_alloc num area = Inr (area', h0, sz)"
  shows "\<exists>h. hist_record_all start num width h0 vs = Inr h \<and> length h = num + 1
    \<and> hist_report start num width h
        = map (\<lambda>i. (start + i * width, of_nat (length (filter (in_bucket_range start width i) vs)))) [0 ..< num]
    \<and> h ! num = of_nat (length (filter (\<lambda>v. unat v = hist_upper_bound start num width) vs))"
proof -
  have h0: "length h0 = num + 1" "\<forall>i < num + 1. h0 ! i = 0"
    using assms(2) by (auto simp: userspace_arena_hist_alloc_def simp del: replicate_Suc split: if_splits)
  from hist_record_all_counts [OF assms(1) h0(1), of start vs] h0(2)
  show ?thesis by (auto simp: hist_report_def)
qed

theorem hist_counts_witness:
  "\<exists>h. hist_record_all 0 2 10 [0, 0, 0] [3, 20, 12, 7, 99] = Inr h \<and> hist_report 0 2 10 h = [(0, 2), (10, 1)]
     \<and> h ! 2 = 1"
proof -
  have a: "userspace_arena_hist_alloc 2 4096 = Inr (4096, [0, 0, 0], 24)"
    by (simp add: userspace_arena_hist_alloc_def numeral_eq_Suc)
  have u: "[0 ..< 2] = [0 :: nat, 1]" by (simp add: upt_conv_Cons)
  show ?thesis
    using hist_counts [OF _ a, of 10 0 "[3, 20, 12, 7, 99]"]
    by (simp add: u in_bucket_range_def hist_upper_bound_def) blast
qed

subsection \<open>The loaders of the sketch\<close>

text \<open>
  Loading the object succeeds or not, attaching gives \<open>att\<close>; the result is the exit code, or the state
  of the attached program. Both programs of \<open>arena_cvm\<close> start from the same state.
\<close>

definition EXIT_FAILURE :: int where "EXIT_FAILURE = 1"

definition launch_baseline :: "bool \<Rightarrow> int \<Rightarrow> int + cvm" where
  "launch_baseline loads att =
     (if \<not> loads then Inl EXIT_FAILURE
      else case userspace_arena_treap_alloc TREAP_MAX_SIZE TREAP_MAX_HEIGHT 4 (of_nat TREAP_MAX_SIZE) (of_nat TREAP_MAX_HEIGHT) of
             Inl _ \<Rightarrow> Inl (-1)
           | Inr t \<Rightarrow>
               let st = \<lparr>treap_ptr = Some t, threshold = push_bit 31 1, last_cvm_report = 0,
                         cvm_tput = \<lparr>counter = 0, last_report = 0\<rparr>\<rparr>
               in if att \<noteq> 0 then Inl EXIT_FAILURE else Inr st)"

text \<open>The per-CPU areas of the other program are zero.\<close>

definition launch_with_prefetching :: "bool \<Rightarrow> int \<Rightarrow> int + cvm \<times> batch \<times> batch_state" where
  "launch_with_prefetching loads att =
     (if \<not> loads then Inl EXIT_FAILURE
      else case userspace_arena_treap_alloc TREAP_MAX_SIZE TREAP_MAX_HEIGHT 4 (of_nat TREAP_MAX_SIZE) (of_nat TREAP_MAX_HEIGHT) of
             Inl _ \<Rightarrow> Inl (-1)
           | Inr t \<Rightarrow>
               let st = \<lparr>treap_ptr = Some t, threshold = push_bit 31 1, last_cvm_report = 0,
                         cvm_tput = \<lparr>counter = 0, last_report = 0\<rparr>\<rparr>;
                   b = \<lparr>write_off = 0, keys = (\<lambda>_. 0)\<rparr>;
                   bs = \<lparr>valid_map = 0, nodes_at = (\<lambda>_. None), links_at = (\<lambda>_. None), rnd_u = (\<lambda>_. 0),
                         max_remove_prob = (\<lambda>_. 0), deleted = (\<lambda>_. 0), lookup_finished = 0\<rparr>
               in if att \<noteq> 0 then Inl EXIT_FAILURE else Inr (st, b, bs))"

text \<open>\<open>True\<close> selects the program with prefetching.\<close>

definition cvm_selected :: "u8 list list \<Rightarrow> bool" where
  "cvm_selected argv = (case argv of [] \<Rightarrow> False | a # _ \<Rightarrow> strncmp_eq a (str ''--prefetch'') 10)"

text \<open>
  The loader of \<open>bax_cvm\<close>: the treap is at the start of the area and takes a number of pages, the histogram
  follows. The size of the treap is that of its structure: a root pointer, the nodes, the counter,
  the stack, and padding to eight bytes.
\<close>

definition SIZEOF_TREAP :: nat where
  "SIZEOF_TREAP = 8 + 24 * TREAP_MAX_SIZE + 4 + 4 * TREAP_MAX_SIZE + 4"

definition treap_num_pages :: nat where "treap_num_pages = (SIZEOF_TREAP + 4096 - 1) div 4096"

definition launch_bax :: "bool \<Rightarrow> addr \<Rightarrow> int \<Rightarrow> int + treap \<times> (addr \<times> hist) \<times> fp_t" where
  "launch_bax loads area att =
     (if \<not> loads then Inl EXIT_FAILURE
      else case userspace_arena_treap_alloc TREAP_MAX_SIZE TREAP_MAX_HEIGHT 4 (of_nat TREAP_MAX_SIZE) (of_nat TREAP_MAX_HEIGHT) of
             Inl _ \<Rightarrow> Inl (-1)
           | Inr t \<Rightarrow>
               case userspace_arena_hist_alloc HIST_NUM_BUCKETS (area + treap_num_pages * 4096) of
                 Inl _ \<Rightarrow> Inl (-1)
               | Inr (h, cells, _) \<Rightarrow> if att \<noteq> 0 then Inl EXIT_FAILURE else Inr (t, (h, cells), push_bit 31 1))"

text \<open>A run of the sketch on packets, each with its random number and clock readings: the verdicts and the last state.\<close>

fun cvm_run :: "cvm \<Rightarrow> (packet \<times> u32 \<times> u64 \<times> u64) list \<Rightarrow> (xdp_action list \<times> cvm) checked" where
  "cvm_run st [] = Inr ([], st)"
| "cvm_run st ((pkt, rnd, ts1, ts) # ps) =
     checked_bind (cvm_main st pkt rnd ts1 ts) (\<lambda>(act, out, st).
       checked_bind (cvm_run st ps) (\<lambda>(acts, st). Inr (act # acts, st)))"

lemma cvm_alloc:
  "userspace_arena_treap_alloc TREAP_MAX_SIZE TREAP_MAX_HEIGHT 4 (of_nat TREAP_MAX_SIZE) (of_nat TREAP_MAX_HEIGHT)
     = Inr (the (treap_ptr cvm_start))"
  by (simp add: userspace_arena_treap_alloc_def cvm_start_def) (simp add: cvm_sizes)

lemma launch_baseline_start: "launch_baseline True 0 = Inr cvm_start"
  by (simp add: launch_baseline_def cvm_alloc) (simp add: cvm_start_def FP_ONE_def push_bit_eq_mult)

lemma launch_bax_apart:
  assumes "launch_bax True area 0 = Inr (t, (h, cells), p)"
  shows "area + SIZEOF_TREAP \<le> h \<and> length cells = HIST_NUM_BUCKETS + 1 \<and> treap_keeps t p \<and> p = FP_ONE"
proof -
  have t: "t = the (treap_ptr cvm_start)" and h: "h = area + treap_num_pages * 4096"
    and c: "length cells = HIST_NUM_BUCKETS + 1" and p: "p = FP_ONE"
    using assms by (auto simp: launch_bax_def cvm_alloc userspace_arena_hist_alloc_def FP_ONE_def push_bit_eq_mult
        split: if_splits)
  have "treap_keeps t p"
    using cvm_start_inv unfolding t p by (simp add: cvm_inv_def cvm_start_def)
  with h c p show ?thesis by (simp add: treap_num_pages_def SIZEOF_TREAP_def TREAP_MAX_SIZE_def)
qed

lemma cvm_main_verdict:
  assumes "treap_ptr st = Some t" and "cvm_main st pkt rnd ts1 ts = Inr (act, out, st')"
  shows "act = (if cvm_key pkt = None then XDP_PASS else XDP_DROP) \<and> (\<exists>t'. treap_ptr st' = Some t')"
  using assms
  by (auto simp: cvm_main_def cvm_update_def cvm_done_def reset_def checked_bind_Inr Let_def
      split: option.splits prod.splits if_splits)

lemma cvm_run_keeps:
  assumes "cvm_inv st" and "treap_ptr st = Some t"
  shows "\<exists>acts st'. cvm_run st ps = Inr (acts, st') \<and> cvm_inv st' \<and> (\<exists>t'. treap_ptr st' = Some t')
    \<and> acts = map (\<lambda>(pkt, _). if cvm_key pkt = None then XDP_PASS else XDP_DROP) ps"
  using assms
proof (induction ps arbitrary: st t)
  case (Cons x ps)
  obtain pkt rnd ts1 ts where x: "x = (pkt, rnd, ts1, ts)" by (cases x)
  from cvm_main_keeps [OF Cons.prems(1)] obtain act out st1 where
    m: "cvm_main st pkt rnd ts1 ts = Inr (act, out, st1)" "cvm_inv st1" by blast
  from cvm_main_verdict [OF Cons.prems(2) m(1)] obtain t1 where
    a: "act = (if cvm_key pkt = None then XDP_PASS else XDP_DROP)" and t1: "treap_ptr st1 = Some t1" by blast
  from Cons.IH [OF m(2) t1] m(1) a show ?case by (auto simp: x)
qed auto

text \<open>From the state that the loader leaves, every sequence of packets, with any random numbers and any
  clock, is processed to its end without a fault. The counted packets are dropped and the others
  passed, and the last state has a proper treap of at most 128 entries below the threshold.\<close>

lemma cvm_from_loader:
  "\<exists>st0 acts st t T. launch_baseline True 0 = Inr st0 \<and> cvm_run st0 ps = Inr (acts, st)
    \<and> acts = map (\<lambda>(pkt, _). if cvm_key pkt = None then XDP_PASS else XDP_DROP) ps
    \<and> treap_ptr st = Some t \<and> treap_inv TREAP_MAX_SIZE t T \<and> size (content t T) \<le> 128
    \<and> (\<forall>x \<in># content t T. snd x \<le> threshold st) \<and> threshold st \<le> FP_ONE"
proof -
  obtain t where t: "treap_ptr cvm_start = Some t" by (simp add: cvm_start_def)
  from cvm_run_keeps [OF cvm_start_inv t, of ps] obtain acts st t' where
    r: "cvm_run cvm_start ps = Inr (acts, st)" "cvm_inv st" "treap_ptr st = Some t'"
    "acts = map (\<lambda>(pkt, _). if cvm_key pkt = None then XDP_PASS else XDP_DROP) ps" by blast
  then obtain T where T: "treap_inv TREAP_MAX_SIZE t' T" "\<forall>x \<in># content t' T. snd x \<le> threshold st"
    "threshold st \<le> FP_ONE" by (auto simp: cvm_inv_def treap_keeps_def treap_holds_def)
  have "size (content t' T) \<le> 128"
    using size_content [OF T(1)] T(1) by (simp add: treap_inv_def TREAP_MAX_SIZE_def)
  with r T launch_baseline_start show ?thesis by blast
qed

subsection \<open>The Bloom filter\<close>

text \<open>
  The filter of the kernel is the state \<open>f\<close>; \<open>push\<close> gives the return code of an update and the filter
  after it. \<open>int\<close> holds the numbers, a store into a value keeps the low 32 bits.
\<close>

definition int_bytes :: "int \<Rightarrow> u8 list" where
  "int_bytes x = map (\<lambda>j. ucast (drop_bit (8 * j) (of_int x :: u32))) [0 ..< 4]"

definition my_value :: "int \<Rightarrow> u8 list" where
  "my_value c = int_bytes c @ int_bytes (c + 1)"

fun fib_loop :: "('f \<Rightarrow> u8 list \<Rightarrow> int \<times> 'f) \<Rightarrow> nat \<Rightarrow> int \<Rightarrow> int \<Rightarrow> 'f \<Rightarrow> 'f checked" where
  "fib_loop push 0 a b f = Inr f"
| "fib_loop push (Suc n) a b f =
     (let c = a + b in
      if 2 ^ 31 \<le> c + 1 then Inl Signed_overflow
      else let (ret, f) = push f (my_value c)
           in if ret \<noteq> 0 then Inl Assertion_failed else fib_loop push n b c f)"

definition load_fibs :: "('f \<Rightarrow> u8 list \<Rightarrow> int \<times> 'f) \<Rightarrow> 'f \<Rightarrow> 'f checked" where
  "load_fibs push f = (let count_fib = 40 in fib_loop push (count_fib - 2) 1 1 f)"

text \<open>\<open>True\<close> selects the empty function for the arena.\<close>

definition bloom_selected :: "u8 list list \<Rightarrow> bool" where
  "bloom_selected argv = (case argv of [] \<Rightarrow> False | a # _ \<Rightarrow> strncmp_eq a (str ''--arena'') 7)"

text \<open>What the filter promises: a value that was added is never reported absent.\<close>

definition bloom_contract :: "('f \<Rightarrow> u8 list \<Rightarrow> int \<times> 'f) \<Rightarrow> ('f \<Rightarrow> u8 list \<Rightarrow> int) \<Rightarrow> bool" where
  "bloom_contract push peek \<longleftrightarrow> (\<forall>f v f'. push f v = (0, f') \<longrightarrow>
     peek f' v = 0 \<and> (\<forall>w. peek f w = 0 \<longrightarrow> peek f' w = 0))"

fun fib :: "nat \<Rightarrow> int" where
  "fib 0 = 1"
| "fib (Suc 0) = 1"
| "fib (Suc (Suc n)) = fib n + fib (Suc n)"

lemma fib_mono: "0 < fib n \<and> fib n \<le> fib (Suc n)"
  by (induction n rule: fib.induct) auto

lemma fib_le: "i \<le> j \<Longrightarrow> fib i \<le> fib j"
  by (induction j rule: dec_induct) (use fib_mono in \<open>auto intro: order_trans\<close>)

lemma fib_double: "fib (Suc n) \<le> 2 * fib n"
  by (cases n) (use fib_mono in \<open>auto intro: order_trans\<close>)

lemma fib_bound: "fib (2 * k + 1) \<le> 3 ^ k"
proof (induction k)
  case (Suc k)
  have "fib (2 * Suc k + 1) \<le> 3 * fib (2 * k + 1)" using fib_double [of "2 * k + 1"] by simp
  with Suc show ?case by (simp del: fib.simps)
qed simp

lemma fib_loop_loads:
  assumes c: "bloom_contract push peek" and l: "fib_loop push n (fib i) (fib (Suc i)) f = Inr f'"
  shows "(\<forall>w. peek f w = 0 \<longrightarrow> peek f' w = 0) \<and> (\<forall>j < n. peek f' (my_value (fib (i + 2 + j))) = 0)"
  using l
proof (induction n arbitrary: i f)
  case (Suc n)
  let ?c = "fib (Suc (Suc i))"
  obtain f1 where p: "push f (my_value ?c) = (0, f1)" and r: "fib_loop push n (fib (Suc i)) ?c f1 = Inr f'"
    using Suc.prems by (auto simp: Let_def split: if_splits prod.splits)
  have k: "peek f1 (my_value ?c) = 0" "\<forall>w. peek f w = 0 \<longrightarrow> peek f1 w = 0"
    using c p by (auto simp: bloom_contract_def simp del: fib.simps)
  note ih = Suc.IH [OF r]
  have "peek f' (my_value (fib (i + 2 + j))) = 0" if "j < Suc n" for j
    using that ih k by (cases j) (auto simp del: fib.simps)
  with ih k(2) show ?case by blast
qed simp

text \<open>The numbers stay in the range of an \<open>int\<close>: the loop ends without a fault when no update fails.\<close>

lemma fib_loop_total:
  assumes p: "\<And>f v. fst (push f v) = 0" and n: "i + 1 + n \<le> 39"
  shows "\<exists>f'. fib_loop push n (fib i) (fib (Suc i)) f = Inr f'"
  using n
proof (induction n arbitrary: i f)
  case (Suc n)
  let ?c = "fib (Suc (Suc i))"
  have "?c \<le> fib 39" using Suc.prems by (intro fib_le) simp
  with fib_bound [of 19] have lt: "?c + 1 < 2 ^ 31" by (simp del: fib.simps)
  obtain f1 where f1: "push f (my_value ?c) = (0, f1)" using p [of f "my_value ?c"] by (cases "push f (my_value ?c)") simp
  have "Suc i + 1 + n \<le> 39" using Suc.prems by simp
  from Suc.IH [OF this, of f1] lt f1 show ?case by (simp add: Let_def)
qed simp

text \<open>C15. When the filter has no false negatives and takes every update, the loader ends, and then the program
  answers every request for one of the pairs that were loaded with the text for a value that may be
  present, at the place of the request in the reply.\<close>

theorem bloom_from_loader:
  assumes c: "bloom_contract push peek" and upd: "\<And>f v. fst (push f v) = 0"
    and tail: "tail_contract adj" and len: "length p < 2 ^ 15" and n: "request_count p = Inr n"
    and inside: "n = 0 \<or> key_off 8 n \<le> length p" and rs: "resizable adj (8 * n) p"
  shows "\<exists>f q s'. load_fibs push f0 = Inr f \<and> bloom_main adj (peek f) p s = Inr (XDP_TX, q, s')
    \<and> length q = PAYLOAD + 8 * n
    \<and> (\<forall>i < n. \<forall>j. 2 \<le> j \<and> j < 40 \<and> map (packet_key p (key_off 8 i)) [0 ..< 8] = my_value (fib j)
         \<longrightarrow> take 6 (drop (PAYLOAD + 8 * i) q) = resp_text MAY_PRESENT)"
proof -
  from fib_loop_total [where push = push and i = 0 and n = 38 and f = f0, OF upd] obtain f where l: "fib_loop push 38 (fib 0) (fib (Suc 0)) f0 = Inr f" by auto
  then have f: "load_fibs push f0 = Inr f" by (simp add: load_fibs_def)
  have k: "peek f (my_value (fib j)) = 0" if "2 \<le> j" "j < 40" for j
  proof -
    have j: "j - 2 < 38" "0 + 2 + (j - 2) = j" using that by simp_all
    from fib_loop_loads [OF c l] j(1) have "peek f (my_value (fib (0 + 2 + (j - 2)))) = 0" by blast
    then show ?thesis unfolding j(2) .
  qed
  from bloom_serves [where peek = "peek f" and s = s, OF tail len n inside rs] obtain q s' where
    "bloom_main adj (peek f) p s = Inr (XDP_TX, q, s')" "length q = PAYLOAD + 8 * n"
    "\<forall>i < n. take 6 (drop (PAYLOAD + 8 * i) q)
          = resp_text (if peek f (map (packet_key p (key_off 8 i)) [0 ..< 8]) = 0 then MAY_PRESENT else NOT_PRESENT)"
    by blast
  with f k show ?thesis by auto
qed

text \<open>A filter that remembers every value, and a request for the pair of 3 and 4.\<close>

definition fib_request :: packet where
  "fib_request = take 42 udp_ex @ [1, 0, 0, 0, 3, 0, 0, 0, 4, 0, 0, 0]"

theorem bloom_from_loader_witness:
  "\<exists>f q s. load_fibs (\<lambda>f v. (0, v # f)) [] = Inr f
     \<and> bloom_main cut_or_pad (\<lambda>w. if w \<in> set f then 0 else -2) fib_request (\<lambda>_. []) = Inr (XDP_TX, q, s)
     \<and> take 6 (drop 42 q) = [77, 65, 89, 95, 80, 10]"
proof -
  let ?push = "\<lambda>(f :: u8 list list) v. (0 :: int, v # f)"
  let ?peek = "\<lambda>(f :: u8 list list) w. if w \<in> set f then 0 else -2 :: int"
  have c: "bloom_contract ?push ?peek" by (simp add: bloom_contract_def)
  have r: "request_count fib_request = Inr 1" "length fib_request = 54"
    by (simp_all add: request_count_def our_port_def fib_request_def udp_ex_def request_consts ld16_def ld32_def
      le16_def le32_def bswap16_def)
  have l: "length fib_request < 2 ^ 15" "(1 :: nat) = 0 \<or> key_off 8 1 \<le> length fib_request"
    by (simp_all add: r key_off_def request_consts)
  have u: "[0 ..< 8] = [0, 1, 2, 3, 4, 5, 6, 7 :: nat]" "[0 ..< 4] = [0, 1, 2, 3 :: nat]" by (simp_all add: upt_conv_Cons)
  have f3: "fib 3 = 3" by (simp add: numeral_3_eq_3)
  have k: "map (packet_key fib_request (key_off 8 0)) [0 ..< 8] = my_value (fib 3)"
    by (simp add: u packet_key_def key_off_def request_consts fib_request_def udp_ex_def my_value_def int_bytes_def
      f3)
  have u': "fst (?push f v) = 0" for f v by simp
  from bloom_from_loader [OF c u' cut_or_pad_contract l(1) r(1) l(2) resizable_cut, of "[]" "\<lambda>_. []"]
  obtain f q s' where b: "load_fibs ?push [] = Inr f" "bloom_main cut_or_pad (?peek f) fib_request (\<lambda>_. []) = Inr (XDP_TX, q, s')"
    "\<forall>i < 1. \<forall>j. 2 \<le> j \<and> j < 40 \<and> map (packet_key fib_request (key_off 8 i)) [0 ..< 8] = my_value (fib j)
         \<longrightarrow> take 6 (drop (PAYLOAD + 8 * i) q) = resp_text MAY_PRESENT" by blast
  have "take 6 (drop (PAYLOAD + 8 * 0) q) = resp_text MAY_PRESENT" using b(3) [rule_format, of 0 3] k by simp
  with b(1,2) show ?thesis by (auto simp: resp_text_def MAY_PRESENT_def NOT_PRESENT_def request_consts)
qed

end
