(* ===== verification/Bench_Main.thy ===== *)
theory Bench_Main
  imports Lpm_Bench
begin

text \<open>
  The harness of the micro-benchmarks, \<open>motivation/microbench_lpm/bench.c\<close>: arguments, the choice of
  the benchmark, starting and pinning of the threads, and the measurements of the timer. The options
  that \<open>argp_parse\<close> finds in the command line are an argument, with their values; so is what the
  calls of the thread library and the memory allocation return. An exit of the program is \<open>None\<close>. The
  reports are in \<open>Bench_Report\<close>; here is the part of the results that they get.
\<close>

subsection \<open>The arguments\<close>

datatype opt_key = Opt char | ARG_PROD_AFFINITY_SET | ARG_CONS_AFFINITY_SET | ARGP_KEY_ARG | Other_opt

text \<open>\<open>cpus\<close> is \<open>None\<close> for a null pointer; its length is \<open>cpus_len\<close>.\<close>

record cpu_set =
  cpus :: "bool option list option"
  next_free :: nat

record env =
  bench_name :: "u8 list option"
  duration_sec :: int
  warmup_sec :: int
  verbose :: bool
  list_names :: bool
  affinity :: bool
  quiet :: bool
  consumer_cnt :: int
  producer_cnt :: int
  nr_cpus :: nat
  prod_cpus :: cpu_set
  cons_cpus :: cpu_set
  pos_args :: nat

definition no_cpus :: cpu_set where "no_cpus = \<lparr>cpus = None, next_free = 0\<rparr>"

definition default_env :: env where
  "default_env = \<lparr>bench_name = None, duration_sec = 5, warmup_sec = 1, verbose = False, list_names = False,
     affinity = False, quiet = False, consumer_cnt = 0, producer_cnt = 1, nr_cpus = 0, prod_cpus = no_cpus,
     cons_cpus = no_cpus, pos_args = 0\<rparr>"

definition int_arg :: "u8 list \<Rightarrow> int" where
  "int_arg arg = to_int (fst (snd (strtol arg)))"

text \<open>A set of processors, with the code of the parser.\<close>

definition cpus_arg :: "(nat \<Rightarrow> bool) \<Rightarrow> u8 list \<Rightarrow> cpu_set \<Rightarrow> cpu_set option checked" where
  "cpus_arg can_alloc arg cs =
     checked_bind (parse_num_list can_alloc arg) (\<lambda>r.
       case r of Inl err \<Rightarrow> Inr None | Inr nums \<Rightarrow> Inr (Some (cs\<lparr>cpus := Some nums\<rparr>)))"

definition parse_arg :: "(nat \<Rightarrow> bool) \<Rightarrow> opt_key \<Rightarrow> u8 list \<Rightarrow> env \<Rightarrow> (int \<times> env) option checked" where
  "parse_arg can_alloc opt arg e =
     (case opt of
        Opt c \<Rightarrow>
          if c = CHR ''v'' then Inr (Some (0, e\<lparr>verbose := True\<rparr>))
          else if c = CHR ''l'' then Inr (Some (0, e\<lparr>list_names := True\<rparr>))
          else if c = CHR ''d'' then
            Inr (if int_arg arg \<le> 0 then None else Some (0, e\<lparr>duration_sec := int_arg arg\<rparr>))
          else if c = CHR ''w'' then
            Inr (if int_arg arg \<le> 0 then None else Some (0, e\<lparr>warmup_sec := int_arg arg\<rparr>))
          else if c = CHR ''p'' then
            Inr (if int_arg arg < 0 then None else Some (0, e\<lparr>producer_cnt := int_arg arg\<rparr>))
          else if c = CHR ''c'' then
            Inr (if int_arg arg < 0 then None else Some (0, e\<lparr>consumer_cnt := int_arg arg\<rparr>))
          else if c = CHR ''a'' then Inr (Some (0, e\<lparr>affinity := True\<rparr>))
          else if c = CHR ''q'' then Inr (Some (0, e\<lparr>quiet := True\<rparr>))
          else Inr (Some (ARGP_ERR_UNKNOWN, e))
      | ARG_PROD_AFFINITY_SET \<Rightarrow>
          checked_bind (cpus_arg can_alloc arg (prod_cpus e)) (\<lambda>r. Inr
            (map_option (\<lambda>cs. (0, e\<lparr>affinity := True, prod_cpus := cs\<rparr>)) r))
      | ARG_CONS_AFFINITY_SET \<Rightarrow>
          checked_bind (cpus_arg can_alloc arg (cons_cpus e)) (\<lambda>r. Inr
            (map_option (\<lambda>cs. (0, e\<lparr>affinity := True, cons_cpus := cs\<rparr>)) r))
      | ARGP_KEY_ARG \<Rightarrow>
          Inr (if pos_args e \<noteq> 0 then None
               else Some (0, e\<lparr>pos_args := pos_args e + 1, bench_name := Some arg\<rparr>))
      | Other_opt \<Rightarrow> Inr (Some (ARGP_ERR_UNKNOWN, e)))"

text \<open>A key that is not known here goes to the parser of the benchmark.\<close>

fun parse_cmdline_args :: "(nat \<Rightarrow> bool) \<Rightarrow> (opt_key \<times> u8 list) list \<Rightarrow> env \<Rightarrow> env option checked" where
  "parse_cmdline_args can_alloc [] e = Inr (Some e)"
| "parse_cmdline_args can_alloc ((opt, arg) # opts) e =
     checked_bind (parse_arg can_alloc opt arg e) (\<lambda>r.
       case r of None \<Rightarrow> Inr None | Some (err, e) \<Rightarrow> parse_cmdline_args can_alloc opts e)"

subsection \<open>The benchmark\<close>

record bench =
  name :: "u8 list"
  validate :: "int \<Rightarrow> int \<Rightarrow> bench_args \<Rightarrow> unit option checked"
  has_producer :: bool
  has_consumer :: bool

definition benchs :: "bench list" where
  "benchs =
     [\<lparr>name = str ''lpm-trie-lookup'', validate = (\<lambda>c p. lpm_validate c), has_producer = True, has_consumer = False\<rparr>,
      \<lparr>name = str ''lpm-trie-update'', validate = (\<lambda>c p. lpm_validate c), has_producer = True, has_consumer = False\<rparr>,
      \<lparr>name = str ''lpm-trie-delete'', validate = lpm_delete_validate, has_producer = True, has_consumer = False\<rparr>,
      \<lparr>name = str ''lpm-trie-free'', validate = lpm_delete_validate, has_producer = True, has_consumer = False\<rparr>,
      \<lparr>name = str ''arena-dat-lookup'', validate = (\<lambda>c p. lpm_validate c), has_producer = True, has_consumer = False\<rparr>]"

definition find_benchmark :: "env \<Rightarrow> bench option" where
  "find_benchmark e = (case bench_name e of None \<Rightarrow> None | Some n \<Rightarrow> find (\<lambda>b. name b = n) benchs)"

subsection \<open>Threads\<close>

fun find_cpu :: "bool option list \<Rightarrow> nat \<Rightarrow> nat option checked" where
  "find_cpu [] i = Inr None"
| "find_cpu (None # bs) i = Inl Uninitialised"
| "find_cpu (Some b # bs) i = (if b then Inr (Some i) else find_cpu bs (i + 1))"

definition next_cpu :: "nat \<Rightarrow> cpu_set \<Rightarrow> (nat \<times> cpu_set) option checked" where
  "next_cpu nr cs =
     (case cpus cs of
        Some bs \<Rightarrow>
          checked_bind (find_cpu (drop (next_free cs) bs) (next_free cs)) (\<lambda>r.
            case r of
              None \<Rightarrow> Inr None
            | Some i \<Rightarrow> Inr (Some (i, cs\<lparr>next_free := i + 1\<rparr>)))
      | None \<Rightarrow>
          if nr = 0 then Inl Division_by_zero
          else Inr (Some (next_free cs mod nr, cs\<lparr>next_free := next_free cs + 1\<rparr>)))"

text \<open>
  The loop that creates threads: \<open>crt i\<close> and \<open>set_affinity cpu\<close> tell whether the calls of the library
  succeed. The result holds the processors of the threads, when they are pinned.
\<close>

fun start_threads ::
  "(nat \<Rightarrow> bool) \<Rightarrow> (nat \<Rightarrow> bool) \<Rightarrow> bool \<Rightarrow> bool \<Rightarrow> nat \<Rightarrow> nat \<Rightarrow> nat \<Rightarrow> cpu_set
     \<Rightarrow> (nat list \<times> cpu_set) option checked" where
  "start_threads crt set_affinity has aff nr 0 i cs = Inr (Some ([], cs))"
| "start_threads crt set_affinity has aff nr (Suc n) i cs =
     (if \<not> has \<or> \<not> crt i then Inr None
      else if aff then
        checked_bind (next_cpu nr cs) (\<lambda>r.
          case r of
            None \<Rightarrow> Inr None
          | Some (cpu, cs) \<Rightarrow>
              if \<not> set_affinity cpu then Inr None
              else checked_bind (start_threads crt set_affinity has aff nr n (i + 1) cs) (\<lambda>r.
                     Inr (map_option (\<lambda>(pins, cs). (cpu # pins, cs)) r)))
      else start_threads crt set_affinity has aff nr n (i + 1) cs)"

text \<open>What the calls of the libraries return: memory, the creation of a thread and its pinning, the benchmark's own set-up.\<close>

record env_calls =
  can_calloc :: bool
  setup_ok :: bool
  make_consumer :: "nat \<Rightarrow> bool"
  make_producer :: "nat \<Rightarrow> bool"
  affinity_ok :: "nat \<Rightarrow> bool"

text \<open>The results of the measurements, with the number of those that were taken.\<close>

record 'r bench_state =
  res_cnt :: nat
  results :: "'r list"
  bench_done :: bool

definition setup_benchmark ::
  "env_calls \<Rightarrow> 'r \<Rightarrow> bench \<Rightarrow> bench_args \<Rightarrow> env \<Rightarrow> ((nat list \<times> nat list) \<times> 'r bench_state) option checked" where
  "setup_benchmark calls zero b args e =
     (if 2 ^ 31 \<le> duration_sec e + warmup_sec e + 2 then Inl Signed_overflow
      else if \<not> can_calloc calls then Inr None
      else
        let st = \<lparr>res_cnt = 0, results = replicate (nat (duration_sec e + warmup_sec e + 2)) zero, bench_done = False\<rparr>
        in checked_bind (validate b (consumer_cnt e) (producer_cnt e) args) (\<lambda>v.
          if v = None \<or> \<not> setup_ok calls then Inr None
          else checked_bind (start_threads (make_consumer calls) (affinity_ok calls) (has_consumer b) (affinity e)
                  (nr_cpus e) (nat (consumer_cnt e)) 0 (cons_cpus e)) (\<lambda>r.
            case r of
              None \<Rightarrow> Inr None
            | Some (cpins, ccs) \<Rightarrow>
                let pcs = (if cpus (prod_cpus e) = None then (prod_cpus e)\<lparr>next_free := next_free ccs\<rparr> else prod_cpus e)
                in checked_bind (start_threads (make_producer calls) (affinity_ok calls) (has_producer b) (affinity e)
                     (nr_cpus e) (nat (producer_cnt e)) 0 pcs) (\<lambda>r.
                   Inr (map_option (\<lambda>(ppins, _). ((cpins, ppins), st)) r)))))"

subsection \<open>Measurements\<close>

text \<open>The handler of the timer; \<open>res\<close> is what \<open>measure\<close> puts into the entry.\<close>

definition collect_measurements :: "env \<Rightarrow> 'r \<Rightarrow> 'r bench_state \<Rightarrow> 'r bench_state checked" where
  "collect_measurements e res st =
     (let iter = res_cnt st; st = st\<lparr>res_cnt := iter + 1\<rparr> in
      checked_bind (write_at (results st) iter res) (\<lambda>rs.
        let st = st\<lparr>results := rs\<rparr> in
        Inr (if int iter = duration_sec e + warmup_sec e then st\<lparr>bench_done := True\<rparr> else st)))"

fun collect_all :: "env \<Rightarrow> 'r list \<Rightarrow> 'r bench_state \<Rightarrow> 'r bench_state checked" where
  "collect_all e [] st = Inr st"
| "collect_all e (r # rs) st = checked_bind (collect_measurements e r st) (collect_all e rs)"

text \<open>What the final report gets, the first sample left out.\<close>

definition final_results :: "env \<Rightarrow> 'r bench_state \<Rightarrow> 'r list" where
  "final_results e st = take (res_cnt st - nat (warmup_sec e)) (drop (nat (warmup_sec e)) (results st))"

subsection \<open>The program up to the start of the timer\<close>

datatype 'r bench_run = Listed "u8 list list" | Started bench env "nat list" "nat list" "'r bench_state"

definition bench_main ::
  "(nat \<Rightarrow> bool) \<Rightarrow> env_calls \<Rightarrow> nat \<Rightarrow> 'r \<Rightarrow> bench_args \<Rightarrow> (opt_key \<times> u8 list) list \<Rightarrow> 'r bench_run option checked" where
  "bench_main can_alloc calls procs zero args opts =
     checked_bind (parse_cmdline_args can_alloc opts (default_env\<lparr>nr_cpus := procs\<rparr>)) (\<lambda>r.
       case r of
         None \<Rightarrow> Inr None
       | Some e \<Rightarrow>
           if list_names e then Inr (Some (Listed (map name benchs)))
           else case find_benchmark e of
             None \<Rightarrow> Inr None
           | Some b \<Rightarrow>
               checked_bind (parse_cmdline_args can_alloc opts (e\<lparr>pos_args := 0\<rparr>)) (\<lambda>r.
                 case r of
                   None \<Rightarrow> Inr None
                 | Some e \<Rightarrow> checked_bind (setup_benchmark calls zero b args e) (\<lambda>r.
                     Inr (map_option (\<lambda>((cpins, ppins), st). Started b e cpins ppins st) r))))"

subsection \<open>Pinning to a set of processors\<close>

definition cpus_from :: "bool list \<Rightarrow> nat \<Rightarrow> nat list" where
  "cpus_from bs k = filter (\<lambda>j. bs ! j) [k ..< length bs]"

lemma cpus_from_step:
  "k < length bs \<Longrightarrow> cpus_from bs k = (if bs ! k then k # cpus_from bs (Suc k) else cpus_from bs (Suc k))"
  by (simp add: cpus_from_def upt_conv_Cons)

lemma find_cpu_spec:
  "find_cpu (map Some (drop k bs)) k = Inr (case cpus_from bs k of [] \<Rightarrow> None | j # _ \<Rightarrow> Some j)"
proof (induction "length bs - k" arbitrary: k)
  case 0
  then show ?case by (simp add: cpus_from_def)
next
  case (Suc n)
  then have k: "k < length bs" "n = length bs - Suc k" by simp_all
  from Suc(1) [OF k(2)] show ?case
    by (simp add: Cons_nth_drop_Suc [OF k(1), symmetric] cpus_from_step [OF k(1)])
qed

lemma cpus_from_tail: "cpus_from bs k = j # js \<Longrightarrow> cpus_from bs (Suc j) = js"
proof (induction "length bs - k" arbitrary: k)
  case 0
  then show ?case by (simp add: cpus_from_def)
next
  case (Suc n)
  then have k: "k < length bs" "n = length bs - Suc k" by simp_all
  from Suc(1) [OF k(2)] Suc(3) show ?case by (auto simp: cpus_from_step [OF k(1)] split: if_splits)
qed

lemma start_listed:
  assumes "cpus cs = Some (map Some bs)"
  shows "if n \<le> length (cpus_from bs (next_free cs))
    then \<exists>cs'. start_threads (\<lambda>_. True) (\<lambda>_. True) True True nr n i cs = Inr (Some (take n (cpus_from bs (next_free cs)), cs'))
    else start_threads (\<lambda>_. True) (\<lambda>_. True) True True nr n i cs = Inr None"
  using assms
proof (induction n arbitrary: i cs)
  case (Suc n)
  show ?case
  proof (cases "cpus_from bs (next_free cs)")
    case Nil
    with Suc.prems find_cpu_spec [of "next_free cs" bs] show ?thesis by (simp add: next_cpu_def drop_map)
  next
    case (Cons j js)
    let ?cs = "cs\<lparr>next_free := j + 1\<rparr>"
    have nx: "next_cpu nr cs = Inr (Some (j, ?cs))"
      using Suc.prems find_cpu_spec [of "next_free cs" bs] Cons by (simp add: next_cpu_def drop_map)
    have "cpus ?cs = Some (map Some bs)" "cpus_from bs (next_free ?cs) = js"
      using Suc.prems cpus_from_tail [OF Cons] by simp_all
    with Suc.IH [of ?cs "i + 1"] show ?thesis by (auto simp: Cons nx split: if_splits)
  qed
qed simp

lemma cpus_from_set: "cpus_from bs 0 = sorted_list_of_set {j. j < length bs \<and> bs ! j}"
proof -
  have "set (cpus_from bs 0) = {j. j < length bs \<and> bs ! j}" by (auto simp: cpus_from_def)
  moreover have "sorted (cpus_from bs 0)" "distinct (cpus_from bs 0)"
    by (simp_all add: cpus_from_def sorted_wrt_filter)
  ultimately show ?thesis by (metis sorted_list_of_set.idem_if_sorted_distinct)
qed

lemma find_bench: "b \<in> set benchs \<Longrightarrow> find (\<lambda>x. name x = name b) benchs = Some b"
  by (auto simp: benchs_def)

lemma int_arg_dec: "n < 2 ^ 31 \<Longrightarrow> int_arg (dec n) = int n"
  using strtol_dec [of n "[]"] by (simp add: int_arg_def to_int_nat)

definition all_succeed :: env_calls where
  "all_succeed = \<lparr>can_calloc = True, setup_ok = True, make_consumer = (\<lambda>_. True), make_producer = (\<lambda>_. True),
     affinity_ok = (\<lambda>_. True)\<rparr>"

text \<open>C22. A benchmark that is named on the command line with a number of producers and a list of processors
  starts when its arguments are valid. Producer \<open>i\<close> is pinned to the \<open>i\<close>-th processor of the listed set in
  increasing order; when the set has fewer processors than there are producers, the program exits.\<close>

theorem bench_main_pins:
  assumes b: "b \<in> set benchs" and v: "validate b 0 (int n) args = Inr (Some ())" and n: "n < 2 ^ 31"
    and ok: "\<forall>x \<in> set xs. item_ok x" and ne: "xs \<noteq> []"
  defines "S \<equiv> sorted_list_of_set {i. \<exists>x \<in> set xs. item_has x i}"
  defines "opts \<equiv> [(ARGP_KEY_ARG, name b), (Opt (CHR ''p''), dec n), (ARG_PROD_AFFINITY_SET, list_text xs)]"
  shows "if n \<le> length S
    then \<exists>e st. bench_main (\<lambda>_. True) all_succeed procs zero args opts = Inr (Some (Started b e [] (take n S) st))
      \<and> producer_cnt e = int n \<and> affinity e
    else bench_main (\<lambda>_. True) all_succeed procs zero args opts = Inr None"
proof -
  from num_list_parses [OF ok ne] obtain bs where p: "parse_num_list (\<lambda>_. True) (list_text xs) = Inr (Inr (map Some bs))"
    and l: "length bs = Max ((\<lambda>x. snd (item_bounds x)) ` set xs) + 1"
    and m: "\<forall>i < length bs. bs ! i \<longleftrightarrow> (\<exists>x \<in> set xs. item_has x i)" by blast
  have "i < length bs" if "x \<in> set xs" "item_has x i" for x i
  proof -
    have "snd (item_bounds x) \<le> Max ((\<lambda>x. snd (item_bounds x)) ` set xs)" using that(1) by (intro Max_ge) auto
    with that(2) l show ?thesis by (simp add: item_has_def)
  qed
  with m have "{j. j < length bs \<and> bs ! j} = {i. \<exists>x \<in> set xs. item_has x i}" by blast
  then have S: "cpus_from bs 0 = S" by (simp only: cpus_from_set S_def)
  define e where "e = default_env\<lparr>nr_cpus := procs, bench_name := Some (name b), producer_cnt := int n, affinity := True,
    prod_cpus := \<lparr>cpus = Some (map Some bs), next_free = 0\<rparr>, pos_args := 1\<rparr>"
  have parse: "parse_cmdline_args (\<lambda>_. True) opts e0 = Inr (Some e)"
    if "e0 \<in> {default_env\<lparr>nr_cpus := procs\<rparr>, e\<lparr>pos_args := 0\<rparr>}" for e0
    using that p n by (auto simp: opts_def parse_arg_def cpus_arg_def int_arg_dec e_def default_env_def no_cpus_def)
  have f: "find_benchmark e = Some b" using find_bench [OF b] by (simp add: find_benchmark_def e_def)
  have pr: "has_producer b" using b by (auto simp: benchs_def)
  let ?st = "\<lparr>res_cnt = 0, results = replicate 8 zero, bench_done = False\<rparr>"
  have s: "setup_benchmark all_succeed zero b args e =
    (case start_threads (\<lambda>_. True) (\<lambda>_. True) True True procs n 0 (prod_cpus e) of
       Inl f \<Rightarrow> Inl f | Inr r \<Rightarrow> Inr (map_option (\<lambda>(ppins, _). (([], ppins), ?st)) r))"
    using v pr by (simp add: setup_benchmark_def all_succeed_def e_def default_env_def no_cpus_def split: sum.splits)
  have c: "cpus (prod_cpus e) = Some (map Some bs)" "next_free (prod_cpus e) = 0" by (simp_all add: e_def)
  have main: "bench_main (\<lambda>_. True) all_succeed procs zero args opts =
    checked_bind (setup_benchmark all_succeed zero b args e) (\<lambda>r.
      Inr (map_option (\<lambda>((cpins, ppins), st). Started b e cpins ppins st) r))"
    by (simp add: bench_main_def parse f) (simp add: e_def default_env_def)
  have e: "producer_cnt e = int n" "affinity e" by (simp_all add: e_def)
  from start_listed [OF c(1), of n procs 0] show ?thesis
    unfolding main s c(2) S using e by (auto split: if_splits)
qed

subsection \<open>What a started benchmark has\<close>

definition env_ok :: "env \<Rightarrow> bool" where
  "env_ok e \<longleftrightarrow> 0 < duration_sec e \<and> 0 < warmup_sec e \<and> 0 \<le> consumer_cnt e \<and> 0 \<le> producer_cnt e"

lemma parse_arg_ok:
  "env_ok e \<Longrightarrow> parse_arg can_alloc opt arg e = Inr (Some (err, e')) \<Longrightarrow> env_ok e'"
  by (cases opt) (auto simp: parse_arg_def env_ok_def checked_bind_Inr split: if_splits)

lemma parse_args_ok:
  "env_ok e \<Longrightarrow> parse_cmdline_args can_alloc opts e = Inr (Some e') \<Longrightarrow> env_ok e'"
proof (induction opts arbitrary: e)
  case (Cons x opts)
  obtain opt arg where x: "x = (opt, arg)" by (cases x)
  from Cons.prems(2) obtain err e1 where p: "parse_arg can_alloc opt arg e = Inr (Some (err, e1))"
    and r: "parse_cmdline_args can_alloc opts e1 = Inr (Some e')"
    by (auto simp: x checked_bind_Inr split: option.splits)
  from Cons.IH [OF parse_arg_ok [OF Cons.prems(1) p] r] show ?case .
qed simp

lemma start_threads_pins:
  "start_threads crt sa has aff nr n i cs = Inr (Some (pins, cs')) \<Longrightarrow> length pins = (if aff then n else 0)"
proof (induction n arbitrary: i cs pins)
  case (Suc n)
  show ?case
  proof (cases aff)
    case True
    with Suc.prems obtain cpu cs1 pins1 where
      "start_threads crt sa has True nr n (i + 1) cs1 = Inr (Some (pins1, cs'))" "pins = cpu # pins1"
      by (fastforce simp: checked_bind_Inr split: if_splits option.splits)
    with Suc.IH True show ?thesis by simp
  next
    case False
    with Suc show ?thesis by (auto split: if_splits)
  qed
qed simp

lemma valid_bench:
  "b \<in> set benchs \<Longrightarrow> validate b c p args = Inr (Some ()) \<Longrightarrow> c = 0"
  by (auto simp: benchs_def lpm_delete_validate_def lpm_validate_def checked_bind_Inr split: if_splits option.splits)

lemma bench_main_started:
  assumes "bench_main can_alloc calls procs zero args opts = Inr (Some (Started b e cpins ppins st))"
  shows "env_ok e \<and> b \<in> set benchs \<and> consumer_cnt e = 0 \<and> cpins = []
    \<and> length ppins = (if affinity e then nat (producer_cnt e) else 0)
    \<and> st = \<lparr>res_cnt = 0, results = replicate (nat (duration_sec e + warmup_sec e + 2)) zero, bench_done = False\<rparr>"
proof -
  have d: "env_ok (default_env\<lparr>nr_cpus := procs\<rparr>)" by (simp add: env_ok_def default_env_def)
  note m = assms [unfolded bench_main_def]
  obtain r1 where p: "parse_cmdline_args can_alloc opts (default_env\<lparr>nr_cpus := procs\<rparr>) = Inr r1"
    using m by (cases "parse_cmdline_args can_alloc opts (default_env\<lparr>nr_cpus := procs\<rparr>)") simp_all
  obtain e1 where p1: "parse_cmdline_args can_alloc opts (default_env\<lparr>nr_cpus := procs\<rparr>) = Inr (Some e1)"
    using m p by (cases r1) simp_all
  have nl: "\<not> list_names e1" using m p1 by auto
  obtain b1 where f1: "find_benchmark e1 = Some b1" using m p1 nl by (cases "find_benchmark e1") simp_all
  obtain r2 where q: "parse_cmdline_args can_alloc opts (e1\<lparr>pos_args := 0\<rparr>) = Inr r2"
    using m p1 nl f1 by (cases "parse_cmdline_args can_alloc opts (e1\<lparr>pos_args := 0\<rparr>)") simp_all
  obtain e2 where q2: "parse_cmdline_args can_alloc opts (e1\<lparr>pos_args := 0\<rparr>) = Inr (Some e2)"
    using m p1 nl f1 q by (cases r2) simp_all
  have "checked_bind (setup_benchmark calls zero b1 args e2) (\<lambda>r.
      Inr (map_option (\<lambda>((cpins, ppins), st). Started b1 e2 cpins ppins st) r)) = Inr (Some (Started b e cpins ppins st))"
    using m p1 nl f1 q2 by simp
  then have s: "setup_benchmark calls zero b args e = Inr (Some ((cpins, ppins), st))"
    and p2: "parse_cmdline_args can_alloc opts (e1\<lparr>pos_args := 0\<rparr>) = Inr (Some e)" and f: "find_benchmark e1 = Some b"
    using q2 f1 by (auto simp: checked_bind_Inr)
  have "env_ok (e1\<lparr>pos_args := 0\<rparr>)" using parse_args_ok [OF d p1] by (simp add: env_ok_def)
  from parse_args_ok [OF this p2] have e: "env_ok e" .
  have b: "b \<in> set benchs" using f by (auto simp: find_benchmark_def find_Some_iff split: option.splits)
  let ?st = "\<lparr>res_cnt = 0, results = replicate (nat (duration_sec e + warmup_sec e + 2)) zero, bench_done = False\<rparr>"
  note u = s [unfolded setup_benchmark_def]
  have g: "duration_sec e + warmup_sec e + 2 < 2 ^ 31" "can_calloc calls" using u by (auto split: if_splits)
  obtain v where v1: "validate b (consumer_cnt e) (producer_cnt e) args = Inr v"
    using u g by (cases "validate b (consumer_cnt e) (producer_cnt e) args") simp_all
  have ok: "v \<noteq> None" "setup_ok calls" using u g v1 by (auto split: if_splits)
  then have v: "validate b (consumer_cnt e) (producer_cnt e) args = Inr (Some ())" using v1 by auto
  let ?c = "start_threads (make_consumer calls) (affinity_ok calls) (has_consumer b) (affinity e)
                  (nr_cpus e) (nat (consumer_cnt e)) 0 (cons_cpus e)"
  obtain rc where c1: "?c = Inr rc" using u g v ok by (cases ?c) (simp_all add: Let_def)
  obtain cp cs where c: "?c = Inr (Some (cp, cs))" using u g v ok c1 by (cases rc) (auto simp: Let_def)
  define pcs where "pcs = (if cpus (prod_cpus e) = None then (prod_cpus e)\<lparr>next_free := next_free cs\<rparr> else prod_cpus e)"
  let ?p = "start_threads (make_producer calls) (affinity_ok calls) (has_producer b) (affinity e)
                     (nr_cpus e) (nat (producer_cnt e)) 0 pcs"
  have "checked_bind ?p (\<lambda>r. Inr (map_option (\<lambda>(ppins, _). ((cp, ppins), ?st)) r)) = Inr (Some ((cpins, ppins), st))"
    using u g v ok c by (simp add: Let_def pcs_def)
  then obtain pcs' where cp: "cp = cpins" and st: "st = ?st" and t: "?p = Inr (Some (ppins, pcs'))"
    by (auto simp: checked_bind_Inr)
  have "consumer_cnt e = 0" by (rule valid_bench [OF b v])
  moreover from this start_threads_pins [OF c] cp have "cpins = []" by (simp split: if_splits)
  ultimately show ?thesis using e b st start_threads_pins [OF t] by simp
qed

lemma collect_all_spec:
  assumes "res_cnt st \<le> length (results st)" and "int (length (results st)) = duration_sec e + warmup_sec e + 2"
    and "bench_done st \<longleftrightarrow> duration_sec e + warmup_sec e < int (res_cnt st)"
  shows "if res_cnt st + length rs \<le> length (results st)
    then collect_all e rs st = Inr \<lparr>res_cnt = res_cnt st + length rs,
      results = take (res_cnt st) (results st) @ rs @ drop (res_cnt st + length rs) (results st),
      bench_done = (duration_sec e + warmup_sec e < int (res_cnt st + length rs))\<rparr>
    else collect_all e rs st = Inl Out_of_bounds"
  using assms
proof (induction rs arbitrary: st)
  case (Cons r rs)
  show ?case
  proof (cases "res_cnt st < length (results st)")
    case False
    then show ?thesis by (simp add: collect_measurements_def write_at_def)
  next
    case True
    let ?st = "\<lparr>res_cnt = res_cnt st + 1, results = (results st)[res_cnt st := r],
      bench_done = (duration_sec e + warmup_sec e < int (res_cnt st + 1))\<rparr>"
    have c: "collect_measurements e r st = Inr ?st"
      using True Cons.prems(3) by (auto simp: collect_measurements_def Let_def)
    have t: "take (Suc (res_cnt st)) ((results st)[res_cnt st := r]) = take (res_cnt st) (results st) @ [r]"
      using True by (simp add: take_Suc_conv_app_nth)
    have "res_cnt ?st \<le> length (results ?st)" "int (length (results ?st)) = duration_sec e + warmup_sec e + 2"
      "bench_done ?st \<longleftrightarrow> duration_sec e + warmup_sec e < int (res_cnt ?st)"
      using True Cons.prems by simp_all
    from Cons.IH [OF this] show ?thesis
      by (cases "Suc (res_cnt st + length rs) \<le> length (results st)") (simp_all add: c t)
  qed
qed (cases st, auto)

lemma measured_run:
  assumes "bench_main can_alloc calls procs zero args opts = Inr (Some (Started b e cpins ppins st))"
  defines "N \<equiv> nat (duration_sec e + warmup_sec e + 2)"
  shows "0 < duration_sec e \<and> 0 < warmup_sec e \<and> consumer_cnt e = 0
    \<and> (if length rs \<le> N
       then \<exists>st'. collect_all e rs st = Inr st' \<and> results st' = rs @ replicate (N - length rs) zero
         \<and> (bench_done st' \<longleftrightarrow> N - 1 \<le> length rs) \<and> final_results e st' = drop (nat (warmup_sec e)) rs
       else collect_all e rs st = Inl Out_of_bounds)"
proof -
  from bench_main_started [OF assms(1)] have e: "env_ok e" "consumer_cnt e = 0"
    and st: "res_cnt st = 0" "results st = replicate N zero" "bench_done st = False" by (auto simp: N_def)
  have N: "int N = duration_sec e + warmup_sec e + 2" using e(1) by (simp add: N_def env_ok_def)
  have d: "bench_done st \<longleftrightarrow> duration_sec e + warmup_sec e < int (res_cnt st)" using e(1) st by (simp add: env_ok_def)
  have "res_cnt st \<le> length (results st)" "int (length (results st)) = duration_sec e + warmup_sec e + 2"
    using st N by simp_all
  from collect_all_spec [OF this d, of rs] have c: "if length rs \<le> N
    then collect_all e rs st = Inr \<lparr>res_cnt = length rs, results = rs @ replicate (N - length rs) zero,
      bench_done = (duration_sec e + warmup_sec e < int (length rs))\<rparr>
    else collect_all e rs st = Inl Out_of_bounds"
    by (simp add: st)
  have n: "duration_sec e + warmup_sec e < int (length rs) \<longleftrightarrow> N - 1 \<le> length rs"
    using N e(1) by (auto simp: env_ok_def)
  show ?thesis
    using c e n by (auto simp: env_ok_def final_results_def split: if_splits)
qed

text \<open>A benchmark that has started has positive times and no consumer, and its array of results has room for
  the samples of the whole run and two more: each signal of the timer stores one, and the main thread is woken
  exactly when the samples of the warm-up and the duration and one more are there. Further signals, which
  nothing stops, still fit once; the next is out of bounds.\<close>

theorem bench_measures:
  assumes "bench_main can_alloc calls procs zero args opts = Inr (Some (Started b e cpins ppins st))"
  defines "N \<equiv> nat (duration_sec e + warmup_sec e + 2)"
  shows "0 < duration_sec e \<and> 0 < warmup_sec e \<and> consumer_cnt e = 0
    \<and> (if length rs \<le> N
       then \<exists>st'. collect_all e rs st = Inr st' \<and> results st' = rs @ replicate (N - length rs) zero
         \<and> (bench_done st' \<longleftrightarrow> N - 1 \<le> length rs) \<and> final_results e st' = drop (nat (warmup_sec e)) rs
       else collect_all e rs st = Inl Out_of_bounds)"
  using measured_run [OF assms(1), of rs] unfolding N_def .

subsection \<open>Examples\<close>

lemma bench_ex_args: "validate (hd benchs) 0 (int n) default_args = Inr (Some ())"
  by (simp add: benchs_def lpm_validate_def default_args_def push_bit_eq_mult word_less_nat_alt)

theorem bench_main_pins_witness:
  "\<exists>e st. bench_main (\<lambda>_. True) all_succeed 8 () default_args
      [(ARGP_KEY_ARG, str ''lpm-trie-lookup''), (Opt (CHR ''p''), str ''2''), (ARG_PROD_AFFINITY_SET, str ''0-1,3'')]
    = Inr (Some (Started (hd benchs) e [] [0, 1] st))"
proof -
  have S: "{i. \<exists>x \<in> set [Range 0 1, Single 3]. item_has x i} = {0, 1, 3}" by (auto simp: item_has_def)
  have L: "sorted_list_of_set {0, 1, 3 :: nat} = [0, 1, 3]" by simp
  have t: "list_text [Range 0 1, Single 3] = str ''0-1,3''" "dec 2 = str ''2''" by (simp_all add: dec.simps)
  have nm: "name (hd benchs) = str ''lpm-trie-lookup''" by (simp add: benchs_def)
  have h: "hd benchs \<in> set benchs" by (simp add: benchs_def)
  from bench_main_pins [OF h bench_ex_args, of 2 "[Range 0 1, Single 3]" 8 "()"]
  show ?thesis unfolding S L t nm by (simp add: item_ok_def) blast
qed

lemma bench_ex_started:
  "\<exists>e st. bench_main (\<lambda>_. True) all_succeed 8 zero default_args [(ARGP_KEY_ARG, str ''lpm-trie-lookup'')]
      = Inr (Some (Started (hd benchs) e [] [] st)) \<and> producer_cnt e = 1 \<and> duration_sec e = 5 \<and> warmup_sec e = 1"
proof -
  define e where "e = default_env\<lparr>nr_cpus := 8, bench_name := Some (str ''lpm-trie-lookup''), pos_args := 1\<rparr>"
  let ?st = "\<lparr>res_cnt = 0, results = replicate 8 zero, bench_done = False\<rparr>"
  have f: "find_benchmark e = Some (hd benchs)" by (simp add: find_benchmark_def benchs_def e_def)
  have c: "producer_cnt e = 1" "consumer_cnt e = 0" "affinity e = False" "duration_sec e = 5" "warmup_sec e = 1"
    "list_names e = False" "cpus (prod_cpus e) = None"
    by (simp_all add: default_env_def no_cpus_def e_def)
  have b: "has_producer (hd benchs)" "validate (hd benchs) 0 1 default_args = Inr (Some ())"
    using bench_ex_args [of 1] by (simp_all add: benchs_def)
  have s: "setup_benchmark all_succeed zero (hd benchs) default_args e = Inr (Some (([], []), ?st))"
    by (simp add: setup_benchmark_def c b all_succeed_def)
  have p: "parse_cmdline_args (\<lambda>_. True) [(ARGP_KEY_ARG, str ''lpm-trie-lookup'')] e0 = Inr (Some e)"
    if "e0 \<in> {default_env\<lparr>nr_cpus := 8\<rparr>, e\<lparr>pos_args := 0\<rparr>}" for e0
    using that by (auto simp: parse_arg_def default_env_def e_def)
  have m: "bench_main (\<lambda>_. True) all_succeed 8 zero default_args [(ARGP_KEY_ARG, str ''lpm-trie-lookup'')]
      = Inr (Some (Started (hd benchs) e [] [] ?st))"
    unfolding bench_main_def using p by (simp add: f s c)
  with c show ?thesis by blast
qed

theorem bench_measures_witness:
  "\<exists>e st. bench_main (\<lambda>_. True) all_succeed 8 (0 :: nat) default_args [(ARGP_KEY_ARG, str ''lpm-trie-lookup'')]
      = Inr (Some (Started (hd benchs) e [] [] st))
    \<and> collect_all e (replicate 9 1) st = Inl Out_of_bounds"
proof -
  obtain e st where m: "bench_main (\<lambda>_. True) all_succeed 8 (0 :: nat) default_args [(ARGP_KEY_ARG, str ''lpm-trie-lookup'')]
      = Inr (Some (Started (hd benchs) e [] [] st))" "producer_cnt e = 1" "duration_sec e = 5" "warmup_sec e = 1"
    by (rule exE [OF bench_ex_started]) (elim exE conjE, rule that)
  have "collect_all e (replicate 9 1) st = Inl Out_of_bounds"
    using bench_measures [OF m(1), of "replicate 9 1"] by (simp add: m(2-4))
  with m(1) show ?thesis by (intro exI [of _ e] exI [of _ st] conjI)
qed

end
