(* ===== verification/Runner_Env.thy ===== *)
theory Runner_Env
  imports Num_List
begin

text \<open>
  The surroundings of the test runner of \<open>motivation/bpf_test_run\<close>: its command line
  (\<open>runner_args.h\<close>), the statistics of a program from the text of \<open>/proc\<close> (\<open>bpf_stats.h\<close>), the search for a
  shared map (\<open>shared_map.h\<close>) and the server that measures the messages it receives (\<open>server.c\<close>).
  What \<open>getopt_long\<close> finds, the interfaces, the files, the maps of the kernel and the received messages
  with the readings of the clock are arguments. Exits carry their status.
\<close>

lemma checked_bind_Some:
  "checked_bind m (case_option (Inr None) f) = Inr (Some y) \<longleftrightarrow> (\<exists>x. m = Inr (Some x) \<and> f x = Inr (Some y))"
  by (auto simp: checked_bind_Inr split: option.splits)

text \<open>\<open>atoi\<close> of the C library: the number of \<open>strtol\<close>, as an \<open>int\<close>.\<close>

definition c_atoi :: "u8 list \<Rightarrow> int" where
  "c_atoi s = to_int (fst (snd (strtol s)))"

lemma c_atoi_dec: "t = [] \<or> \<not> IS_DIGIT (hd t) \<Longrightarrow> n < 2 ^ 31 \<Longrightarrow> c_atoi (dec n @ t) = int n"
  by (simp add: c_atoi_def strtol_dec to_int_nat)

subsection \<open>The command line\<close>

datatype runner_opt = Short char | Long nat

record parameters =
  binary_path :: "u8 list option"
  input_path :: "u8 list"
  repeat :: u64
  progname :: "u8 list"
  cross_test :: bool
  xdp :: bool
  ifname :: "u8 list option"
  ifindex :: int
  sender_ip :: "u8 list"
  receiver_ip :: "u8 list"
  payload_size :: u64
  cpu_core :: int

definition default_parameters :: parameters where
  "default_parameters = \<lparr>binary_path = None, input_path = str ''./inputs/payload.txt'', repeat = 10000,
     progname = str ''prog'', cross_test = False, xdp = False, ifname = None, ifindex = 0,
     sender_ip = str ''192.168.1.2'', receiver_ip = str ''192.168.1.1'', payload_size = 16, cpu_core = 0\<rparr>"

definition parse_opt ::
  "(u8 list \<Rightarrow> int) \<Rightarrow> runner_opt \<Rightarrow> u8 list \<Rightarrow> parameters \<Rightarrow> (int + parameters) checked" where
  "parse_opt if_nametoindex opt optarg args =
     (if opt = Short (CHR ''b'') then Inr (Inr (args\<lparr>binary_path := Some optarg\<rparr>))
      else if opt = Long 128 then Inr (Inr (args\<lparr>input_path := optarg\<rparr>))
      else if opt = Short (CHR ''r'') then Inr (Inr (args\<lparr>repeat := word_of_int (c_atoi optarg)\<rparr>))
      else if opt = Short (CHR ''p'') then Inr (Inr (args\<lparr>progname := optarg\<rparr>))
      else if opt = Short (CHR ''x'') then Inr (Inr (args\<lparr>cross_test := True\<rparr>))
      else if opt = Short (CHR ''i'') then
        let args = args\<lparr>ifname := Some optarg, ifindex := if_nametoindex optarg\<rparr>
        in if 0 < ifindex args then Inr (Inr args) else Inl Assertion_failed
      else if opt = Short (CHR ''C'') then Inr (Inr (args\<lparr>cpu_core := c_atoi optarg\<rparr>))
      else if opt = Long 129 then Inr (Inr (args\<lparr>xdp := True\<rparr>))
      else if opt = Long 130 then Inr (Inr (args\<lparr>sender_ip := optarg\<rparr>))
      else if opt = Long 131 then Inr (Inr (args\<lparr>receiver_ip := optarg\<rparr>))
      else if opt = Long 132 then Inr (Inr (args\<lparr>payload_size := word_of_int (c_atoi optarg)\<rparr>))
      else if opt = Short (CHR ''h'') then Inr (Inl 0)
      else Inr (Inl 1))"

fun parse_opts ::
  "(u8 list \<Rightarrow> int) \<Rightarrow> (runner_opt \<times> u8 list) list \<Rightarrow> parameters \<Rightarrow> (int + parameters) checked" where
  "parse_opts if_nametoindex [] args = Inr (Inr args)"
| "parse_opts if_nametoindex ((opt, optarg) # opts) args =
     checked_bind (parse_opt if_nametoindex opt optarg args) (\<lambda>r.
       case r of Inl status \<Rightarrow> Inr (Inl status) | Inr args \<Rightarrow> parse_opts if_nametoindex opts args)"

definition parse_args :: "(u8 list \<Rightarrow> int) \<Rightarrow> (runner_opt \<times> u8 list) list \<Rightarrow> (int + parameters) checked" where
  "parse_args if_nametoindex opts =
     checked_bind (parse_opts if_nametoindex opts default_parameters) (\<lambda>r. Inr
       (case r of
          Inl status \<Rightarrow> Inl status
        | Inr args \<Rightarrow>
            if xdp args \<and> cross_test args then Inl 1
            else if (xdp args \<or> cross_test args) \<and> ifindex args < 1 then Inl 1
            else Inr args))"

text \<open>The options that say what the parameters say.\<close>

definition opts_of :: "parameters \<Rightarrow> (runner_opt \<times> u8 list) list" where
  "opts_of p =
     (case binary_path p of None \<Rightarrow> [] | Some b \<Rightarrow> [(Short (CHR ''b''), b)])
     @ [(Long 128, input_path p), (Short (CHR ''r''), dec (unat (repeat p))), (Short (CHR ''p''), progname p)]
     @ (if cross_test p then [(Short (CHR ''x''), [])] else [])
     @ (case ifname p of None \<Rightarrow> [] | Some i \<Rightarrow> [(Short (CHR ''i''), i)])
     @ [(Short (CHR ''C''), dec (nat (cpu_core p)))]
     @ (if xdp p then [(Long 129, [])] else [])
     @ [(Long 130, sender_ip p), (Long 131, receiver_ip p), (Long 132, dec (unat (payload_size p)))]"

definition usable :: "(u8 list \<Rightarrow> int) \<Rightarrow> parameters \<Rightarrow> bool" where
  "usable if_nametoindex p \<longleftrightarrow> \<not> (xdp p \<and> cross_test p) \<and> (xdp p \<or> cross_test p \<longrightarrow> 0 < ifindex p)
     \<and> (case ifname p of None \<Rightarrow> ifindex p = 0 | Some i \<Rightarrow> ifindex p = if_nametoindex i \<and> 0 < ifindex p)"

lemma parse_opts_append:
  "parse_opts f (xs @ ys) a = checked_bind (parse_opts f xs a) (\<lambda>r.
     case r of Inl s \<Rightarrow> Inr (Inl s) | Inr a \<Rightarrow> parse_opts f ys a)"
proof (induction xs arbitrary: a)
  case (Cons x xs)
  obtain opt arg where x: "x = (opt, arg)" by (cases x)
  show ?case
  proof (cases "parse_opt f opt arg a")
    case (Inr r)
    with Cons show ?thesis by (cases r) (simp_all add: x)
  qed (simp add: x)
qed simp

lemma word_of_dec: "unat w < 2 ^ 31 \<Longrightarrow> word_of_int (c_atoi (dec (unat w))) = (w :: u64)"
  using c_atoi_dec [of "[]" "unat w"] by simp

lemma opts_of_parsed:
  assumes u: "usable f p" and r: "unat (repeat p) < 2 ^ 31" "unat (payload_size p) < 2 ^ 31"
    and c: "0 \<le> cpu_core p" "cpu_core p < 2 ^ 31"
  shows "parse_opts f (opts_of p) default_parameters = Inr (Inr p)"
proof -
  have n: "nat (cpu_core p) < 2 ^ 31" using c by simp
  have cc: "c_atoi (dec (nat (cpu_core p))) = cpu_core p" using c_atoi_dec [of "[]" "nat (cpu_core p)"] n c(1) by simp
  show ?thesis
    using u r cc
    by (cases p; cases "binary_path p"; cases "ifname p"; cases "cross_test p"; cases "xdp p")
       (auto simp: opts_of_def parse_opts_append parse_opt_def usable_def default_parameters_def word_of_dec)
qed

lemma parse_args_accepts:
  assumes q: "parse_args f opts = Inr (Inr q)"
  shows "\<not> (xdp q \<and> cross_test q) \<and> (xdp q \<or> cross_test q \<longrightarrow> 0 < ifindex q)"
proof -
  from q obtain r where r: "parse_opts f opts default_parameters = Inr r"
    by (cases "parse_opts f opts default_parameters") (simp_all add: parse_args_def)
  with q show ?thesis by (cases r) (auto simp: parse_args_def split: if_splits)
qed

text \<open>The options written for usable parameters are read back as these parameters, and whatever the
  options are, parameters are accepted only when at most one of the two modes is chosen, and a mode
  only with an interface.\<close>

theorem args_roundtrip:
  assumes "usable f p" and "unat (repeat p) < 2 ^ 31" and "unat (payload_size p) < 2 ^ 31"
    and "0 \<le> cpu_core p" and "cpu_core p < 2 ^ 31"
  shows "parse_args f (opts_of p) = Inr (Inr p)
    \<and> (\<forall>opts q. parse_args f opts = Inr (Inr q) \<longrightarrow>
         \<not> (xdp q \<and> cross_test q) \<and> (xdp q \<or> cross_test q \<longrightarrow> 0 < ifindex q))"
proof -
  have "\<not> (xdp p \<and> cross_test p)" "xdp p \<or> cross_test p \<longrightarrow> 0 < ifindex p" using assms(1) by (auto simp: usable_def)
  then have "parse_args f (opts_of p) = Inr (Inr p)"
    using opts_of_parsed [OF assms] by (auto simp: parse_args_def)
  then show ?thesis using parse_args_accepts by blast
qed

theorem args_roundtrip_witness:
  "parse_args (\<lambda>_. 3) (opts_of (default_parameters\<lparr>xdp := True, ifname := Some (str ''veth1''), ifindex := 3\<rparr>))
     = Inr (Inr (default_parameters\<lparr>xdp := True, ifname := Some (str ''veth1''), ifindex := 3\<rparr>))"
  using args_roundtrip [of "\<lambda>_. 3" "default_parameters\<lparr>xdp := True, ifname := Some (str ''veth1''), ifindex := 3\<rparr>"]
  by (simp add: usable_def default_parameters_def)

subsection \<open>The statistics of a program\<close>

record fd_info =
  prog_type :: int
  prog_jited :: int
  memlock :: int
  prog_id :: int
  run_time_ns :: int
  run_cnt :: u64
  verified_insns :: u64

text \<open>
  \<open>index\<close> on the bytes that were read: the place of a character, or nothing when the terminator is
  found before. Nothing ends the text in the buffer, so that a search beyond it reads indeterminate bytes.
\<close>

fun index_of :: "u8 \<Rightarrow> u8 list \<Rightarrow> nat option checked" where
  "index_of c [] = Inl Uninitialised"
| "index_of c (x # xs) =
     (if x = c then Inr (Some 0) else if x = 0 then Inr None
      else checked_bind (index_of c xs) (\<lambda>r. Inr (map_option Suc r)))"

abbreviation TAB :: u8 where "TAB \<equiv> 9"
definition VAL_BUF_SZ :: nat where "VAL_BUF_SZ = 256"
definition DATA_BUF_SZ :: nat where "DATA_BUF_SZ = 1024"

definition store_value :: "u8 list \<Rightarrow> u8 list \<Rightarrow> fd_info \<Rightarrow> fd_info" where
  "store_value keybuf valbuf info =
     (if keybuf = str ''prog_type'' then info\<lparr>prog_type := c_atoi valbuf\<rparr>
      else if keybuf = str ''prog_jited'' then info\<lparr>prog_jited := c_atoi valbuf\<rparr>
      else if keybuf = str ''memlock'' then info\<lparr>memlock := c_atoi valbuf\<rparr>
      else if keybuf = str ''prog_id'' then info\<lparr>prog_id := c_atoi valbuf\<rparr>
      else if keybuf = str ''run_time_ns'' then info\<lparr>run_time_ns := c_atoi valbuf\<rparr>
      else if keybuf = str ''run_cnt'' then info\<lparr>run_cnt := word_of_int (c_atoi valbuf)\<rparr>
      else if keybuf = str ''verified_insns'' then info\<lparr>verified_insns := word_of_int (c_atoi valbuf)\<rparr>
      else info)"

text \<open>One line: what is left of the text, or \<open>None\<close> for an exit.\<close>

definition parse_fdinfo_line :: "u8 list \<Rightarrow> fd_info \<Rightarrow> (u8 list \<times> fd_info) option checked" where
  "parse_fdinfo_line cur info =
     checked_bind (index_of COLON cur) (\<lambda>t.
       case t of
         None \<Rightarrow> Inr None
       | Some len \<Rightarrow>
           if VAL_BUF_SZ \<le> len then Inr None
           else
             let keybuf = take len cur;
                 cur = dropWhile (\<lambda>c. c = SP \<or> c = TAB) (drop (len + 1) cur)
             in checked_bind (index_of LF cur) (\<lambda>t.
                  case t of
                    None \<Rightarrow> Inr None
                  | Some len \<Rightarrow>
                      if VAL_BUF_SZ \<le> len then Inr None
                      else Inr (Some (drop (len + 1) cur, store_value keybuf (take len cur) info))))"

lemma index_of_bound: "index_of c xs = Inr (Some n) \<Longrightarrow> n < length xs"
proof (induction xs arbitrary: n)
  case (Cons x xs)
  then show ?case by (fastforce simp: checked_bind_Inr split: if_splits)
qed simp

lemma parse_line_shorter:
  "parse_fdinfo_line cur info = Inr (Some (cur', info')) \<Longrightarrow> length cur' < length cur"
proof -
  assume "parse_fdinfo_line cur info = Inr (Some (cur', info'))"
  then obtain n m where n: "index_of COLON cur = Inr (Some n)"
    and c: "cur' = drop (m + 1) (dropWhile (\<lambda>c. c = SP \<or> c = TAB) (drop (n + 1) cur))"
    by (auto simp: parse_fdinfo_line_def checked_bind_Some Let_def split: if_splits)
  from index_of_bound [OF n] length_dropWhile_le [of "\<lambda>c. c = SP \<or> c = TAB" "drop (n + 1) cur"]
  show "length cur' < length cur" by (simp add: c)
qed

text \<open>The loop: it ends when as many bytes are parsed as were read.\<close>

function parse_fdinfo_text :: "u8 list \<Rightarrow> fd_info \<Rightarrow> fd_info option checked" where
  "parse_fdinfo_text cur info =
     (if cur = [] then Inr (Some info)
      else case parse_fdinfo_line cur info of
             Inl f \<Rightarrow> Inl f
           | Inr None \<Rightarrow> Inr None
           | Inr (Some (cur, info)) \<Rightarrow> parse_fdinfo_text cur info)"
  by auto
termination
  by (relation "measure (\<lambda>(cur, _). length cur)") (auto dest: parse_line_shorter)

declare parse_fdinfo_text.simps [simp del]

text \<open>\<open>contents\<close> gives the content of a file that can be opened; the result is the return code with the
  statistics, \<open>None\<close> for an exit.\<close>

definition fdinfo_path :: "nat \<Rightarrow> nat \<Rightarrow> u8 list" where
  "fdinfo_path pid fd = str ''/proc/'' @ dec pid @ str ''/fdinfo/'' @ dec fd"

definition bpf_read_fdinfo ::
  "(u8 list \<Rightarrow> u8 list option) \<Rightarrow> nat \<Rightarrow> nat \<Rightarrow> fd_info \<Rightarrow> (int \<times> fd_info) option checked" where
  "bpf_read_fdinfo contents pid bpf_prog_fd info =
     (if 256 \<le> length (fdinfo_path pid bpf_prog_fd) then Inr (Some (-1, info))
      else case contents (fdinfo_path pid bpf_prog_fd) of
             None \<Rightarrow> Inr (Some (-1, info))
           | Some bytes \<Rightarrow>
               checked_bind (parse_fdinfo_text (take DATA_BUF_SZ bytes) info) (\<lambda>r.
                 Inr (map_option (\<lambda>info. (0, info)) r)))"

text \<open>The text of the kernel: lines with a name, a colon, a tabulator and a number.\<close>

definition fd_line :: "u8 list \<times> nat \<Rightarrow> u8 list" where
  "fd_line l = fst l @ [COLON, TAB] @ dec (snd l) @ [LF]"

definition fd_line_ok :: "u8 list \<times> nat \<Rightarrow> bool" where
  "fd_line_ok l \<longleftrightarrow> COLON \<notin> set (fst l) \<and> 0 \<notin> set (fst l) \<and> length (fst l) < 256 \<and> length (dec (snd l)) < 256"

lemma index_of_first: "c \<notin> set xs \<Longrightarrow> 0 \<notin> set xs \<Longrightarrow> index_of c (xs @ c # ys) = Inr (Some (length xs))"
  by (induction xs) auto

lemma digits_plain: "LF \<notin> set (dec n)" "0 \<notin> set (dec n)" "TAB \<notin> set (dec n)" "SP \<notin> set (dec n)"
  using dec_digits [of n] by (auto simp: IS_DIGIT_def)

lemma parse_fd_line:
  assumes "fd_line_ok l"
  shows "parse_fdinfo_line (fd_line l @ rest) info = Inr (Some (rest, store_value (fst l) (dec (snd l)) info))"
proof -
  obtain k n where l: "l = (k, n)" by (cases l)
  have i: "index_of COLON (fd_line l @ rest) = Inr (Some (length k))"
    using assms index_of_first [of COLON k "TAB # dec n @ LF # rest"] by (simp add: l fd_line_def fd_line_ok_def)
  obtain c cs where d: "dec n = c # cs" "IS_DIGIT c" by (rule dec_Cons)
  have "c \<noteq> SP" "c \<noteq> TAB" using d digits_plain [of n] by auto
  then have w: "dropWhile (\<lambda>c. c = SP \<or> c = TAB) (drop (length k + 1) (fd_line l @ rest)) = dec n @ LF # rest"
    by (simp add: l fd_line_def d(1))
  have j: "index_of LF (dec n @ LF # rest) = Inr (Some (length (dec n)))"
    using digits_plain [of n] by (intro index_of_first) auto
  have k: "take (length k) (fd_line l @ rest) = k" by (simp add: l fd_line_def)
  have "length k < 256" "length (dec n) < 256" using assms by (simp_all add: l fd_line_ok_def)
  then show ?thesis
    unfolding parse_fdinfo_line_def Let_def i checked_bind.simps option.case w j k by (simp add: l VAL_BUF_SZ_def)
qed

definition fdinfo_text :: "(u8 list \<times> nat) list \<Rightarrow> u8 list" where
  "fdinfo_text ls = concat (map fd_line ls)"

lemma parse_text_lines:
  assumes "\<forall>l \<in> set ls. fd_line_ok l"
  shows "parse_fdinfo_text (fdinfo_text ls @ rest) info
    = parse_fdinfo_text rest (fold (\<lambda>l. store_value (fst l) (dec (snd l))) ls info)"
  using assms
proof (induction ls arbitrary: info)
  case (Cons l ls)
  have "fdinfo_text (l # ls) @ rest = fd_line l @ (fdinfo_text ls @ rest)" by (simp add: fdinfo_text_def)
  moreover have "fd_line l \<noteq> []" by (simp add: fd_line_def)
  ultimately show ?case
    using Cons parse_fd_line [of l "fdinfo_text ls @ rest" info]
    by (subst parse_fdinfo_text.simps) simp
qed (simp add: fdinfo_text_def)







lemma index_of_none: "c \<notin> set xs \<Longrightarrow> 0 \<notin> set xs \<Longrightarrow> index_of c xs = Inl Uninitialised"
  by (induction xs) auto

text \<open>A text that is cut by the end of the buffer inside a line is read beyond the bytes that are there.\<close>

theorem fdinfo_cut:
  assumes "length (fdinfo_path pid fd) < 256" and f: "contents (fdinfo_path pid fd) = Some bytes"
    and cut: "take 1024 bytes = fdinfo_text ls @ part" and ok: "\<forall>l \<in> set ls. fd_line_ok l"
    and p: "part \<noteq> []" "LF \<notin> set part" "0 \<notin> set part" "length part \<le> 256"
  shows "bpf_read_fdinfo contents pid fd info = Inl Uninitialised"
proof -
  have "parse_fdinfo_line part i = Inl Uninitialised" for i
  proof (cases "COLON \<in> set part")
    case True
    then obtain xs ys where xy: "part = xs @ COLON # ys" "COLON \<notin> set xs" by (meson split_list_first)
    let ?r = "dropWhile (\<lambda>c. c = SP \<or> c = TAB) ys"
    have "index_of COLON part = Inr (Some (length xs))" using p(3) xy by (auto intro: index_of_first)
    moreover have "index_of LF ?r = Inl Uninitialised"
      using p(2,3) xy(1) by (intro index_of_none) (auto dest: set_dropWhileD)
    ultimately show ?thesis using p(4) by (simp add: parse_fdinfo_line_def xy(1) VAL_BUF_SZ_def)
  next
    case False
    with p(3) show ?thesis by (simp add: parse_fdinfo_line_def index_of_none)
  qed
  then have "parse_fdinfo_text part i = Inl Uninitialised" for i
    using p(1) by (subst parse_fdinfo_text.simps) simp
  then show ?thesis
    using assms(1) f cut parse_text_lines [OF ok, of part info] by (simp add: bpf_read_fdinfo_def DATA_BUF_SZ_def)
qed

definition fd_ex :: "(u8 list \<times> nat) list" where
  "fd_ex = [(str ''prog_type'', 6), (str ''run_time_ns'', 4294967299), (str ''run_cnt'', 12)]"

definition no_info :: fd_info where
  "no_info = \<lparr>prog_type = 0, prog_jited = 0, memlock = 0, prog_id = 0, run_time_ns = 0, run_cnt = 0, verified_insns = 0\<rparr>"

lemma fd_ex_ok: "\<forall>l \<in> set fd_ex. fd_line_ok l"
  by (simp add: fd_ex_def fd_line_ok_def dec.simps)


theorem fdinfo_cut_witness:
  "bpf_read_fdinfo (\<lambda>_. Some (fdinfo_text fd_ex @ str ''memlock:'')) 1 5 no_info = Inl Uninitialised"
proof -
  have "length (fdinfo_text fd_ex) \<le> 1000" by (simp add: fdinfo_text_def fd_ex_def fd_line_def dec.simps)
  then have c: "take 1024 (fdinfo_text fd_ex @ str ''memlock:'') = fdinfo_text fd_ex @ str ''memlock:''" by simp
  have p: "length (fdinfo_path 1 5) < 256" by (simp add: fdinfo_path_def dec.simps)
  show ?thesis by (rule fdinfo_cut [OF p refl c fd_ex_ok]) simp_all
qed

subsection \<open>A shared map\<close>

text \<open>
  The maps of the kernel in the order of their ids; the calls that describe a map succeed. \<open>mmap\<close> maps
  an area of the given size, or fails.
\<close>

record map_info =
  map_name :: "u8 list"
  map_fd :: int
  value_size :: u32
  max_entries :: u32
  mmapable :: bool

record find_map_res =
  res_fd :: int
  res_value_size :: u64
  mmap_area :: "nat option"

definition roundup_page :: "u64 \<Rightarrow> u64 \<Rightarrow> u64" where
  "roundup_page page_size sz = ((sz + page_size - 1) div page_size) * page_size"

fun get_shared_map ::
  "u64 \<Rightarrow> (u64 \<Rightarrow> nat option) \<Rightarrow> map_info list \<Rightarrow> u8 list \<Rightarrow> find_map_res \<Rightarrow> int \<times> find_map_res" where
  "get_shared_map page_size mmap [] nm res = (1, res)"
| "get_shared_map page_size mmap (m # ms) nm res =
     (if map_name m = nm then
        let res = res\<lparr>res_fd := map_fd m, res_value_size := ucast (value_size m)\<rparr> in
        if mmapable m then
          let map_sz = roundup_page page_size (ucast (value_size m) * ucast (max_entries m)) in
          case mmap map_sz of
            None \<Rightarrow> (1, res)
          | Some area \<Rightarrow> (0, res\<lparr>mmap_area := Some area\<rparr>)
        else (0, res\<lparr>mmap_area := None\<rparr>)
      else get_shared_map page_size mmap ms nm res)"

lemma map_bytes: "unat (ucast (a :: u32) * ucast (b :: u32) :: u64) = unat a * unat b \<and> unat a * unat b + 4096 \<le> 2 ^ 64"
proof -
  have "unat a \<le> 2 ^ 32 - 1" "unat b \<le> 2 ^ 32 - 1" using unat_bound [of a] unat_bound [of b] by simp_all
  then have "unat a * unat b \<le> (2 ^ 32 - 1) * (2 ^ 32 - 1)" by (rule mult_le_mono)
  then have le: "unat a * unat b + 4096 \<le> 2 ^ 64" by simp
  have w: "unat (ucast x :: u64) = unat x" for x :: u32 by (rule unat_ucast_widen) simp
  have "unat (ucast a :: u64) * unat (ucast b :: u64) < 2 ^ 64"
    using le by (simp add: w)
  then have "unat (ucast a * ucast b :: u64) = unat (ucast a :: u64) * unat (ucast b :: u64)"
    by (simp add: unat_mult_lem [THEN iffD1])
  with le show ?thesis by (simp add: w)
qed

lemma round_up_nat:
  "(n :: nat) \<le> (n + 4095) div 4096 * 4096 \<and> (n + 4095) div 4096 * 4096 \<le> n + 4095"
  using div_times_less_eq_dividend [of "n + 4095" 4096] dividend_less_div_times [of 4096 "n + 4095"] by linarith

lemma roundup_page_spec:
  assumes "unat sz + 4096 \<le> 2 ^ 64"
  shows "unat sz \<le> unat (roundup_page 4096 sz) \<and> unat (roundup_page 4096 sz) < unat sz + 4096
    \<and> 4096 dvd unat (roundup_page 4096 sz)"
proof -
  define n where "n = (unat sz + 4095) div 4096"
  have n: "unat sz \<le> n * 4096" "n * 4096 \<le> unat sz + 4095" using round_up_nat [of "unat sz"] by (simp_all add: n_def)
  have "unat (sz + 4095) = unat sz + 4095" using assms by (subst unat_add_no_wrap) simp_all
  then have d: "unat ((sz + 4095) div 4096) = n" by (simp add: unat_div n_def)
  have "unat ((sz + 4095) div 4096) * unat (4096 :: u64) < 2 ^ LENGTH(64)" using assms n(2) unfolding d by simp
  from unat_mult_lem [THEN iffD1, OF this] have "unat ((sz + 4095) div 4096 * 4096) = n * 4096" by (simp add: d)
  moreover have "roundup_page 4096 sz = (sz + 4095) div 4096 * 4096" by (simp add: roundup_page_def add_diff_eq [symmetric])
  ultimately show ?thesis using n by simp
qed

text \<open>The first map of the name is taken, or none when there is none. When it can be mapped, the mapped size is a multiple of the
  page size and covers all entries of the map, with less than a page more; it does not wrap around for any map.\<close>

theorem shared_map_covers:
  assumes "get_shared_map 4096 mmap ms nm res = (ret, res')"
  shows "case find (\<lambda>m. map_name m = nm) ms of
      None \<Rightarrow> ret = 1 \<and> res' = res
    | Some m \<Rightarrow> res_fd res' = map_fd m \<and> unat (res_value_size res') = unat (value_size m)
        \<and> (ret = 0 \<and> mmapable m \<longrightarrow> (\<exists>sz. mmap sz = mmap_area res' \<and> mmap_area res' \<noteq> None \<and> 4096 dvd unat sz
             \<and> unat (value_size m) * unat (max_entries m) \<le> unat sz
             \<and> unat sz < unat (value_size m) * unat (max_entries m) + 4096))
        \<and> (ret = 0 \<and> \<not> mmapable m \<longrightarrow> mmap_area res' = None) \<and> ret \<in> {0, 1}"
  using assms
proof (induction ms)
  case (Cons m ms)
  show ?case
  proof (cases "map_name m = nm")
    case False
    with Cons show ?thesis by simp
  next
    case True
    let ?sz = "roundup_page 4096 (ucast (value_size m) * ucast (max_entries m))"
    have w: "unat (ucast (value_size m) :: u64) = unat (value_size m)" by (rule unat_ucast_widen) simp
    note b = map_bytes [of "value_size m" "max_entries m"]
    have "unat (ucast (value_size m) * ucast (max_entries m) :: u64) + 4096 \<le> 2 ^ 64" using b by simp
    from roundup_page_spec [OF this] b have sz: "4096 dvd unat ?sz"
      "unat (value_size m) * unat (max_entries m) \<le> unat ?sz"
      "unat ?sz < unat (value_size m) * unat (max_entries m) + 4096" by simp_all
    show ?thesis
    proof (cases "mmapable m")
      case True
      with \<open>map_name m = nm\<close> Cons.prems sz w show ?thesis
        by (cases "mmap ?sz") (auto simp: Let_def intro!: exI [of _ ?sz])
    next
      case False
      with True Cons.prems w show ?thesis by (auto simp: Let_def)
    qed
  qed
qed simp

theorem shared_map_covers_witness:
  "\<exists>sz. fst (get_shared_map 4096 (\<lambda>sz. Some (unat sz))
      [\<lparr>map_name = str ''ring'', map_fd = 7, value_size = 12, max_entries = 1000, mmapable = True\<rparr>] (str ''ring'')
      \<lparr>res_fd = 0, res_value_size = 0, mmap_area = None\<rparr>) = 0 \<and> 12000 \<le> unat sz \<and> unat (sz :: u64) < 16096"
proof -
  let ?m = "\<lparr>map_name = str ''ring'', map_fd = 7, value_size = 12, max_entries = 1000, mmapable = True\<rparr>"
  let ?r = "\<lparr>res_fd = 0, res_value_size = 0, mmap_area = None\<rparr>"
  obtain ret r where g: "get_shared_map 4096 (\<lambda>sz. Some (unat sz)) [?m] (str ''ring'') ?r = (ret, r)" by fastforce
  have "ret = 0" using g by (simp add: Let_def)
  with shared_map_covers [OF g] g show ?thesis by (auto simp del: str_simps get_shared_map.simps)
qed

subsection \<open>The server\<close>

text \<open>
  A received message with the reading of the clock after it; an empty message stands for an error or the end. The buffer
  of a message has \<open>BUFSIZE\<close> bytes, of which those received and a zero after them are defined. The echo mode is not compiled.
\<close>

definition BUFSIZE :: nat where "BUFSIZE = 4096"
definition TP_MEASURES :: nat where "TP_MEASURES = 1000"

record server =
  received :: u64
  acc_time :: u64
  tp :: u64
  last_ts :: u64
  tp_index :: nat
  tp_measure :: "u64 list"

definition server_start :: server where
  "server_start = \<lparr>received = 0, acc_time = 0, tp = 0, last_ts = 0, tp_index = 0, tp_measure = replicate TP_MEASURES 0\<rparr>"

definition second_u64 :: "u8 list \<Rightarrow> u64" where
  "second_u64 buf = word_rcat (rev (take 8 (drop 8 buf)))"

definition serve_message :: "u8 list \<Rightarrow> u64 \<Rightarrow> server \<Rightarrow> server checked" where
  "serve_message msg user_ts st =
     (let size = length msg in
      if BUFSIZE \<le> size then Inl Out_of_bounds
      else if size + 1 < 16 then Inl Uninitialised
      else
        let tp' = tp st + 1;
            bpf_ts = second_u64 (msg @ [0]);
            travel_time = user_ts - bpf_ts;
            st = st\<lparr>tp := tp', received := received st + 1, acc_time := acc_time st + travel_time\<rparr>
        in if 1000000000 < user_ts - last_ts st
           then checked_bind (write_at (tp_measure st) (tp_index st) (tp st)) (\<lambda>ms.
                  Inr (st\<lparr>tp_measure := ms, tp_index := tp_index st + 1, last_ts := user_ts, tp := 0\<rparr>))
           else Inr st)"

fun do_udp :: "(u8 list \<times> u64) list \<Rightarrow> server \<Rightarrow> server checked" where
  "do_udp [] st = Inr st"
| "do_udp ((msg, user_ts) # ms) st =
     (if length msg < 1 then do_udp ms st else checked_bind (serve_message msg user_ts st) (do_udp ms))"

fun do_tcp :: "(u8 list \<times> u64) list \<Rightarrow> server \<Rightarrow> server checked" where
  "do_tcp [] st = Inr st"
| "do_tcp ((msg, user_ts) # ms) st =
     (if length msg < 1 then Inr st else checked_bind (serve_message msg user_ts st) (do_tcp ms))"

text \<open>The second argument of the program; \<open>None\<close> for an exit with the usage.\<close>

definition server_main :: "u8 list list \<Rightarrow> (u8 list \<times> u64) list \<Rightarrow> server checked option" where
  "server_main argv ms =
     (case argv of
        [] \<Rightarrow> None
      | a # _ \<Rightarrow>
          if a = str ''tcp'' then Some (do_tcp ms server_start)
          else if a = str ''udp'' then Some (do_udp ms server_start) else None)"

definition server_sum :: "server \<Rightarrow> u64" where
  "server_sum st = sum_list (take (tp_index st) (tp_measure st)) + tp st"

text \<open>Every stored measure after the first is more than a second after the one before.\<close>

definition server_inv :: "nat \<Rightarrow> nat \<Rightarrow> server \<Rightarrow> bool" where
  "server_inv t0 now st \<longleftrightarrow> length (tp_measure st) = TP_MEASURES \<and> server_sum st = received st
     \<and> (tp_index st = 0 \<and> last_ts st = 0
        \<or> 0 < tp_index st \<and> t0 \<le> unat (last_ts st) \<and> unat (last_ts st) \<le> now
          \<and> (tp_index st - 1) * 1000000001 \<le> unat (last_ts st) - t0)"

lemma serve_message_inv:
  assumes i: "server_inv t0 now st" and s: "15 \<le> length msg" "length msg < BUFSIZE"
    and t: "t0 \<le> now" "now \<le> unat ts" "unat ts < t0 + 1000 * 1000000001"
  shows "\<exists>st'. serve_message msg ts st = Inr st' \<and> server_inv t0 (unat ts) st' \<and> received st' = received st + 1
    \<and> acc_time st' = acc_time st + (ts - second_u64 (msg @ [0]))"
proof (cases "1000000000 < ts - last_ts st")
  case False
  with i s t show ?thesis by (auto simp: serve_message_def server_inv_def server_sum_def algebra_simps)
next
  case True
  have idx: "tp_index st < 1000 \<and> tp_index st * 1000000001 \<le> unat ts - t0"
  proof (cases "tp_index st")
    case (Suc k)
    with i have l: "t0 \<le> unat (last_ts st)" "unat (last_ts st) \<le> now" "k * 1000000001 \<le> unat (last_ts st) - t0"
      by (simp_all add: server_inv_def)
    then have "last_ts st \<le> ts" using t by (simp add: word_le_nat_alt)
    then have "unat (ts - last_ts st) = unat ts - unat (last_ts st)" by (simp add: unat_sub)
    with True have "1000000001 \<le> unat ts - unat (last_ts st)" by (simp add: word_less_nat_alt)
    with l t have m: "Suc k * 1000000001 \<le> unat ts - t0" by simp
    with t have "Suc k * 1000000001 < 1000 * 1000000001" by linarith
    with m Suc show ?thesis by simp
  qed simp
  have len: "length (tp_measure st) = 1000" using i by (simp add: server_inv_def TP_MEASURES_def)
  have tk: "take (Suc (tp_index st)) ((tp_measure st)[tp_index st := v]) = take (tp_index st) (tp_measure st) @ [v]" for v
    using idx len by (simp add: take_Suc_conv_app_nth)
  have "server_sum st = received st" using i by (simp add: server_inv_def)
  with True idx len s t tk show ?thesis
    by (auto simp: serve_message_def server_inv_def server_sum_def TP_MEASURES_def Let_def algebra_simps)
qed

text \<open>The messages that are counted, and the sum of their travel times.\<close>

definition counted :: "(u8 list \<times> u64) list \<Rightarrow> (u8 list \<times> u64) list" where
  "counted ms = filter (\<lambda>m. fst m \<noteq> []) ms"

definition travel_times :: "(u8 list \<times> u64) list \<Rightarrow> u64" where
  "travel_times ms = sum_list (map (\<lambda>(msg, ts). ts - second_u64 (msg @ [0])) (counted ms))"

lemma server_inv_later: "server_inv t0 now st \<Longrightarrow> now \<le> now' \<Longrightarrow> server_inv t0 now' st"
  by (auto simp: server_inv_def)

lemma do_udp_spec:
  assumes "server_inv t0 now st" and "t0 \<le> now"
    and "\<forall>m \<in> set ms. fst m \<noteq> [] \<longrightarrow> 15 \<le> length (fst m) \<and> length (fst m) < BUFSIZE"
    and "sorted (map (\<lambda>m. unat (snd m)) ms)"
    and "\<forall>m \<in> set ms. now \<le> unat (snd m) \<and> unat (snd m) < t0 + 1000 * 1000000001"
  shows "\<exists>st' now'. do_udp ms st = Inr st' \<and> server_inv t0 now' st'
    \<and> received st' = received st + of_nat (length (counted ms)) \<and> acc_time st' = acc_time st + travel_times ms"
  using assms
proof (induction ms arbitrary: st now)
  case Nil
  then show ?case by (auto simp: counted_def travel_times_def)
next
  case (Cons m ms)
  obtain msg ts where m: "m = (msg, ts)" by (cases m)
  have now: "t0 \<le> unat ts" using Cons.prems(2,5) m by auto
  note rest = Cons.prems(3,4,5) [unfolded m, simplified]
  have later: "\<forall>m \<in> set ms. unat ts \<le> unat (snd m) \<and> unat (snd m) < t0 + 1000 * 1000000001"
    using Cons.prems(4,5) m by auto
  have so: "sorted (map (\<lambda>m. unat (snd m)) ms)" using Cons.prems(4) by simp
  have sz: "\<forall>m \<in> set ms. fst m \<noteq> [] \<longrightarrow> 15 \<le> length (fst m) \<and> length (fst m) < BUFSIZE" using Cons.prems(3) by simp
  show ?case
  proof (cases "msg = []")
    case True
    have "server_inv t0 (unat ts) st" using server_inv_later [OF Cons.prems(1)] Cons.prems(5) m by simp
    from Cons.IH [OF this now sz so later] True m show ?thesis by (simp add: counted_def travel_times_def)
  next
    case False
    then have "15 \<le> length msg" "length msg < BUFSIZE" "now \<le> unat ts" "unat ts < t0 + 1000 * 1000000001"
      using Cons.prems(3,5) m by auto
    from serve_message_inv [OF Cons.prems(1) this(1,2) Cons.prems(2) this(3,4)] obtain st1 where
      s: "serve_message msg ts st = Inr st1" "server_inv t0 (unat ts) st1" "received st1 = received st + 1"
        "acc_time st1 = acc_time st + (ts - second_u64 (msg @ [0]))" by blast
    from Cons.IH [OF s(2) now sz so later] s False m show ?thesis
      by (auto simp: counted_def travel_times_def algebra_simps)
  qed
qed

lemma do_tcp_udp: "do_tcp ms st = do_udp (takeWhile (\<lambda>m. fst m \<noteq> []) ms) st"
proof (induction ms arbitrary: st)
  case (Cons m ms)
  obtain msg ts where m: "m = (msg, ts)" by (cases m)
  show ?case
    by (cases "msg = []"; cases "serve_message msg ts st") (simp_all add: m Cons Suc_le_eq)
qed simp

text \<open>As long as the messages have between 15 and 4095 bytes and arrive within 1000 seconds, with a clock that
  does not go back, neither the buffer nor the array of the measures is left. The number of received
  messages is then what the stored measures and the running one add up to, and the accumulated time is the sum of the
  differences between the clock and the time stamps in the messages. Over TCP that is so for the
  messages up to the first empty one.\<close>

theorem server_measures:
  assumes sz: "\<forall>m \<in> set ms. fst m \<noteq> [] \<longrightarrow> 15 \<le> length (fst m) \<and> length (fst m) < 4096"
    and so: "sorted (map (\<lambda>m. unat (snd m)) ms)"
    and t: "\<forall>m \<in> set ms. t0 \<le> unat (snd m) \<and> unat (snd m) < t0 + 1000 * 1000000001"
    and a: "(mode = str ''udp'' \<and> ks = ms) \<or> (mode = str ''tcp'' \<and> ks = takeWhile (\<lambda>m. fst m \<noteq> []) ms)"
  shows "\<exists>st. server_main [mode] ms = Some (Inr st) \<and> received st = of_nat (length (counted ks))
    \<and> sum_list (take (tp_index st) (tp_measure st)) + tp st = received st \<and> acc_time st = travel_times ks"
proof -
  have i: "server_inv t0 t0 server_start" by (simp add: server_inv_def server_start_def server_sum_def TP_MEASURES_def)
  have sub: "set ks \<subseteq> set ms" using a by (auto dest: set_takeWhileD)
  have so': "sorted (map (\<lambda>m. unat (snd m)) ks)"
  proof -
    have "map (\<lambda>m. unat (snd m)) (takeWhile (\<lambda>m. fst m \<noteq> []) ms) = take (length (takeWhile (\<lambda>m. fst m \<noteq> []) ms)) (map (\<lambda>m. unat (snd m)) ms)"
      by (simp add: take_map takeWhile_eq_take [symmetric])
    then have "sorted (map (\<lambda>m. unat (snd m)) (takeWhile (\<lambda>m. fst m \<noteq> []) ms))" using so by (simp only: sorted_wrt_take)
    with a so show ?thesis by blast
  qed
  have sz': "\<forall>m \<in> set ks. fst m \<noteq> [] \<longrightarrow> 15 \<le> length (fst m) \<and> length (fst m) < BUFSIZE"
    using sz sub by (auto simp: BUFSIZE_def)
  have t': "\<forall>m \<in> set ks. t0 \<le> unat (snd m) \<and> unat (snd m) < t0 + 1000 * 1000000001" using t sub by blast
  from do_udp_spec [OF i le_refl sz' so' t'] obtain st now' where
    r: "do_udp ks server_start = Inr st" "server_inv t0 now' st"
      "received st = of_nat (length (counted ks))" "acc_time st = travel_times ks"
    by (auto simp: server_start_def)
  have "server_main [mode] ms = Some (do_udp ks server_start)"
    using a by (auto simp: server_main_def do_tcp_udp)
  with r show ?thesis by (auto simp: server_inv_def server_sum_def)
qed

theorem server_measures_witness:
  "\<exists>st. server_main [str ''udp''] [(replicate 16 0, 2000000000), ([], 2000000001), (replicate 16 0, 2000000005)] = Some (Inr st)
     \<and> received st = 2 \<and> acc_time st = 4000000005"
proof -
  have w: "second_u64 (replicate 16 0 @ [0]) = 0"
    by (simp add: second_u64_def word_rcat_def numeral_eq_Suc)
  show ?thesis
    using server_measures [where ms = "[(replicate 16 0, 2000000000), ([], 2000000001), (replicate 16 0, 2000000005)]"
      and ?t0.0 = 2000000000 and mode = "str ''udp''"]
    by (auto simp: counted_def travel_times_def w)
qed

end
