(* ===== verification/Trie_Free.thy ===== *)
theory Trie_Free
  imports Text "HOL-Library.AList"
begin

text \<open>
  The measurement of how long the kernel takes to free a prefix trie: the two tracing programs of
  \<open>motivation/microbench_lpm/lpm_trie_bench.c\<close> on the entry to and the exit from
  \<open>bpf_map_free_deferred\<close>. The maps of the kernel that are freed, their names and the clock are in the
  events, which come from several workers and interleave. The hash map of the start times is an
  association list with its capacity.
\<close>

text \<open>The freed maps are those of \<open>lpm_trie_map.c\<close>: prefix tries with the name \<open>trie_free_map\<close>.\<close>

definition BPF_OBJ_NAME_LEN :: nat where "BPF_OBJ_NAME_LEN = 16"
definition LATENCY_MAX_ENTRIES :: nat where "LATENCY_MAX_ENTRIES = 512"

record freed_map =
  is_lpm_trie :: bool
  obj_name :: "u8 list"

record free_state =
  latency_free_start :: "(nat \<times> u64) list"
  free_hits :: u64
  free_duration :: u64

definition trie_free_entry :: "nat \<Rightarrow> freed_map \<Rightarrow> u64 \<Rightarrow> free_state \<Rightarrow> free_state" where
  "trie_free_entry map_ptr m now s =
     (if \<not> is_lpm_trie m then s
      else
        let name = take (BPF_OBJ_NAME_LEN - 1) (c_string (obj_name m)) in
        if name \<noteq> str ''trie_free_map'' then s
        else if map_of (latency_free_start s) map_ptr = None
                \<and> LATENCY_MAX_ENTRIES \<le> length (latency_free_start s) then s
        else s\<lparr>latency_free_start := AList.update map_ptr now (latency_free_start s)\<rparr>)"

definition trie_free_exit :: "nat \<Rightarrow> u64 \<Rightarrow> free_state \<Rightarrow> free_state" where
  "trie_free_exit map_ptr now s =
     (case map_of (latency_free_start s) map_ptr of
        None \<Rightarrow> s
      | Some val \<Rightarrow> s\<lparr>free_duration := free_duration s + (now - val), free_hits := free_hits s + 1,
                      latency_free_start := AList.delete map_ptr (latency_free_start s)\<rparr>)"

datatype free_event = Free_entry nat freed_map u64 | Free_exit nat u64

fun trace_free :: "free_event \<Rightarrow> free_state \<Rightarrow> free_state" where
  "trace_free (Free_entry p m now) s = trie_free_entry p m now s"
| "trace_free (Free_exit p now) s = trie_free_exit p now s"

subsection \<open>Interleaved frees\<close>

definition measured :: "freed_map \<Rightarrow> bool" where
  "measured m \<longleftrightarrow> is_lpm_trie m \<and> take 15 (c_string (obj_name m)) = str ''trie_free_map''"

text \<open>The maps that are being freed, with whether they are measured, after an event.\<close>

fun freeing :: "free_event \<Rightarrow> (nat \<times> bool) list \<Rightarrow> (nat \<times> bool) list" where
  "freeing (Free_entry p m now) ps = ps @ [(p, measured m)]"
| "freeing (Free_exit p now) ps = filter (\<lambda>x. fst x \<noteq> p) ps"

text \<open>A map is freed once at a time, and fewer than 512 measured ones are when another begins.\<close>

fun trace_ok :: "(nat \<times> bool) list \<Rightarrow> free_event list \<Rightarrow> bool" where
  "trace_ok ps [] = True"
| "trace_ok ps (e # es) =
     ((case e of
         Free_entry p m now \<Rightarrow> p \<notin> fst ` set ps \<and> length (filter snd ps) < 512
       | Free_exit p now \<Rightarrow> p \<in> fst ` set ps) \<and> trace_ok (freeing e ps) es)"

text \<open>The number of measured frees, and the times at which they begin and end.\<close>

fun starts :: "free_event list \<Rightarrow> u64 list" where
  "starts [] = []"
| "starts (Free_entry p m now # es) = (if measured m then now # starts es else starts es)"
| "starts (Free_exit p now # es) = starts es"

fun ends :: "(nat \<times> bool) list \<Rightarrow> free_event list \<Rightarrow> u64 list" where
  "ends ps [] = []"
| "ends ps (e # es) =
     (case e of
        Free_entry p m now \<Rightarrow> ends (freeing e ps) es
      | Free_exit p now \<Rightarrow> if (p, True) \<in> set ps then now # ends (freeing e ps) es else ends (freeing e ps) es)"

definition open_times :: "free_state \<Rightarrow> u64" where
  "open_times s = sum_list (map snd (latency_free_start s))"

definition free_inv :: "(nat \<times> bool) list \<Rightarrow> free_state \<Rightarrow> bool" where
  "free_inv ps s \<longleftrightarrow> map fst (latency_free_start s) = map fst (filter snd ps) \<and> distinct (map fst ps)"

lemma update_new: "k \<notin> fst ` set xs \<Longrightarrow> AList.update k v xs = xs @ [(k, v)]"
  by (induction xs) auto

lemma delete_filter: "AList.delete k = filter (\<lambda>x. fst x \<noteq> k)"
  by (auto simp: AList.delete_eq fun_eq_iff intro!: filter_cong)

lemma sum_delete:
  fixes xs :: "(nat \<times> u64) list"
  assumes "distinct (map fst xs)" and "map_of xs k = Some v"
  shows "sum_list (map snd (AList.delete k xs)) = sum_list (map snd xs) - v"
    and "length xs = Suc (length (AList.delete k xs))"
proof -
  have "sum_list (map snd (AList.delete k xs)) = sum_list (map snd xs) - v \<and> length xs = Suc (length (AList.delete k xs))"
    using assms
  proof (induction xs)
    case (Cons x xs)
    show ?case
    proof (cases "fst x = k")
      case True
      with Cons.prems have "k \<notin> fst ` set xs" "snd x = v" by auto
      then have "filter (\<lambda>x. fst x \<noteq> k) xs = xs" by (auto simp: filter_id_conv)
      then show ?thesis using True \<open>snd x = v\<close> by (simp add: delete_filter)
    next
      case False
      with Cons show ?thesis by (auto simp: delete_filter)
    qed
  qed simp
  then show "sum_list (map snd (AList.delete k xs)) = sum_list (map snd xs) - v"
    and "length xs = Suc (length (AList.delete k xs))" by simp_all
qed

lemma free_step:
  assumes i: "free_inv ps s" and ok: "trace_ok ps (e # es)"
  shows "free_inv (freeing e ps) (trace_free e s)
    \<and> free_hits (trace_free e s) + of_nat (length (latency_free_start (trace_free e s)))
        = free_hits s + of_nat (length (latency_free_start s)) + of_nat (length (starts [e]))
    \<and> free_duration (trace_free e s) - open_times (trace_free e s)
        = free_duration s - open_times s + sum_list (ends ps [e]) - sum_list (starts [e])"
proof (cases e)
  case (Free_entry p m now)
  have p: "p \<notin> fst ` set ps" "length (filter snd ps) < 512" using ok Free_entry by simp_all
  have k: "map fst (latency_free_start s) = map fst (filter snd ps)" using i by (simp add: free_inv_def)
  then have new: "p \<notin> fst ` set (latency_free_start s)"
    using p(1) by (metis (no_types, lifting) filter_is_subset image_mono list.set_map subsetD)
  have len: "length (latency_free_start s) < 512" using k p(2) by (metis length_map)
  have t: "trie_free_entry p m now s =
    (if measured m then s\<lparr>latency_free_start := latency_free_start s @ [(p, now)]\<rparr> else s)"
    using len new by (auto simp: trie_free_entry_def measured_def BPF_OBJ_NAME_LEN_def LATENCY_MAX_ENTRIES_def
        update_new Let_def)
  show ?thesis
    using i k p(1) by (auto simp: Free_entry t free_inv_def open_times_def)
next
  case (Free_exit p now)
  have p: "p \<in> fst ` set ps" using ok Free_exit by simp
  have k: "map fst (latency_free_start s) = map fst (filter snd ps)" and d: "distinct (map fst ps)"
    using i by (simp_all add: free_inv_def)
  have dl: "distinct (map fst (latency_free_start s))" unfolding k using d by (simp add: distinct_map_filter)
  have fl: "map fst (AList.delete p (latency_free_start s)) = map fst (filter snd (filter (\<lambda>x. fst x \<noteq> p) ps))"
  proof -
    have "map fst (AList.delete p (latency_free_start s)) = filter (\<lambda>k. k \<noteq> p) (map fst (latency_free_start s))"
      by (simp add: delete_filter filter_map comp_def)
    also have "\<dots> = map fst (filter snd (filter (\<lambda>x. fst x \<noteq> p) ps))"
      unfolding k by (simp add: filter_map comp_def conj_commute)
    finally show ?thesis .
  qed
  have dp: "distinct (map fst (filter (\<lambda>x. fst x \<noteq> p) ps))" using d by (simp add: distinct_map_filter)
  show ?thesis
  proof (cases "(p, True) \<in> set ps")
    case True
    then have "p \<in> fst ` set (filter snd ps)" by force
    then have "p \<in> fst ` set (latency_free_start s)" using arg_cong [OF k, of set] by simp
    then obtain v where v: "map_of (latency_free_start s) p = Some v" by (metis domIff dom_map_of_conv_image_fst option.exhaust)
    show ?thesis
      using sum_delete [OF dl v] fl dp True
      by (simp add: Free_exit trie_free_exit_def v free_inv_def open_times_def)
  next
    case False
    then have "p \<notin> fst ` set (filter snd ps)" by auto
    then have n: "p \<notin> fst ` set (latency_free_start s)" using arg_cong [OF k, of set] by simp
    then have v: "map_of (latency_free_start s) p = None" by (simp add: map_of_eq_None_iff)
    have "AList.delete p (latency_free_start s) = latency_free_start s"
      using n by (auto simp: delete_filter filter_id_conv)
    with fl dp False show ?thesis by (simp add: Free_exit trie_free_exit_def v free_inv_def open_times_def)
  qed
qed

lemma starts_Cons: "starts (e # es) = starts [e] @ starts es"
  by (cases e) simp_all

lemma ends_Cons: "ends ps (e # es) = ends ps [e] @ ends (freeing e ps) es"
  by (cases e) simp_all

lemma free_trace:
  assumes "free_inv ps s" and "trace_ok ps es"
  defines "s' \<equiv> fold trace_free es s"
  shows "free_inv (fold freeing es ps) s'
    \<and> free_hits s' + of_nat (length (latency_free_start s'))
        = free_hits s + of_nat (length (latency_free_start s)) + of_nat (length (starts es))
    \<and> free_duration s' - open_times s' = free_duration s - open_times s + sum_list (ends ps es) - sum_list (starts es)"
  using assms(1,2) unfolding s'_def
proof (induction es arbitrary: ps s)
  case (Cons e es)
  note st = free_step [OF Cons.prems]
  have ok: "trace_ok (freeing e ps) es" using Cons.prems(2) by simp
  from Cons.IH [OF conjunct1 [OF st] ok] st show ?case
    unfolding starts_Cons [of e es] ends_Cons [of ps e es] by (simp add: algebra_simps)
qed simp

definition no_frees :: free_state where
  "no_frees = \<lparr>latency_free_start = [], free_hits = 0, free_duration = 0\<rparr>"

text \<open>C28. However the frees of maps interleave, as long as no more than 512 measured ones overlap and a map is freed once
  at a time: the number of hits and the frees in progress are together the measured frees that have begun, and when none is in
  progress any more, the duration is the sum of the times of the measured frees, that is the sum of
  their ends less the sum of their starts. Other maps count for nothing.\<close>

theorem free_durations:
  assumes "trace_ok [] es"
  defines "s \<equiv> fold trace_free es no_frees"
  shows "map fst (latency_free_start s) = map fst (filter snd (fold freeing es []))
    \<and> free_hits s + of_nat (length (latency_free_start s)) = of_nat (length (starts es))
    \<and> (filter snd (fold freeing es []) = [] \<longrightarrow>
         free_hits s = of_nat (length (starts es)) \<and> free_duration s = sum_list (ends [] es) - sum_list (starts es))"
proof -
  have i: "free_inv [] no_frees" by (simp add: free_inv_def no_frees_def)
  from free_trace [OF i assms(1)] have t: "free_inv (fold freeing es []) s"
    "free_hits s + of_nat (length (latency_free_start s)) = of_nat (length (starts es))"
    "free_duration s - open_times s = sum_list (ends [] es) - sum_list (starts es)"
    by (simp_all add: s_def no_frees_def open_times_def)
  then have k: "map fst (latency_free_start s) = map fst (filter snd (fold freeing es []))" by (simp add: free_inv_def)
  have "latency_free_start s = []" if "filter snd (fold freeing es []) = []" using k that by simp
  with t(2,3) k show ?thesis by (auto simp: open_times_def)
qed

definition free_ex :: "free_event list" where
  "free_ex = (let trie = \<lparr>is_lpm_trie = True, obj_name = str ''trie_free_map''\<rparr>;
      other = \<lparr>is_lpm_trie = False, obj_name = str ''trie_free_map''\<rparr>
    in [Free_entry 1 trie 10, Free_entry 2 trie 12, Free_entry 3 other 13, Free_exit 1 20, Free_exit 3 21, Free_exit 2 40])"

theorem free_durations_witness:
  "free_hits (fold trace_free free_ex no_frees) = 2 \<and> free_duration (fold trace_free free_ex no_frees) = 38"
proof -
  have m: "measured \<lparr>is_lpm_trie = True, obj_name = str ''trie_free_map''\<rparr>"
    "\<not> measured \<lparr>is_lpm_trie = False, obj_name = n\<rparr>" for n
    by (simp_all add: measured_def c_string_def)
  have "trace_ok [] free_ex" "filter snd (fold freeing free_ex []) = []" "starts free_ex = [10, 12]" "ends [] free_ex = [20, 40]"
    using m by (simp_all add: free_ex_def Let_def del: str_simps)
  with free_durations [of free_ex] show ?thesis by simp
qed

end
