(* ===== verification/Runner_Main.thy ===== *)
theory Runner_Main
  imports Test_Runner Runner_Env
begin


text \<open>\<open>Server_store\<close> is the store of the process id of the server, which the signal handler looks at.\<close>

datatype map_type = Map_hash | Map_lru_hash | Map_percpu_hash | Map_lru_percpu_hash | Map_array | Map_other



subsection \<open>Loading\<close>








subsection \<open>The modes\<close>











subsection \<open>What is left behind\<close>















subsection \<open>Examples\<close>



end
