(* ===== verification/Launch.thy ===== *)
theory Launch
  imports Htab_Loader Dat_Loader Runner_Env
begin

text \<open>
  How the loaders start and end: opening and loading the object, filling the table, attaching the
  program to the interface, waiting for a signal, and the way back. Modelled are the main functions of
  \<open>arena_htab/loader.c\<close>, \<open>batch_api/htab_example/loader.c\<close>, \<open>arena_router/loader.c\<close>, \<open>bax_lpm/loader.c\<close> and
  \<open>microbench_bax_stage/loader.c\<close> (all under \<open>motivation\<close>). A run gives the steps in their order, the exit
  status, and the table that the program has; the filling of the tables is that of
  \<open>Htab_Loader\<close>, \<open>Router_Loader\<close> and \<open>Dat_Loader\<close>. What opening, loading and attaching return, the interfaces
  and the kernel's maps are arguments.
\<close>

datatype 'p step = Attach_to nat 'p | Wait | Detach_from nat | Destroy

type_synonym ('p, 't) launch = "('p step list \<times> int) \<times> 't option"

record host =
  opens :: bool
  loads :: bool
  attaches :: bool
  net_iface :: "u8 list option"
  if_nametoindex :: "u8 list \<Rightarrow> nat"

definition the_ifindex :: "host \<Rightarrow> nat" where
  "the_ifindex h = if_nametoindex h (case net_iface h of None \<Rightarrow> str ''veth1'' | Some n \<Rightarrow> n)"

text \<open>The block that attaches the program, and what follows it.\<close>

definition attach_and_wait :: "host \<Rightarrow> 'p \<Rightarrow> 'p step list \<times> int" where
  "attach_and_wait h prog =
     (let i = the_ifindex h in
      if \<not> attaches h then ([Detach_from i, Destroy], 1)
      else ([Attach_to i prog, Wait, Detach_from i, Destroy], 0))"

subsection \<open>The key-value programs\<close>

datatype kv_prog = CAPPUCCINO | MACCHIATO | LUNGO | TALKH

datatype 'm kv_table = Kernel_map 'm | Arena_table "htab \<times> htab_mem"

text \<open>The three programs on the table of the arena are launched in the same way.\<close>

definition launch_on_table ::
  "kv_prog \<Rightarrow> host \<Rightarrow> addr \<Rightarrow> htab_mem \<Rightarrow> (kv_prog, 'm kv_table) launch checked" where
  "launch_on_table prog h area m =
     (if \<not> opens h then Inr (([], 1), None)
      else if \<not> loads h then Inr (([Destroy], 1), None)
      else checked_bind (prepare_arena_htab_for_xdp area m) (\<lambda>rules.
             Inr (attach_and_wait h prog, Some (Arena_table rules))))"

definition launch_talkh :: "host \<Rightarrow> addr \<Rightarrow> htab_mem \<Rightarrow> (kv_prog, 'm kv_table) launch checked" where
  "launch_talkh = launch_on_table TALKH"

definition launch_lungo :: "host \<Rightarrow> addr \<Rightarrow> htab_mem \<Rightarrow> (kv_prog, 'm kv_table) launch checked" where
  "launch_lungo = launch_on_table LUNGO"

definition launch_macchiato :: "host \<Rightarrow> addr \<Rightarrow> htab_mem \<Rightarrow> (kv_prog, 'm kv_table) launch checked" where
  "launch_macchiato = launch_on_table MACCHIATO"

definition launch_cappuccino ::
  "('m \<Rightarrow> u32 \<Rightarrow> bytes \<Rightarrow> int \<times> 'm) \<Rightarrow> 'm \<Rightarrow> host \<Rightarrow> (kv_prog, 'm kv_table) launch" where
  "launch_cappuccino update rules h =
     (if \<not> opens h then (([], 1), None)
      else if \<not> loads h then (([Destroy], 1), None)
      else (attach_and_wait h CAPPUCCINO, Some (Kernel_map (cappuccino_items update number_of_items 0 rules))))"

definition kv_selected :: "u8 list list \<Rightarrow> kv_prog" where
  "kv_selected argv =
     (case argv of
        [] \<Rightarrow> CAPPUCCINO
      | a # _ \<Rightarrow>
          if strncmp_eq a (str ''--arena'') 7 then MACCHIATO
          else if strncmp_eq a (str ''--lungo'') 7 then LUNGO
          else if strncmp_eq a (str ''--talkh'') 7 then TALKH
          else CAPPUCCINO)"

definition kv_main ::
  "('m \<Rightarrow> u32 \<Rightarrow> bytes \<Rightarrow> int \<times> 'm) \<Rightarrow> 'm \<Rightarrow> host \<Rightarrow> addr \<Rightarrow> htab_mem \<Rightarrow> u8 list list
     \<Rightarrow> (kv_prog, 'm kv_table) launch checked" where
  "kv_main update rules h area m argv =
     (if the_ifindex h = 0 then Inr (([], 1), None)
      else case kv_selected argv of
             CAPPUCCINO \<Rightarrow> Inr (launch_cappuccino update rules h)
           | MACCHIATO \<Rightarrow> launch_macchiato h area m
           | LUNGO \<Rightarrow> launch_lungo h area m
           | TALKH \<Rightarrow> launch_talkh h area m)"

subsection \<open>The batch experiment\<close>

datatype batch_prog = PROG_NORMAL | PROG_BATCH | PROG_PF_BATCH

text \<open>The arguments: the program and the number of entries, or the exit status. A missing number is a null pointer.\<close>

fun parse_batch_args :: "u8 list list \<Rightarrow> batch_prog \<Rightarrow> nat \<Rightarrow> (int + batch_prog \<times> nat) checked" where
  "parse_batch_args [] prog entries = Inr (Inr (prog, entries))"
| "parse_batch_args (flag # rest) prog entries =
     (if strncmp_eq flag (str ''-h'') 2 \<or> strncmp_eq flag (str ''--help'') 6 then Inr (Inl 1)
      else if strncmp_eq flag (str ''--normal'') 7 then parse_batch_args rest PROG_NORMAL entries
      else if strncmp_eq flag (str ''--batch'') 7 then parse_batch_args rest PROG_BATCH entries
      else if strncmp_eq flag (str ''--pf-batch'') 10 then parse_batch_args rest PROG_PF_BATCH entries
      else if strncmp_eq flag (str ''--entries'') 9 then
        (case rest of
           [] \<Rightarrow> Inl Null_pointer
         | value_arg # rest \<Rightarrow>
             if c_atoi value_arg < 0 \<or> c_atoi value_arg > int HTAB_MAX_ENTRIES then Inr (Inl 1)
             else parse_batch_args rest prog (nat (c_atoi value_arg)))
      else parse_batch_args rest prog entries)"

definition batch_main :: "host \<Rightarrow> addr \<Rightarrow> htab_mem \<Rightarrow> u8 list list \<Rightarrow> (batch_prog, htab \<times> htab_mem) launch checked" where
  "batch_main h area m argv =
     checked_bind (parse_batch_args argv PROG_NORMAL 2000000) (\<lambda>r.
       case r of
         Inl status \<Rightarrow> Inr (([], status), None)
       | Inr (prog, entries) \<Rightarrow>
           if the_ifindex h = 0 then Inr (([], 1), None)
           else if \<not> opens h then Inr (([], 1), None)
           else if \<not> loads h then Inr (([Destroy], 1), None)
           else checked_bind (prepare_batch_htab entries area m) (\<lambda>map.
                  Inr (attach_and_wait h prog, Some map)))"

subsection \<open>The routers\<close>

datatype 'm router_table = Kernel_trie 'm | Arena_trie lpm_trie | Arena_dri lpm_dri

text \<open>
  A table that could not be allocated ends the program with the status \<open>-1\<close>, and the object is not destroyed. The outer
  \<open>None\<close> is a table whose allocator does not return.
\<close>

definition launch_filled ::
  "host \<Rightarrow> prog_t \<Rightarrow> ('t \<Rightarrow> 'm router_table) \<Rightarrow> 't option checked option
     \<Rightarrow> (prog_t, 'm router_table) launch checked option" where
  "launch_filled h prog tab filled =
     (if \<not> opens h then Some (Inr (([], 1), None))
      else map_option (\<lambda>r. checked_bind r (\<lambda>t.
             Inr (case t of
                    None \<Rightarrow> (([], -1), None)
                  | Some t \<Rightarrow> (attach_and_wait h prog, Some (tab t))))) filled)"

record 'm router_host =
  host_of :: host
  kernel_update :: "'m \<Rightarrow> lpm_dri_key_t \<Rightarrow> bytes \<Rightarrow> int \<times> 'm"
  kernel_map :: 'm
  arena_at :: addr
  arena_mem_of :: arena_mem
  value_bytes :: bytes
  trie_nodes :: "addr \<Rightarrow> lpm_trie_node"
  dataset_file :: "u8 list"

definition router_main :: "'m router_host \<Rightarrow> u8 list list \<Rightarrow> (prog_t, 'm router_table) launch checked option" where
  "router_main r argv =
     (let h = host_of r; prog = selected_prog argv in
      if the_ifindex h = 0 then Some (Inr (([], 1), None))
      else case prog of
             BASELINE \<Rightarrow>
               launch_filled h prog Kernel_trie
                 (Some (checked_bind (Router_Loader.launch_baseline (kernel_update r) (kernel_map r) (dataset_file r))
                   (\<lambda>t. Inr (Some t))))
           | ARENA \<Rightarrow>
               launch_filled h prog Arena_trie
                 (launch_arena (arena_at r) (arena_mem_of r) (value_bytes r) (trie_nodes r) (dataset_file r))
           | ARENA_DRI \<Rightarrow>
               launch_filled h prog Arena_dri
                 (launch_arena_dri (arena_at r) (arena_mem_of r) (value_bytes r) (dataset_file r))
           | ARENA_DRI_SW_PREFETCH \<Rightarrow>
               launch_filled h prog Arena_dri
                 (launch_arena_dri (arena_at r) (arena_mem_of r) (value_bytes r) (dataset_file r)))"

subsection \<open>The programs on the double-array trie\<close>

datatype 'm dat_table = Kernel_lpm 'm | Double_array dat

text \<open>A trie that could not be allocated ends the program at once, with the status 1.\<close>

definition launch_dat :: "u32 \<Rightarrow> 'p \<Rightarrow> host \<Rightarrow> addr \<Rightarrow> u8 list \<Rightarrow> ('p, 'm dat_table) launch checked" where
  "launch_dat max_nod prog h area file =
     (if \<not> opens h then Inr (([], 1), None)
      else checked_bind (launch_arena_dat max_nod area file) (\<lambda>d.
             Inr (case d of
                    None \<Rightarrow> (([], 1), None)
                  | Some d \<Rightarrow> (attach_and_wait h prog, Some (Double_array d)))))"

definition launch_arena_dat_bax :: "host \<Rightarrow> addr \<Rightarrow> u8 list \<Rightarrow> (dat_prog_t, 'm dat_table) launch checked" where
  "launch_arena_dat_bax = launch_dat BAX_MAX_NODES ARENA_DAT_BAX"

definition dat_main ::
  "('m \<Rightarrow> lpm_dri_key_t \<Rightarrow> bytes \<Rightarrow> int \<times> 'm) \<Rightarrow> 'm \<Rightarrow> host \<Rightarrow> addr \<Rightarrow> u8 list \<Rightarrow> u8 list list
     \<Rightarrow> (dat_prog_t, 'm dat_table) launch checked" where
  "dat_main update lpm_map h area file argv =
     (case dat_selected_prog argv LPM_TRIE of
        None \<Rightarrow> Inr (([], 0), None)
      | Some prog \<Rightarrow>
          if the_ifindex h = 0 then Inr (([], 1), None)
          else case prog of
                 LPM_TRIE \<Rightarrow>
                   if \<not> opens h then Inr (([], 1), None)
                   else checked_bind (Router_Loader.launch_baseline update lpm_map file) (\<lambda>t.
                          Inr (attach_and_wait h LPM_TRIE, Some (Kernel_lpm t)))
               | ARENA_DAT \<Rightarrow> launch_dat BAX_MAX_NODES ARENA_DAT h area file
               | ARENA_DAT_BAX \<Rightarrow> launch_arena_dat_bax h area file)"

datatype stage_prog = STAGE_BASELINE | DUMMY_STAGE | DROP | DROP_DUMMY_STAGE

fun stage_selected :: "u8 list list \<Rightarrow> stage_prog \<Rightarrow> stage_prog option" where
  "stage_selected [] prog = Some prog"
| "stage_selected (a # argv) prog =
     (if strncmp_eq a (str ''--baseline'') 10 then stage_selected argv STAGE_BASELINE
      else if strncmp_eq a (str ''--dummy-stage'') 13 then stage_selected argv DUMMY_STAGE
      else if strncmp_eq a (str ''--drop-dummy-stage'') 18 then stage_selected argv DROP_DUMMY_STAGE
      else if strncmp_eq a (str ''--drop'') 6 then stage_selected argv DROP
      else if strncmp_eq a (str ''--help'') 6 \<or> strncmp_eq a (str ''-h'') 2 then None
      else stage_selected argv prog)"

definition launch_stage_baseline :: "host \<Rightarrow> addr \<Rightarrow> u8 list \<Rightarrow> (stage_prog, 'm dat_table) launch checked" where
  "launch_stage_baseline = launch_dat STAGE_MAX_NODES STAGE_BASELINE"

definition launch_dummy_stage :: "host \<Rightarrow> addr \<Rightarrow> u8 list \<Rightarrow> (stage_prog, 'm dat_table) launch checked" where
  "launch_dummy_stage = launch_dat STAGE_MAX_NODES DUMMY_STAGE"

definition launch_drop :: "host \<Rightarrow> (stage_prog, 'm dat_table) launch" where
  "launch_drop h = (if \<not> opens h then (([], 1), None) else (attach_and_wait h DROP, None))"

definition launch_drop_dummy_stage :: "host \<Rightarrow> (stage_prog, 'm dat_table) launch" where
  "launch_drop_dummy_stage h = (if \<not> opens h then (([], 1), None) else (attach_and_wait h DROP_DUMMY_STAGE, None))"

definition stage_main :: "host \<Rightarrow> addr \<Rightarrow> u8 list \<Rightarrow> u8 list list \<Rightarrow> (stage_prog, 'm dat_table) launch checked" where
  "stage_main h area file argv =
     (case stage_selected argv STAGE_BASELINE of
        None \<Rightarrow> Inr (([], 0), None)
      | Some prog \<Rightarrow>
          if the_ifindex h = 0 then Inr (([], 1), None)
          else case prog of
                 STAGE_BASELINE \<Rightarrow> launch_stage_baseline h area file
               | DUMMY_STAGE \<Rightarrow> launch_dummy_stage h area file
               | DROP \<Rightarrow> Inr (launch_drop h)
               | DROP_DUMMY_STAGE \<Rightarrow> Inr (launch_drop_dummy_stage h))"

subsection \<open>From the command line to the replies\<close>

definition ready :: "host \<Rightarrow> bool" where
  "ready h \<longleftrightarrow> opens h \<and> loads h \<and> attaches h \<and> the_ifindex h \<noteq> 0"

definition whole_run :: "host \<Rightarrow> 'p \<Rightarrow> 'p step list \<times> int" where
  "whole_run h prog = ([Attach_to (the_ifindex h) prog, Wait, Detach_from (the_ifindex h), Destroy], 0)"

text \<open>C7. The loader of the key-value programs with the argument \<open>--arena\<close>, on fresh pages: the table is filled, then the
  program is attached, and at the end it is detached and destroyed. While it is attached, it answers a request for
  numbers with their texts; a request for a number that was not inserted or is hidden in its
  bucket is dropped.\<close>

theorem kv_main_serves:
  assumes r: "ready h" and fresh: "\<forall>a \<ge> area. words m a = 0"
    and req: "tail_contract adj" "length p < 2 ^ 15" "request_count p = Inr n"
  shows "\<exists>t. kv_main update rules h area m [str ''--arena''] = Inr (whole_run h MACCHIATO, Some (Arena_table t))
    \<and> served XDP_PASS adj VAL_SZ (request_values 4 (served_text value_text number_of_items) p n) p
        (macchiato_main adj (Some t) p s)"
proof -
  have sel: "kv_selected [str ''--arena''] = MACCHIATO" by (simp add: kv_selected_def strncmp_eq_def)
  from kv_from_loader [OF fresh req, of s] obtain t where t: "prepare_arena_htab_for_xdp area m = Inr t"
    "served XDP_PASS adj VAL_SZ (request_values 4 (served_text value_text number_of_items) p n) p
        (macchiato_main adj (Some t) p s)" by blast
  then have "kv_main update rules h area m [str ''--arena''] = Inr (whole_run h MACCHIATO, Some (Arena_table t))"
    using r unfolding kv_main_def sel
    by (simp add: ready_def launch_macchiato_def launch_on_table_def attach_and_wait_def whole_run_def Let_def)
  with t(2) show ?thesis by blast
qed

text \<open>The batch experiment with a number of entries on its command line: with up to eight million entries the program
  runs and answers a query with the text of its number, or drops it when the number is not stored or hidden; with
  more, the loader ends without loading anything.\<close>

theorem batch_main_serves:
  assumes r: "ready h" and n: "entries < 2 ^ 31"
    and tail: "tail_contract adj" and head: "is_relevant SERVER_PORT p" "p ! 14 AND 0xf = 5" and len: "46 \<le> length p"
  shows "if entries \<le> HTAB_MAX_ENTRIES
    then \<exists>t. batch_main h area m [str ''--entries'', dec entries] = Inr (whole_run h PROG_NORMAL, Some t)
      \<and> (case served_text end_text entries p 42 of
           None \<Rightarrow> key_val_main adj (Some t) ts p c = (XDP_DROP, p, None, c)
         | Some v \<Rightarrow> \<exists>q out c'. key_val_main adj (Some t) ts p c = (XDP_TX, q, out, c')
             \<and> (let (ret, p') = adj (int 74 - int (length p)) p in
                if ret \<noteq> 0 then q = p' else drop 42 q = v))
    else batch_main h area m [str ''--entries'', dec entries] = Inr (([], 1), None)"
proof -
  have a: "c_atoi (dec entries) = int entries" using c_atoi_dec [of "[]" entries] n by simp
  have f: "\<not> strncmp_eq (str ''--entries'') (str ''-h'') 2" "\<not> strncmp_eq (str ''--entries'') (str ''--help'') 6"
    "\<not> strncmp_eq (str ''--entries'') (str ''--normal'') 7" "\<not> strncmp_eq (str ''--entries'') (str ''--batch'') 7"
    "\<not> strncmp_eq (str ''--entries'') (str ''--pf-batch'') 10" "strncmp_eq (str ''--entries'') (str ''--entries'') 9"
    by (simp_all add: strncmp_eq_def)
  have pa: "parse_batch_args [str ''--entries'', dec entries] PROG_NORMAL 2000000
    = Inr (if entries \<le> HTAB_MAX_ENTRIES then Inr (PROG_NORMAL, entries) else Inl 1)"
    by (simp add: f a del: str_simps)
  show ?thesis
  proof (cases "entries \<le> HTAB_MAX_ENTRIES")
    case True
    from batch_from_loader [OF True tail head len, of area m ts c] obtain t where
      t: "prepare_batch_htab entries area m = Inr t"
      "case served_text end_text entries p 42 of
         None \<Rightarrow> key_val_main adj (Some t) ts p c = (XDP_DROP, p, None, c)
       | Some v \<Rightarrow> \<exists>q out c'. key_val_main adj (Some t) ts p c = (XDP_TX, q, out, c')
           \<and> (let (ret, p') = adj (int 74 - int (length p)) p in
              if ret \<noteq> 0 then q = p' else drop 42 q = v)" by blast
    have "batch_main h area m [str ''--entries'', dec entries] = Inr (whole_run h PROG_NORMAL, Some t)"
      using r True t(1) unfolding batch_main_def pa by (simp add: ready_def attach_and_wait_def whole_run_def Let_def)
    with t(2) True show ?thesis by auto
  next
    case False
    then show ?thesis unfolding batch_main_def pa by simp
  qed
qed

subsection \<open>Every loader\<close>

text \<open>A run that ends well attached the selected program, with its table when it has one, or was only asked for help; any other
  attached nothing.\<close>

definition proper_run :: "host \<Rightarrow> 'p option \<Rightarrow> ('p, 't) launch \<Rightarrow> bool" where
  "proper_run h prog r \<longleftrightarrow>
     (if snd (fst r) = 0 then (case prog of None \<Rightarrow> fst (fst r) = [] | Some p \<Rightarrow> fst r = whole_run h p)
      else \<forall>i p. Attach_to i p \<notin> set (fst (fst r)))"

lemma proper_cases [simp]:
  "proper_run h (Some p) (attach_and_wait h p, t)" "proper_run h q (([], 1), t)" "proper_run h q (([], -1), t)"
  "proper_run h q (([Destroy], 1), t)" "proper_run h None (([], 0), t)"
  by (simp_all add: proper_run_def attach_and_wait_def whole_run_def Let_def)

lemma kv_main_proper:
  assumes "kv_main update rules h area m argv = Inr r"
  shows "proper_run h (Some (kv_selected argv)) r"
  using assms
  by (cases "kv_selected argv")
     (auto simp: kv_main_def launch_cappuccino_def launch_macchiato_def launch_lungo_def launch_talkh_def
        launch_on_table_def checked_bind_Inr split: if_splits)

lemma parse_batch_status: "parse_batch_args argv prog entries = Inr (Inl status) \<Longrightarrow> status = 1"
proof (induction "length argv" arbitrary: argv prog entries rule: less_induct)
  case less
  show ?case
  proof (cases argv)
    case (Cons flag rest)
    have ih: "parse_batch_args rest p e = Inr (Inl status) \<Longrightarrow> status = 1" for p e
      using less.hyps [of rest] Cons by simp
    have ih2: "rest = v # r \<Longrightarrow> parse_batch_args r p e = Inr (Inl status) \<Longrightarrow> status = 1" for v r p e
      using less.hyps [of r] Cons by simp
    show ?thesis
      using less.prems unfolding Cons parse_batch_args.simps(2)
      by (auto simp del: parse_batch_args.simps str_simps dest: ih ih2 split: if_split_asm list.split_asm)
  qed (use less.prems in simp)
qed

lemma batch_main_proper:
  assumes "batch_main h area m argv = Inr r"
  shows "\<exists>p. proper_run h (Some p) r"
proof -
  obtain a where a: "parse_batch_args argv PROG_NORMAL 2000000 = Inr a"
    using assms by (auto simp: batch_main_def checked_bind_Inr)
  show ?thesis
  proof (cases a)
    case (Inl status)
    with parse_batch_status a have "status = 1" by blast
    with assms a Inl show ?thesis by (auto simp: batch_main_def)
  next
    case (Inr b)
    obtain prog entries where b: "b = (prog, entries)" by (cases b)
    have "proper_run h (Some prog) r"
      using assms a Inr b by (auto simp: batch_main_def checked_bind_Inr split: if_splits)
    then show ?thesis by blast
  qed
qed

lemma launch_filled_proper:
  assumes "launch_filled h prog tab filled = Some (Inr r)"
  shows "proper_run h (Some prog) r"
proof (cases "opens h")
  case True
  with assms obtain f t where "filled = Some (Inr t)" "r = (case t of None \<Rightarrow> (([], -1), None)
                  | Some t \<Rightarrow> (attach_and_wait h prog, Some (tab t)))"
    by (auto simp: launch_filled_def checked_bind_Inr)
  then show ?thesis by (cases t) simp_all
qed (use assms in \<open>auto simp: launch_filled_def\<close>)

lemma router_main_proper:
  assumes "router_main r argv = Some (Inr res)"
  shows "proper_run (host_of r) (Some (selected_prog argv)) res"
proof (cases "the_ifindex (host_of r) = 0")
  case False
  with assms show ?thesis
    by (cases "selected_prog argv") (simp_all add: router_main_def Let_def launch_filled_proper)
qed (use assms in \<open>auto simp: router_main_def Let_def\<close>)

lemma launch_dat_proper:
  assumes "launch_dat max_nod prog h area contents = Inr r"
  shows "proper_run h (Some prog) r"
proof (cases "opens h")
  case True
  with assms obtain d where "r = (case d of None \<Rightarrow> (([], 1), None)
                  | Some d \<Rightarrow> (attach_and_wait h prog, Some (Double_array d)))"
    by (auto simp: launch_dat_def checked_bind_Inr)
  then show ?thesis by (cases d) simp_all
qed (use assms in \<open>auto simp: launch_dat_def\<close>)

lemma dat_main_proper:
  assumes "dat_main update lpm_map h area contents argv = Inr r"
  shows "proper_run h (dat_selected_prog argv LPM_TRIE) r"
proof (cases "dat_selected_prog argv LPM_TRIE")
  case (Some prog)
  with assms show ?thesis
    by (cases prog) (auto simp: dat_main_def checked_bind_Inr launch_arena_dat_bax_def launch_dat_proper split: if_splits)
qed (use assms in \<open>auto simp: dat_main_def\<close>)

lemma stage_main_proper:
  assumes "stage_main h area contents argv = Inr r"
  shows "proper_run h (stage_selected argv STAGE_BASELINE) r"
proof (cases "stage_selected argv STAGE_BASELINE")
  case (Some prog)
  with assms show ?thesis
    by (cases prog) (auto simp: stage_main_def launch_drop_def launch_drop_dummy_stage_def
        launch_stage_baseline_def launch_dummy_stage_def launch_dat_proper split: if_splits)
qed (use assms in \<open>auto simp: stage_main_def\<close>)

subsection \<open>Examples\<close>

definition ex_host :: host where
  "ex_host = \<lparr>opens = True, loads = True, attaches = True, net_iface = None, if_nametoindex = (\<lambda>_. 7)\<rparr>"

lemma ex_host_ready: "ready ex_host" "the_ifindex ex_host = 7"
  by (simp_all add: ready_def ex_host_def the_ifindex_def)

theorem kv_main_serves_witness:
  "\<exists>t. kv_main (\<lambda>m k v. (0, m)) () ex_host 4096 ex_mem [str ''--arena'']
      = Inr (([Attach_to 7 MACCHIATO, Wait, Detach_from 7, Destroy], 0), Some (Arena_table t))"
proof -
  have r: "request_count kv_ex_request = Inr 1" "length kv_ex_request < 2 ^ 15"
    by (simp_all add: kv_ex_request_def request_count_def our_port_def udp_ex_def request_consts ld16_def ld32_def
      le16_def le32_def bswap16_def)
  have f: "\<forall>a \<ge> 4096. words ex_mem a = 0" by (simp add: ex_mem_def)
  from kv_main_serves [OF ex_host_ready(1) f cut_or_pad_contract r(2,1), of "\<lambda>m k v. (0, m)" "()" "\<lambda>_. []"]
  show ?thesis by (auto simp: whole_run_def ex_host_ready)
qed

theorem batch_main_serves_witness:
  "batch_main ex_host 4096 ex_mem [str ''--entries'', str ''8000001''] = Inr (([], 1), None)"
proof -
  have l: "46 \<le> length batch_query" by (simp add: batch_query_ok)
  have d: "dec 8000001 = str ''8000001''" by (simp add: dec.simps)
  from batch_main_serves [OF ex_host_ready(1) _ cut_or_pad_contract batch_query_ok(1,3) l, of 8000001 4096 ex_mem]
  show ?thesis unfolding d by (simp add: HTAB_MAX_ENTRIES_def)
qed

end
