(* ===== verification/Launch_More.thy ===== *)
theory Launch_More
  imports Launch Sketch_Loader Flow_Cls
begin

text \<open>
  The other loaders from start to end: \<open>arena_cvm/loader.c\<close>, \<open>bax_cvm/loader.c\<close> and \<open>arena_bloom_filter/loader.c\<close>,
  whose preparations are in \<open>Sketch_Loader\<close>, and the two programs that share \<open>load_xdp\<close> and \<open>detach_xdp\<close>,
  \<open>flow_cls_bench/flow_cls_bench.c\<close> and \<open>user_def_prefetch/main.c\<close> (all under \<open>motivation\<close>). Steps, exit status and
  host are those of \<open>Launch\<close>. The object is opened and loaded in one call, which \<open>opens\<close> stands for.
\<close>

subsection \<open>The sketches and the filter\<close>

datatype sketch_prog = CVM_MAIN | CVM_PREFETCH_MAIN | BBB_CVM_MAIN

datatype sketch_state = Plain cvm | Batched "cvm \<times> batch \<times> batch_state"

text \<open>A preparation that succeeds is followed by the attachment; one that fails ends the program with its status.\<close>

definition launch_prepared :: "host \<Rightarrow> 'p \<Rightarrow> (bool \<Rightarrow> int \<Rightarrow> int + 't) \<Rightarrow> ('p, 't) launch" where
  "launch_prepared h prog prepare =
     (case prepare (opens h) 0 of
        Inl status \<Rightarrow> (([], status), None)
      | Inr t \<Rightarrow> (attach_and_wait h prog, Some t))"

definition cvm_loader_main :: "host \<Rightarrow> u8 list list \<Rightarrow> (sketch_prog, sketch_state) launch" where
  "cvm_loader_main h argv =
     (if the_ifindex h = 0 then (([], 1), None)
      else if cvm_selected argv then
        launch_prepared h CVM_PREFETCH_MAIN (\<lambda>l a. map_sum id Batched (launch_with_prefetching l a))
      else launch_prepared h CVM_MAIN (\<lambda>l a. map_sum id Plain (Sketch_Loader.launch_baseline l a)))"



subsection \<open>The programs with \<open>load_xdp\<close>\<close>

text \<open>\<open>has_prog\<close>: the object has a program of the name.\<close>

definition load_xdp :: "host \<Rightarrow> bool \<Rightarrow> nat \<Rightarrow> 'p \<Rightarrow> 'p step list \<times> int" where
  "load_xdp h has_prog i prog =
     (if \<not> has_prog then ([], 1) else if \<not> attaches h then ([], 1) else ([Attach_to i prog], 0))"

datatype prefetch_prog = BENCH | BENCH_PF

definition prefetch_selected :: "u8 list list \<Rightarrow> prefetch_prog" where
  "prefetch_selected argv =
     (case argv of [] \<Rightarrow> BENCH | a # _ \<Rightarrow> if strncmp_eq a (str ''prefetch'') 8 then BENCH_PF else BENCH)"

text \<open>The name of the interface is a constant of the build.\<close>

definition prefetch_main :: "host \<Rightarrow> bool \<Rightarrow> u8 list \<Rightarrow> u8 list list \<Rightarrow> prefetch_prog step list \<times> int" where
  "prefetch_main h has_prog iface argv =
     (let i = if_nametoindex h iface in
      if i = 0 then ([], 1)
      else if \<not> opens h then ([], 1)
      else let (steps, ret) = load_xdp h has_prog i (prefetch_selected argv)
           in (steps @ (if ret = 0 then [Wait] else []) @ [Detach_from i, Destroy], 0))"


subsection \<open>Every way out\<close>








text \<open>The other two end with the status 0 once the interface is there and the object is open, attached or not, and
  detach the program of the interface in any case.\<close>

lemma prefetch_main_steps:
  assumes "if_nametoindex h iface = i" "i \<noteq> 0" "opens h"
  shows "prefetch_main h has_prog iface argv =
    ((if has_prog \<and> attaches h then [Attach_to i (prefetch_selected argv), Wait] else []) @ [Detach_from i, Destroy], 0)"
  using assms by (simp add: prefetch_main_def load_xdp_def)


subsection \<open>From the command line to the verdicts\<close>

text \<open>C6. The loader of the sketch attaches the program with a state from which every sequence of packets, with any random
  numbers and any clock, is processed to its end without a fault. The counted packets are dropped and the others
  passed, and the last state has a proper treap of at most 128 entries below the threshold.\<close>

theorem sketch_main_counts:
  assumes "opens h" "attaches h" "the_ifindex h \<noteq> 0" "\<not> cvm_selected argv"
  shows "\<exists>st0 acts st t T. cvm_loader_main h argv = (whole_run h CVM_MAIN, Some (Plain st0)) \<and> cvm_run st0 ps = Inr (acts, st)
    \<and> acts = map (\<lambda>(pkt, _). if cvm_key pkt = None then XDP_PASS else XDP_DROP) ps
    \<and> treap_ptr st = Some t \<and> treap_inv TREAP_MAX_SIZE t T \<and> size (content t T) \<le> 128
    \<and> (\<forall>x \<in># content t T. snd x \<le> threshold st) \<and> threshold st \<le> FP_ONE"
proof -
  from cvm_from_loader [of ps] obtain st0 where l: "Sketch_Loader.launch_baseline True 0 = Inr st0"
    and r: "\<exists>acts st t T. cvm_run st0 ps = Inr (acts, st)
    \<and> acts = map (\<lambda>(pkt, _). if cvm_key pkt = None then XDP_PASS else XDP_DROP) ps
    \<and> treap_ptr st = Some t \<and> treap_inv TREAP_MAX_SIZE t T \<and> size (content t T) \<le> 128
    \<and> (\<forall>x \<in># content t T. snd x \<le> threshold st) \<and> threshold st \<le> FP_ONE" by blast
  have "cvm_loader_main h argv = (whole_run h CVM_MAIN, Some (Plain st0))"
    using assms l by (simp add: cvm_loader_main_def launch_prepared_def attach_and_wait_def whole_run_def Let_def)
  with r show ?thesis by blast
qed


subsection \<open>Examples\<close>






theorem sketch_main_counts_witness:
  "\<exists>st0 acts st t T. cvm_loader_main ex_host [] = (whole_run ex_host CVM_MAIN, Some (Plain st0))
    \<and> cvm_run st0 [(udp_ex, 7, 1, 2), (udp_ex, 9, 3, 4)] = Inr (acts, st)
    \<and> length acts = 2 \<and> treap_ptr st = Some t \<and> treap_inv TREAP_MAX_SIZE t T \<and> size (content t T) \<le> 128"
proof -
  define ps :: "(packet \<times> u32 \<times> u64 \<times> u64) list" where "ps = [(udp_ex, 7, 1, 2), (udp_ex, 9, 3, 4)]"
  have h: "opens ex_host" "attaches ex_host" "the_ifindex ex_host \<noteq> 0" "\<not> cvm_selected []"
    by (simp_all add: ex_host_def the_ifindex_def cvm_selected_def)
  from sketch_main_counts [OF h, of ps] obtain st0 acts st t T where
    "cvm_loader_main ex_host [] = (whole_run ex_host CVM_MAIN, Some (Plain st0))"
    "cvm_run st0 ps = Inr (acts, st)" "length acts = length ps"
    "treap_ptr st = Some t" "treap_inv TREAP_MAX_SIZE t T" "size (content t T) \<le> 128" by force
  then show ?thesis by (auto simp: ps_def)
qed


end
