(* ===== verification/Bench_Report.thy ===== *)
theory Bench_Report
  imports Complex_Main Bench_Main
begin

text \<open>
  The reports of the micro-benchmarks: the functions of \<open>motivation/microbench_lpm/bench.c\<close> that print samples and
  summaries, and those of the benchmark that frees maps in \<open>bench_lpm_trie_map.c\<close>. The operations on \<open>double\<close> and
  \<open>float\<close> are an argument, so that a report is the sequence of operations of the code whatever they
  round to; integers keep their width, and what C leaves undefined for them is a fault. A report gives the
  numbers that it prints. \<open>exact_arith\<close> states when the operations are exact; the real
  numbers are an instance, and there the summaries are the mean and the deviation of a sample.
\<close>

record 'd arith =
  plus_d :: "'d \<Rightarrow> 'd \<Rightarrow> 'd"
  minus_d :: "'d \<Rightarrow> 'd \<Rightarrow> 'd"
  times_d :: "'d \<Rightarrow> 'd \<Rightarrow> 'd"
  divide_d :: "'d \<Rightarrow> 'd \<Rightarrow> 'd"
  sqrt_d :: "'d \<Rightarrow> 'd"
  of_int_d :: "int \<Rightarrow> 'd"

text \<open>The fields of type \<open>long\<close> are read with \<open>sint\<close>.\<close>

record bench_res =
  hits :: u64
  drops :: u64
  false_hits :: u64
  important_hits :: u64
  gp_ns :: u64
  gp_ct :: u64
  stime :: u32
  duration_ns :: u64

text \<open>Signed addition and subtraction of \<open>long\<close>.\<close>

definition long_of :: "int \<Rightarrow> int checked" where
  "long_of x = (if - (2 ^ 63) \<le> x \<and> x < 2 ^ 63 then Inr x else Inl Signed_overflow)"

subsection \<open>Loops of the summaries\<close>

text \<open>The loop for a mean divides every summand by the number of results, which has become a \<open>double\<close>.\<close>

definition mean_loop :: "'d arith \<Rightarrow> (bench_res \<Rightarrow> 'd) \<Rightarrow> bench_res list \<Rightarrow> 'd" where
  "mean_loop A f rs =
     foldl (\<lambda>acc r. plus_d A acc (divide_d A (f r) (plus_d A (of_int_d A 0) (of_int_d A (int (length rs))))))
       (of_int_d A 0) rs"

text \<open>The loop for a deviation, with \<open>diff\<close> the difference from the mean.\<close>

definition dev_loop :: "'d arith \<Rightarrow> (bench_res \<Rightarrow> 'd) \<Rightarrow> bench_res list \<Rightarrow> 'd" where
  "dev_loop A diff rs =
     foldl (\<lambda>acc r. plus_d A acc (divide_d A (times_d A (diff r) (diff r))
         (minus_d A (of_int_d A (int (length rs))) (of_int_d A 1))))
       (of_int_d A 0) rs"

definition stddev :: "'d arith \<Rightarrow> (bench_res \<Rightarrow> 'd) \<Rightarrow> bench_res list \<Rightarrow> 'd" where
  "stddev A diff rs = (if 1 < length rs then sqrt_d A (dev_loop A diff rs) else of_int_d A 0)"

text \<open>A count in millions.\<close>

definition millions :: "'d arith \<Rightarrow> u64 \<Rightarrow> 'd" where
  "millions A n = divide_d A (of_int_d A (sint n)) (of_int_d A 1000000)"

subsection \<open>Reports of a sample\<close>

definition delta_us :: "'d arith \<Rightarrow> int \<Rightarrow> 'd checked" where
  "delta_us A delta_ns =
     checked_bind (long_of (delta_ns - 1000000000)) (\<lambda>d. Inr (divide_d A (of_int_d A d) (of_int_d A 1000)))"

definition per_sec :: "'d arith \<Rightarrow> u64 \<Rightarrow> int \<Rightarrow> 'd" where
  "per_sec A n delta_ns = divide_d A (millions A n) (divide_d A (of_int_d A delta_ns) (of_int_d A 1000000000))"

definition total_of :: "u64 \<Rightarrow> u64 \<Rightarrow> u64 \<Rightarrow> int checked" where
  "total_of a b c = checked_bind (long_of (sint a + sint b)) (\<lambda>s. long_of (s + sint c))"

definition percentage :: "'f arith \<Rightarrow> int \<Rightarrow> int \<Rightarrow> 'f" where
  "percentage F part total_ops = times_d F (divide_d F (of_int_d F part) (of_int_d F total_ops)) (of_int_d F 100)"

definition false_hits_report_progress ::
  "'d arith \<Rightarrow> 'f arith \<Rightarrow> bench_res \<Rightarrow> int \<Rightarrow> ('d \<times> int \<times> int \<times> 'f) checked" where
  "false_hits_report_progress A F res delta_ns =
     checked_bind (total_of (false_hits res) (hits res) (drops res)) (\<lambda>total_ops.
       checked_bind (delta_us A delta_ns) (\<lambda>us.
         Inr (us, sint (false_hits res), total_ops, percentage F (sint (false_hits res)) total_ops)))"

definition hits_drops_report_progress :: "'d arith \<Rightarrow> int \<Rightarrow> bench_res \<Rightarrow> int \<Rightarrow> ('d \<times> 'd \<times> 'd \<times> 'd \<times> 'd) checked" where
  "hits_drops_report_progress A producers res delta_ns =
     (let hits_per_sec = per_sec A (hits res) delta_ns;
          hits_per_prod = divide_d A hits_per_sec (of_int_d A producers);
          drops_per_sec = per_sec A (drops res) delta_ns
      in checked_bind (delta_us A delta_ns) (\<lambda>us.
           Inr (us, hits_per_sec, hits_per_prod, drops_per_sec, plus_d A hits_per_sec drops_per_sec)))"

definition ops_report_progress :: "'d arith \<Rightarrow> int \<Rightarrow> bench_res \<Rightarrow> int \<Rightarrow> ('d \<times> 'd \<times> 'd) checked" where
  "ops_report_progress A producers res delta_ns =
     (let hits_per_sec = per_sec A (hits res) delta_ns;
          hits_per_prod = divide_d A hits_per_sec (of_int_d A producers)
      in checked_bind (delta_us A delta_ns) (\<lambda>us. Inr (us, hits_per_sec, hits_per_prod)))"

definition local_storage_report_progress :: "'d arith \<Rightarrow> bench_res \<Rightarrow> int \<Rightarrow> ('d \<times> 'd \<times> 'd) checked" where
  "local_storage_report_progress A res delta_ns =
     checked_bind (delta_us A delta_ns) (\<lambda>us.
       Inr (us, per_sec A (hits res) delta_ns, per_sec A (important_hits res) delta_ns))"

subsection \<open>Summaries\<close>

fun false_hits_totals :: "bench_res list \<Rightarrow> int \<times> int \<times> int \<Rightarrow> (int \<times> int \<times> int) checked" where
  "false_hits_totals [] t = Inr t"
| "false_hits_totals (r # rs) (total_hits, total_false_hits, total_drops) =
     checked_bind (long_of (total_hits + sint (hits r))) (\<lambda>total_hits.
       checked_bind (long_of (total_false_hits + sint (false_hits r))) (\<lambda>total_false_hits.
         checked_bind (long_of (total_drops + sint (drops r))) (\<lambda>total_drops.
           false_hits_totals rs (total_hits, total_false_hits, total_drops))))"

definition false_hits_report_final :: "'f arith \<Rightarrow> bench_res list \<Rightarrow> (int \<times> int \<times> 'f) checked" where
  "false_hits_report_final F rs =
     checked_bind (false_hits_totals rs (0, 0, 0)) (\<lambda>(total_hits, total_false_hits, total_drops).
       checked_bind (long_of (total_hits + total_false_hits)) (\<lambda>s.
         checked_bind (long_of (s + total_drops)) (\<lambda>total_ops.
           Inr (total_false_hits, total_ops, percentage F total_false_hits total_ops))))"

record 'd basic_stats =
  st_mean :: 'd
  st_stddev :: 'd

definition basic_stats_of :: "'d arith \<Rightarrow> (bench_res \<Rightarrow> 'd) \<Rightarrow> bench_res list \<Rightarrow> 'd basic_stats" where
  "basic_stats_of A f rs =
     (let mean = mean_loop A f rs;
          dev = (if 1 < length rs then dev_loop A (\<lambda>r. minus_d A (f r) mean) rs else of_int_d A 0)
      in \<lparr>st_mean = mean, st_stddev = sqrt_d A dev\<rparr>)"

definition grace_period_latency_basic_stats :: "'d arith \<Rightarrow> bench_res list \<Rightarrow> 'd basic_stats" where
  "grace_period_latency_basic_stats A =
     basic_stats_of A (\<lambda>r. divide_d A (divide_d A (of_int_d A (uint (gp_ns r))) (of_int_d A 1000))
       (of_int_d A (uint (gp_ct r))))"

definition grace_period_ticks_basic_stats :: "'d arith \<Rightarrow> bench_res list \<Rightarrow> 'd basic_stats" where
  "grace_period_ticks_basic_stats A =
     basic_stats_of A (\<lambda>r. divide_d A (of_int_d A (uint (stime r))) (of_int_d A (uint (gp_ct r))))"

text \<open>The sum of hits and drops of a result is made before it becomes a \<open>double\<close>.\<close>

fun total_ops_of :: "bench_res list \<Rightarrow> (int list) checked" where
  "total_ops_of [] = Inr []"
| "total_ops_of (r # rs) =
     checked_bind (long_of (sint (hits r) + sint (drops r))) (\<lambda>t.
       checked_bind (total_ops_of rs) (\<lambda>ts. Inr (t # ts)))"

definition hits_drops_report_final ::
  "'d arith \<Rightarrow> int \<Rightarrow> bench_res list \<Rightarrow> (('d \<times> 'd \<times> 'd) \<times> ('d \<times> 'd) \<times> ('d \<times> 'd)) checked" where
  "hits_drops_report_final A producers rs =
     (let hits_mean = mean_loop A (\<lambda>r. millions A (hits r)) rs;
          drops_mean = mean_loop A (\<lambda>r. millions A (drops r)) rs;
          total_ops_mean = plus_d A hits_mean drops_mean;
          hits_stddev = stddev A (\<lambda>r. minus_d A hits_mean (millions A (hits r))) rs;
          drops_stddev = stddev A (\<lambda>r. minus_d A drops_mean (millions A (drops r))) rs;
          total_ops_stddev = stddev A (\<lambda>r. minus_d A total_ops_mean
            (divide_d A (of_int_d A (sint (hits r) + sint (drops r))) (of_int_d A 1000000))) rs
      in checked_bind (if 1 < length rs then total_ops_of rs else Inr []) (\<lambda>_.
           Inr ((hits_mean, hits_stddev, divide_d A hits_mean (of_int_d A producers)), (drops_mean, drops_stddev),
                (total_ops_mean, total_ops_stddev))))"

definition ops_report_final :: "'d arith \<Rightarrow> int \<Rightarrow> bench_res list \<Rightarrow> 'd \<times> 'd \<times> 'd \<times> 'd" where
  "ops_report_final A producers rs =
     (let hits_mean = mean_loop A (\<lambda>r. millions A (hits r)) rs;
          hits_stddev = stddev A (\<lambda>r. minus_d A hits_mean (millions A (hits r))) rs
      in (hits_mean, hits_stddev, divide_d A hits_mean (of_int_d A producers),
          times_d A (divide_d A (of_int_d A 1000) hits_mean) (of_int_d A producers)))"

definition local_storage_report_final :: "'d arith \<Rightarrow> bench_res list \<Rightarrow> 'd \<times> 'd \<times> 'd \<times> 'd \<times> 'd" where
  "local_storage_report_final A rs =
     (let hits_mean = mean_loop A (\<lambda>r. millions A (hits r)) rs;
          important_hits_mean = mean_loop A (\<lambda>r. millions A (important_hits r)) rs;
          hits_stddev = stddev A (\<lambda>r. minus_d A hits_mean (millions A (hits r))) rs;
          important_hits_stddev = stddev A (\<lambda>r. minus_d A important_hits_mean (millions A (important_hits r))) rs
      in (hits_mean, hits_stddev, divide_d A (of_int_d A 1000) hits_mean, important_hits_mean, important_hits_stddev))"

subsection \<open>The benchmark that frees maps\<close>

text \<open>The seconds that a result has measured, as a \<open>double\<close>.\<close>

definition measured_sec :: "'d arith \<Rightarrow> bench_res \<Rightarrow> 'd" where
  "measured_sec A r = divide_d A (of_int_d A (uint (duration_ns r))) (of_int_d A 1000000000)"

definition free_ops_report_progress :: "'d arith \<Rightarrow> int \<Rightarrow> bench_res \<Rightarrow> int \<Rightarrow> ('d \<times> 'd \<times> 'd) checked" where
  "free_ops_report_progress A producers res delta_ns =
     (let hits_per_sec = divide_d A (divide_d A (of_int_d A (sint (hits res))) (measured_sec A res)) (of_int_d A 1000);
          hits_per_prod = divide_d A hits_per_sec (of_int_d A producers)
      in checked_bind (delta_us A delta_ns) (\<lambda>us. Inr (us, hits_per_sec, hits_per_prod)))"

text \<open>The latency of a result is a division of integers, where \<open>hits\<close> becomes unsigned.\<close>

fun latency_loop :: "'d arith \<Rightarrow> nat \<Rightarrow> bench_res list \<Rightarrow> 'd \<Rightarrow> 'd checked" where
  "latency_loop A cnt [] latency = Inr latency"
| "latency_loop A cnt (r # rs) latency =
     (if hits r = 0 then Inl Division_by_zero
      else latency_loop A cnt rs (plus_d A latency
        (divide_d A (of_int_d A (uint (duration_ns r div hits r)))
          (plus_d A (of_int_d A 0) (of_int_d A (int cnt))))))"

definition free_ops_report_final :: "'d arith \<Rightarrow> int \<Rightarrow> bench_res list \<Rightarrow> ('d \<times> 'd \<times> 'd \<times> 'd) checked" where
  "free_ops_report_final A producers rs =
     (let val = (\<lambda>r. divide_d A (divide_d A (of_int_d A (sint (hits r))) (of_int_d A 1000)) (measured_sec A r));
          hits_mean = mean_loop A val rs;
          hits_stddev = stddev A (\<lambda>r. minus_d A hits_mean (val r)) rs
      in checked_bind (latency_loop A (length rs) rs (of_int_d A 0)) (\<lambda>latency.
           Inr (hits_mean, hits_stddev, divide_d A hits_mean (of_int_d A producers),
                divide_d A (divide_d A latency (of_int_d A 1000000)) (of_int_d A producers))))"

subsection \<open>Mean and deviation\<close>

definition average :: "real list \<Rightarrow> real" where
  "average xs = sum_list xs / length xs"

definition sample_dev :: "real list \<Rightarrow> real" where
  "sample_dev xs =
     (if length xs \<le> 1 then 0 else sqrt (sum_list (map (\<lambda>x. (x - average xs)\<^sup>2) xs) / (length xs - 1)))"

subsection \<open>Exact operations\<close>

text \<open>\<open>val\<close> is the number that a \<open>double\<close> stands for. Nothing is said about a division by zero.\<close>

locale exact_arith =
  fixes A :: "'d arith" and val :: "'d \<Rightarrow> real"
  assumes val_plus: "val (plus_d A x y) = val x + val y"
    and val_minus: "val (minus_d A x y) = val x - val y"
    and val_times: "val (times_d A x y) = val x * val y"
    and val_divide: "val y \<noteq> 0 \<Longrightarrow> val (divide_d A x y) = val x / val y"
    and val_sqrt: "0 \<le> val x \<Longrightarrow> val (sqrt_d A x) = sqrt (val x)"
    and val_of_int: "val (of_int_d A i) = of_int i"
begin

lemmas val_simps = val_plus val_minus val_times val_divide val_of_int

lemma val_foldl:
  assumes "\<And>acc r. r \<in> set rs \<Longrightarrow> val (g acc r) = val acc + h r"
  shows "val (foldl g a rs) = val a + sum_list (map h rs)"
  using assms by (induction rs arbitrary: a) auto

lemma mean_loop_val:
  assumes "rs \<noteq> []"
  shows "val (mean_loop A f rs) = average (map (\<lambda>r. val (f r)) rs)"
proof -
  have n: "real (length rs) \<noteq> 0" using assms by simp
  have "val (mean_loop A f rs) = val (of_int_d A 0) + sum_list (map (\<lambda>r. val (f r) / length rs) rs)"
    unfolding mean_loop_def by (rule val_foldl) (use n in \<open>simp add: val_simps\<close>)
  then show ?thesis by (simp add: average_def val_of_int divide_inverse sum_list_mult_const)
qed

lemma dev_loop_val:
  assumes "1 < length rs"
  shows "val (dev_loop A diff rs) = sum_list (map (\<lambda>r. (val (diff r))\<^sup>2) rs) / (length rs - 1)"
proof -
  have c: "val (minus_d A (of_int_d A (int (length rs))) (of_int_d A 1)) = real (length rs - 1)"
    using assms by (simp add: val_minus val_of_int)
  have n: "real (length rs - 1) \<noteq> 0" using assms by simp
  have "val (dev_loop A diff rs)
      = val (of_int_d A 0) + sum_list (map (\<lambda>r. (val (diff r))\<^sup>2 / real (length rs - 1)) rs)"
    unfolding dev_loop_def by (rule val_foldl) (simp only: val_plus val_divide val_times c n power2_eq_square not_False_eq_True)
  also have "\<dots> = sum_list (map (\<lambda>r. (val (diff r))\<^sup>2) rs) / real (length rs - 1)"
    by (simp only: val_of_int divide_inverse sum_list_mult_const of_int_0 add_0)
  finally show ?thesis .
qed

lemma stddev_val:
  assumes "rs \<noteq> []" and d: "\<And>r. r \<in> set rs \<Longrightarrow> (val (diff r))\<^sup>2 = (g r - average (map g rs))\<^sup>2"
  shows "val (stddev A diff rs) = sample_dev (map g rs)"
proof (cases "1 < length rs")
  case True
  have "map (\<lambda>r. (val (diff r))\<^sup>2) rs = map (\<lambda>x. (x - average (map g rs))\<^sup>2) (map g rs)"
    using d by simp
  with dev_loop_val [OF True, of diff]
  have v: "val (dev_loop A diff rs) = sum_list (map (\<lambda>x. (x - average (map g rs))\<^sup>2) (map g rs)) / (length rs - 1)"
    by simp
  moreover have "0 \<le> sum_list (map (\<lambda>x. (x - average (map g rs))\<^sup>2) (map g rs))"
    by (rule sum_list_nonneg) auto
  ultimately have "0 \<le> val (dev_loop A diff rs)" by simp
  from val_sqrt [OF this] v True show ?thesis by (simp add: stddev_def sample_dev_def)
qed (simp add: stddev_def sample_dev_def val_of_int)

text \<open>A mean and the deviation from it, as the summaries compute them.\<close>

lemma stddev_of_mean:
  assumes "rs \<noteq> []"
  shows "val (stddev A (\<lambda>r. minus_d A (mean_loop A f rs) (f r)) rs) = sample_dev (map (\<lambda>r. val (f r)) rs)"
  by (rule stddev_val [OF assms]) (simp add: val_simps mean_loop_val [OF assms] power2_commute)

lemma basic_stats_val:
  assumes "rs \<noteq> []"
  shows "val (st_mean (basic_stats_of A f rs)) = average (map (\<lambda>r. val (f r)) rs)"
    and "val (st_stddev (basic_stats_of A f rs)) = sample_dev (map (\<lambda>r. val (f r)) rs)"
proof -
  show "val (st_mean (basic_stats_of A f rs)) = average (map (\<lambda>r. val (f r)) rs)"
    by (simp add: basic_stats_of_def Let_def mean_loop_val [OF assms])
  have "val (stddev A (\<lambda>r. minus_d A (f r) (mean_loop A f rs)) rs) = sample_dev (map (\<lambda>r. val (f r)) rs)"
    by (rule stddev_val [OF assms]) (simp add: val_simps mean_loop_val [OF assms])
  then show "val (st_stddev (basic_stats_of A f rs)) = sample_dev (map (\<lambda>r. val (f r)) rs)"
    by (cases "1 < length rs") (simp_all add: basic_stats_of_def stddev_def Let_def val_of_int val_sqrt)
qed

lemma millions_val: "val (millions A n) = sint n / 10 ^ 6"
  by (simp add: millions_def val_simps)

lemma measured_val: "val (measured_sec A r) = uint (duration_ns r) / 10 ^ 9"
  by (simp add: measured_sec_def val_simps)

end

subsection \<open>The summaries on real numbers\<close>

definition real_arith :: "real arith" where
  "real_arith = \<lparr>plus_d = (+), minus_d = (-), times_d = (*), divide_d = (/), sqrt_d = sqrt, of_int_d = of_int\<rparr>"

interpretation reals: exact_arith real_arith "\<lambda>x. x"
  by unfold_locales (simp_all add: real_arith_def)

lemma real_arith_ops [simp]:
  "plus_d real_arith = (+)" "minus_d real_arith = (-)" "times_d real_arith = (*)" "divide_d real_arith = (/)"
  "of_int_d real_arith = of_int"
  by (simp_all add: real_arith_def)

definition in_millions :: "(bench_res \<Rightarrow> u64) \<Rightarrow> bench_res list \<Rightarrow> real list" where
  "in_millions field rs = map (\<lambda>r. sint (field r) / 10 ^ 6) rs"

lemma ops_summary:
  assumes "rs \<noteq> []"
  shows "ops_report_final real_arith p rs =
    (let m = average (in_millions hits rs) in (m, sample_dev (in_millions hits rs), m / p, 1000 / m * p))"
  using reals.mean_loop_val [OF assms, of "\<lambda>r. millions real_arith (hits r)"]
    reals.stddev_of_mean [OF assms, of "\<lambda>r. millions real_arith (hits r)"]
  by (simp add: ops_report_final_def reals.millions_val in_millions_def Let_def)

lemma local_storage_summary:
  assumes "rs \<noteq> []"
  shows "local_storage_report_final real_arith rs =
    (let m = average (in_millions hits rs)
     in (m, sample_dev (in_millions hits rs), 1000 / m, average (in_millions important_hits rs), sample_dev (in_millions important_hits rs)))"
  using reals.mean_loop_val [OF assms, of "\<lambda>r. millions real_arith (hits r)"]
    reals.stddev_of_mean [OF assms, of "\<lambda>r. millions real_arith (hits r)"]
    reals.mean_loop_val [OF assms, of "\<lambda>r. millions real_arith (important_hits r)"]
    reals.stddev_of_mean [OF assms, of "\<lambda>r. millions real_arith (important_hits r)"]
  by (simp add: local_storage_report_final_def reals.millions_val in_millions_def Let_def)

text \<open>Hits and drops: the mean of all operations is the sum of the means.\<close>

definition all_millions :: "bench_res list \<Rightarrow> real list" where
  "all_millions rs = map (\<lambda>r. (sint (hits r) + sint (drops r)) / 10 ^ 6) rs"

lemma average_add:
  "average (map (\<lambda>r. f r + g r) rs) = average (map f rs) + average (map g rs)"
  by (simp add: average_def sum_list_addf add_divide_distrib)

lemma all_millions_average:
  "average (all_millions rs) = average (in_millions hits rs) + average (in_millions drops rs)"
  by (simp add: all_millions_def in_millions_def add_divide_distrib average_add)

lemma total_ops_ok:
  "(\<exists>ts. total_ops_of rs = Inr ts) \<longleftrightarrow> (\<forall>r \<in> set rs. \<exists>t. long_of (sint (hits r) + sint (drops r)) = Inr t)"
  by (induction rs) (auto simp: checked_bind_Inr)

lemma total_ops_fault: "total_ops_of rs = Inl e \<Longrightarrow> e = Signed_overflow"
  by (induction rs) (auto simp: checked_bind_Inl long_of_def split: if_splits)

lemma hits_drops_summary:
  assumes "rs \<noteq> []" and "\<forall>r \<in> set rs. \<exists>t. long_of (sint (hits r) + sint (drops r)) = Inr t"
  shows "hits_drops_report_final real_arith p rs =
    Inr ((average (in_millions hits rs), sample_dev (in_millions hits rs), average (in_millions hits rs) / p),
         (average (in_millions drops rs), sample_dev (in_millions drops rs)),
         (average (all_millions rs), sample_dev (all_millions rs)))"
proof -
  obtain ts where t: "(if 1 < length rs then total_ops_of rs else Inr []) = Inr ts"
    using assms(2) total_ops_ok [of rs] by (cases "1 < length rs") auto
  have m: "mean_loop real_arith (\<lambda>r. millions real_arith (f r)) rs = average (in_millions f rs)" for f
    using reals.mean_loop_val [OF assms(1), of "\<lambda>r. millions real_arith (f r)"]
    by (simp add: reals.millions_val in_millions_def)
  have d: "stddev real_arith (\<lambda>r. average (in_millions f rs) - millions real_arith (f r)) rs = sample_dev (in_millions f rs)" for f
    using reals.stddev_of_mean [OF assms(1), of "\<lambda>r. millions real_arith (f r)"] m [of f]
    by (simp add: reals.millions_val in_millions_def)
  have aa: "average (map (\<lambda>r. (sint (hits r) + sint (drops r)) / 10 ^ 6) rs)
      = average (in_millions hits rs) + average (in_millions drops rs)"
    using all_millions_average [of rs] by (simp add: all_millions_def)
  have a: "stddev real_arith (\<lambda>r. average (in_millions hits rs) + average (in_millions drops rs)
        - (sint (hits r) + sint (drops r)) / 1000000) rs = sample_dev (all_millions rs)"
    unfolding all_millions_def
    by (rule reals.stddev_val [OF assms(1)]) (subst aa, simp add: power2_commute)
  show ?thesis
    unfolding hits_drops_report_final_def Let_def t using m d a by (simp add: all_millions_average)
qed

text \<open>The latencies are averages of quotients that are rounded down.\<close>

definition latencies :: "bench_res list \<Rightarrow> real list" where
  "latencies rs = map (\<lambda>r. real (unat (duration_ns r) div unat (hits r))) rs"

definition free_rates :: "bench_res list \<Rightarrow> real list" where
  "free_rates rs = map (\<lambda>r. sint (hits r) / 10 ^ 3 / (uint (duration_ns r) / 10 ^ 9)) rs"

lemma real_uint_div: "(unsigned (a div b) :: real) = real (unat a div unat b)" for a b :: u64
proof -
  have "(unsigned (a div b) :: real) = of_nat (unat (a div b))" by simp
  then show ?thesis by (simp only: unat_div)
qed

lemma latency_loop_val:
  assumes "\<forall>r \<in> set rs. hits r \<noteq> 0"
  shows "latency_loop real_arith n rs l = Inr (l + sum_list (map (\<lambda>x. x / n) (latencies rs)))"
  using assms
  by (induction rs arbitrary: l) (simp_all add: latencies_def real_uint_div)

lemma latency_loop_fault:
  assumes "\<exists>r \<in> set rs. hits r = 0"
  shows "latency_loop A n rs l = Inl Division_by_zero"
  using assms by (induction rs arbitrary: l) auto

lemma free_summary:
  assumes "rs \<noteq> []"
  shows "free_ops_report_final real_arith p rs =
    (if \<exists>r \<in> set rs. hits r = 0 then Inl Division_by_zero
     else Inr (average (free_rates rs), sample_dev (free_rates rs), average (free_rates rs) / p,
               average (latencies rs) / 10 ^ 6 / p))"
proof -
  let ?v = "\<lambda>r. sint (hits r) / 1000 / (uint (duration_ns r) / 10 ^ 9) :: real"
  have v: "map ?v rs = free_rates rs" by (simp add: free_rates_def)
  have m: "mean_loop real_arith ?v rs = average (free_rates rs)"
    using reals.mean_loop_val [OF assms, of ?v] unfolding v .
  have d: "stddev real_arith (\<lambda>r. average (free_rates rs) - ?v r) rs = sample_dev (free_rates rs)"
    using reals.stddev_of_mean [OF assms, of ?v] unfolding v m by simp
  show ?thesis
  proof (cases "\<exists>r \<in> set rs. hits r = 0")
    case True
    then show ?thesis by (simp add: free_ops_report_final_def latency_loop_fault Let_def)
  next
    case False
    then have l: "latency_loop real_arith (length rs) rs 0 = Inr (average (latencies rs))"
      by (simp add: latency_loop_val average_def latencies_def divide_inverse sum_list_mult_const o_def)
    with False m d show ?thesis
      by (simp add: free_ops_report_final_def reals.measured_val Let_def)
  qed
qed

subsection \<open>A run from its start to the summary\<close>

text \<open>C19. When the main thread is woken, the summary is the mean and the deviation of the samples after the warm-up, of which there
  is one more than the seconds of the duration. The benchmark that frees maps divides by the hits of every
  sample, so it stops with a fault when one of them has none; otherwise its latency is the mean of quotients that are
  rounded down.\<close>

theorem run_summary:
  assumes "bench_main can_alloc calls procs zero args opts = Inr (Some (Started b e cpins ppins st))"
    and "int (length rs) = duration_sec e + warmup_sec e + 1"
  defines "xs \<equiv> drop (nat (warmup_sec e)) rs" and "p \<equiv> producer_cnt e"
  shows "\<exists>st'. collect_all e rs st = Inr st' \<and> bench_done st' \<and> int (length xs) = duration_sec e + 1
    \<and> ops_report_final real_arith p (final_results e st') =
        (let m = average (in_millions hits xs) in (m, sample_dev (in_millions hits xs), m / p, 1000 / m * p))
    \<and> free_ops_report_final real_arith p (final_results e st') =
        (if \<exists>r \<in> set xs. hits r = 0 then Inl Division_by_zero
         else Inr (average (free_rates xs), sample_dev (free_rates xs), average (free_rates xs) / p,
                   average (latencies xs) / 10 ^ 6 / p))"
proof -
  have e: "0 < duration_sec e" "0 < warmup_sec e" using measured_run [OF assms(1), of rs] by simp_all
  with assms(2) have len: "length rs \<le> nat (duration_sec e + warmup_sec e + 2)"
    "nat (duration_sec e + warmup_sec e + 2) - 1 \<le> length rs" by simp_all
  with measured_run [OF assms(1), of rs] obtain st' where
    st': "collect_all e rs st = Inr st'" "bench_done st'" "final_results e st' = xs" by (auto simp: xs_def)
  have n: "int (length xs) = duration_sec e + 1" using assms(2) e by (simp add: xs_def)
  then have ne: "xs \<noteq> []" using e by auto
  show ?thesis by (intro exI [of _ st'] conjI) (simp_all only: st' n ops_summary [OF ne] free_summary [OF ne])
qed

subsection \<open>Examples\<close>

definition ex_res :: bench_res where
  "ex_res = \<lparr>hits = 3000000, drops = 0, false_hits = 0, important_hits = 0, gp_ns = 0, gp_ct = 0, stime = 0, duration_ns = 0\<rparr>"

theorem run_summary_witness:
  "\<exists>e st st'. bench_main (\<lambda>_. True) all_succeed 8 ex_res default_args [(ARGP_KEY_ARG, str ''lpm-trie-lookup'')]
      = Inr (Some (Started (hd benchs) e [] [] st))
    \<and> collect_all e (replicate 6 ex_res @ [ex_res\<lparr>hits := 0\<rparr>]) st = Inr st'
    \<and> fst (ops_report_final real_arith 1 (final_results e st')) = 5 / 2
    \<and> free_ops_report_final real_arith 1 (final_results e st') = Inl Division_by_zero"
proof -
  obtain e st where m: "bench_main (\<lambda>_. True) all_succeed 8 ex_res default_args [(ARGP_KEY_ARG, str ''lpm-trie-lookup'')]
      = Inr (Some (Started (hd benchs) e [] [] st))" "producer_cnt e = 1" "duration_sec e = 5" "warmup_sec e = 1"
    by (rule exE [OF bench_ex_started]) (elim exE conjE, rule that)
  let ?rs = "replicate 6 ex_res @ [ex_res\<lparr>hits := 0\<rparr>]"
  have l: "int (length ?rs) = duration_sec e + warmup_sec e + 1" by (simp add: m)
  have d: "drop (nat (warmup_sec e)) ?rs = replicate 5 ex_res @ [ex_res\<lparr>hits := 0\<rparr>]" by (simp add: m numeral_eq_Suc)
  have a: "average (in_millions hits (replicate 5 ex_res @ [ex_res\<lparr>hits := 0\<rparr>])) = 5 / 2"
    by (simp add: average_def in_millions_def ex_res_def numeral_eq_Suc)
  from run_summary [OF m(1) l, unfolded d m(2)] obtain st' where
    "collect_all e ?rs st = Inr st'"
    "ops_report_final real_arith 1 (final_results e st')
      = (let m = average (in_millions hits (replicate 5 ex_res @ [ex_res\<lparr>hits := 0\<rparr>]))
         in (m, sample_dev (in_millions hits (replicate 5 ex_res @ [ex_res\<lparr>hits := 0\<rparr>])), m / of_int 1, 1000 / m * of_int 1))"
    "free_ops_report_final real_arith 1 (final_results e st') = Inl Division_by_zero" by auto
  then show ?thesis using m(1) a by (intro exI [of _ e] exI [of _ st] exI [of _ st'] conjI) (simp_all only: Let_def fst_conv)
qed

end
