(* ===== verification/Mem_Builtins.thy ===== *)
theory Mem_Builtins
  imports Bytes
begin

text \<open>
  The memory routines of \<open>include/builtins.h\<close>, which \<open>motivation/arena_htab\<close>, \<open>arena_router\<close> and
  \<open>arena_bloom_filter\<close> carry in the same form: clearing, copying, comparing and moving a block whose length is a
  constant, with one store per word of up to eight bytes. The memory is a function from addresses to bytes. A
  length that the routine does not know stops the build, which is the result \<open>None\<close>. The lengths are the cases
  of the switch statements: 1, and every even number up to the largest.
\<close>

type_synonym memory = "nat \<Rightarrow> u8"

subsection \<open>Words\<close>

text \<open>A load of \<open>w\<close> bytes, and a load followed by a store of the same width.\<close>

fun load_word :: "memory \<Rightarrow> nat \<Rightarrow> nat \<Rightarrow> u64" where
  "load_word m a 0 = 0"
| "load_word m a (Suc w) = ucast (m a) OR push_bit 8 (load_word m (a + 1) w)"

definition move :: "nat \<Rightarrow> nat \<Rightarrow> nat \<Rightarrow> memory \<Rightarrow> memory" where
  "move w d s m = (\<lambda>x. if d \<le> x \<and> x < d + w then m (s + (x - d)) else m x)"

definition clear :: "nat \<Rightarrow> nat \<Rightarrow> memory \<Rightarrow> memory" where
  "clear w d m = (\<lambda>x. if d \<le> x \<and> x < d + w then 0 else m x)"

text \<open>The operators \<open>__it_set\<close>, \<open>__it_mob\<close> and \<open>__it_xor\<close> step back before the access, \<open>__it_mof\<close> steps forward after it.\<close>

fun set_bwd :: "nat list \<Rightarrow> nat \<Rightarrow> memory \<Rightarrow> memory" where
  "set_bwd [] d m = m"
| "set_bwd (w # ws) d m = (let d = d - w in set_bwd ws d (clear w d m))"

fun mob :: "nat list \<Rightarrow> nat \<Rightarrow> nat \<Rightarrow> memory \<Rightarrow> memory" where
  "mob [] d s m = m"
| "mob (w # ws) d s m = (let d = d - w; s = s - w in mob ws d s (move w d s m))"

fun mof :: "nat list \<Rightarrow> nat \<Rightarrow> nat \<Rightarrow> memory \<Rightarrow> memory" where
  "mof [] d s m = m"
| "mof (w # ws) d s m = mof ws (d + w) (s + w) (move w d s m)"

fun xor_bwd :: "nat list \<Rightarrow> nat \<Rightarrow> nat \<Rightarrow> memory \<Rightarrow> u64 \<Rightarrow> u64" where
  "xor_bwd [] x y m r = r"
| "xor_bwd (w # ws) x y m r =
     (let x = x - w; y = y - w in xor_bwd ws x y m (r OR (load_word m x w XOR load_word m y w)))"

subsection \<open>The routines\<close>

text \<open>
  The bytes of the words that a case of the switch accesses, in their order: the rest of the length modulo eight, and
  then the words of eight bytes that the labels fall through.
\<close>

definition switch_words :: "nat \<Rightarrow> nat \<Rightarrow> nat list option" where
  "switch_words max_len len =
     (if len = 1 then Some [1]
      else if even len \<and> 2 \<le> len \<and> len \<le> max_len then
        Some ((if len mod 8 = 6 then [2, 4] else if len mod 8 = 4 then [4] else if len mod 8 = 2 then [2] else [])
              @ replicate (len div 8) 8)
      else None)"

text \<open>Three routines take the last byte first when the length is odd.\<close>

definition odd_words :: "nat \<Rightarrow> nat \<Rightarrow> nat list option" where
  "odd_words max_len len =
     (if 1 < len \<and> odd len then map_option (Cons 1) (switch_words max_len (len - 1)) else switch_words max_len len)"

definition bpf_memzero :: "nat \<Rightarrow> nat \<Rightarrow> memory \<Rightarrow> memory option" where
  "bpf_memzero d len m = map_option (\<lambda>ws. set_bwd ws (d + len) m) (odd_words 96 len)"

definition bpf_memcpy :: "nat \<Rightarrow> nat \<Rightarrow> nat \<Rightarrow> memory \<Rightarrow> memory option" where
  "bpf_memcpy d s len m = map_option (\<lambda>ws. mob ws (d + len) (s + len) m) (odd_words 96 len)"

definition bpf_memcmp :: "nat \<Rightarrow> nat \<Rightarrow> nat \<Rightarrow> memory \<Rightarrow> u64 option" where
  "bpf_memcmp x y len m = map_option (\<lambda>ws. xor_bwd ws (x + len) (y + len) m 0) (odd_words 72 len)"

definition bpf_memmove_bwd :: "nat \<Rightarrow> nat \<Rightarrow> nat \<Rightarrow> memory \<Rightarrow> memory option" where
  "bpf_memmove_bwd d s len m = bpf_memcpy d s len m"

definition bpf_memmove_fwd :: "nat \<Rightarrow> nat \<Rightarrow> nat \<Rightarrow> memory \<Rightarrow> memory option" where
  "bpf_memmove_fwd d s len m = map_option (\<lambda>ws. mof ws d s m) (switch_words 96 len)"

definition bpf_memmove :: "nat \<Rightarrow> nat \<Rightarrow> nat \<Rightarrow> memory \<Rightarrow> memory option" where
  "bpf_memmove d s len m = (if d \<le> s then bpf_memmove_fwd d s len m else bpf_memmove_bwd d s len m)"

subsection \<open>Words and blocks\<close>

lemma load_word_bit: "w \<le> 8 \<Longrightarrow> bit (load_word m a w) n \<longleftrightarrow> n < 8 * w \<and> bit (m (a + n div 8)) (n mod 8)"
proof (induction w arbitrary: a n)
  case (Suc w)
  show ?case
  proof (cases "n < 8")
    case False
    then have "(n - 8) div 8 = n div 8 - 1" "(n - 8) mod 8 = n mod 8" "1 \<le> n div 8" by (simp_all add: le_mod_geq)
    moreover have "\<not> bit (m a) n" using False by (auto dest: bit_imp_le_length)
    ultimately show ?thesis using False Suc by (auto simp: bit_simps)
  qed (use Suc in \<open>auto simp: bit_simps\<close>)
qed simp

lemma load_word_eq_iff:
  assumes "w \<le> 8"
  shows "load_word m a w = load_word m b w \<longleftrightarrow> (\<forall>j < w. m (a + j) = m (b + j))"
proof
  assume eq: "load_word m a w = load_word m b w"
  show "\<forall>j < w. m (a + j) = m (b + j)"
  proof (intro allI impI word_eq_bitsI)
    fix j n assume "j < w" "n < LENGTH(8)"
    then have "8 * j + n < 8 * w" "(8 * j + n) div 8 = j" "(8 * j + n) mod 8 = n" by auto
    then show "bit (m (a + j)) n = bit (m (b + j)) n"
      using load_word_bit [OF assms, of m a "8 * j + n"] load_word_bit [OF assms, of m b "8 * j + n"] eq by simp
  qed
next
  assume "\<forall>j < w. m (a + j) = m (b + j)"
  then have "m (a + n div 8) = m (b + n div 8)" if "n < 8 * w" for n using that by auto
  then show "load_word m a w = load_word m b w"
    by (intro word_eq_bitsI) (auto simp: load_word_bit [OF assms])
qed

lemma switch_words_spec:
  assumes "8 dvd max_len" and "2 \<le> max_len"
  shows "switch_words max_len len = Some ws \<Longrightarrow> sum_list ws = len \<and> (\<forall>w \<in> set ws. 1 \<le> w \<and> w \<le> 8)"
    and "(switch_words max_len len = None) \<longleftrightarrow> \<not> (len = 1 \<or> even len \<and> 2 \<le> len \<and> len \<le> max_len)"
proof -
  assume s: "switch_words max_len len = Some ws"
  show "sum_list ws = len \<and> (\<forall>w \<in> set ws. 1 \<le> w \<and> w \<le> 8)"
  proof (cases "len = 1")
    case False
    have m: "len mod 8 = 0 \<or> len mod 8 = 2 \<or> len mod 8 = 4 \<or> len mod 8 = 6 \<or> odd len" by presburger
    from s False have "even len" and
      ws: "ws = (if len mod 8 = 6 then [2, 4] else if len mod 8 = 4 then [4] else if len mod 8 = 2 then [2] else [])
              @ replicate (len div 8) 8" by (auto simp: switch_words_def split: if_splits)
    moreover have "len mod 8 = 0 \<Longrightarrow> len div 8 * 8 = len" "len mod 8 = 2 \<Longrightarrow> Suc (Suc (len div 8 * 8)) = len"
      "len mod 8 = 4 \<Longrightarrow> 4 + len div 8 * 8 = len" "len mod 8 = 6 \<Longrightarrow> 6 + len div 8 * 8 = len" by presburger+
    ultimately show ?thesis using m by (auto simp: sum_list_replicate)
  qed (use s in \<open>auto simp: switch_words_def\<close>)
qed (auto simp: switch_words_def)

lemma odd_words_spec:
  assumes "8 dvd max_len" and "2 \<le> max_len"
  shows "odd_words max_len len = Some ws \<Longrightarrow> sum_list ws = len \<and> (\<forall>w \<in> set ws. 1 \<le> w \<and> w \<le> 8)"
    and "(odd_words max_len len = None) \<longleftrightarrow> \<not> (1 \<le> len \<and> len \<le> max_len + 1)"
proof -
  show "odd_words max_len len = Some ws \<Longrightarrow> sum_list ws = len \<and> (\<forall>w \<in> set ws. 1 \<le> w \<and> w \<le> 8)"
    using switch_words_spec(1) [OF assms, of len ws] switch_words_spec(1) [OF assms, of "len - 1" "tl ws"]
    by (auto simp: odd_words_def split: if_splits)
  have ev: "even max_len" using assms(1) by (auto elim: dvdE)
  have e: "(odd_words max_len len = None)
      \<longleftrightarrow> (if 1 < len \<and> odd len then switch_words max_len (len - 1) = None else switch_words max_len len = None)"
    by (simp add: odd_words_def)
  show "(odd_words max_len len = None) \<longleftrightarrow> \<not> (1 \<le> len \<and> len \<le> max_len + 1)"
    unfolding e switch_words_spec(2) [OF assms] using assms(2) ev by presburger
qed

lemma set_bwd_block: "set_bwd ws (d + sum_list ws) m = clear (sum_list ws) d m"
proof (induction ws arbitrary: m)
  case (Cons w ws)
  have "set_bwd (w # ws) (d + sum_list (w # ws)) m = clear (sum_list ws) d (clear w (d + sum_list ws) m)"
    using Cons by (simp add: add.assoc [symmetric] add.commute [of w])
  then show ?case by (auto simp: clear_def)
qed (auto simp: clear_def fun_eq_iff)

text \<open>Copying from the end is right when the target is not before the source or does not reach into it.\<close>

lemma mob_block:
  assumes "s \<le> d \<or> d + sum_list ws \<le> s"
  shows "mob ws (d + sum_list ws) (s + sum_list ws) m = move (sum_list ws) d s m"
  using assms
proof (induction ws arbitrary: m)
  case (Cons w ws)
  let ?n = "sum_list ws"
  have "mob (w # ws) (d + (w + ?n)) (s + (w + ?n)) m = mob ws (d + ?n) (s + ?n) (move w (d + ?n) (s + ?n) m)"
    by (simp add: Let_def)
  also have "\<dots> = move ?n d s (move w (d + ?n) (s + ?n) m)" by (rule Cons.IH) (use Cons.prems in auto)
  also have "\<dots> = move (w + ?n) d s m"
    using Cons.prems by (intro ext) (auto simp: move_def)
  finally show ?case by simp
qed (auto simp: move_def fun_eq_iff)

lemma mof_block:
  assumes "d \<le> s \<or> s + sum_list ws \<le> d"
  shows "mof ws d s m = move (sum_list ws) d s m"
  using assms
proof (induction ws arbitrary: d s m)
  case (Cons w ws)
  let ?n = "sum_list ws"
  have "mof ws (d + w) (s + w) (move w d s m) = move ?n (d + w) (s + w) (move w d s m)"
    by (rule Cons.IH) (use Cons.prems in auto)
  also have "\<dots> = move (w + ?n) d s m"
    using Cons.prems by (intro ext) (auto simp: move_def)
  finally show ?case by simp
qed (auto simp: move_def fun_eq_iff)

lemma or_xor_zero: "(r OR (a XOR b)) = 0 \<longleftrightarrow> r = 0 \<and> a = b" for a b r :: u64
  by (auto simp: bit_eq_iff bit_simps)

lemma xor_bwd_block:
  assumes "\<forall>w \<in> set ws. w \<le> 8"
  shows "xor_bwd ws (x + sum_list ws) (y + sum_list ws) m r = 0
    \<longleftrightarrow> r = 0 \<and> (\<forall>i < sum_list ws. m (x + i) = m (y + i))"
  using assms
proof (induction ws arbitrary: r)
  case (Cons w ws)
  let ?n = "sum_list ws"
  have z: "(r OR (load_word m a w XOR load_word m b w)) = 0 \<longleftrightarrow> r = 0 \<and> load_word m a w = load_word m b w" for a b
    by (rule or_xor_zero)
  have i: "(\<forall>i < w + ?n. m (x + i) = m (y + i))
    \<longleftrightarrow> (\<forall>i < ?n. m (x + i) = m (y + i)) \<and> (\<forall>j < w. m (x + ?n + j) = m (y + ?n + j))"
    (is "?L = ?R")
  proof
    assume r: ?R
    show ?L
    proof (intro allI impI)
      fix i assume "i < w + ?n"
      then show "m (x + i) = m (y + i)"
        using r by (cases "i < ?n") (auto dest!: spec [of _ "i - ?n"] simp: add.assoc)
    qed
  qed (simp add: add.assoc)
  have "xor_bwd (w # ws) (x + (w + ?n)) (y + (w + ?n)) m r
      = xor_bwd ws (x + ?n) (y + ?n) m (r OR (load_word m (x + ?n) w XOR load_word m (y + ?n) w))"
    by (simp add: Let_def)
  moreover have "w \<le> 8" using Cons.prems by simp
  ultimately show ?case using Cons i by (auto simp: z load_word_eq_iff)
qed simp

text \<open>The routines against a byte-wise reference: which lengths they take, and that clearing, copying and moving give the
  block that was read, also when the blocks overlap as the caller may have it; the comparison gives zero exactly
  for equal blocks. A move forward takes no odd length but 1.\<close>

theorem builtins_bytewise:
  "bpf_memzero d len m = (if 1 \<le> len \<and> len \<le> 97 then Some (clear len d m) else None)
   \<and> (s \<le> d \<or> d + len \<le> s \<longrightarrow> bpf_memcpy d s len m = (if 1 \<le> len \<and> len \<le> 97 then Some (move len d s m) else None))
   \<and> bpf_memmove d s len m = (if 1 \<le> len \<and> len \<le> 97 \<and> (even len \<or> len = 1 \<or> s < d) then Some (move len d s m) else None)
   \<and> (if 1 \<le> len \<and> len \<le> 73 then \<exists>r. bpf_memcmp d s len m = Some r \<and> (r = 0 \<longleftrightarrow> (\<forall>i < len. m (d + i) = m (s + i)))
      else bpf_memcmp d s len m = None)"
proof (intro conjI impI)
  have b: "(8 :: nat) dvd 96" "(2 :: nat) \<le> 96" "(8 :: nat) dvd 72" "(2 :: nat) \<le> 72" by simp_all
  note o = odd_words_spec [OF b(1,2)] and o' = odd_words_spec [OF b(3,4)] and w = switch_words_spec [OF b(1,2)]
  show "bpf_memzero d len m = (if 1 \<le> len \<and> len \<le> 97 then Some (clear len d m) else None)"
    using o(2) [of len] set_bwd_block [of _ d m] by (cases "odd_words 96 len") (auto simp: bpf_memzero_def dest: o(1))
  have cp: "bpf_memcpy d s len m = (if 1 \<le> len \<and> len \<le> 97 then Some (move len d s m) else None)"
    if "s \<le> d \<or> d + len \<le> s"
    using that o(2) [of len] mob_block [of s d _ m] by (cases "odd_words 96 len") (auto simp: bpf_memcpy_def dest: o(1))
  then show "s \<le> d \<or> d + len \<le> s \<Longrightarrow>
    bpf_memcpy d s len m = (if 1 \<le> len \<and> len \<le> 97 then Some (move len d s m) else None)" .
  have fw: "bpf_memmove_fwd d s len m = (if len = 1 \<or> even len \<and> 2 \<le> len \<and> len \<le> 96 then Some (move len d s m) else None)"
    if "d \<le> s"
    using that w(2) [of len] mof_block [of d s _ m] by (cases "switch_words 96 len") (auto simp: bpf_memmove_fwd_def dest: w(1))
  have "even len \<and> 1 \<le> len \<and> len \<le> 97 \<longleftrightarrow> even len \<and> 2 \<le> len \<and> len \<le> 96" by presburger
  then show "bpf_memmove d s len m
      = (if 1 \<le> len \<and> len \<le> 97 \<and> (even len \<or> len = 1 \<or> s < d) then Some (move len d s m) else None)"
    using fw cp by (cases "d \<le> s") (auto simp: bpf_memmove_def bpf_memmove_bwd_def)
  show "if 1 \<le> len \<and> len \<le> 73 then \<exists>r. bpf_memcmp d s len m = Some r \<and> (r = 0 \<longleftrightarrow> (\<forall>i < len. m (d + i) = m (s + i)))
      else bpf_memcmp d s len m = None"
    using o'(2) [of len] xor_bwd_block [of _ d s m 0] by (cases "odd_words 72 len") (auto simp: bpf_memcmp_def dest: o'(1))
qed

text \<open>Twelve bytes moved down by three, as in the comment of the code, and a move of 13 bytes in both directions.\<close>

theorem builtins_bytewise_witness:
  "bpf_memcpy 4 4 8 of_nat = Some (move 8 4 4 of_nat) \<and> bpf_memmove 4 7 12 of_nat = Some (move 12 4 7 of_nat)
   \<and> bpf_memmove 7 4 13 of_nat = Some (move 13 7 4 of_nat) \<and> bpf_memmove 4 7 13 of_nat = None
   \<and> move 12 4 7 of_nat 15 = 18"
  using builtins_bytewise [of 4 8 of_nat 4] builtins_bytewise [of 4 12 of_nat 7] builtins_bytewise [of 7 13 of_nat 4]
    builtins_bytewise [of 4 13 of_nat 7]
  by (simp add: move_def)

end
