(* ===== verification/Page_Frag.thy ===== *)
theory Page_Frag
  imports Heap_Path
begin

text \<open>
  The allocator of small objects that the table of \<open>motivation/arena_htab\<close> includes,
  \<open>include/bpf_arena_alloc.h\<close>: every processor cuts blocks from the end of its current page; the last eight bytes of
  a page count its objects, and the page is given back when the count comes to zero. \<open>pages\<close> are the pages of the
  arena that the kernel has given out; \<open>get\<close> is the choice that \<open>bpf_arena_alloc_pages\<close> makes, 0 when there is none.
\<close>

definition NR_CPUS :: nat where "NR_CPUS = 8"
definition PAGE :: nat where "PAGE = 4096"

record page_frag =
  cur_page :: "nat \<Rightarrow> addr"
  cur_offset :: "nat \<Rightarrow> u32"
  obj_cnt :: "addr \<Rightarrow> u64"
  pages :: "addr set"

definition round_up8 :: "u32 \<Rightarrow> u32" where
  "round_up8 x = ((x - 1) OR 7) + 1"

text \<open>A block at the offset, which is an \<open>int\<close>.\<close>

definition cut :: "nat \<Rightarrow> addr \<Rightarrow> u32 \<Rightarrow> page_frag \<Rightarrow> addr \<times> page_frag" where
  "cut cpu page offset s =
     (page + unat offset, s\<lparr>obj_cnt := (obj_cnt s)(page := obj_cnt s page + 1), cur_offset := (cur_offset s)(cpu := offset)\<rparr>)"

text \<open>The code at the label \<open>refill\<close>, to which it jumps back when the offset is negative.\<close>

partial_function (option) refill ::
  "(addr set \<Rightarrow> addr) \<Rightarrow> nat \<Rightarrow> u32 \<Rightarrow> page_frag \<Rightarrow> (addr \<times> page_frag) option" where
  "refill get cpu sz s =
     (let page = get (pages s) in
      if page = 0 then Some (0, s)
      else
        let s = s\<lparr>pages := insert page (pages s), cur_page := (cur_page s)(cpu := page),
                  cur_offset := (cur_offset s)(cpu := 4088), obj_cnt := (obj_cnt s)(page := 0)\<rparr>;
            offset = cur_offset s cpu - sz
        in if sint offset < 0 then refill get cpu sz s else Some (cut cpu page offset s))"

definition bpf_alloc ::
  "(addr set \<Rightarrow> addr) \<Rightarrow> nat \<Rightarrow> u32 \<Rightarrow> page_frag \<Rightarrow> (addr \<times> page_frag) option checked" where
  "bpf_alloc get cpu sz s =
     (if NR_CPUS \<le> cpu then Inl Out_of_bounds
      else
        let page = cur_page s cpu; sz = round_up8 sz in
        if 4088 \<le> sz then Inr (Some (0, s))
        else if page = 0 then Inr (refill get cpu sz s)
        else
          let offset = cur_offset s cpu - sz
          in if sint offset < 0 then Inr (refill get cpu sz s) else Inr (Some (cut cpu page offset s)))"

definition page_of :: "addr \<Rightarrow> addr" where
  "page_of a = a div PAGE * PAGE"

definition bpf_free :: "addr \<Rightarrow> page_frag \<Rightarrow> page_frag" where
  "bpf_free a s =
     (let page = page_of a; s = s\<lparr>obj_cnt := (obj_cnt s)(page := obj_cnt s page - 1)\<rparr>
      in if obj_cnt s page = 0 then s\<lparr>pages := pages s - {page}\<rparr> else s)"

definition no_pages :: page_frag where
  "no_pages = \<lparr>cur_page = (\<lambda>_. 0), cur_offset = (\<lambda>_. 0), obj_cnt = (\<lambda>_. 0), pages = {}\<rparr>"

text \<open>The kernel gives a whole page that is not given out.\<close>

definition page_contract :: "(addr set \<Rightarrow> addr) \<Rightarrow> bool" where
  "page_contract get \<longleftrightarrow> (\<forall>P. get P = 0 \<or> (get P \<notin> P \<and> PAGE dvd get P))"

subsection \<open>Runs\<close>








subsection \<open>Sizes and pages\<close>




lemma page_of_add: "PAGE dvd p \<Longrightarrow> i < PAGE \<Longrightarrow> page_of (p + i) = p \<and> (p + i) mod PAGE = i"
  by (auto simp: page_of_def PAGE_def elim!: dvdE)



subsection \<open>The invariant\<close>
















lemma refill_empty:
  assumes "get {} = p" and "p \<noteq> 0" and "pages s = {}"
  shows "refill get cpu 8 s = Some (cut cpu p 4080 (s\<lparr>pages := {p}, cur_page := (cur_page s)(cpu := p),
                  cur_offset := (cur_offset s)(cpu := 4088), obj_cnt := (obj_cnt s)(p := 0)\<rparr>))"
  using assms by (subst refill.simps) (simp add: Let_def)

text \<open>The current page is not forgotten when it is given back: after an object is released, the next one of the same
  processor is cut from a page that is not given out any more, and when the kernel gives the page to another processor,
  the two get the same block.\<close>

theorem frag_page_reused:
  assumes "page_contract get" and "get {} = p" and "p \<noteq> 0"
  shows "\<exists>a s1 b s2 s3 c s4. bpf_alloc get 0 8 no_pages = Inr (Some (a, s1)) \<and> bpf_alloc get 0 8 (bpf_free a s1) = Inr (Some (b, s2))
    \<and> page_of b \<notin> pages s2 \<and> bpf_alloc get 1 8 s2 = Inr (Some (c, s3)) \<and> bpf_alloc get 1 8 s3 = Inr (Some (b, s4))"
proof -
  have dv: "PAGE dvd p" using assms(1) [unfolded page_contract_def, rule_format, of "{}"] assms(2,3) by simp
  have pg: "page_of (p + 4080) = p" "page_of (p + 4072) = p" using page_of_add [OF dv] by (simp_all add: PAGE_def)
  have r: "round_up8 8 = 8" by (simp add: round_up8_def)
  note rf = refill_empty [where get = get and p = p, OF assms(2,3)]
  define s1 where "s1 = \<lparr>cur_page = (\<lambda>_. 0)(0 := p), cur_offset = (\<lambda>_. 0)(0 := 4080 :: u32),
    obj_cnt = (\<lambda>_. 0)(p := 1 :: u64), pages = {p}\<rparr>"
  define f1 where "f1 = s1\<lparr>obj_cnt := (obj_cnt s1)(p := 0), pages := {}\<rparr>"
  define s2 where "s2 = f1\<lparr>obj_cnt := (obj_cnt f1)(p := 1), cur_offset := (cur_offset f1)(0 := 4072)\<rparr>"
  define s3 where "s3 = s2\<lparr>pages := {p}, cur_page := (cur_page s2)(1 := p), cur_offset := (cur_offset s2)(1 := 4080),
    obj_cnt := (obj_cnt s2)(p := 1)\<rparr>"
  define s4 where "s4 = s3\<lparr>obj_cnt := (obj_cnt s3)(p := 2), cur_offset := (cur_offset s3)(1 := 4072)\<rparr>"
  have "bpf_alloc get 0 8 no_pages = Inr (Some (p + 4080, s1))"
    using rf [of no_pages 0] by (simp add: bpf_alloc_def NR_CPUS_def r cut_def s1_def) (simp add: no_pages_def)
  moreover have "bpf_free (p + 4080) s1 = f1" by (simp add: bpf_free_def Let_def pg f1_def s1_def)
  moreover have "bpf_alloc get 0 8 f1 = Inr (Some (p + 4072, s2))"
    using assms(3) by (simp add: bpf_alloc_def NR_CPUS_def r cut_def s2_def f1_def s1_def Let_def)
  moreover have "page_of (p + 4072) \<notin> pages s2" by (simp add: s2_def f1_def)
  moreover have "bpf_alloc get 1 8 s2 = Inr (Some (p + 4080, s3))"
    using rf [of s2 1] by (simp add: bpf_alloc_def NR_CPUS_def r cut_def s3_def) (simp add: s2_def f1_def s1_def)
  moreover have "bpf_alloc get 1 8 s3 = Inr (Some (p + 4072, s4))"
    using assms(3) by (simp add: bpf_alloc_def NR_CPUS_def r cut_def s4_def s3_def Let_def)
  ultimately show ?thesis by metis
qed

subsection \<open>Examples\<close>

definition one_page :: "addr set \<Rightarrow> addr" where
  "one_page P = (if 4096 \<in> P then 0 else 4096)"

lemma one_page_contract: "page_contract one_page"
  by (simp add: page_contract_def one_page_def PAGE_def)


theorem frag_page_reused_witness:
  "\<exists>a s1 b s2. bpf_alloc one_page 0 8 no_pages = Inr (Some (a, s1)) \<and> bpf_alloc one_page 0 8 (bpf_free a s1) = Inr (Some (b, s2))
    \<and> page_of b \<notin> pages s2"
  using frag_page_reused [OF one_page_contract, of 4096] by (auto simp: one_page_def)

end
